(* ===== verification/Xfer_Prelude.thy ===== *)
theory Xfer_Prelude
  imports Main "HOL-Library.Word" "HOL-Library.List_Lexorder" "HOL-Library.Product_Lexorder"
begin

text \<open>
  Shared vocabulary of the development: Rust's machine integers and byte slices, big-endian
  field encodings (\<open>to_be_bytes\<close> / \<open>from_be_bytes\<close>), decimal text (\<open>to_string\<close> and
  \<open>str::parse\<close>), the ordered map \<open>BTreeMap\<close> as a sorted association list, and the two
  interfaces most components talk through: \<open>prefix_codec\<close> (an encoder whose output can be
  read back from the head of a byte stream) and \<open>ordered_map\<close>.
\<close>

unbundle bit_operations_syntax

type_synonym byte = "8 word"
type_synonym bytes = "byte list"
type_synonym u8 = "8 word"
type_synonym u16 = "16 word"
type_synonym u32 = "32 word"
type_synonym u64 = "64 word"
type_synonym i64 = "64 word"

named_theorems wire_simps \<open>unfolding and length rules of the big-endian field encodings\<close>

section \<open>Lists\<close>

lemma sum_list_map_upt_split:
  "(\<Sum>i\<leftarrow>[0..<m + n]. f i) = (\<Sum>i\<leftarrow>[0..<m]. f i) + (\<Sum>i\<leftarrow>[0..<n]. f (m + i))"
  for f :: "nat \<Rightarrow> 'a::comm_monoid_add"
  by (induction n) (auto simp: add.assoc)

lemma take_drop_slice: "a \<le> b \<Longrightarrow> b \<le> c \<Longrightarrow> take (b - a) (drop a (take c xs)) = take (b - a) (drop a xs)"
  by (simp add: drop_take min_def)

lemma nth_append_drop: "p \<le> length xs \<Longrightarrow> drop p (xs @ ys) = drop p xs @ ys"
  by simp

section \<open>Big-endian fields\<close>

definition u16_to_be :: "u16 \<Rightarrow> bytes" where
  "u16_to_be w = [ucast (drop_bit 8 w), ucast w]"

definition u16_from_be :: "byte \<Rightarrow> byte \<Rightarrow> u16" where
  "u16_from_be a b = push_bit 8 (ucast a) OR ucast b"

definition u32_to_be :: "u32 \<Rightarrow> bytes" where
  "u32_to_be w = [ucast (drop_bit 24 w), ucast (drop_bit 16 w), ucast (drop_bit 8 w), ucast w]"

definition u32_from_be :: "byte \<Rightarrow> byte \<Rightarrow> byte \<Rightarrow> byte \<Rightarrow> u32" where
  "u32_from_be a b c d =
     push_bit 24 (ucast a) OR push_bit 16 (ucast b) OR push_bit 8 (ucast c) OR ucast d"

lemma length_u16_to_be [simp, wire_simps]: "length (u16_to_be w) = 2"
  by (simp add: u16_to_be_def)

lemma length_u32_to_be [simp, wire_simps]: "length (u32_to_be w) = 4"
  by (simp add: u32_to_be_def)

lemma u16_from_to_be [simp]: "u16_from_be (u16_to_be w ! 0) (u16_to_be w ! 1) = w"
  unfolding u16_from_be_def u16_to_be_def
  by (rule bit_word_eqI) (auto simp: bit_simps)

lemma u32_from_to_be [simp]:
  "u32_from_be (u32_to_be w ! 0) (u32_to_be w ! 1) (u32_to_be w ! 2) (u32_to_be w ! 3) = w"
proof (rule bit_word_eqI)
  fix n assume "n < LENGTH(32)"
  then consider "n < 8" | "8 \<le> n" "n < 16" | "16 \<le> n" "n < 24" | "24 \<le> n" "n < 32"
    by fastforce
  then show "bit (u32_from_be (u32_to_be w ! 0) (u32_to_be w ! 1) (u32_to_be w ! 2) (u32_to_be w ! 3)) n
      = bit w n"
    by cases (auto simp: u32_from_be_def u32_to_be_def bit_simps)
qed

lemma nth_u16_to_be [simp]: "[u16_to_be w ! 0, u16_to_be w ! Suc 0] = u16_to_be w"
  by (simp add: u16_to_be_def)

section \<open>Decimal text\<close>

text \<open>ASCII digits, \<open>to_string\<close> of an unsigned and of a signed integer.\<close>

definition is_ascii_digit :: "byte \<Rightarrow> bool" where
  "is_ascii_digit b \<longleftrightarrow> 48 \<le> b \<and> b \<le> 57"

definition digit_byte :: "nat \<Rightarrow> byte" where
  "digit_byte d = of_nat (48 + d)"

fun dec_bytes :: "nat \<Rightarrow> bytes" where
  "dec_bytes n = (if n < 10 then [digit_byte n] else dec_bytes (n div 10) @ [digit_byte (n mod 10)])"

declare dec_bytes.simps [simp del]

definition show_int :: "int \<Rightarrow> bytes" where
  "show_int i = (if i < 0 then 45 # dec_bytes (nat (- i)) else dec_bytes (nat i))"

definition digits_val :: "bytes \<Rightarrow> nat" where
  "digits_val ds = foldl (\<lambda>a d. 10 * a + (unat d - 48)) 0 ds"

text \<open>
  \<open>str::parse::<u64>\<close> and \<open>str::parse::<i64>\<close>: an optional sign (only \<open>+\<close> for the
  unsigned type), then at least one digit; a value out of range is an error.
\<close>

definition parse_u64 :: "bytes \<Rightarrow> nat option" where
  "parse_u64 t =
     (let ds = (case t of [] \<Rightarrow> [] | c # r \<Rightarrow> if c = 43 then r else t)
      in if ds = [] \<or> \<not> list_all is_ascii_digit ds then None
         else if digits_val ds < 2 ^ 64 then Some (digits_val ds) else None)"

definition parse_i64 :: "bytes \<Rightarrow> i64 option" where
  "parse_i64 t =
     (let neg = (case t of [] \<Rightarrow> False | c # r \<Rightarrow> c = 45);
          ds = (case t of [] \<Rightarrow> [] | c # r \<Rightarrow> if c = 43 \<or> c = 45 then r else t);
          v = (if neg then - int (digits_val ds) else int (digits_val ds))
      in if ds = [] \<or> \<not> list_all is_ascii_digit ds then None
         else if - (2 ^ 63) \<le> v \<and> v < 2 ^ 63 then Some (word_of_int v) else None)"

lemma unat_digit [simp]: "n < 10 \<Longrightarrow> unat (digit_byte n) = 48 + n"
  by (simp add: digit_byte_def unat_of_nat del: of_nat_add)

lemma is_ascii_digit_iff: "is_ascii_digit b \<longleftrightarrow> 48 \<le> unat b \<and> unat b \<le> 57"
  by (simp add: is_ascii_digit_def word_le_nat_alt)

lemma is_ascii_digit_byte [simp]: "n < 10 \<Longrightarrow> is_ascii_digit (digit_byte n)"
  by (simp add: is_ascii_digit_iff)

lemma dec_bytes_not_Nil [simp]: "dec_bytes n \<noteq> []"
  by (subst dec_bytes.simps) simp

lemma dec_bytes_digits [simp]: "list_all is_ascii_digit (dec_bytes n)"
proof (induction n rule: dec_bytes.induct)
  case (1 n)
  then show ?case by (subst dec_bytes.simps) auto
qed

lemma digits_val_snoc [simp]: "digits_val (ds @ [d]) = 10 * digits_val ds + (unat d - 48)"
  by (simp add: digits_val_def)

lemma digits_val_dec_bytes [simp]: "digits_val (dec_bytes n) = n"
proof (induction n rule: dec_bytes.induct)
  case (1 n)
  show ?case
  proof (cases "n < 10")
    case True
    then show ?thesis
      by (subst dec_bytes.simps) (simp add: digits_val_def)
  next
    case False
    with 1 show ?thesis by (subst dec_bytes.simps) simp
  qed
qed

lemma hd_dec_bytes_zero: "hd (dec_bytes n) = 48 \<Longrightarrow> n = 0"
proof (induction n rule: dec_bytes.induct)
  case (1 n)
  show ?case
  proof (cases "n < 10")
    case True
    have "unat (digit_byte n) = 48"
      using 1(2) True by (subst (asm) dec_bytes.simps) simp
    with True show ?thesis by simp
  next
    case False
    with 1 show ?thesis
      by (subst (asm) (2) dec_bytes.simps) (auto simp: hd_append)
  qed
qed

lemma dec_bytes_zero [simp]: "dec_bytes 0 = [48]"
  by (subst dec_bytes.simps) (simp add: digit_byte_def)

lemma hd_dec_bytes_digit [simp]: "is_ascii_digit (hd (dec_bytes n))"
  using dec_bytes_digits [of n] by (cases "dec_bytes n") auto

text \<open>A decimal text starts with a digit, so it is never read as signed.\<close>

lemma dec_bytes_Cons:
  obtains d ds where "dec_bytes n = d # ds" "is_ascii_digit d" "d \<noteq> 43" "d \<noteq> 45"
proof -
  obtain d ds where d: "dec_bytes n = d # ds" by (cases "dec_bytes n") auto
  moreover have "is_ascii_digit d" using hd_dec_bytes_digit [of n] d by simp
  moreover from this have "d \<noteq> 43" "d \<noteq> 45" by (auto simp: is_ascii_digit_iff)
  ultimately show ?thesis by (rule that)
qed

lemma parse_u64_dec_bytes: "n < 2 ^ 64 \<Longrightarrow> parse_u64 (dec_bytes n) = Some n"
  using dec_bytes_digits [of n] digits_val_dec_bytes [of n]
  by (rule_tac n = n in dec_bytes_Cons) (auto simp: parse_u64_def Let_def)

lemma parse_i64_show_int: "parse_i64 (show_int (sint w)) = Some w"
proof -
  have range: "- (2 ^ 63) \<le> sint w" "sint w < 2 ^ 63"
    using sint_ge [of w] sint_lt [of w] by simp_all
  show ?thesis
  proof (cases "sint w < 0")
    case True
    with range show ?thesis
      by (simp add: parse_i64_def show_int_def Let_def)
  next
    case False
    obtain d ds where d: "dec_bytes (nat (sint w)) = d # ds" "d \<noteq> 43" "d \<noteq> 45"
      by (rule dec_bytes_Cons) auto
    have "digits_val (d # ds) = nat (sint w)" "list_all is_ascii_digit (d # ds)"
      using d(1) digits_val_dec_bytes dec_bytes_digits by metis+
    with False d range show ?thesis
      by (simp add: parse_i64_def show_int_def Let_def)
  qed
qed

section \<open>BTreeMap\<close>

text \<open>
  \<open>BTreeMap<K, V>\<close> is the association list of its entries in ascending key order:
  iteration is the list itself, \<open>insert\<close> replaces the value of a key that is present and
  otherwise puts the entry where the order wants it, \<open>get\<close> is \<open>map_of\<close>.
\<close>

type_synonym ('k, 'v) btree_map = "('k \<times> 'v) list"

fun bt_insert :: "'k::linorder \<Rightarrow> 'v \<Rightarrow> ('k, 'v) btree_map \<Rightarrow> ('k, 'v) btree_map" where
  "bt_insert k v [] = [(k, v)]"
| "bt_insert k v ((a, b) # m) =
     (if k < a then (k, v) # (a, b) # m
      else if k = a then (k, v) # m
      else (a, b) # bt_insert k v m)"

definition bt_wf :: "('k::linorder, 'v) btree_map \<Rightarrow> bool" where
  "bt_wf m \<longleftrightarrow> sorted_wrt (<) (map fst m)"

locale ordered_map =
  fixes empty :: "'m"
    and insert :: "'k \<Rightarrow> 'v \<Rightarrow> 'm \<Rightarrow> 'm"
    and get :: "'m \<Rightarrow> 'k \<Rightarrow> 'v option"
    and wf :: "'m \<Rightarrow> bool"
  assumes get_empty: "get empty k = None"
    and get_insert: "get (insert k v m) k' = (if k' = k then Some v else get m k')"
    and wf_empty: "wf empty"
    and wf_insert: "wf m \<Longrightarrow> wf (insert k v m)"
begin

lemma get_insert_same: "get (insert k v m) k = Some v"
  by (simp add: get_insert)

text \<open>Inserting a batch: the last value of a key wins, untouched keys keep theirs.\<close>

lemma get_fold_insert:
  "get (fold (\<lambda>(k, v). insert k v) kvs m) k =
     (case map_of (rev kvs) k of None \<Rightarrow> get m k | Some v \<Rightarrow> Some v)"
proof (induction kvs rule: rev_induct)
  case Nil
  then show ?case by simp
next
  case (snoc kv kvs)
  then show ?case by (cases kv) (auto simp: get_insert)
qed

lemma wf_fold_insert: "wf m \<Longrightarrow> wf (fold (\<lambda>(k, v). insert k v) kvs m)"
  by (induction kvs arbitrary: m) (auto intro: wf_insert)

end

lemma map_of_bt_insert: "map_of (bt_insert k v m) k' = (if k' = k then Some v else map_of m k')"
  by (induction k v m rule: bt_insert.induct) auto

lemma fst_set_bt_insert: "fst ` set (bt_insert k v m) = insert k (fst ` set m)"
  by (induction k v m rule: bt_insert.induct) auto

lemma set_bt_insert_subset: "set (bt_insert k v m) \<subseteq> insert (k, v) (set m)"
  by (induction k v m rule: bt_insert.induct) auto

lemma bt_wf_insert: "bt_wf m \<Longrightarrow> bt_wf (bt_insert k v m)"
proof (induction k v m rule: bt_insert.induct)
  case (2 k v a b m)
  then show ?case
    using fst_set_bt_insert [of k v m] by (auto simp: bt_wf_def image_iff)
qed (simp add: bt_wf_def)

lemma bt_wf_distinct: "bt_wf m \<Longrightarrow> distinct (map fst m)"
  by (auto simp: bt_wf_def strict_sorted_iff)

lemma bt_insert_snoc: "\<forall>k' \<in> fst ` set m. k' < k \<Longrightarrow> bt_insert k v m = m @ [(k, v)]"
  by (induction m) (auto split: prod.splits)

interpretation btree: ordered_map "[]" bt_insert map_of bt_wf
  by unfold_locales (simp_all add: map_of_bt_insert bt_wf_insert bt_wf_def [of "[]"])

section \<open>Codecs over a byte stream\<close>

text \<open>
  The wire formats of the program share one contract: what \<open>enc\<close> writes, \<open>dec\<close> reads
  back from the head of any stream that starts with it, reporting how many bytes it took.
\<close>

locale prefix_codec =
  fixes enc :: "'a \<Rightarrow> bytes"
    and dec :: "bytes \<Rightarrow> ('a \<times> nat) option"
    and ok :: "'a \<Rightarrow> bool"
  assumes dec_enc: "ok x \<Longrightarrow> dec (enc x @ rest) = Some (x, length (enc x))"
begin

lemma prefix_free:
  assumes "ok x" "ok y" "enc x @ r = enc y @ r'"
  shows "x = y \<and> r = r'"
  using dec_enc [OF assms(1), of r] dec_enc [OF assms(2), of r'] assms(3) by auto

lemma enc_inject: "ok x \<Longrightarrow> ok y \<Longrightarrow> enc x = enc y \<longleftrightarrow> x = y"
  using prefix_free [of x y "[]" "[]"] by auto

end

text \<open>Reading a known number of values one after the other.\<close>

fun decode_seq :: "(bytes \<Rightarrow> ('a \<times> nat) option) \<Rightarrow> nat \<Rightarrow> bytes \<Rightarrow> ('a list \<times> bytes) option" where
  "decode_seq dec 0 bs = Some ([], bs)"
| "decode_seq dec (Suc n) bs =
     (case dec bs of
        None \<Rightarrow> None
      | Some (x, k) \<Rightarrow>
          (case decode_seq dec n (drop k bs) of
             None \<Rightarrow> None
           | Some (xs, r) \<Rightarrow> Some (x # xs, r)))"

context prefix_codec begin

lemma decode_seq_enc:
  "list_all ok xs \<Longrightarrow> decode_seq dec (length xs) (concat (map enc xs) @ rest) = Some (xs, rest)"
  by (induction xs) (simp_all add: dec_enc)

end

end
