(* ===== verification/Bencode.thy ===== *)
theory Bencode
  imports Xfer_Prelude
begin

text \<open>
  The bencode codec of \<open>crates/xfer-bencode/src/lib.rs\<close>: the value model, the serialiser
  \<open>write_value\<close>, the cursor parser with its depth limit and its positioned errors, and the
  two entry points \<open>decode\<close> (rejects trailing bytes) and \<open>parse_root\<close> (the torrent reader's
  variant that also records the raw byte range of every top-level member). The parser keeps the
  code's cursor: each function takes the input and the position and returns the new position.
\<close>

section \<open>Values and errors\<close>

datatype bvalue =
    VInt i64
  | VBytes bytes
  | VList "bvalue list"
  | VDict "(bytes, bvalue) btree_map"

datatype bencode_error =
    UnexpectedEof nat
  | InvalidToken nat byte
  | InvalidInteger nat
  | InvalidLength nat
  | LengthOverflow nat nat nat
  | NegativeLength i64
  | DepthLimit nat
  | TrailingData nat
  | OtherError string

definition MAX_DEPTH :: nat where
  "MAX_DEPTH = 64"

fun as_int :: "bvalue \<Rightarrow> i64 option" where
  "as_int (VInt v) = Some v"
| "as_int _ = None"

fun as_bytes :: "bvalue \<Rightarrow> bytes option" where
  "as_bytes (VBytes v) = Some v"
| "as_bytes _ = None"

fun as_list :: "bvalue \<Rightarrow> bvalue list option" where
  "as_list (VList v) = Some v"
| "as_list _ = None"

fun as_dict :: "bvalue \<Rightarrow> (bytes, bvalue) btree_map option" where
  "as_dict (VDict v) = Some v"
| "as_dict _ = None"

definition dict_get :: "bvalue \<Rightarrow> bytes \<Rightarrow> bvalue option" where
  "dict_get v key = (case as_dict v of None \<Rightarrow> None | Some m \<Rightarrow> map_of m key)"

section \<open>Serialiser\<close>

text \<open>\<open>write_value\<close> appends to the output buffer; the map is iterated in key order.\<close>

lemma size_snd_mem [termination_simp]:
  "(k, val) \<in> set m \<Longrightarrow> size val < Suc (size_list (size_prod (\<lambda>x. 0) size) m)"
  by (induction m) auto

fun write_value :: "bvalue \<Rightarrow> bytes \<Rightarrow> bytes" where
  "write_value (VInt i) out = out @ [0x69] @ show_int (sint i) @ [0x65]"
| "write_value (VBytes b) out = out @ dec_bytes (length b) @ [0x3A] @ b"
| "write_value (VList items) out = fold write_value items (out @ [0x6C]) @ [0x65]"
| "write_value (VDict m) out =
     fold (\<lambda>(k, val) o'. write_value val (o' @ dec_bytes (length k) @ [0x3A] @ k)) m (out @ [0x64]) @ [0x65]"

definition encode :: "bvalue \<Rightarrow> bytes" where
  "encode v = write_value v []"

section \<open>Parser\<close>

definition peek :: "bytes \<Rightarrow> nat \<Rightarrow> byte option" where
  "peek inp pos = (if pos < length inp then Some (inp ! pos) else None)"

definition slice :: "'a list \<Rightarrow> nat \<Rightarrow> nat \<Rightarrow> 'a list" where
  "slice xs a b = take (b - a) (drop a xs)"

text \<open>The loop of \<open>parse_int\<close>: advance to the terminating \<open>e\<close> or to the end of the input.\<close>

function scan_int :: "bytes \<Rightarrow> nat \<Rightarrow> nat" where
  "scan_int inp pos =
     (case peek inp pos of
        None \<Rightarrow> pos
      | Some b \<Rightarrow> if b = 0x65 then pos else scan_int inp (Suc pos))"
  by pat_completeness auto
termination
  by (relation "measure (\<lambda>(inp, pos). length inp - pos)") (auto simp: peek_def split: if_splits)

text \<open>
  The code first checks that the text is UTF-8 and fails with the same error it gives for a
  text that does not parse; a text with a byte above 127 never parses, so the check is implied.
\<close>

definition int_text_valid :: "bytes \<Rightarrow> bool" where
  "int_text_valid t \<longleftrightarrow>
     t \<noteq> [] \<and> \<not> (hd t = 0x30 \<and> length t > 1) \<and> \<not> (take 2 t = [0x2D, 0x30])
     \<and> \<not> (hd t = 0x2D \<and> length t = 1)"

definition parse_int :: "bytes \<Rightarrow> nat \<Rightarrow> bencode_error + bvalue \<times> nat" where
  "parse_int inp pos =
     (let start = pos; digits_start = Suc pos; q = scan_int inp digits_start; t = slice inp digits_start q
      in if peek inp q = None then Inl (UnexpectedEof q)
         else if \<not> int_text_valid t then Inl (InvalidInteger start)
         else (case parse_i64 t of
                 None \<Rightarrow> Inl (InvalidInteger start)
               | Some v \<Rightarrow> Inr (VInt v, Suc q)))"

function scan_length :: "bytes \<Rightarrow> nat \<Rightarrow> bencode_error + nat" where
  "scan_length inp pos =
     (case peek inp pos of
        None \<Rightarrow> Inr pos
      | Some b \<Rightarrow>
          if b = 0x3A then Inr pos
          else if \<not> is_ascii_digit b then Inl (InvalidLength pos)
          else scan_length inp (Suc pos))"
  by pat_completeness auto
termination
  by (relation "measure (\<lambda>(inp, pos). length inp - pos)") (auto simp: peek_def split: if_splits)

declare scan_int.simps [simp del] scan_length.simps [simp del]

definition parse_length :: "bytes \<Rightarrow> nat \<Rightarrow> bencode_error + nat \<times> nat" where
  "parse_length inp pos =
     (let start = pos in
      case scan_length inp pos of
        Inl e \<Rightarrow> Inl e
      | Inr q \<Rightarrow>
          if peek inp q = None then Inl (UnexpectedEof q)
          else let t = slice inp start q in
            if t \<noteq> [] \<and> hd t = 0x30 \<and> length t > 1 then Inl (InvalidLength start)
            else (case parse_u64 t of
                    None \<Rightarrow> Inl (InvalidLength start)
                  | Some len \<Rightarrow> Inr (len, Suc q)))"

definition parse_raw_bytes :: "bytes \<Rightarrow> nat \<Rightarrow> bencode_error + bytes \<times> nat" where
  "parse_raw_bytes inp pos =
     (case parse_length inp pos of
        Inl e \<Rightarrow> Inl e
      | Inr (len, p) \<Rightarrow>
          if len > length inp - p then Inl (LengthOverflow p len (length inp - p))
          else Inr (slice inp p (p + len), p + len))"

definition parse_bytes :: "bytes \<Rightarrow> nat \<Rightarrow> bencode_error + bvalue \<times> nat" where
  "parse_bytes inp pos =
     (case parse_raw_bytes inp pos of Inl e \<Rightarrow> Inl e | Inr (d, p) \<Rightarrow> Inr (VBytes d, p))"

text \<open>
  \<open>parse_value_full\<close> returns the value with its start and end offsets; \<open>parse_list\<close> and
  \<open>parse_dict\<close> are entered after their opening letter, with the elements read so far.
\<close>

function (sequential)
  parse_value_full :: "bytes \<Rightarrow> nat \<Rightarrow> nat \<Rightarrow> bencode_error + bvalue \<times> nat \<times> nat"
  and parse_list :: "bytes \<Rightarrow> nat \<Rightarrow> bvalue list \<Rightarrow> nat \<Rightarrow> bencode_error + bvalue \<times> nat"
  and parse_dict :: "bytes \<Rightarrow> nat \<Rightarrow> (bytes, bvalue) btree_map \<Rightarrow> nat \<Rightarrow> bencode_error + bvalue \<times> nat"
where
  "parse_value_full inp depth pos =
     (if depth > MAX_DEPTH then Inl (DepthLimit MAX_DEPTH)
      else case peek inp pos of
        None \<Rightarrow> Inl (UnexpectedEof pos)
      | Some b \<Rightarrow>
          (case (if b = 0x69 then parse_int inp pos
                 else if b = 0x6C then parse_list inp depth [] (Suc pos)
                 else if b = 0x64 then parse_dict inp depth [] (Suc pos)
                 else if is_ascii_digit b then parse_bytes inp pos
                 else Inl (InvalidToken pos b)) of
             Inl e \<Rightarrow> Inl e
           | Inr (v, p) \<Rightarrow> Inr (v, pos, p)))"
| "parse_list inp depth items pos =
     (case peek inp pos of
        None \<Rightarrow> Inl (UnexpectedEof pos)
      | Some b \<Rightarrow>
          if b = 0x65 then Inr (VList items, Suc pos)
          else (case parse_value_full inp (Suc depth) pos of
                  Inl e \<Rightarrow> Inl e
                | Inr (v, _, p) \<Rightarrow> parse_list inp depth (items @ [v]) p))"
| "parse_dict inp depth m pos =
     (case peek inp pos of
        None \<Rightarrow> Inl (UnexpectedEof pos)
      | Some b \<Rightarrow>
          if b = 0x65 then Inr (VDict m, Suc pos)
          else if is_ascii_digit b then
            (case parse_raw_bytes inp pos of
               Inl e \<Rightarrow> Inl e
             | Inr (key, p) \<Rightarrow>
                 (case parse_value_full inp (Suc depth) p of
                    Inl e \<Rightarrow> Inl e
                  | Inr (val, _, p') \<Rightarrow> parse_dict inp depth (bt_insert key val m) p'))
          else Inl (InvalidToken pos b))"
  by pat_completeness auto

text \<open>
  Every parser that succeeds has moved the cursor forward and has not left the input. The
  second call of the two loops is made at the position the first one returned, so termination
  rests on this progress, which is first proved on the domain of the functions.
\<close>

named_theorems parser_progress \<open>a successful parser returns a later position inside the input\<close>

lemma peek_Some [simp]: "peek inp pos = Some b \<longleftrightarrow> pos < length inp \<and> inp ! pos = b"
  by (auto simp: peek_def)

lemma peek_None [simp]: "peek inp pos = None \<longleftrightarrow> length inp \<le> pos"
  by (auto simp: peek_def)

lemma scan_int_bounds: "pos \<le> scan_int inp pos \<and> (pos \<le> length inp \<longrightarrow> scan_int inp pos \<le> length inp)"
proof (induction inp pos rule: scan_int.induct)
  case (1 inp pos)
  show ?case
    using 1 by (subst (1 2) scan_int.simps) (fastforce simp: peek_def split: if_splits)
qed

lemma scan_length_bounds: "scan_length inp pos = Inr q \<Longrightarrow> pos \<le> q"
proof (induction inp pos rule: scan_length.induct)
  case (1 inp pos)
  from 1(2) [unfolded scan_length.simps [of inp pos]] 1(1) show ?case
    by (fastforce simp: peek_def split: if_splits)
qed

lemma parse_int_progress [parser_progress]:
  "parse_int inp pos = Inr (v, p) \<Longrightarrow> pos < p \<and> p \<le> length inp"
  using scan_int_bounds [of "Suc pos" inp]
  by (auto simp: parse_int_def Let_def split: if_splits option.splits)

lemma parse_length_progress [parser_progress]:
  "parse_length inp pos = Inr (len, p) \<Longrightarrow> pos < p \<and> p \<le> length inp"
  by (auto simp: parse_length_def Let_def split: sum.splits if_splits option.splits
      dest!: scan_length_bounds)

lemma parse_raw_bytes_progress [parser_progress]:
  "parse_raw_bytes inp pos = Inr (d, p) \<Longrightarrow> pos < p \<and> p \<le> length inp"
  by (auto simp: parse_raw_bytes_def split: sum.splits if_splits dest!: parse_length_progress)

lemma parse_bytes_progress [parser_progress]:
  "parse_bytes inp pos = Inr (v, p) \<Longrightarrow> pos < p \<and> p \<le> length inp"
  by (auto simp: parse_bytes_def split: sum.splits dest!: parse_raw_bytes_progress)

lemma parse_value_dom_progress:
  "parse_value_full_parse_list_parse_dict_dom (Inl (inp, d, pos)) \<Longrightarrow>
     \<forall>v s p. parse_value_full inp d pos = Inr (v, s, p) \<longrightarrow> s = pos \<and> pos < p \<and> p \<le> length inp"
  "parse_value_full_parse_list_parse_dict_dom (Inr (Inl (inp, d, items, pos))) \<Longrightarrow>
     \<forall>v p. parse_list inp d items pos = Inr (v, p) \<longrightarrow> pos < p \<and> p \<le> length inp"
  "parse_value_full_parse_list_parse_dict_dom (Inr (Inr (inp, d, m, pos))) \<Longrightarrow>
     \<forall>v p. parse_dict inp d m pos = Inr (v, p) \<longrightarrow> pos < p \<and> p \<le> length inp"
proof (induction inp d pos and inp d items pos and inp d m pos
    rule: parse_value_full_parse_list_parse_dict.pinduct)
  case (1 inp depth pos)
  then show ?case
    by (auto simp: parse_value_full.psimps split: if_splits sum.splits option.splits
        dest!: parse_int_progress parse_bytes_progress) 
next
  case (2 inp depth items pos)
  show ?case
  proof (intro allI impI)
    fix v p assume eq: "parse_list inp depth items pos = Inr (v, p)"
    show "pos < p \<and> p \<le> length inp"
    proof (cases "pos < length inp \<and> inp ! pos \<noteq> 0x65")
      case True
      with eq obtain val s q where
        k: "parse_value_full inp (Suc depth) pos = Inr (val, s, q)"
          "parse_list inp depth (items @ [val]) q = Inr (v, p)"
        by (auto simp: parse_list.psimps [OF 2(1)] split: if_splits sum.splits option.splits)
      from True k 2(2,3) have "pos < q" "q < p \<and> p \<le> length inp"
        by fastforce+
      then show ?thesis by simp
    next
      case False
      with eq show ?thesis
        by (auto simp: parse_list.psimps [OF 2(1)] peek_def split: if_splits)
    qed
  qed
next
  case (3 inp depth m pos)
  show ?case
  proof (intro allI impI)
    fix v p assume eq: "parse_dict inp depth m pos = Inr (v, p)"
    show "pos < p \<and> p \<le> length inp"
    proof (cases "pos < length inp \<and> inp ! pos \<noteq> 0x65")
      case True
      with eq obtain key q val s q' where
        k: "is_ascii_digit (inp ! pos)" "parse_raw_bytes inp pos = Inr (key, q)"
          "parse_value_full inp (Suc depth) q = Inr (val, s, q')"
          "parse_dict inp depth (bt_insert key val m) q' = Inr (v, p)"
        by (auto simp: parse_dict.psimps [OF 3(1)] split: if_splits sum.splits option.splits)
      from True k 3(2,3) have "q < q'" "q' < p \<and> p \<le> length inp"
        by fastforce+
      with parse_raw_bytes_progress [OF k(2)] show ?thesis by simp
    next
      case False
      with eq show ?thesis
        by (auto simp: parse_dict.psimps [OF 3(1)] peek_def split: if_splits)
    qed
  qed
qed

lemma parse_dom_all: "All parse_value_full_parse_list_parse_dict_dom"
  by (relation "measure (\<lambda>x. case x of
      Inl (inp, d, pos) \<Rightarrow> 2 * (length inp - pos)
    | Inr (Inl (inp, d, items, pos)) \<Rightarrow> 2 * (length inp - pos) + 1
    | Inr (Inr (inp, d, m, pos)) \<Rightarrow> 2 * (length inp - pos) + 1)")
    (auto dest!: parse_value_dom_progress(1) parse_raw_bytes_progress)

termination parse_value_full
  by (rule parse_dom_all)

declare parse_value_full.simps [simp del] parse_list.simps [simp del] parse_dict.simps [simp del]

lemma parse_value_progress [parser_progress]:
  "parse_value_full inp d pos = Inr (v, s, p) \<Longrightarrow> s = pos \<and> pos < p \<and> p \<le> length inp"
  using parse_value_dom_progress(1) parse_dom_all by blast

lemma parse_list_progress [parser_progress]:
  "parse_list inp d items pos = Inr (v, p) \<Longrightarrow> pos < p \<and> p \<le> length inp"
  using parse_value_dom_progress(2) parse_dom_all by blast

lemma parse_dict_progress [parser_progress]:
  "parse_dict inp d m pos = Inr (v, p) \<Longrightarrow> pos < p \<and> p \<le> length inp"
  using parse_value_dom_progress(3) parse_dom_all by blast

definition parse_value :: "bytes \<Rightarrow> nat \<Rightarrow> nat \<Rightarrow> bencode_error + bvalue \<times> nat" where
  "parse_value inp depth pos =
     (case parse_value_full inp depth pos of Inl e \<Rightarrow> Inl e | Inr (v, _, p) \<Rightarrow> Inr (v, p))"

definition decode :: "bytes \<Rightarrow> bencode_error + bvalue" where
  "decode bs =
     (case parse_value bs 0 0 of
        Inl e \<Rightarrow> Inl e
      | Inr (v, p) \<Rightarrow> if p \<noteq> length bs then Inl (TrailingData (length bs - p)) else Inr v)"

definition decode_prefix :: "bytes \<Rightarrow> bencode_error + bvalue \<times> nat" where
  "decode_prefix bs = parse_value bs 0 0"

text \<open>
  \<open>parse_root\<close>: the top-level dictionary with the raw byte range of each member's value. Its
  loop does not test the first byte of a key itself; \<open>parse_raw_bytes\<close> rejects a bad one.
\<close>

function parse_root_loop ::
  "bytes \<Rightarrow> (bytes, bvalue) btree_map \<Rightarrow> (bytes, nat \<times> nat) btree_map \<Rightarrow> nat
     \<Rightarrow> bencode_error + ((bytes, bvalue) btree_map \<times> (bytes, nat \<times> nat) btree_map) \<times> nat" where
  "parse_root_loop inp m ranges pos =
     (case peek inp pos of
        None \<Rightarrow> Inl (UnexpectedEof pos)
      | Some b \<Rightarrow>
          if b = 0x65 then Inr ((m, ranges), Suc pos)
          else
            (case parse_raw_bytes inp pos of
               Inl e \<Rightarrow> Inl e
             | Inr (key, p) \<Rightarrow>
                 (case parse_value_full inp 1 p of
                    Inl e \<Rightarrow> Inl e
                  | Inr (val, s, e) \<Rightarrow>
                      parse_root_loop inp (bt_insert key val m) (bt_insert key (s, e) ranges) e)))"
  by pat_completeness auto
termination
  by (relation "measure (\<lambda>(inp, m, ranges, pos). length inp - pos)")
    (auto dest!: parse_value_progress parse_raw_bytes_progress)

declare parse_root_loop.simps [simp del]

definition parse_root :: "bytes \<Rightarrow> bencode_error + bvalue \<times> (bytes, nat \<times> nat) btree_map" where
  "parse_root inp =
     (if peek inp 0 \<noteq> Some 0x64
      then Inl (InvalidToken 0 (case peek inp 0 of None \<Rightarrow> 0 | Some b \<Rightarrow> b))
      else case parse_root_loop inp [] [] 1 of
        Inl e \<Rightarrow> Inl e
      | Inr ((m, ranges), p) \<Rightarrow>
          if p \<noteq> length inp then Inl (TrailingData (length inp - p)) else Inr (VDict m, ranges))"

section \<open>The serialiser, compositionally\<close>

lemma fold_append_out:
  "(\<And>x out. x \<in> set xs \<Longrightarrow> f x out = out @ g x) \<Longrightarrow> fold f xs out = out @ concat (map g xs)"
  by (induction xs arbitrary: out) auto

definition encode_entry :: "bytes \<times> bvalue \<Rightarrow> bytes" where
  "encode_entry kv = dec_bytes (length (fst kv)) @ [0x3A] @ fst kv @ encode (snd kv)"

lemma fold_write_value:
  "(\<And>x out. x \<in> set items \<Longrightarrow> write_value x out = out @ encode x) \<Longrightarrow>
     fold write_value items out = out @ concat (map encode items)"
  by (rule fold_append_out)

lemma fold_write_entry:
  "(\<And>k v out. (k, v) \<in> set m \<Longrightarrow> write_value v out = out @ encode v) \<Longrightarrow>
     fold (\<lambda>(k, val) o'. write_value val (o' @ dec_bytes (length k) @ [0x3A] @ k)) m out
       = out @ concat (map encode_entry m)"
  by (rule fold_append_out) (auto simp: encode_entry_def)

lemma write_value_append: "write_value v out = out @ encode v"
proof (induction v arbitrary: out)
  case (VList items)
  have "fold write_value items out = out @ concat (map encode items)" for out
    using VList by (rule fold_write_value)
  then show ?case by (simp add: encode_def [of "VList items"])
next
  case (VDict m)
  have "fold (\<lambda>(k, val) o'. write_value val (o' @ dec_bytes (length k) @ [0x3A] @ k)) m out
      = out @ concat (map encode_entry m)" for out
    using VDict by (intro fold_write_entry) (force simp: snds.simps)
  then show ?case by (simp add: encode_def [of "VDict m"])
qed (simp_all add: encode_def)

lemma encode_simps [simp]:
  "encode (VInt i) = [0x69] @ show_int (sint i) @ [0x65]"
  "encode (VBytes b) = dec_bytes (length b) @ [0x3A] @ b"
  "encode (VList items) = [0x6C] @ concat (map encode items) @ [0x65]"
  "encode (VDict m) = [0x64] @ concat (map encode_entry m) @ [0x65]"
proof -
  have "write_value (VList items) [] = [0x6C] @ concat (map encode items) @ [0x65]"
    by (simp only: write_value.simps fold_write_value [OF write_value_append]) simp
  then show "encode (VList items) = [0x6C] @ concat (map encode items) @ [0x65]"
    by (simp only: encode_def [of "VList items"])
  have "write_value (VDict m) [] = [0x64] @ concat (map encode_entry m) @ [0x65]"
    by (simp only: write_value.simps fold_write_entry [OF write_value_append]) simp
  then show "encode (VDict m) = [0x64] @ concat (map encode_entry m) @ [0x65]"
    by (simp only: encode_def [of "VDict m"])
qed (simp_all add: encode_def)

section \<open>Round trip\<close>

text \<open>Reading at position \<open>length pre\<close> of \<open>pre @ text @ post\<close>.\<close>

lemma peek_append [simp]:
  "peek (pre @ x # post) (length pre) = Some x"
  by (simp add: peek_def)

lemma slice_append [simp]: "slice (pre @ xs @ post) (length pre) (length pre + length xs) = xs"
  by (simp add: slice_def)

lemma scan_int_append:
  "0x65 \<notin> set t \<Longrightarrow> scan_int (pre @ t @ 0x65 # post) (length pre) = length pre + length t"
proof (induction t arbitrary: pre)
  case Nil
  then show ?case by (subst scan_int.simps) (simp add: peek_def)
next
  case (Cons b t)
  have "scan_int ((pre @ [b]) @ t @ 0x65 # post) (length (pre @ [b])) = length (pre @ [b]) + length t"
    using Cons by (intro Cons.IH) simp
  with Cons.prems show ?case
    by (subst scan_int.simps) (simp add: peek_def)
qed

lemma scan_length_append:
  "list_all is_ascii_digit t \<Longrightarrow>
     scan_length (pre @ t @ 0x3A # post) (length pre) = Inr (length pre + length t)"
proof (induction t arbitrary: pre)
  case Nil
  then show ?case by (subst scan_length.simps) (simp add: peek_def)
next
  case (Cons b t)
  have "scan_length ((pre @ [b]) @ t @ 0x3A # post) (length (pre @ [b])) = Inr (length (pre @ [b]) + length t)"
    using Cons by (intro Cons.IH) simp
  moreover have "b \<noteq> 0x3A" using Cons.prems by (auto simp: is_ascii_digit_iff)
  ultimately show ?case using Cons.prems
    by (subst scan_length.simps) (simp add: peek_def)
qed

lemma digit_neq_e: "list_all is_ascii_digit t \<Longrightarrow> 0x65 \<notin> set t"
  by (induction t) (auto simp: is_ascii_digit_iff)

lemma show_int_no_e: "0x65 \<notin> set (show_int i)"
  using digit_neq_e [OF dec_bytes_digits] by (auto simp: show_int_def)

lemma int_text_valid_show: "int_text_valid (show_int i)"
proof (cases "i < 0")
  case True
  then have "hd (dec_bytes (nat (- i))) \<noteq> 48"
    using hd_dec_bytes_zero [of "nat (- i)"] by auto
  then have "take 1 (dec_bytes (nat (- i))) \<noteq> [48]"
    by (cases "dec_bytes (nat (- i))") auto
  with True show ?thesis
    by (simp add: int_text_valid_def show_int_def take_Cons')
next
  case False
  show ?thesis
  proof (cases "i = 0")
    case True
    then show ?thesis by (simp add: int_text_valid_def show_int_def)
  next
    case nz: False
    obtain d ds where d: "dec_bytes (nat i) = d # ds" "d \<noteq> 45"
      by (rule dec_bytes_Cons) auto
    have "d \<noteq> 48"
      using hd_dec_bytes_zero [of "nat i"] d nz False by auto
    with d False show ?thesis
      by (simp add: int_text_valid_def show_int_def)
  qed
qed

lemma parse_int_encode:
  "parse_int (pre @ encode (VInt i) @ post) (length pre)
     = Inr (VInt i, length pre + length (encode (VInt i)))"
proof -
  let ?t = "show_int (sint i)"
  have q: "scan_int ((pre @ [0x69]) @ ?t @ 0x65 # post) (length (pre @ [0x69]))
      = length (pre @ [0x69]) + length ?t"
    by (rule scan_int_append [OF show_int_no_e])
  have s: "slice ((pre @ [0x69]) @ ?t @ 0x65 # post) (length (pre @ [0x69]))
      (length (pre @ [0x69]) + length ?t) = ?t"
    by (rule slice_append)
  have p: "peek (((pre @ [0x69]) @ ?t) @ 0x65 # post) (length ((pre @ [0x69]) @ ?t)) = Some 0x65"
    by (rule peek_append)
  show ?thesis
    using q s p by (simp add: parse_int_def Let_def int_text_valid_show parse_i64_show_int)
qed

lemma parse_length_dec:
  assumes "n < 2 ^ 64"
  shows "parse_length (pre @ dec_bytes n @ 0x3A # post) (length pre)
     = Inr (n, length pre + length (dec_bytes n) + 1)"
proof -
  have z: "\<not> (dec_bytes n \<noteq> [] \<and> hd (dec_bytes n) = 0x30 \<and> length (dec_bytes n) > 1)"
    using hd_dec_bytes_zero [of n] by (cases "n = 0") auto
  have p: "peek ((pre @ dec_bytes n) @ 0x3A # post) (length (pre @ dec_bytes n)) = Some 0x3A"
    by (rule peek_append)
  show ?thesis
    using p z slice_append [of pre "dec_bytes n" "0x3A # post"] parse_u64_dec_bytes [OF assms]
    by (simp add: parse_length_def Let_def scan_length_append)
qed

lemma parse_raw_bytes_dec:
  assumes "length b < 2 ^ 64"
  shows "parse_raw_bytes (pre @ dec_bytes (length b) @ 0x3A # b @ post) (length pre)
     = Inr (b, length pre + length (dec_bytes (length b)) + 1 + length b)"
proof -
  have "slice ((pre @ dec_bytes (length b) @ [0x3A]) @ b @ post) (length (pre @ dec_bytes (length b) @ [0x3A]))
      (length (pre @ dec_bytes (length b) @ [0x3A]) + length b) = b"
    by (rule slice_append)
  with parse_length_dec [OF assms, of pre "b @ post"] show ?thesis
    by (simp add: parse_raw_bytes_def)
qed

text \<open>
  What the code can represent: byte strings shorter than \<open>2 ^ 64\<close>, dictionaries in key order.
  \<open>vdepth\<close> counts the levels below a value that \<open>parse_value_full\<close> enters.
\<close>

fun wf_value :: "bvalue \<Rightarrow> bool" where
  "wf_value (VInt i) = True"
| "wf_value (VBytes b) = (length b < 2 ^ 64)"
| "wf_value (VList items) = list_all wf_value items"
| "wf_value (VDict m) = (bt_wf m \<and> list_all (\<lambda>(k, val). length k < 2 ^ 64 \<and> wf_value val) m)"

fun vdepth :: "bvalue \<Rightarrow> nat" where
  "vdepth (VInt i) = 0"
| "vdepth (VBytes b) = 0"
| "vdepth (VList items) = foldr (\<lambda>v n. max (Suc (vdepth v)) n) items 0"
| "vdepth (VDict m) = foldr (\<lambda>(k, val) n. max (Suc (vdepth val)) n) m 0"

definition parses_at_depth :: "bvalue \<Rightarrow> bool" where
  "parses_at_depth v \<longleftrightarrow> (\<forall>pre post d. parse_value_full (pre @ encode v @ post) d (length pre) =
     (if d + vdepth v \<le> MAX_DEPTH then Inr (v, length pre, length pre + length (encode v))
      else Inl (DepthLimit MAX_DEPTH)))"

lemma encode_first:
  obtains b r where "encode v = b # r"
    "case v of VInt i \<Rightarrow> b = 0x69 | VBytes s \<Rightarrow> is_ascii_digit b | VList xs \<Rightarrow> b = 0x6C | VDict m \<Rightarrow> b = 0x64"
proof (cases v)
  case (VBytes s)
  obtain d ds where "dec_bytes (length s) = d # ds" "is_ascii_digit d"
    by (rule dec_bytes_Cons)
  with VBytes that show ?thesis by simp
qed (use that in auto)

lemma encode_first_not_e: "encode v = b # r \<Longrightarrow> b \<noteq> 0x65"
  by (rule encode_first [of v]) (auto simp: is_ascii_digit_iff split: bvalue.splits)

lemma parse_list_items:
  assumes "\<And>v. v \<in> set ys \<Longrightarrow> parses_at_depth v"
  shows "d \<le> MAX_DEPTH \<Longrightarrow>
    parse_list (pre @ concat (map encode ys) @ 0x65 # post) d items (length pre) =
     (if d + foldr (\<lambda>v n. max (Suc (vdepth v)) n) ys 0 \<le> MAX_DEPTH
      then Inr (VList (items @ ys), length pre + length (concat (map encode ys)) + 1)
      else Inl (DepthLimit MAX_DEPTH))"
  using assms
proof (induction ys arbitrary: pre items)
  case Nil
  then show ?case by (subst parse_list.simps) (simp add: peek_def)
next
  case (Cons y ys)
  obtain b r where b: "encode y = b # r" "b \<noteq> 0x65"
    by (metis encode_first encode_first_not_e)
  define inp where "inp = pre @ encode y @ concat (map encode ys) @ 0x65 # post"
  have pk: "peek inp (length pre) = Some b"
    using b by (simp add: peek_def inp_def)
  have step: "parse_list inp d items (length pre) =
      (case parse_value_full inp (Suc d) (length pre) of
         Inl e \<Rightarrow> Inl e | Inr (v, _, p) \<Rightarrow> parse_list inp d (items @ [v]) p)"
    by (subst parse_list.simps) (simp only: pk option.case b if_False)
  have hd: "parse_value_full inp (Suc d) (length pre) =
     (if Suc d + vdepth y \<le> MAX_DEPTH then Inr (y, length pre, length pre + length (encode y))
      else Inl (DepthLimit MAX_DEPTH))"
    using Cons.prems(2) [of y] unfolding parses_at_depth_def inp_def by simp
  have tl: "parse_list inp d (items @ [y]) (length pre + length (encode y)) =
     (if d + foldr (\<lambda>v n. max (Suc (vdepth v)) n) ys 0 \<le> MAX_DEPTH
      then Inr (VList (items @ y # ys), length pre + length (encode y) + length (concat (map encode ys)) + 1)
      else Inl (DepthLimit MAX_DEPTH))"
    using Cons.IH [of "pre @ encode y" "items @ [y]"] Cons.prems by (simp add: inp_def)
  show ?case
    using step hd tl by (auto simp: inp_def max_add_distrib_right)
qed

lemma parse_dict_entries:
  assumes "\<And>k v. (k, v) \<in> set es \<Longrightarrow> parses_at_depth v \<and> length k < 2 ^ 64"
  shows "d \<le> MAX_DEPTH \<Longrightarrow> bt_wf (acc @ es) \<Longrightarrow>
    parse_dict (pre @ concat (map encode_entry es) @ 0x65 # post) d acc (length pre) =
     (if d + foldr (\<lambda>(k, v) n. max (Suc (vdepth v)) n) es 0 \<le> MAX_DEPTH
      then Inr (VDict (acc @ es), length pre + length (concat (map encode_entry es)) + 1)
      else Inl (DepthLimit MAX_DEPTH))"
  using assms
proof (induction es arbitrary: pre acc)
  case Nil
  then show ?case by (subst parse_dict.simps) (simp add: peek_def)
next
  case (Cons e es)
  obtain k y where e: "e = (k, y)" by (cases e)
  obtain b r where b: "dec_bytes (length k) = b # r" "is_ascii_digit b"
    by (rule dec_bytes_Cons [of "length k"])
  then have b': "b \<noteq> 0x65" by (auto simp: is_ascii_digit_iff)
  define hdr where "hdr = dec_bytes (length k) @ [0x3A] @ k"
  define inp where "inp = pre @ hdr @ encode y @ concat (map encode_entry es) @ 0x65 # post"
  have entry: "encode_entry (k, y) = hdr @ encode y"
    by (simp add: encode_entry_def hdr_def)
  have pk: "peek inp (length pre) = Some b"
    using b by (simp add: peek_def inp_def hdr_def)
  have lk: "length k < 2 ^ 64" and py: "parses_at_depth y"
    using Cons.prems(3) [of k y] by (simp_all add: e)
  have raw: "parse_raw_bytes inp (length pre) = Inr (k, length pre + length hdr)"
    using parse_raw_bytes_dec [OF lk, of pre "encode y @ concat (map encode_entry es) @ 0x65 # post"]
    by (simp add: inp_def hdr_def add.assoc)
  have ins: "bt_insert k y acc = acc @ [(k, y)]"
    using Cons.prems(2) by (intro bt_insert_snoc) (auto simp: e bt_wf_def sorted_wrt_append)
  have step: "parse_dict inp d acc (length pre) =
      (case parse_value_full inp (Suc d) (length pre + length hdr) of
         Inl e \<Rightarrow> Inl e | Inr (v, _, p) \<Rightarrow> parse_dict inp d (bt_insert k v acc) p)"
    by (subst parse_dict.simps) (simp only: pk option.case b b' if_False if_True raw sum.case prod.case)
  have hd: "parse_value_full inp (Suc d) (length pre + length hdr) =
     (if Suc d + vdepth y \<le> MAX_DEPTH
      then Inr (y, length pre + length hdr, length pre + length hdr + length (encode y))
      else Inl (DepthLimit MAX_DEPTH))"
    using py [unfolded parses_at_depth_def, rule_format, of "pre @ hdr" "concat (map encode_entry es) @ 0x65 # post" "Suc d"]
    by (simp add: inp_def)
  have tl: "parse_dict inp d (acc @ [(k, y)]) (length pre + length hdr + length (encode y)) =
     (if d + foldr (\<lambda>(k, v) n. max (Suc (vdepth v)) n) es 0 \<le> MAX_DEPTH
      then Inr (VDict (acc @ e # es), length pre + length hdr + length (encode y) + length (concat (map encode_entry es)) + 1)
      else Inl (DepthLimit MAX_DEPTH))"
  proof -
    have wf: "bt_wf ((acc @ [(k, y)]) @ es)" using Cons.prems(2) by (simp add: e)
    have es: "parses_at_depth v' \<and> length k' < 2 ^ 64" if "(k', v') \<in> set es" for k' v'
      using Cons.prems(3) [of k' v'] that by simp
    show ?thesis
      using Cons.IH [OF Cons.prems(1) wf es, of "pre @ hdr @ encode y"] by (simp add: inp_def e add.assoc)
  qed
  show ?case
    using step hd tl by (auto simp: inp_def e entry ins max_add_distrib_right)
qed

lemma parses_at_depthI:
  assumes "\<And>pre post d b. d \<le> MAX_DEPTH \<Longrightarrow> (encode v @ post) ! 0 = b \<Longrightarrow>
      (if b = 0x69 then parse_int (pre @ encode v @ post) (length pre)
       else if b = 0x6C then parse_list (pre @ encode v @ post) d [] (Suc (length pre))
       else if b = 0x64 then parse_dict (pre @ encode v @ post) d [] (Suc (length pre))
       else if is_ascii_digit b then parse_bytes (pre @ encode v @ post) (length pre)
       else Inl (InvalidToken (length pre) b))
      = (if d + vdepth v \<le> MAX_DEPTH then Inr (v, length pre + length (encode v)) else Inl (DepthLimit MAX_DEPTH))"
  shows "parses_at_depth v"
  unfolding parses_at_depth_def
proof (intro allI)
  fix pre post d
  let ?inp = "pre @ encode v @ post"
  have pk: "peek ?inp (length pre) = Some ((encode v @ post) ! 0)"
    by (rule encode_first [of v]) (simp add: peek_def)
  show "parse_value_full ?inp d (length pre) =
     (if d + vdepth v \<le> MAX_DEPTH then Inr (v, length pre, length pre + length (encode v))
      else Inl (DepthLimit MAX_DEPTH))"
  proof (cases "d \<le> MAX_DEPTH")
    case True
    then have "\<not> d > MAX_DEPTH" by simp
    then show ?thesis
      by (subst parse_value_full.simps)
        (simp only: pk option.case if_False assms [OF True refl], simp)
  next
    case False
    then show ?thesis by (subst parse_value_full.simps) simp
  qed
qed

lemma wf_parses_at_depth: "wf_value v \<Longrightarrow> parses_at_depth v"
proof (induction v)
  case (VInt i)
  show ?case
    using parse_int_encode [of _ i] by (intro parses_at_depthI) simp
next
  case (VBytes s)
  show ?case
  proof (rule parses_at_depthI)
    fix pre post d b
    assume d: "d \<le> MAX_DEPTH" and b: "(encode (VBytes s) @ post) ! 0 = b"
    obtain c r where c: "dec_bytes (length s) = c # r" "is_ascii_digit c"
      by (rule dec_bytes_Cons)
    then have "is_ascii_digit b" "b \<noteq> 0x69" "b \<noteq> 0x6C" "b \<noteq> 0x64"
      using b by (auto simp: is_ascii_digit_iff)
    with d VBytes parse_raw_bytes_dec [of s pre post]
    show "(if b = 0x69 then parse_int (pre @ encode (VBytes s) @ post) (length pre)
       else if b = 0x6C then parse_list (pre @ encode (VBytes s) @ post) d [] (Suc (length pre))
       else if b = 0x64 then parse_dict (pre @ encode (VBytes s) @ post) d [] (Suc (length pre))
       else if is_ascii_digit b then parse_bytes (pre @ encode (VBytes s) @ post) (length pre)
       else Inl (InvalidToken (length pre) b))
      = (if d + vdepth (VBytes s) \<le> MAX_DEPTH then Inr (VBytes s, length pre + length (encode (VBytes s)))
         else Inl (DepthLimit MAX_DEPTH))"
      by (simp add: parse_bytes_def)
  qed
next
  case (VList items)
  have items: "\<And>v. v \<in> set items \<Longrightarrow> parses_at_depth v"
    using VList by (auto simp: list_all_iff)
  show ?case
    using parse_list_items [OF items, of items _ "_ @ [0x6C]" _ "[]"]
    by (intro parses_at_depthI) auto
next
  case (VDict m)
  have es: "\<And>k v. (k, v) \<in> set m \<Longrightarrow> parses_at_depth v \<and> length k < 2 ^ 64"
    using VDict by (fastforce simp: list_all_iff snds.simps)
  show ?case
    using parse_dict_entries [OF es, of m _ "[]" "_ @ [0x64]"] VDict.prems
    by (intro parses_at_depthI) auto
qed

text \<open>
  The round trip, complete over the depth limit: a representable value is read back as itself,
  and one nested deeper than \<open>MAX_DEPTH\<close> is refused with \<open>DepthLimit\<close>, whatever follows it.
\<close>

lemma parse_value_encode:
  assumes "wf_value v"
  shows "parse_value (encode v @ rest) 0 0 =
    (if vdepth v \<le> MAX_DEPTH then Inr (v, length (encode v)) else Inl (DepthLimit MAX_DEPTH))"
  using wf_parses_at_depth [OF assms, unfolded parses_at_depth_def, rule_format, of "[]" rest 0]
  by (simp add: parse_value_def)

definition bencode_ok :: "bvalue \<Rightarrow> bool" where
  "bencode_ok v \<longleftrightarrow> wf_value v \<and> vdepth v \<le> MAX_DEPTH"

definition decode_prefix_opt :: "bytes \<Rightarrow> (bvalue \<times> nat) option" where
  "decode_prefix_opt bs = (case decode_prefix bs of Inl _ \<Rightarrow> None | Inr r \<Rightarrow> Some r)"

interpretation bencode: prefix_codec encode decode_prefix_opt bencode_ok
  by unfold_locales
    (simp add: decode_prefix_opt_def decode_prefix_def bencode_ok_def parse_value_encode)

lemma decode_encode_gen:
  assumes "wf_value v"
  shows "decode (encode v) = (if vdepth v \<le> MAX_DEPTH then Inr v else Inl (DepthLimit MAX_DEPTH))"
  using parse_value_encode [OF assms, of "[]"] by (simp add: decode_def)

section \<open>What the parser returns\<close>

lemma digits_val_bound: "parse_u64 t = Some n \<Longrightarrow> n < 2 ^ 64"
  by (auto simp: parse_u64_def Let_def split: if_splits)

lemma parse_raw_bytes_length: "parse_raw_bytes inp pos = Inr (d, p) \<Longrightarrow> length d < 2 ^ 64"
  by (auto simp: parse_raw_bytes_def parse_length_def Let_def slice_def
      split: sum.splits if_splits option.splits dest!: digits_val_bound)

lemma foldr_max_le:
  "foldr (\<lambda>x n. max (f x) n) xs (0::nat) \<le> b \<longleftrightarrow> (\<forall>x \<in> set xs. f x \<le> b)"
  by (induction xs) auto

lemma vdepth_le:
  "vdepth (VList items) \<le> b \<longleftrightarrow> (\<forall>v \<in> set items. Suc (vdepth v) \<le> b)"
  "vdepth (VDict m) \<le> b \<longleftrightarrow> (\<forall>(k, v) \<in> set m. Suc (vdepth v) \<le> b)"
  using foldr_max_le [of "\<lambda>v. Suc (vdepth v)" items b] foldr_max_le [of "\<lambda>(k, v). Suc (vdepth v)" m b]
  by (simp_all add: case_prod_unfold)

definition fits :: "nat \<Rightarrow> bvalue \<Rightarrow> bool" where
  "fits d v \<longleftrightarrow> wf_value v \<and> d + vdepth v \<le> MAX_DEPTH"

lemma parse_value_fullE:
  assumes "parse_value_full inp d pos = Inr (v, s, p)"
  obtains (Int) "d \<le> MAX_DEPTH" "pos < length inp" "inp ! pos = 0x69" "parse_int inp pos = Inr (v, p)"
  | (List) "d \<le> MAX_DEPTH" "pos < length inp" "inp ! pos = 0x6C" "parse_list inp d [] (Suc pos) = Inr (v, p)"
  | (Dict) "d \<le> MAX_DEPTH" "pos < length inp" "inp ! pos = 0x64" "parse_dict inp d [] (Suc pos) = Inr (v, p)"
  | (Bytes) "d \<le> MAX_DEPTH" "pos < length inp" "is_ascii_digit (inp ! pos)" "parse_bytes inp pos = Inr (v, p)"
  using assms [unfolded parse_value_full.simps [of inp d pos]]
  by (auto simp: peek_def not_less split: if_splits sum.splits)

lemma parse_listE:
  assumes "parse_list inp d items pos = Inr (v, p)"
  obtains (End) "pos < length inp" "inp ! pos = 0x65" "v = VList items" "p = Suc pos"
  | (Item) x q where "pos < length inp" "inp ! pos \<noteq> 0x65"
      "parse_value_full inp (Suc d) pos = Inr (x, pos, q)" "parse_list inp d (items @ [x]) q = Inr (v, p)"
  using assms [unfolded parse_list.simps [of inp d items pos]]
  by (auto simp: peek_def split: if_splits sum.splits dest: parse_value_progress)

lemma parse_dictE:
  assumes "parse_dict inp d m pos = Inr (v, p)"
  obtains (End) "pos < length inp" "inp ! pos = 0x65" "v = VDict m" "p = Suc pos"
  | (Entry) k q x r where "pos < length inp" "inp ! pos \<noteq> 0x65" "is_ascii_digit (inp ! pos)"
      "parse_raw_bytes inp pos = Inr (k, q)" "parse_value_full inp (Suc d) q = Inr (x, q, r)"
      "parse_dict inp d (bt_insert k x m) r = Inr (v, p)"
  using assms [unfolded parse_dict.simps [of inp d m pos]]
  by (auto simp: peek_def split: if_splits sum.splits) (metis parse_value_progress)

text \<open>
  Results of the parser fit the model's type invariant: dictionaries are in key order, strings
  are addressable and no value nests past the limit.
\<close>

lemma parse_int_fits: "parse_int inp pos = Inr (v, p) \<Longrightarrow> d \<le> MAX_DEPTH \<Longrightarrow> fits d v"
  by (auto simp: parse_int_def Let_def fits_def split: if_splits option.splits)

lemma parse_bytes_fits: "parse_bytes inp pos = Inr (v, p) \<Longrightarrow> d \<le> MAX_DEPTH \<Longrightarrow> fits d v"
  by (auto simp: parse_bytes_def fits_def split: sum.splits dest: parse_raw_bytes_length)

lemma fits_VList: "d \<le> MAX_DEPTH \<Longrightarrow> (\<forall>x \<in> set items. fits (Suc d) x) \<Longrightarrow> fits d (VList items)"
  using vdepth_le(1) [of items "MAX_DEPTH - d"] by (fastforce simp: fits_def list_all_iff)

lemma fits_VDict:
  "d \<le> MAX_DEPTH \<Longrightarrow> bt_wf m \<Longrightarrow> (\<forall>(k, x) \<in> set m. length k < 2 ^ 64 \<and> fits (Suc d) x) \<Longrightarrow>
     fits d (VDict m)"
  using vdepth_le(2) [of m "MAX_DEPTH - d"] by (fastforce simp: fits_def list_all_iff)

lemma parse_fits:
  "parse_value_full inp d pos = Inr (v, s, p) \<Longrightarrow> fits d v"
  "parse_list inp d items pos = Inr (v', p') \<Longrightarrow> d \<le> MAX_DEPTH \<Longrightarrow>
     (\<forall>x \<in> set items. fits (Suc d) x) \<Longrightarrow> fits d v'"
  "parse_dict inp d m pos = Inr (v'', p'') \<Longrightarrow> d \<le> MAX_DEPTH \<Longrightarrow> bt_wf m \<Longrightarrow>
     (\<forall>(k, x) \<in> set m. length k < 2 ^ 64 \<and> fits (Suc d) x) \<Longrightarrow> fits d v''"
proof (induction inp d pos and inp d items pos and inp d m pos arbitrary: v s p and v' p' and v'' p''
    rule: parse_value_full_parse_list_parse_dict.induct)
  case (1 inp d pos)
  from 1(3) show ?case
  proof (cases rule: parse_value_fullE)
    case List
    with 1(1) show ?thesis by simp
  next
    case Dict
    with 1(2) show ?thesis by (simp add: bt_wf_def)
  qed (auto intro: parse_int_fits parse_bytes_fits)
next
  case (2 inp d items pos)
  from 2(3) show ?case
  proof (cases rule: parse_listE)
    case End
    with 2(4,5) show ?thesis by (simp add: fits_VList)
  next
    case (Item x q)
    then have "fits (Suc d) x" using 2(1) by simp
    with Item 2(4,5) show ?thesis
      by (intro 2(2) [of "inp ! pos" _ x "(pos, q)" pos q]) auto
  qed
next
  case (3 inp d m pos)
  from 3(3) show ?case
  proof (cases rule: parse_dictE)
    case End
    with 3(4-6) show ?thesis by (simp add: fits_VDict)
  next
    case (Entry k q x r)
    then have "fits (Suc d) x" using 3(1) by simp
    with Entry 3(4-6) parse_raw_bytes_length [OF Entry(4)] set_bt_insert_subset [of k x m]
    show ?thesis
      by (intro 3(2) [of "inp ! pos" "(k, q)" k q _ x "(q, r)" q r]) (auto intro: bt_wf_insert)
  qed
qed

lemma decode_ok: "decode bs = Inr v \<Longrightarrow> bencode_ok v"
  by (auto simp: decode_def parse_value_def bencode_ok_def split: sum.splits if_splits
      dest!: parse_fits(1) simp: fits_def)

section \<open>Properties\<close>

text \<open>
  C1. Round trip with the depth limit: every value the code can represent is read back by
  \<open>decode\<close> as itself when it nests at most \<open>MAX_DEPTH\<close> levels, and is refused with
  \<open>DepthLimit\<close> otherwise.
\<close>

theorem decode_encode:
  assumes "wf_value v"
  shows "decode (encode v) = (if vdepth v \<le> MAX_DEPTH then Inr v else Inl (DepthLimit MAX_DEPTH))"
  using assms by (rule decode_encode_gen)

definition sample_value :: bvalue where
  "sample_value = VDict [([0x61], VInt (-7)), ([0x62], VList [VBytes [0, 255], VDict []])]"

lemma sample_value_ok: "wf_value sample_value" "vdepth sample_value \<le> MAX_DEPTH"
  by (simp_all add: sample_value_def bt_wf_def MAX_DEPTH_def)

theorem decode_encode_witness: "decode (encode sample_value) = Inr sample_value"
  using decode_encode [OF sample_value_ok(1)] sample_value_ok(2) by simp

text \<open>
  The wire format is self-delimiting: two streams that start with encodings of
  representable values and are equal start with the same value and continue with the same bytes.
\<close>

theorem encode_prefix_free:
  assumes "bencode_ok v" "bencode_ok w" "encode v @ r = encode w @ s"
  shows "v = w \<and> r = s"
  using assms by (rule bencode.prefix_free)

theorem encode_prefix_free_witness:
  "bencode_ok sample_value \<and> encode sample_value @ [1] = encode sample_value @ [1] \<and>
   sample_value = sample_value \<and> [1 :: byte] = [1]"
  using encode_prefix_free [of sample_value sample_value "[1]" "[1]"] sample_value_ok
  by (simp add: bencode_ok_def)

text \<open>
  C31. Whatever bytes arrive, a value that \<open>decode\<close> accepts satisfies the type invariant (sorted
  dictionaries, addressable strings, nesting within the limit), so writing it out and reading
  it again gives the same value: one pass normalises every accepted input.
\<close>

theorem decode_normalises:
  assumes "decode bs = Inr v"
  shows "bencode_ok v \<and> decode (encode v) = Inr v"
  using decode_ok [OF assms] by (simp add: bencode_ok_def decode_encode_gen)

text \<open>The input \<open>d1:bi+5e1:ale1:b0:e\<close>: keys out of order, one repeated, a signed integer.\<close>

definition loose_input :: bytes where
  "loose_input = [0x64, 0x31, 0x3A, 0x62, 0x69, 0x2B, 0x35, 0x65, 0x31, 0x3A, 0x61, 0x6C, 0x65,
     0x31, 0x3A, 0x62, 0x30, 0x3A, 0x65]"

text \<open>The equations that evaluate the parser on a concrete input.\<close>

lemmas parser_eval = decode_def parse_value_def parse_value_full.simps parse_list.simps parse_dict.simps
  parse_int_def parse_bytes_def parse_raw_bytes_def parse_length_def scan_int.simps scan_length.simps
  peek_def slice_def int_text_valid_def parse_i64_def parse_u64_def digits_val_def is_ascii_digit_def
  MAX_DEPTH_def Let_def

lemma decode_loose_input: "decode loose_input = Inr (VDict [([0x61], VList []), ([0x62], VBytes [])])"
  by (simp add: loose_input_def parser_eval)

theorem decode_normalises_witness:
  "bencode_ok (VDict [([0x61], VList []), ([0x62], VBytes [])]) \<and>
   decode (encode (VDict [([0x61], VList []), ([0x62], VBytes [])])) = Inr (VDict [([0x61], VList []), ([0x62], VBytes [])])"
  using decode_normalises [OF decode_loose_input] .

text \<open>
  \<open>decode\<close> accepts an integer written with a plus sign and leading zeros, which its own
  comment (no leading zeros, after the specification) excludes.
\<close>

theorem decode_plus_sign: "decode [0x69, 0x2B, 0x30, 0x35, 0x65] = Inr (VInt 5)"
  by (simp add: parser_eval)

end
