(* ===== verification/Bencode_Ranges.thy ===== *)
theory Bencode_Ranges
  imports Bencode
begin

text \<open>
  Locality of the bencode parser and the raw ranges of \<open>parse_root\<close>
  (\<open>crates/xfer-bencode/src/lib.rs\<close>): a successful parse depends on nothing but the bytes it
  consumed, so the byte range the torrent reader cuts out for a member (the \<open>info\<close> dictionary
  whose hash identifies the torrent) is itself an encoding of that member.
\<close>

section \<open>The parser only looks at the bytes it consumes\<close>

definition agree :: "bytes \<Rightarrow> nat \<Rightarrow> bytes \<Rightarrow> nat \<Rightarrow> nat \<Rightarrow> bool" where
  "agree inp pos inp' pos' n \<longleftrightarrow>
     pos + n \<le> length inp \<and> pos' + n \<le> length inp' \<and> (\<forall>i<n. inp' ! (pos' + i) = inp ! (pos + i))"

lemma agree_shift: "agree inp pos inp' pos' n \<Longrightarrow> a + b \<le> n \<Longrightarrow> agree inp (pos + a) inp' (pos' + a) b"
  by (auto simp: agree_def add.assoc)

lemma agree_sub:
  assumes "agree inp pos inp' pos' (p - pos)" "pos \<le> q" "q \<le> r" "r \<le> p"
  shows "agree inp q inp' (pos' + (q - pos)) (r - q)"
  using agree_shift [OF assms(1), of "q - pos" "r - q"] assms(2-) by simp

lemma agree_bound: "agree inp pos inp' pos' n \<Longrightarrow> pos' + n \<le> length inp'"
  by (simp add: agree_def)

lemma agree_peek: "agree inp pos inp' pos' n \<Longrightarrow> 0 < n \<Longrightarrow> pos' < length inp' \<and> inp' ! pos' = inp ! pos"
  by (auto simp: agree_def dest!: spec [of _ 0])

lemma agree_slice: "agree inp pos inp' pos' n \<Longrightarrow> slice inp' pos' (pos' + n) = slice inp pos (pos + n)"
  by (auto simp: agree_def slice_def intro!: nth_equalityI)

lemma scan_int_agree:
  "scan_int inp pos = q \<Longrightarrow> q < length inp \<Longrightarrow> pos \<le> q \<Longrightarrow> agree inp pos inp' pos' (Suc q - pos) \<Longrightarrow>
     scan_int inp' pos' = pos' + (q - pos)"
proof (induction inp pos arbitrary: pos' rule: scan_int.induct)
  case (1 inp pos)
  have pk: "pos' < length inp' \<and> inp' ! pos' = inp ! pos"
    using 1(5) by (rule agree_peek) (use 1(4) in simp)
  show ?case
  proof (cases "inp ! pos = 0x65")
    case True
    with 1(3,4) 1(2) [unfolded scan_int.simps [of inp pos]] have "q = pos"
      by (simp add: peek_def)
    with True pk show ?thesis by (simp add: scan_int.simps [of inp' pos'] peek_def)
  next
    case False
    with 1(3,4) 1(2) [unfolded scan_int.simps [of inp pos]] have q: "scan_int inp (Suc pos) = q"
      by (simp add: peek_def split: if_splits)
    with False 1(3,4) have "pos < q" using scan_int_bounds [of "Suc pos" inp] by simp
    then have "scan_int inp' (Suc pos') = Suc pos' + (q - Suc pos)"
      using 1(1) [OF _ False q 1(3)] agree_shift [OF 1(5), of 1 "Suc q - Suc pos"] 1(3)
      by simp
    with False pk \<open>pos < q\<close> show ?thesis by (simp add: scan_int.simps [of inp' pos'] peek_def)
  qed
qed

lemma scan_length_agree:
  "scan_length inp pos = Inr q \<Longrightarrow> q < length inp \<Longrightarrow> agree inp pos inp' pos' (Suc q - pos) \<Longrightarrow>
     scan_length inp' pos' = Inr (pos' + (q - pos))"
proof (induction inp pos arbitrary: pos' rule: scan_length.induct)
  case (1 inp pos)
  have le: "pos \<le> q" using 1(2) by (rule scan_length_bounds)
  have pk: "pos' < length inp' \<and> inp' ! pos' = inp ! pos"
    using 1(4) by (rule agree_peek) (use le in simp)
  show ?case
  proof (cases "inp ! pos = 0x3A")
    case True
    with 1(3) le 1(2) [unfolded scan_length.simps [of inp pos]] have "q = pos"
      by (simp add: peek_def)
    with True pk show ?thesis by (simp add: scan_length.simps [of inp' pos'] peek_def)
  next
    case False
    with 1(3) le 1(2) [unfolded scan_length.simps [of inp pos]]
    have q: "scan_length inp (Suc pos) = Inr q" and dg: "is_ascii_digit (inp ! pos)"
      by (simp_all add: peek_def split: if_splits)
    then have "pos < q" using scan_length_bounds [OF q] by simp
    then have "scan_length inp' (Suc pos') = Inr (Suc pos' + (q - Suc pos))"
      using 1(1) [OF _ False _ q 1(3)] dg agree_shift [OF 1(4), of 1 "Suc q - Suc pos"] 1(3)
      by simp
    with False pk dg \<open>pos < q\<close> show ?thesis by (simp add: scan_length.simps [of inp' pos'] peek_def)
  qed
qed

lemma parse_int_agree:
  assumes "parse_int inp pos = Inr (v, p)" "agree inp pos inp' pos' (p - pos)"
  shows "parse_int inp' pos' = Inr (v, pos' + (p - pos))"
proof -
  define q where "q = scan_int inp (Suc pos)"
  have q: "q < length inp" "p = Suc q" "Suc pos \<le> q"
    using assms(1) scan_int_bounds [of "Suc pos" inp]
    by (auto simp: parse_int_def Let_def q_def split: if_splits option.splits)
  have s: "scan_int inp' (Suc pos') = Suc pos' + (q - Suc pos)"
    using agree_shift [OF assms(2), of 1 "Suc q - Suc pos"] q
    by (intro scan_int_agree [OF q_def [symmetric] q(1) q(3)]) simp
  have sl: "slice inp' (Suc pos') (Suc pos' + (q - Suc pos)) = slice inp (Suc pos) q"
    using agree_slice [OF agree_shift [OF assms(2), of 1 "q - Suc pos"]] q by simp
  have "pos' + (p - pos) \<le> length inp'" using assms(2) by (simp add: agree_def)
  with q s sl assms(1) show ?thesis
    by (auto simp: parse_int_def Let_def simp flip: q_def split: if_splits option.splits)
qed

lemma parse_length_agree:
  assumes "parse_length inp pos = Inr (len, p)" "agree inp pos inp' pos' n" "p - pos \<le> n"
  shows "parse_length inp' pos' = Inr (len, pos' + (p - pos))"
proof -
  obtain q where q: "scan_length inp pos = Inr q" "q < length inp" "p = Suc q"
    using assms(1) by (auto simp: parse_length_def Let_def split: if_splits option.splits sum.splits)
  have le: "pos \<le> q" using q(1) by (rule scan_length_bounds)
  have a: "agree inp pos inp' pos' (Suc q - pos)"
    using agree_shift [OF assms(2), of 0 "Suc q - pos"] assms(3) q(3) by simp
  have s: "scan_length inp' pos' = Inr (pos' + (q - pos))"
    by (rule scan_length_agree [OF q(1,2) a])
  have sl: "slice inp' pos' (pos' + (q - pos)) = slice inp pos q"
    using agree_slice [OF agree_shift [OF a, of 0 "q - pos"]] le by simp
  have "pos' + (q - pos) < length inp'" using agree_bound [OF a] le by arith
  with q s sl assms(1) le show ?thesis
    by (auto simp: parse_length_def Let_def split: if_splits option.splits)
qed

lemma parse_raw_bytes_agree:
  assumes "parse_raw_bytes inp pos = Inr (d, p)" "agree inp pos inp' pos' (p - pos)"
  shows "parse_raw_bytes inp' pos' = Inr (d, pos' + (p - pos))"
proof -
  obtain len q where q: "parse_length inp pos = Inr (len, q)" "p = q + len" "d = slice inp q (q + len)"
    using assms(1) by (auto simp: parse_raw_bytes_def split: sum.splits if_splits)
  have le: "pos < q" using parse_length_progress [OF q(1)] by simp
  have l: "parse_length inp' pos' = Inr (len, pos' + (q - pos))"
    by (rule parse_length_agree [OF q(1) assms(2)]) (simp add: q)
  have "slice inp' (pos' + (q - pos)) (pos' + (q - pos) + len) = slice inp q (q + len)"
    using agree_slice [OF agree_shift [OF assms(2), of "q - pos" len]] le q by simp
  moreover have "pos' + (q - pos) + len \<le> length inp'"
    using agree_bound [OF assms(2)] le q(2) by arith
  moreover obtain k where "q = pos + k" using le less_imp_add_positive by blast
  ultimately show ?thesis using l q by (simp add: parse_raw_bytes_def add.assoc)
qed

lemma parse_bytes_agree:
  "parse_bytes inp pos = Inr (v, p) \<Longrightarrow> agree inp pos inp' pos' (p - pos) \<Longrightarrow>
     parse_bytes inp' pos' = Inr (v, pos' + (p - pos))"
  using parse_raw_bytes_agree [of inp pos _ p inp' pos']
  by (fastforce simp: parse_bytes_def split: sum.splits)

lemma parse_agree:
  "parse_value_full inp d pos = Inr (v, s, p) \<Longrightarrow> d' \<le> d \<Longrightarrow> agree inp pos inp' pos' (p - pos) \<Longrightarrow>
     parse_value_full inp' d' pos' = Inr (v, pos', pos' + (p - pos))"
  "parse_list inp d items pos = Inr (v, p) \<Longrightarrow> d' \<le> d \<Longrightarrow> agree inp pos inp' pos' (p - pos) \<Longrightarrow>
     parse_list inp' d' items pos' = Inr (v, pos' + (p - pos))"
  "parse_dict inp d m pos = Inr (v, p) \<Longrightarrow> d' \<le> d \<Longrightarrow> agree inp pos inp' pos' (p - pos) \<Longrightarrow>
     parse_dict inp' d' m pos' = Inr (v, pos' + (p - pos))"
proof (induction inp d pos and inp d items pos and inp d m pos arbitrary: v s p d' pos' and v p d' pos' and v p d' pos'
    rule: parse_value_full_parse_list_parse_dict.induct)
  case (1 inp d pos)
  have pk: "pos' < length inp' \<and> inp' ! pos' = inp ! pos"
    using 1(5) by (rule agree_peek) (use parse_value_progress [OF 1(3)] in simp)
  have inner: "agree inp (Suc pos) inp' (Suc pos') (p - Suc pos)"
    using agree_sub [OF 1(5), of "Suc pos" p] parse_value_progress [OF 1(3)] by simp
  have off: "Suc (p - Suc pos) = p - pos"
    using parse_value_progress [OF 1(3)] by arith
  from 1(3) show ?case
  proof (cases rule: parse_value_fullE)
    case Int
    with pk 1(4) parse_int_agree [OF Int(4) 1(5)] show ?thesis
      by (subst parse_value_full.simps) (simp add: peek_def)
  next
    case List
    then have "parse_list inp' d' [] (Suc pos') = Inr (v, Suc pos' + (p - Suc pos))"
      using 1(1) [OF _ _ _ _ _ 1(4) inner] by simp
    with List pk 1(4) show ?thesis
      by (subst parse_value_full.simps) (simp add: peek_def off)
  next
    case Dict
    then have "parse_dict inp' d' [] (Suc pos') = Inr (v, Suc pos' + (p - Suc pos))"
      using 1(2) [OF _ _ _ _ _ _ 1(4) inner] by simp
    with Dict pk 1(4) show ?thesis
      by (subst parse_value_full.simps) (simp add: peek_def off)
  next
    case Bytes
    then have "inp ! pos \<noteq> 0x69" "inp ! pos \<noteq> 0x6C" "inp ! pos \<noteq> 0x64"
      by (auto simp: is_ascii_digit_iff)
    with Bytes pk 1(4) parse_bytes_agree [OF Bytes(4) 1(5)] show ?thesis
      by (subst parse_value_full.simps) (simp add: peek_def)
  qed
next
  case (2 inp d items pos)
  from 2(3) show ?case
  proof (cases rule: parse_listE)
    case End
    with agree_peek [OF 2(5)] show ?thesis
      by (subst parse_list.simps) (simp add: peek_def)
  next
    case (Item x q)
    have le: "pos < q" "q < p" "p \<le> length inp"
      using parser_progress(5) [OF Item(3)] parser_progress(6) [OF Item(4)] by auto
    have hd: "parse_value_full inp' (Suc d') pos' = Inr (x, pos', pos' + (q - pos))"
      using 2(1) [of "inp ! pos" x pos q "Suc d'" pos'] Item 2(4) agree_sub [OF 2(5), of pos q] le
      by (simp add: peek_def)
    have tl: "parse_list inp' d' (items @ [x]) (pos' + (q - pos)) = Inr (v, pos' + (q - pos) + (p - q))"
      using 2(2) [of "inp ! pos" "(x, pos, q)" x "(pos, q)" pos q v p d' "pos' + (q - pos)"] Item 2(4) agree_sub [OF 2(5), of q p] le
      by (simp add: peek_def)
    show ?thesis
      using agree_peek [OF 2(5)] Item hd tl le
      by (subst parse_list.simps) (simp add: peek_def)
  qed
next
  case (3 inp d m pos)
  from 3(3) show ?case
  proof (cases rule: parse_dictE)
    case End
    with agree_peek [OF 3(5)] show ?thesis
      by (subst parse_dict.simps) (simp add: peek_def)
  next
    case (Entry k q x r)
    have le: "pos < q" "q < r" "r < p" "p \<le> length inp"
      using parser_progress(3) [OF Entry(4)] parser_progress(5) [OF Entry(5)] parser_progress(7) [OF Entry(6)]
      by auto
    have raw: "parse_raw_bytes inp' pos' = Inr (k, pos' + (q - pos))"
      using parse_raw_bytes_agree [OF Entry(4)] agree_sub [OF 3(5), of pos q] le by simp
    have hd: "parse_value_full inp' (Suc d') (pos' + (q - pos)) = Inr (x, pos' + (q - pos), pos' + (q - pos) + (r - q))"
      using 3(1) [of "inp ! pos" "(k, q)" k q x q r "Suc d'" "pos' + (q - pos)"] Entry 3(4)
        agree_sub [OF 3(5), of q r] le
      by (simp add: peek_def)
    have tl: "parse_dict inp' d' (bt_insert k x m) (pos' + (r - pos)) = Inr (v, pos' + (r - pos) + (p - r))"
      using 3(2) [of "inp ! pos" "(k, q)" k q "(x, q, r)" x "(q, r)" q r v p d' "pos' + (r - pos)"] Entry 3(4)
        agree_sub [OF 3(5), of r p] le
      by (simp add: peek_def)
    show ?thesis
      using agree_peek [OF 3(5)] Entry raw hd tl le
      by (subst parse_dict.simps) (simp add: peek_def)
  qed
qed


section \<open>The root parser and the raw ranges\<close>

lemma parse_root_loopE:
  assumes "parse_root_loop inp m rs pos = Inr ((m', rs'), p)"
  obtains (End) "pos < length inp" "inp ! pos = 0x65" "m' = m" "rs' = rs" "p = Suc pos"
  | (Entry) k q x r where "pos < length inp" "inp ! pos \<noteq> 0x65"
      "parse_raw_bytes inp pos = Inr (k, q)" "parse_value_full inp 1 q = Inr (x, q, r)"
      "parse_root_loop inp (bt_insert k x m) (bt_insert k (q, r) rs) r = Inr ((m', rs'), p)"
  using assms [unfolded parse_root_loop.simps [of inp m rs pos]]
  by (auto simp: peek_def split: if_splits sum.splits) (metis parse_value_progress)

lemma parse_raw_bytes_first:
  assumes "parse_raw_bytes inp pos = Inr (k, q)"
  shows "is_ascii_digit (inp ! pos)"
proof (rule ccontr)
  assume nd: "\<not> is_ascii_digit (inp ! pos)"
  have "pos < length inp" using parse_raw_bytes_progress [OF assms] by simp
  with nd have "scan_length inp pos = Inr pos \<or> (\<exists>e. scan_length inp pos = Inl e)"
    by (subst (1 2) scan_length.simps) (simp add: peek_def)
  with assms show False
    by (auto simp: parse_raw_bytes_def parse_length_def Let_def slice_def parse_u64_def
        split: sum.splits if_splits option.splits)
qed

lemma parse_dict_step:
  "pos < length inp \<Longrightarrow> inp ! pos \<noteq> 0x65 \<Longrightarrow> parse_raw_bytes inp pos = Inr (k, q) \<Longrightarrow>
     parse_value_full inp (Suc d) q = Inr (x, q, r) \<Longrightarrow>
     parse_dict inp d m pos = parse_dict inp d (bt_insert k x m) r"
  by (subst parse_dict.simps) (simp add: peek_def parse_raw_bytes_first)

lemma parse_root_loop_dict:
  "parse_root_loop inp m rs pos = Inr ((m', rs'), p) \<Longrightarrow> parse_dict inp 0 m pos = Inr (VDict m', p)"
proof (induction inp m rs pos rule: parse_root_loop.induct)
  case (1 inp m rs pos)
  from 1(2) show ?case
  proof (cases rule: parse_root_loopE)
    case End
    then show ?thesis by (subst parse_dict.simps) (simp add: peek_def)
  next
    case (Entry k q x r)
    then have "parse_dict inp 0 (bt_insert k x m) r = Inr (VDict m', p)"
      by (intro 1(1) [of "inp ! pos" "(k, q)" k q "(x, q, r)" x "(q, r)" q r]) auto
    with Entry show ?thesis by (simp add: parse_dict_step)
  qed
qed

lemma parse_dict_root_loop:
  "parse_dict inp d m pos = Inr (v, p) \<Longrightarrow> d = 0 \<Longrightarrow>
     \<exists>m' rs'. v = VDict m' \<and> parse_root_loop inp m rs pos = Inr ((m', rs'), p)"
proof (induction inp m rs pos rule: parse_root_loop.induct)
  case (1 inp m rs pos)
  from 1(2) show ?case
  proof (cases rule: parse_dictE)
    case End
    then show ?thesis by (subst parse_root_loop.simps) (simp add: peek_def)
  next
    case (Entry k q x r)
    with 1(3) have x: "parse_value_full inp 1 q = Inr (x, q, r)" by simp
    have "\<exists>m' rs'. v = VDict m' \<and>
        parse_root_loop inp (bt_insert k x m) (bt_insert k (q, r) rs) r = Inr ((m', rs'), p)"
      using Entry x 1(3) by (intro 1(1) [of "inp ! pos" "(k, q)" k q "(x, q, r)" x "(q, r)" q r]) auto
    with Entry x show ?thesis
      by (subst parse_root_loop.simps) (simp add: peek_def)
  qed
qed

text \<open>Each recorded range is where the value stored under that key was read.\<close>

definition ranges_ok :: "bytes \<Rightarrow> (bytes, bvalue) btree_map \<Rightarrow> (bytes, nat \<times> nat) btree_map \<Rightarrow> bool" where
  "ranges_ok inp m rs \<longleftrightarrow>
     (\<forall>k. map_of rs k = None \<longleftrightarrow> map_of m k = None)
     \<and> (\<forall>k s e. map_of rs k = Some (s, e) \<longrightarrow>
          (\<exists>x. map_of m k = Some x \<and> parse_value_full inp 1 s = Inr (x, s, e)))"

lemma parse_root_loop_ranges:
  "parse_root_loop inp m rs pos = Inr ((m', rs'), p) \<Longrightarrow> ranges_ok inp m rs \<Longrightarrow> ranges_ok inp m' rs'"
proof (induction inp m rs pos rule: parse_root_loop.induct)
  case (1 inp m rs pos)
  from 1(2) show ?case
  proof (cases rule: parse_root_loopE)
    case End
    with 1(3) show ?thesis by simp
  next
    case (Entry k q x r)
    then have "ranges_ok inp (bt_insert k x m) (bt_insert k (q, r) rs)"
      using 1(3) by (auto simp: ranges_ok_def btree.get_insert)
    with Entry show ?thesis
      by (intro 1(1) [of "inp ! pos" "(k, q)" k q "(x, q, r)" x "(q, r)" q r]) auto
  qed
qed

lemma parse_value_slice:
  assumes "parse_value_full inp d s = Inr (v, s, e)"
  shows "decode (slice inp s e) = Inr v"
proof -
  have le: "s < e" "e \<le> length inp" using parse_value_progress [OF assms] by auto
  then have len: "length (slice inp s e) = e - s" by (simp add: slice_def)
  have "agree inp s (slice inp s e) 0 (e - s)"
    using le by (auto simp: agree_def slice_def)
  from parse_agree(1) [OF assms _ this, of 0] show ?thesis
    by (simp add: decode_def parse_value_def len)
qed

lemma parse_list_VList: "parse_list inp d items pos = Inr (v, p) \<Longrightarrow> \<exists>xs. v = VList xs"
proof (induction "length inp - pos" arbitrary: items pos rule: less_induct)
  case less
  from less.prems show ?case
  proof (cases rule: parse_listE)
    case (Item x q)
    with parser_progress(5) [OF Item(3)] show ?thesis by (intro less.hyps [OF _ Item(4)]) auto
  qed simp
qed

lemma parse_root_decode_gen:
  "(\<exists>rs. parse_root inp = Inr (v, rs)) \<longleftrightarrow> decode inp = Inr v \<and> (\<exists>m. v = VDict m)"
proof
  assume "\<exists>rs. parse_root inp = Inr (v, rs)"
  then obtain m rs where "peek inp 0 = Some 0x64" "v = VDict m"
      "parse_root_loop inp [] [] 1 = Inr ((m, rs), length inp)"
    by (auto simp: parse_root_def split: if_splits sum.splits)
  then show "decode inp = Inr v \<and> (\<exists>m. v = VDict m)"
    using parse_root_loop_dict
    by (simp add: decode_def parse_value_def parse_value_full.simps [of inp 0 0] peek_def MAX_DEPTH_def)
next
  assume a: "decode inp = Inr v \<and> (\<exists>m. v = VDict m)"
  then obtain s where "parse_value_full inp 0 0 = Inr (v, s, length inp)"
    by (auto simp: decode_def parse_value_def split: sum.splits if_splits)
  then show "\<exists>rs. parse_root inp = Inr (v, rs)"
  proof (cases rule: parse_value_fullE)
    case Dict
    with parse_dict_root_loop [OF Dict(4) refl, of "[]"] show ?thesis
      by (auto simp: parse_root_def)
  qed (use a in \<open>auto simp: parse_int_def parse_bytes_def Let_def split: if_splits option.splits sum.splits
        dest: parse_list_VList\<close>)
qed

section \<open>Properties\<close>

text \<open>
  \<open>parse_root\<close> and \<open>decode\<close> accept the same dictionaries: the root parser returns a value
  exactly when \<open>decode\<close> returns that value and it is a dictionary.
\<close>

theorem parse_root_iff_decode:
  "(\<exists>rs. parse_root inp = Inr (v, rs)) \<longleftrightarrow> decode inp = Inr v \<and> (\<exists>m. v = VDict m)"
  by (rule parse_root_decode_gen)

lemma parse_root_ranges:
  assumes "parse_root inp = Inr (VDict m, rs)"
  shows "case map_of rs k of
           None \<Rightarrow> map_of m k = None
         | Some (s, e) \<Rightarrow>
             s < e \<and> e \<le> length inp \<and> (\<exists>x. map_of m k = Some x \<and> decode (slice inp s e) = Inr x)"
proof -
  from assms obtain p where "parse_root_loop inp [] [] 1 = Inr ((m, rs), p)"
    by (auto simp: parse_root_def split: if_splits sum.splits)
  then have ok: "ranges_ok inp m rs"
    by (rule parse_root_loop_ranges) (simp add: ranges_ok_def)
  show ?thesis
  proof (cases "map_of rs k")
    case None
    with ok have "map_of m k = None" unfolding ranges_ok_def by blast
    with None show ?thesis by simp
  next
    case (Some se)
    obtain s e where se: "se = (s, e)" by (cases se)
    with Some ok obtain x where "map_of m k = Some x" "parse_value_full inp 1 s = Inr (x, s, e)"
      unfolding ranges_ok_def by blast
    then show ?thesis
      using parse_value_progress [of inp 1 s x s e] parse_value_slice [of inp 1 s x e] Some se by auto
  qed
qed

lemma parse_root_range:
  assumes "parse_root inp = Inr (VDict m, rs)" "map_of rs k = Some (s, e)"
  shows "\<exists>x. map_of m k = Some x \<and> decode (slice inp s e) = Inr x"
  using parse_root_ranges [OF assms(1), of k] assms(2) by simp

text \<open>
  C2. The raw ranges are right: the keys with a range are the keys of the dictionary, and the
  bytes in the range of a key decode, on their own, to the value stored under that key.
\<close>

theorem parse_root_raw_ranges:
  assumes "parse_root inp = Inr (VDict m, rs)"
  shows "case map_of rs k of
           None \<Rightarrow> map_of m k = None
         | Some (s, e) \<Rightarrow>
             s < e \<and> e \<le> length inp \<and> (\<exists>x. map_of m k = Some x \<and> decode (slice inp s e) = Inr x)"
  by (rule parse_root_ranges [OF assms])

lemma parse_root_loose_input:
  "parse_root loose_input = Inr (VDict [([0x61], VList []), ([0x62], VBytes [])],
     [([0x61], (11, 13)), ([0x62], (16, 18))])"
  by (simp add: loose_input_def parse_root_def parse_root_loop.simps parser_eval)

theorem parse_root_raw_ranges_witness:
  "11 < (13::nat) \<and> 13 \<le> length loose_input \<and>
   (\<exists>x. map_of [([0x61], VList []), ([0x62], VBytes [])] [0x61 :: byte] = Some x
      \<and> decode (slice loose_input 11 13) = Inr x)"
  using parse_root_raw_ranges [OF parse_root_loose_input, of "[0x61]"] by simp

end
