(* ===== verification/Bitfields.thy ===== *)
theory Bitfields
  imports Xfer_Prelude
begin

text \<open>
  The two piece bitmaps of the program: \<open>PieceMap\<close> of \<open>crates/xfer-storage/src/piece.rs\<close> (the
  BitTorrent bitfield, most significant bit first) and \<open>Bitmap\<close> of
  \<open>crates/xfer-sftp/src/ctrl.rs\<close> (the SFTP resume bitmap, least significant bit first, with a
  counter). Both implement the same contract, a set of piece numbers below a fixed count; the
  contract is the locale \<open>piece_set\<close>, interpreted for each of them at the end.

  Piece numbers and counts are naturals; the code's \<open>u32\<close> and \<open>usize\<close> values never wrap in
  these routines, since every index that is used is below the count or below eight times the
  length of a byte slice.
\<close>

definition div_ceil :: "nat \<Rightarrow> nat \<Rightarrow> nat" where
  "div_ceil a b = (a + b - 1) div b"

lemma div_ceil_le: "0 < b \<Longrightarrow> div_ceil a b \<le> c \<longleftrightarrow> a \<le> b * c"
proof -
  assume b: "0 < b"
  have "(a + b - 1) div b \<le> c \<longleftrightarrow> (a + b - 1) < b * Suc c"
    using b by (simp add: div_less_iff_less_mult less_Suc_eq_le [symmetric] mult.commute)
  then show ?thesis using b by (auto simp: div_ceil_def)
qed

lemma less_div_ceil: "0 < b \<Longrightarrow> c < div_ceil a b \<longleftrightarrow> b * c < a"
  using div_ceil_le [of b a c] by linarith

lemma div_ceil_8_index:
  assumes "i < n"
  shows "i div 8 < div_ceil n 8"
proof -
  have "8 * (i div 8) < n"
    using times_div_less_eq_dividend [of 8 i] assms by (rule le_less_trans)
  then show ?thesis by (rule iffD2 [OF less_div_ceil, rotated]) simp
qed

lemma div_ceil_8_bound: "j < 8 * div_ceil n 8 \<Longrightarrow> j < n + 8"
  using times_div_less_eq_dividend [of 8 "n + 7"] by (simp add: div_ceil_def)

lemma less_8_cases:
  assumes "(r :: nat) < 8"
  obtains "r = 0" | "r = 1" | "r = 2" | "r = 3" | "r = 4" | "r = 5" | "r = 6" | "r = 7"
  using assms by arith

lemma div_ceil_8_split: "c < 8 \<Longrightarrow> div_ceil (8 * q + c) 8 = (if c = 0 then q else Suc q)"
  by (erule less_8_cases) (simp_all add: div_ceil_def)

section \<open>Bits of a byte list\<close>

text \<open>
  Position \<open>r\<close> (from 0) of a byte is bit \<open>pos r\<close> of the word: \<open>7 - r\<close> in a wire bitfield,
  \<open>r\<close> in the SFTP control file.
\<close>

definition msb_pos :: "nat \<Rightarrow> nat" where
  "msb_pos r = 7 - r"

definition lsb_pos :: "nat \<Rightarrow> nat" where
  "lsb_pos r = r"

definition bits_get :: "(nat \<Rightarrow> nat) \<Rightarrow> bytes \<Rightarrow> nat \<Rightarrow> bool" where
  "bits_get pos bs i \<longleftrightarrow> i div 8 < length bs \<and> bit (bs ! (i div 8)) (pos (i mod 8))"

lemma bits_get_replicate_0 [simp]: "\<not> bits_get pos (replicate n 0) i"
  by (simp add: bits_get_def)

definition bit_perm :: "(nat \<Rightarrow> nat) \<Rightarrow> bool" where
  "bit_perm pos \<longleftrightarrow> bij_betw pos {..<8} {..<8}"

lemma bit_perm_msb [simp]: "bit_perm msb_pos"
  unfolding bit_perm_def msb_pos_def
  by (rule bij_betw_byWitness [where f' = "\<lambda>r. 7 - r"]) auto

lemma bit_perm_lsb [simp]: "bit_perm lsb_pos"
  by (simp add: bit_perm_def lsb_pos_def [abs_def] bij_betw_def inj_on_def)

lemma bit_perm_less: "bit_perm pos \<Longrightarrow> r < 8 \<Longrightarrow> pos r < 8"
  unfolding bit_perm_def using bij_betwE by blast

lemma bit_perm_inj: "bit_perm pos \<Longrightarrow> r < 8 \<Longrightarrow> s < 8 \<Longrightarrow> pos r = pos s \<longleftrightarrow> r = s"
  unfolding bit_perm_def bij_betw_def inj_on_def by auto

lemma mask_test: "n < 8 \<Longrightarrow> (b AND push_bit n 1 \<noteq> 0) = bit b n" for b :: byte
  by (metis and_exp_eq_0_iff_not_bit push_bit_of_1)

lemma msb_mask: "r < 8 \<Longrightarrow> drop_bit r (0x80 :: byte) = push_bit (7 - r) 1"
  by (erule less_8_cases) (simp_all add: drop_bit_eq_div push_bit_eq_mult)

lemma bits_get_update:
  assumes "bit_perm pos" "i div 8 < length bs" "\<And>n. n < 8 \<Longrightarrow> n \<noteq> pos (i mod 8) \<Longrightarrow> bit b n = bit (bs ! (i div 8)) n"
  shows "bits_get pos (bs[i div 8 := b]) j = (if j = i then bit b (pos (i mod 8)) else bits_get pos bs j)"
proof (cases "j = i")
  case True
  with assms show ?thesis by (simp add: bits_get_def)
next
  case False
  show ?thesis
  proof (cases "j div 8 = i div 8")
    case True
    with False have "j mod 8 \<noteq> i mod 8" by (metis div_mult_mod_eq)
    with True False assms bit_perm_less [OF assms(1), of "j mod 8"] bit_perm_inj [OF assms(1), of "j mod 8" "i mod 8"]
    show ?thesis by (simp add: bits_get_def)
  next
    case False
    with \<open>j \<noteq> i\<close> show ?thesis by (auto simp: bits_get_def)
  qed
qed

definition count_ones :: "byte \<Rightarrow> nat" where
  "count_ones b = length (filter (bit b) [0..<8])"

lemma count_ones_perm:
  assumes "bit_perm pos"
  shows "count_ones b = card {r. r < 8 \<and> bit b (pos r)}"
proof -
  have "count_ones b = card {n. n < 8 \<and> bit b n}"
    by (auto simp: count_ones_def distinct_card [symmetric] intro: arg_cong [where f = card])
  also have "\<dots> = card (pos ` {r. r < 8 \<and> bit b (pos r)})"
    using assms by (intro arg_cong [where f = card]) (auto simp: bit_perm_def bij_betw_def image_iff)
  also have "\<dots> = card {r. r < 8 \<and> bit b (pos r)}"
    by (rule card_image) (use assms in \<open>auto simp: bit_perm_inj intro: inj_onI\<close>)
  finally show ?thesis .
qed

lemma bits_card:
  assumes "bit_perm pos"
  shows "sum_list (map count_ones bs) = card {i. bits_get pos bs i}"
proof (induction bs rule: rev_induct)
  case Nil
  then show ?case by (simp add: bits_get_def)
next
  case (snoc b bs)
  let ?n = "length bs"
  have split: "{i. bits_get pos (bs @ [b]) i} =
      {i. bits_get pos bs i} \<union> (\<lambda>r. 8 * ?n + r) ` {r. r < 8 \<and> bit b (pos r)}"
  proof (intro set_eqI iffI)
    fix i assume i: "i \<in> {i. bits_get pos (bs @ [b]) i}"
    show "i \<in> {i. bits_get pos bs i} \<union> (\<lambda>r. 8 * ?n + r) ` {r. r < 8 \<and> bit b (pos r)}"
    proof (cases "i div 8 < ?n")
      case True
      with i show ?thesis by (simp add: bits_get_def nth_append)
    next
      case False
      with i have "i div 8 = ?n" "bit b (pos (i mod 8))"
        by (auto simp: bits_get_def nth_append)
      moreover from this(1) have "i = 8 * ?n + i mod 8" by (metis mult_div_mod_eq)
      ultimately show ?thesis by (intro UnI2 image_eqI [of _ _ "i mod 8"]) auto
    qed
  next
    fix i assume "i \<in> {i. bits_get pos bs i} \<union> (\<lambda>r. 8 * ?n + r) ` {r. r < 8 \<and> bit b (pos r)}"
    then show "i \<in> {i. bits_get pos (bs @ [b]) i}"
      by (auto simp: bits_get_def nth_append)
  qed
  have fin: "finite {i. bits_get pos bs i}"
    by (rule finite_subset [of _ "{..<8 * ?n}"]) (auto simp: bits_get_def)
  have "card {i. bits_get pos (bs @ [b]) i} =
      card {i. bits_get pos bs i} + card ((\<lambda>r. 8 * ?n + r) ` {r. r < 8 \<and> bit b (pos r)})"
    unfolding split by (rule card_Un_disjoint [OF fin]) (auto simp: bits_get_def)
  also have "card ((\<lambda>r. 8 * ?n + r) ` {r. r < 8 \<and> bit b (pos r)}) = count_ones b"
    by (simp add: card_image inj_on_def count_ones_perm [OF assms])
  finally show ?case using snoc by simp
qed

section \<open>Sets of piece numbers\<close>

text \<open>
  What the callers of a bitmap rely on: \<open>add\<close> inserts a number below the count and ignores any
  other, \<open>num\<close> is the number of members.
\<close>

locale piece_set =
  fixes inv :: "'s \<Rightarrow> bool" and count :: "'s \<Rightarrow> nat" and mem :: "'s \<Rightarrow> nat \<Rightarrow> bool"
    and add :: "nat \<Rightarrow> 's \<Rightarrow> 's" and num :: "'s \<Rightarrow> nat"
  assumes mem_less: "inv s \<Longrightarrow> mem s i \<Longrightarrow> i < count s"
    and inv_add: "inv s \<Longrightarrow> inv (add i s)"
    and count_add: "inv s \<Longrightarrow> count (add i s) = count s"
    and mem_add: "inv s \<Longrightarrow> mem (add i s) j \<longleftrightarrow> j = i \<and> i < count s \<or> mem s j"
    and num_card: "inv s \<Longrightarrow> num s = card {i. mem s i}"
begin

lemma finite_mem: "inv s \<Longrightarrow> finite {i. mem s i}"
  by (rule finite_subset [of _ "{..<count s}"]) (auto dest: mem_less)

lemma num_le: "inv s \<Longrightarrow> num s \<le> count s"
  using card_mono [of "{..<count s}" "{i. mem s i}"] by (auto simp: num_card dest: mem_less)

lemma num_full: "inv s \<Longrightarrow> num s = count s \<longleftrightarrow> (\<forall>i < count s. mem s i)"
proof -
  assume s: "inv s"
  have sub: "{i. mem s i} \<subseteq> {..<count s}" using s by (auto dest: mem_less)
  have "num s = count s \<longleftrightarrow> {i. mem s i} = {..<count s}"
  proof
    assume "num s = count s"
    then have "card {i. mem s i} = card {..<count s}" by (simp add: num_card [OF s])
    then show "{i. mem s i} = {..<count s}" by (rule card_subset_eq [OF finite_lessThan sub])
  qed (simp add: num_card [OF s])
  also have "\<dots> \<longleftrightarrow> (\<forall>i < count s. mem s i)" using sub by auto
  finally show ?thesis .
qed

lemma num_add:
  assumes "inv s"
  shows "num (add i s) = num s + (if i < count s \<and> \<not> mem s i then 1 else 0)"
proof (cases "i < count s \<and> \<not> mem s i")
  case True
  then have "{j. mem (add i s) j} = insert i {j. mem s j}" using assms by (auto simp: mem_add)
  with True assms show ?thesis by (simp add: num_card inv_add finite_mem)
next
  case False
  then have "{j. mem (add i s) j} = {j. mem s j}" using assms by (auto simp: mem_add dest: mem_less)
  with False assms show ?thesis by (simp add: num_card inv_add)
qed

lemma fold_add:
  "inv s \<Longrightarrow> inv (fold add is s) \<and> count (fold add is s) = count s \<and>
    (\<forall>j. mem (fold add is s) j \<longleftrightarrow> j \<in> set is \<and> j < count s \<or> mem s j)"
proof (induction "is" arbitrary: s)
  case (Cons i "is")
  from Cons.IH [OF inv_add [OF Cons.prems, of i]] show ?case
    using Cons.prems by (auto simp: count_add mem_add)
qed simp

end

section \<open>The BitTorrent piece map\<close>

record piece_map =
  pm_count :: nat
  pm_bits :: bytes

definition pm_new :: "nat \<Rightarrow> piece_map" where
  "pm_new c = \<lparr>pm_count = c, pm_bits = replicate (div_ceil c 8) 0\<rparr>"

definition pm_set :: "nat \<Rightarrow> piece_map \<Rightarrow> piece_map" where
  "pm_set i m =
     (if i < pm_count m
      then m\<lparr>pm_bits := (pm_bits m)[i div 8 := (pm_bits m ! (i div 8)) OR drop_bit (i mod 8) 0x80]\<rparr>
      else m)"

definition pm_is_set :: "piece_map \<Rightarrow> nat \<Rightarrow> bool" where
  "pm_is_set m i =
     (if pm_count m \<le> i then False
      else (pm_bits m ! (i div 8)) AND drop_bit (i mod 8) 0x80 \<noteq> 0)"

definition pm_unset :: "nat \<Rightarrow> piece_map \<Rightarrow> piece_map" where
  "pm_unset i m =
     (if i < pm_count m
      then m\<lparr>pm_bits := (pm_bits m)[i div 8 := (pm_bits m ! (i div 8)) AND NOT (drop_bit (i mod 8) 0x80)]\<rparr>
      else m)"

definition pm_done_count :: "piece_map \<Rightarrow> nat" where
  "pm_done_count m = min (sum_list (map count_ones (pm_bits m))) (pm_count m)"

definition pm_all_done :: "piece_map \<Rightarrow> bool" where
  "pm_all_done m \<longleftrightarrow> pm_done_count m = pm_count m"

definition pm_set_all :: "piece_map \<Rightarrow> piece_map" where
  "pm_set_all m =
     (let bits = map (\<lambda>_. 0xFF) (pm_bits m); trailing = pm_count m mod 8
      in m\<lparr>pm_bits :=
        (if trailing \<noteq> 0 \<and> bits \<noteq> []
         then butlast bits @ [last bits AND push_bit (8 - trailing) 0xFF] else bits)\<rparr>)"

definition pm_clear :: "piece_map \<Rightarrow> piece_map" where
  "pm_clear m = m\<lparr>pm_bits := map (\<lambda>_. 0) (pm_bits m)\<rparr>"

definition pm_missing :: "piece_map \<Rightarrow> nat list" where
  "pm_missing m = filter (\<lambda>i. \<not> pm_is_set m i) [0..<pm_count m]"

definition to_bitfield :: "piece_map \<Rightarrow> bytes" where
  "to_bitfield m = pm_bits m"

text \<open>
  The two nested loops of \<open>set_from_bitfield\<close>, with their \<open>break\<close>s. The byte number is
  truncated to \<open>u32\<close> and multiplied in \<open>u32\<close>, so the base wraps at \<open>2 ^ 32\<close>.
\<close>

fun set_byte_bits :: "nat list \<Rightarrow> nat \<Rightarrow> byte \<Rightarrow> piece_map \<Rightarrow> piece_map" where
  "set_byte_bits [] base b m = m"
| "set_byte_bits (k # ks) base b m =
     (let idx = base + k
      in if pm_count m \<le> idx then m
         else set_byte_bits ks base b (if b AND drop_bit k 0x80 \<noteq> 0 then pm_set idx m else m))"

fun set_bytes_from :: "nat \<Rightarrow> bytes \<Rightarrow> piece_map \<Rightarrow> piece_map" where
  "set_bytes_from i [] m = m"
| "set_bytes_from i (b # bf) m =
     (let base = (i * 8) mod 2 ^ 32
      in if pm_count m \<le> base then m
         else set_bytes_from (Suc i) bf (set_byte_bits [0..<8] base b m))"

definition set_from_bitfield :: "bytes \<Rightarrow> piece_map \<Rightarrow> piece_map" where
  "set_from_bitfield bf m = set_bytes_from 0 bf m"

text \<open>The invariant: one bit per piece, and the padding bits of the last byte are zero.\<close>

definition pm_wf :: "piece_map \<Rightarrow> bool" where
  "pm_wf m \<longleftrightarrow> length (pm_bits m) = div_ceil (pm_count m) 8 \<and>
     (\<forall>i. bits_get msb_pos (pm_bits m) i \<longrightarrow> i < pm_count m)"

lemma pm_index: "pm_wf m \<Longrightarrow> i < pm_count m \<Longrightarrow> i div 8 < length (pm_bits m)"
  by (simp add: pm_wf_def div_ceil_8_index)

lemma msb_test: "r < 8 \<Longrightarrow> b AND drop_bit r 0x80 \<noteq> 0 \<longleftrightarrow> bit b (msb_pos r)" for b :: byte
  using mask_test [of "7 - r" b] by (simp add: msb_mask msb_pos_def)

lemma msb_bit: "r < 8 \<Longrightarrow> bit (drop_bit r (0x80 :: byte)) n \<longleftrightarrow> n = msb_pos r"
  by (auto simp: msb_mask msb_pos_def bit_exp_iff)

lemma pm_is_set_iff: "pm_wf m \<Longrightarrow> pm_is_set m i \<longleftrightarrow> bits_get msb_pos (pm_bits m) i"
  by (auto simp: pm_is_set_def msb_test pm_index bits_get_def pm_wf_def div_ceil_8_index not_le)

lemma pm_count_ops [simp]:
  "pm_count (pm_new c) = c" "pm_count (pm_set i m) = pm_count m"
  "pm_count (pm_unset i m) = pm_count m" "pm_count (pm_set_all m) = pm_count m"
  "pm_count (pm_clear m) = pm_count m"
  by (simp_all add: pm_new_def pm_set_def pm_unset_def pm_set_all_def pm_clear_def Let_def)

lemma pm_wf_new [simp]: "pm_wf (pm_new c)"
  by (auto simp: pm_wf_def pm_new_def bits_get_def)

lemma pm_is_set_new [simp]: "\<not> pm_is_set (pm_new c) i"
  by (auto simp: pm_is_set_iff bits_get_def) (simp add: pm_new_def)

lemma pm_get_set:
  assumes "pm_wf m"
  shows "bits_get msb_pos (pm_bits (pm_set i m)) j
    \<longleftrightarrow> j = i \<and> i < pm_count m \<or> bits_get msb_pos (pm_bits m) j"
proof (cases "i < pm_count m")
  case True
  with assms have "i div 8 < length (pm_bits m)" by (rule pm_index)
  then show ?thesis using True
    by (auto simp: pm_set_def bits_get_update [OF bit_perm_msb] bit_or_iff msb_bit)
qed (simp add: pm_set_def)

lemma pm_wf_set [simp]: "pm_wf m \<Longrightarrow> pm_wf (pm_set i m)"
  by (auto simp: pm_wf_def [of "pm_set i m"] pm_get_set) (auto simp: pm_wf_def pm_set_def)

lemma pm_is_set_set: "pm_wf m \<Longrightarrow> pm_is_set (pm_set i m) j \<longleftrightarrow> j = i \<and> i < pm_count m \<or> pm_is_set m j"
  by (simp add: pm_is_set_iff pm_get_set)

lemma pm_get_unset:
  assumes "pm_wf m"
  shows "bits_get msb_pos (pm_bits (pm_unset i m)) j \<longleftrightarrow> j \<noteq> i \<and> bits_get msb_pos (pm_bits m) j"
proof (cases "i < pm_count m")
  case True
  with assms have "i div 8 < length (pm_bits m)" by (rule pm_index)
  then show ?thesis using True
    by (auto simp: pm_unset_def bits_get_update [OF bit_perm_msb] bit_and_iff bit_not_iff msb_bit)
next
  case False
  with assms show ?thesis by (auto simp: pm_unset_def pm_wf_def)
qed

lemma pm_wf_unset [simp]: "pm_wf m \<Longrightarrow> pm_wf (pm_unset i m)"
  by (auto simp: pm_wf_def [of "pm_unset i m"] pm_get_unset) (auto simp: pm_wf_def pm_unset_def)

lemma pm_is_set_unset: "pm_wf m \<Longrightarrow> pm_is_set (pm_unset i m) j \<longleftrightarrow> j \<noteq> i \<and> pm_is_set m j"
  by (simp add: pm_is_set_iff pm_get_unset)

lemma pm_done_count_card: "pm_wf m \<Longrightarrow> pm_done_count m = card {i. pm_is_set m i}"
proof -
  assume m: "pm_wf m"
  have "card {i. pm_is_set m i} \<le> card {..<pm_count m}"
    by (rule card_mono) (auto simp: pm_is_set_def split: if_splits)
  with m show ?thesis
    by (simp add: pm_done_count_def bits_card [OF bit_perm_msb] pm_is_set_iff min_def)
qed

interpretation pm: piece_set pm_wf pm_count pm_is_set pm_set pm_done_count
proof
  show "pm_is_set s i \<Longrightarrow> i < pm_count s" for s i
    by (simp add: pm_is_set_def split: if_splits)
qed (simp_all add: pm_is_set_set pm_done_count_card)

lemma set_byte_bits_spec:
  assumes "pm_wf m" "sorted ks" "set ks \<subseteq> {..<8}"
  shows "pm_wf (set_byte_bits ks base b m) \<and> pm_count (set_byte_bits ks base b m) = pm_count m \<and>
    (\<forall>j. pm_is_set (set_byte_bits ks base b m) j \<longleftrightarrow>
      pm_is_set m j \<or> j < pm_count m \<and> (\<exists>k \<in> set ks. j = base + k \<and> bit b (msb_pos k)))"
  using assms
proof (induction ks arbitrary: m)
  case (Cons k ks)
  define m' where "m' = (if b AND drop_bit k 0x80 \<noteq> 0 then pm_set (base + k) m else m)"
  have k: "k < 8" using Cons.prems by simp
  have m': "pm_wf m'" "pm_count m' = pm_count m"
    "pm_is_set m' j \<longleftrightarrow> pm_is_set m j \<or> j = base + k \<and> j < pm_count m \<and> bit b (msb_pos k)" for j
    using Cons.prems msb_test [OF k, of b] by (auto simp: m'_def pm_is_set_set)
  show ?case
  proof (cases "pm_count m \<le> base + k")
    case True
    then have "\<not> base + k' < pm_count m" if "k' \<in> set (k # ks)" for k'
      using that Cons.prems(2) by auto
    with True Cons.prems(1) show ?thesis by auto
  next
    case False
    with Cons.IH [OF m'(1)] Cons.prems show ?thesis
      by (auto simp: m'_def [symmetric] m')
  qed
qed simp

lemma byte_bits_get:
  "(\<exists>k \<in> set [0..<8]. j = 8 * i + k \<and> bit b (msb_pos k)) \<longleftrightarrow>
   8 * i \<le> j \<and> j < 8 * i + 8 \<and> bits_get msb_pos (b # bf) (j - 8 * i)" (is "?L \<longleftrightarrow> ?R")
proof
  assume ?L
  then show ?R by (auto simp: bits_get_def)
next
  assume r: ?R
  then have "(j - 8 * i) div 8 = 0" "(j - 8 * i) mod 8 = j - 8 * i" by auto
  with r show ?L by (intro bexI [of _ "j - 8 * i"]) (auto simp: bits_get_def)
qed

lemma bits_get_shift: "8 * i + 8 \<le> j \<Longrightarrow>
    bits_get pos (b # bf) (j - 8 * i) \<longleftrightarrow> bits_get pos bf (j - 8 * Suc i)"
proof -
  assume "8 * i + 8 \<le> j"
  then obtain k where k: "j = 8 * i + 8 + k" by (auto simp: le_iff_add)
  have "(8 + k) div 8 = Suc (k div 8)" "(8 + k) mod 8 = k mod 8" by simp_all
  then show ?thesis by (simp add: k bits_get_def)
qed

lemma upt_8: "set [0..<8] \<subseteq> {..<8::nat}"
  by auto

lemma set_bytes_from_spec:
  assumes "pm_wf m" "pm_count m + 8 \<le> 2 ^ 32" "8 * i < 2 ^ 32"
  shows "pm_wf (set_bytes_from i bf m) \<and> pm_count (set_bytes_from i bf m) = pm_count m \<and>
    (\<forall>j. pm_is_set (set_bytes_from i bf m) j \<longleftrightarrow>
      pm_is_set m j \<or> 8 * i \<le> j \<and> j < pm_count m \<and> bits_get msb_pos bf (j - 8 * i))"
  using assms
proof (induction bf arbitrary: i m)
  case Nil
  then show ?case by (simp add: bits_get_def)
next
  case (Cons b bf)
  have base: "(i * 8) mod 2 ^ 32 = 8 * i" using Cons.prems(3) by (simp add: mult.commute)
  show ?case
  proof (cases "pm_count m \<le> 8 * i")
    case True
    then have eq: "set_bytes_from i (b # bf) m = m"
      by (simp only: set_bytes_from.simps base Let_def if_True)
    from True Cons.prems(1) show ?thesis unfolding eq by auto
  next
    case False
    define m' where "m' = set_byte_bits [0..<8] (8 * i) b m"
    have m': "pm_wf m'" "pm_count m' = pm_count m"
      "pm_is_set m' j \<longleftrightarrow> pm_is_set m j \<or> j < pm_count m \<and>
        (\<exists>k \<in> set [0..<8]. j = 8 * i + k \<and> bit b (msb_pos k))" for j
      using set_byte_bits_spec [OF Cons.prems(1) sorted_upt upt_8, of "8 * i" b]
      unfolding m'_def by blast+
    have "8 * Suc i < 2 ^ 32" using False Cons.prems(2) by simp
    with Cons.IH [OF m'(1)] m'(2) Cons.prems(2)
    have IH: "pm_wf (set_bytes_from (Suc i) bf m')"
      "pm_count (set_bytes_from (Suc i) bf m') = pm_count m"
      "pm_is_set (set_bytes_from (Suc i) bf m') j \<longleftrightarrow> pm_is_set m' j \<or>
        8 * Suc i \<le> j \<and> j < pm_count m \<and> bits_get msb_pos bf (j - 8 * Suc i)" for j
      by auto
    have step: "set_bytes_from i (b # bf) m = set_bytes_from (Suc i) bf m'"
      using False by (simp only: set_bytes_from.simps base Let_def m'_def if_False)
    have "pm_is_set (set_bytes_from (Suc i) bf m') j \<longleftrightarrow>
        pm_is_set m j \<or> 8 * i \<le> j \<and> j < pm_count m \<and> bits_get msb_pos (b # bf) (j - 8 * i)" for j
      unfolding IH(3) m'(3) byte_bits_get [of j i b bf] using bits_get_shift [of i j msb_pos b bf]
      by (cases "8 * i + 8 \<le> j") auto
    with IH step show ?thesis by simp
  qed
qed

lemma set_from_bitfield_wf [simp]:
  "pm_wf m \<Longrightarrow> pm_count m + 8 \<le> 2 ^ 32 \<Longrightarrow> pm_wf (set_from_bitfield bf m)"
  "pm_wf m \<Longrightarrow> pm_count m + 8 \<le> 2 ^ 32 \<Longrightarrow> pm_count (set_from_bitfield bf m) = pm_count m"
  using set_bytes_from_spec [of m 0 bf] by (simp_all add: set_from_bitfield_def)

lemma pm_is_set_from_bitfield:
  "pm_wf m \<Longrightarrow> pm_count m + 8 \<le> 2 ^ 32 \<Longrightarrow>
   pm_is_set (set_from_bitfield bf m) j \<longleftrightarrow> pm_is_set m j \<or> j < pm_count m \<and> bits_get msb_pos bf j"
  using set_bytes_from_spec [of m 0 bf] by (simp add: set_from_bitfield_def)

text \<open>Two well-formed maps with the same members are equal: the bytes carry nothing else.\<close>

lemma bits_get_ext:
  assumes "bit_perm pos" "length xs = length ys" "\<And>i. bits_get pos xs i = bits_get pos ys i"
  shows "xs = ys"
proof (rule nth_equalityI [OF assms(2)])
  fix k assume k: "k < length xs"
  show "xs ! k = ys ! k"
  proof (rule bit_word_eqI)
    fix n assume "n < LENGTH(8)"
    then have "n \<in> pos ` {..<8}" using assms(1) by (simp add: bit_perm_def bij_betw_def)
    then obtain r where "r < 8" "pos r = n" by auto
    then have "(8 * k + r) div 8 = k" "(8 * k + r) mod 8 = r" "pos r = n" by simp_all
    with assms(3) [of "8 * k + r"] k assms(2) show "bit (xs ! k) n = bit (ys ! k) n"
      by (simp add: bits_get_def)
  qed
qed

lemma pm_ext:
  assumes "pm_wf m" "pm_wf m'" "pm_count m = pm_count m'"
    and "\<And>i. i < pm_count m \<Longrightarrow> pm_is_set m i = pm_is_set m' i"
  shows "m = m'"
proof -
  have "pm_bits m = pm_bits m'"
  proof (rule bits_get_ext [OF bit_perm_msb])
    show "length (pm_bits m) = length (pm_bits m')" using assms by (simp add: pm_wf_def)
    show "bits_get msb_pos (pm_bits m) i = bits_get msb_pos (pm_bits m') i" for i
      using assms pm_is_set_iff [of m i] pm_is_set_iff [of m' i]
      by (cases "i < pm_count m") (auto simp: pm_is_set_def)
  qed
  with assms(3) show ?thesis by simp
qed

lemma byte_ff [simp]: "(255 :: byte) AND x = x" "bit (255 :: byte) n \<longleftrightarrow> n < 8"
proof -
  have ff: "(255 :: byte) = - 1" by simp
  show "(255 :: byte) AND x = x" by (simp only: ff and.left_neutral)
  show "bit (255 :: byte) n \<longleftrightarrow> n < 8" by (simp only: ff bit_minus_1_iff) simp
qed

lemma nth_set_all:
  assumes "k < length (pm_bits m)"
  shows "pm_bits (pm_set_all m) ! k =
    (if pm_count m mod 8 \<noteq> 0 \<and> Suc k = length (pm_bits m)
     then push_bit (8 - pm_count m mod 8) 0xFF else 0xFF)"
proof -
  have "last (map (\<lambda>_. 0xFF :: byte) (pm_bits m)) = 0xFF"
    using assms by (cases "pm_bits m" rule: rev_cases) auto
  with assms show ?thesis
    by (auto simp: pm_set_all_def Let_def nth_append nth_butlast)
qed

lemma length_set_all [simp]: "length (pm_bits (pm_set_all m)) = length (pm_bits m)"
  by (auto simp: pm_set_all_def Let_def)

lemma pm_wf_is_set_set_all:
  assumes "pm_wf m"
  shows "bits_get msb_pos (pm_bits (pm_set_all m)) i \<longleftrightarrow> i < pm_count m"
proof (cases "i div 8 < length (pm_bits m)")
  case False
  with pm_index [OF assms, of i] show ?thesis by (auto simp: bits_get_def)
next
  case True
  define k r c q where "k = i div 8" and "r = i mod 8" and "c = pm_count m mod 8" and "q = pm_count m div 8"
  have i: "i = 8 * k + r" "r < 8" and n: "pm_count m = 8 * q + c" "c < 8"
    by (simp_all add: k_def r_def c_def q_def)
  have len: "length (pm_bits m) = (if c = 0 then q else Suc q)"
    using assms n by (simp add: pm_wf_def div_ceil_8_split)
  from True have "k < length (pm_bits m)" by (simp add: k_def)
  then have nth: "pm_bits (pm_set_all m) ! k =
      (if c \<noteq> 0 \<and> k = q then push_bit (8 - c) 0xFF else 0xFF)"
    by (simp add: nth_set_all c_def [symmetric] len)
  have "bits_get msb_pos (pm_bits (pm_set_all m)) i \<longleftrightarrow> (if c \<noteq> 0 \<and> k = q then r < c else True)"
    using True i(2) n(2)
    by (auto simp: bits_get_def k_def [symmetric] r_def [symmetric] nth msb_pos_def bit_push_bit_iff
        simp del: bit_numeral_word_iff)
  also have "\<dots> \<longleftrightarrow> i < pm_count m"
    using i n True by (auto simp: len k_def [symmetric] split: if_splits)
  finally show ?thesis .
qed

lemma pm_wf_set_all [simp]: "pm_wf m \<Longrightarrow> pm_wf (pm_set_all m)"
  using pm_wf_is_set_set_all [of m] by (simp add: pm_wf_def [of "pm_set_all m"]) (simp add: pm_wf_def)

lemma pm_is_set_set_all: "pm_wf m \<Longrightarrow> pm_is_set (pm_set_all m) i \<longleftrightarrow> i < pm_count m"
  by (simp add: pm_is_set_iff pm_wf_is_set_set_all)

lemma pm_wf_clear [simp]: "pm_wf m \<Longrightarrow> pm_wf (pm_clear m)"
  by (auto simp: pm_wf_def pm_clear_def bits_get_def)

lemma pm_is_set_clear: "pm_wf m \<Longrightarrow> \<not> pm_is_set (pm_clear m) i"
  by (simp add: pm_is_set_iff) (auto simp: bits_get_def pm_clear_def)

section \<open>The SFTP resume bitmap\<close>

definition PIECE_LEN :: nat where
  "PIECE_LEN = 1024 * 1024"

definition VERSION :: nat where
  "VERSION = 1"

definition MAGIC :: string where
  "MAGIC = ''xfer-sftp''"

record bitmap =
  bm_bits :: bytes
  bm_pieces :: nat
  bm_done :: nat

definition bm_new :: "nat \<Rightarrow> bitmap" where
  "bm_new tot =
     (let pieces = div_ceil tot PIECE_LEN
      in \<lparr>bm_bits = replicate (div_ceil pieces 8) 0, bm_pieces = pieces, bm_done = 0\<rparr>)"

definition bm_is_done :: "bitmap \<Rightarrow> nat \<Rightarrow> bool" where
  "bm_is_done b idx \<longleftrightarrow> idx < bm_pieces b \<and> (bm_bits b ! (idx div 8)) AND push_bit (idx mod 8) 1 \<noteq> 0"

text \<open>\<open>mark\<close> returns whether the piece was newly marked, and the updated bitmap.\<close>

definition bm_mark :: "nat \<Rightarrow> bitmap \<Rightarrow> bool \<times> bitmap" where
  "bm_mark idx b =
     (if bm_pieces b \<le> idx then (False, b)
      else let byte = bm_bits b ! (idx div 8); mask = push_bit (idx mod 8) 1
           in if byte AND mask \<noteq> 0 then (False, b)
              else (True, b\<lparr>bm_bits := (bm_bits b)[idx div 8 := byte OR mask], bm_done := bm_done b + 1\<rparr>))"

definition bm_is_complete :: "bitmap \<Rightarrow> bool" where
  "bm_is_complete b \<longleftrightarrow> bm_done b = bm_pieces b"

definition bm_done_bytes :: "bitmap \<Rightarrow> nat \<Rightarrow> nat" where
  "bm_done_bytes b tot =
     (if bm_pieces b = 0 then 0
      else let tail_len = tot - (bm_pieces b - 1) * PIECE_LEN
           in sum_list (map (\<lambda>i. if i + 1 = bm_pieces b then tail_len else PIECE_LEN)
                (filter (bm_is_done b) [0..<bm_pieces b])))"

text \<open>
  The hex text of the bitmap is produced and read by the \<open>hex\<close> crate, a parameter here
  (\<open>hex_encode\<close>, \<open>hex_decode\<close>).
\<close>

definition bm_from_hex :: "(string \<Rightarrow> bytes option) \<Rightarrow> string \<Rightarrow> nat \<Rightarrow> bitmap option" where
  "bm_from_hex hex_decode hex pieces =
     (case hex_decode hex of
        None \<Rightarrow> None
      | Some bs \<Rightarrow>
          if length bs \<noteq> div_ceil pieces 8 then None
          else
            let b = \<lparr>bm_bits =
                      (if pieces mod 8 \<noteq> 0 \<and> bs \<noteq> []
                       then butlast bs @ [last bs AND (push_bit (pieces mod 8) 1 - 1)] else bs),
                     bm_pieces = pieces, bm_done = 0\<rparr>
            in Some (b\<lparr>bm_done := length (filter (bm_is_done b) [0..<pieces])\<rparr>))"

definition bm_to_hex :: "(bytes \<Rightarrow> string) \<Rightarrow> bitmap \<Rightarrow> string" where
  "bm_to_hex hex_encode b = hex_encode (bm_bits b)"

record ctrl_file =
  cf_magic :: string
  cf_v :: nat
  cf_total :: nat
  cf_piece :: nat
  cf_remote :: string
  cf_done :: string

text \<open>
  \<open>ctrl_load\<close> starts from the parsed control file: \<open>None\<close> when the file cannot be read or is
  not the JSON object \<open>serde\<close> expects. \<open>ctrl_save\<close> is the object that is written.
\<close>

definition ctrl_load :: "(string \<Rightarrow> bytes option) \<Rightarrow> ctrl_file option \<Rightarrow> nat \<Rightarrow> string \<Rightarrow> bitmap option" where
  "ctrl_load hex_decode file tot remote =
     (case file of
        None \<Rightarrow> None
      | Some cf \<Rightarrow>
          if cf_magic cf \<noteq> MAGIC \<or> cf_v cf \<noteq> VERSION \<or> cf_total cf \<noteq> tot \<or> cf_piece cf \<noteq> PIECE_LEN
          then None
          else if cf_remote cf \<noteq> remote then None
          else bm_from_hex hex_decode (cf_done cf) (div_ceil tot PIECE_LEN))"

definition ctrl_save :: "(bytes \<Rightarrow> string) \<Rightarrow> nat \<Rightarrow> string \<Rightarrow> bitmap \<Rightarrow> ctrl_file" where
  "ctrl_save hex_encode tot remote b =
     \<lparr>cf_magic = MAGIC, cf_v = VERSION, cf_total = tot, cf_piece = PIECE_LEN,
      cf_remote = remote, cf_done = bm_to_hex hex_encode b\<rparr>"

text \<open>\<open>data_len\<close> is the length of the target file, \<open>None\<close> when its metadata cannot be read.\<close>

definition resume_bytes :: "(string \<Rightarrow> bytes option) \<Rightarrow> nat option \<Rightarrow> ctrl_file option \<Rightarrow> nat \<Rightarrow> string \<Rightarrow> nat" where
  "resume_bytes hex_decode data_len file tot remote =
     (if tot = 0 then 0
      else if (case data_len of None \<Rightarrow> 0 | Some l \<Rightarrow> l) \<noteq> tot then 0
      else case ctrl_load hex_decode file tot remote of
             None \<Rightarrow> 0 | Some b \<Rightarrow> bm_done_bytes b tot)"

definition can_resume :: "(string \<Rightarrow> bytes option) \<Rightarrow> nat option \<Rightarrow> ctrl_file option \<Rightarrow> nat \<Rightarrow> string \<Rightarrow> bool" where
  "can_resume hex_decode data_len file tot remote =
     (if tot = 0 then False
      else case data_len of
             None \<Rightarrow> False
           | Some l \<Rightarrow>
               if l \<noteq> tot then False
               else (case ctrl_load hex_decode file tot remote of
                       None \<Rightarrow> False | Some b \<Rightarrow> \<not> bm_is_complete b))"

definition bm_wf :: "bitmap \<Rightarrow> bool" where
  "bm_wf b \<longleftrightarrow> length (bm_bits b) = div_ceil (bm_pieces b) 8 \<and>
     (\<forall>i. bits_get lsb_pos (bm_bits b) i \<longrightarrow> i < bm_pieces b) \<and>
     bm_done b = card {i. bits_get lsb_pos (bm_bits b) i}"

lemma lsb_test: "r < 8 \<Longrightarrow> b AND push_bit r 1 \<noteq> 0 \<longleftrightarrow> bit b (lsb_pos r)" for b :: byte
  unfolding lsb_pos_def by (rule mask_test)

lemma bm_is_done_raw: "length (bm_bits b) = div_ceil (bm_pieces b) 8 \<Longrightarrow>
    bm_is_done b i \<longleftrightarrow> i < bm_pieces b \<and> bits_get lsb_pos (bm_bits b) i"
  using lsb_test [of "i mod 8" "bm_bits b ! (i div 8)"]
  by (auto simp: bm_is_done_def bits_get_def div_ceil_8_index)

lemma bm_is_done_iff: "bm_wf b \<Longrightarrow> bm_is_done b i \<longleftrightarrow> bits_get lsb_pos (bm_bits b) i"
  using bm_is_done_raw [of b i] by (auto simp: bm_wf_def)

lemma bm_mark_fst: "fst (bm_mark i b) \<longleftrightarrow> i < bm_pieces b \<and> \<not> bm_is_done b i"
  by (auto simp: bm_mark_def bm_is_done_def Let_def)

lemma bm_mark_noop: "\<not> fst (bm_mark i b) \<Longrightarrow> snd (bm_mark i b) = b"
  by (auto simp: bm_mark_def Let_def split: if_splits)

lemma bm_mark_pieces [simp]: "bm_pieces (snd (bm_mark i b)) = bm_pieces b"
  by (simp add: bm_mark_def Let_def)

lemma bm_mark_get:
  assumes "bm_wf b" "fst (bm_mark i b)"
  shows "bits_get lsb_pos (bm_bits (snd (bm_mark i b))) j \<longleftrightarrow> j = i \<or> bits_get lsb_pos (bm_bits b) j"
proof -
  from assms(2) have i: "i < bm_pieces b" by (simp add: bm_mark_fst)
  with assms(1) have len: "i div 8 < length (bm_bits b)" by (simp add: bm_wf_def div_ceil_8_index)
  define byte where "byte = bm_bits b ! (i div 8) OR push_bit (i mod 8) 1"
  have bits: "bm_bits (snd (bm_mark i b)) = (bm_bits b)[i div 8 := byte]"
    using assms(2) by (auto simp: bm_mark_def Let_def byte_def split: if_splits)
  have "bit byte n \<longleftrightarrow> n = i mod 8 \<or> bit (bm_bits b ! (i div 8)) n" for n
    by (auto simp: byte_def bit_or_iff bit_exp_iff)
  then show ?thesis
    unfolding bits by (subst bits_get_update [OF bit_perm_lsb len]) (auto simp: lsb_pos_def)
qed

lemma bm_wf_mark: "bm_wf b \<Longrightarrow> bm_wf (snd (bm_mark i b))"
proof (cases "fst (bm_mark i b)")
  case True
  assume b: "bm_wf b"
  let ?b = "snd (bm_mark i b)"
  from True have i: "i < bm_pieces b" "\<not> bm_is_done b i" by (auto simp: bm_mark_fst)
  have bits: "{j. bits_get lsb_pos (bm_bits ?b) j} = insert i {j. bits_get lsb_pos (bm_bits b) j}"
    using bm_mark_get [OF b True] by auto
  have fin: "finite {j. bits_get lsb_pos (bm_bits b) j}"
    by (rule finite_subset [of _ "{..<bm_pieces b}"]) (use b in \<open>auto simp: bm_wf_def\<close>)
  have len: "length (bm_bits ?b) = length (bm_bits b)" and "bm_done ?b = Suc (bm_done b)"
    using True by (auto simp: bm_mark_def Let_def split: if_splits)
  have "card {j. bits_get lsb_pos (bm_bits ?b) j} = Suc (card {j. bits_get lsb_pos (bm_bits b) j})"
    using b i fin by (simp add: bits bm_is_done_iff)
  moreover have "j < bm_pieces b" if "bits_get lsb_pos (bm_bits ?b) j" for j
    using that b i by (auto simp: bm_mark_get [OF b True] bm_wf_def)
  ultimately show ?thesis
    using b len \<open>bm_done ?b = Suc (bm_done b)\<close> by (simp add: bm_wf_def)
qed (simp add: bm_mark_noop)

lemma bm_done_mark: "bm_wf b \<Longrightarrow> bm_is_done (snd (bm_mark i b)) j \<longleftrightarrow> j = i \<and> i < bm_pieces b \<or> bm_is_done b j"
proof (cases "fst (bm_mark i b)")
  case True
  assume "bm_wf b"
  with True show ?thesis
    by (auto simp: bm_is_done_iff bm_wf_mark bm_mark_get bm_mark_fst)
next
  case False
  assume "bm_wf b"
  from False show ?thesis using False [unfolded bm_mark_fst] by (auto simp: bm_mark_noop)
qed

interpretation bm: piece_set bm_wf bm_pieces bm_is_done "\<lambda>i b. snd (bm_mark i b)" bm_done
proof
  show "bm_is_done s i \<Longrightarrow> i < bm_pieces s" for s i by (simp add: bm_is_done_def)
  show "bm_wf s \<Longrightarrow> bm_done s = card {i. bm_is_done s i}" for s
    by (simp add: bm_is_done_iff) (simp add: bm_wf_def)
qed (simp_all add: bm_wf_mark bm_done_mark)

lemma bm_wf_new [simp]: "bm_wf (bm_new tot)"
  by (simp add: bm_wf_def bm_new_def Let_def)

section \<open>The piece map implements a set\<close>

text \<open>
  The abstract specification: a sequence of operations on a set of piece numbers below a count.
\<close>

datatype pm_op = Set nat | Unset nat | Set_all | Clear | Merge bytes

fun pm_run :: "pm_op \<Rightarrow> piece_map \<Rightarrow> piece_map" where
  "pm_run (Set i) m = pm_set i m"
| "pm_run (Unset i) m = pm_unset i m"
| "pm_run Set_all m = pm_set_all m"
| "pm_run Clear m = pm_clear m"
| "pm_run (Merge bf) m = set_from_bitfield bf m"

fun pm_spec :: "nat \<Rightarrow> pm_op \<Rightarrow> nat set \<Rightarrow> nat set" where
  "pm_spec c (Set i) S = (if i < c then insert i S else S)"
| "pm_spec c (Unset i) S = S - {i}"
| "pm_spec c Set_all S = {..<c}"
| "pm_spec c Clear S = {}"
| "pm_spec c (Merge bf) S = S \<union> {i. i < c \<and> bits_get msb_pos bf i}"

definition pm_abs :: "piece_map \<Rightarrow> nat set" where
  "pm_abs m = {i. pm_is_set m i}"

lemma pm_run_step:
  assumes "pm_wf m" "pm_count m + 8 \<le> 2 ^ 32"
  shows "pm_wf (pm_run f m) \<and> pm_count (pm_run f m) = pm_count m
    \<and> pm_abs (pm_run f m) = pm_spec (pm_count m) f (pm_abs m)"
  using assms
  by (cases f) (auto simp: pm_abs_def pm_is_set_set pm_is_set_unset pm_is_set_set_all pm_is_set_clear
      pm_is_set_from_bitfield)

lemma pm_run_fold:
  assumes "pm_wf m" "pm_count m + 8 \<le> 2 ^ 32"
  shows "pm_wf (fold pm_run ops m) \<and> pm_count (fold pm_run ops m) = pm_count m
    \<and> pm_abs (fold pm_run ops m) = fold (pm_spec (pm_count m)) ops (pm_abs m)"
  using assms
proof (induction ops arbitrary: m)
  case (Cons f ops)
  with pm_run_step [OF Cons.prems, of f] show ?case by simp
qed simp

text \<open>
  C32. Every sequence of piece-map operations (set, unset, set_all, clear, merging a received
  bitfield of any length) started on a fresh map computes the set of piece numbers the
  specification gives, and keeps the invariant that padding bits stay zero.
\<close>

theorem piece_map_refines_set:
  assumes "c + 8 \<le> 2 ^ 32"
  shows "pm_wf (fold pm_run ops (pm_new c))
    \<and> pm_abs (fold pm_run ops (pm_new c)) = fold (pm_spec c) ops {}"
  using pm_run_fold [of "pm_new c" ops] assms by (simp add: pm_abs_def)

theorem piece_map_refines_set_witness:
  "pm_wf (fold pm_run [Set_all, Unset 3, Merge [0x10]] (pm_new 10))
    \<and> pm_abs (fold pm_run [Set_all, Unset 3, Merge [0x10]] (pm_new 10))
      = fold (pm_spec 10) [Set_all, Unset 3, Merge [0x10]] {}"
  by (rule piece_map_refines_set) simp

text \<open>
  The counters agree with the set: done_count is the number of set pieces, missing lists the
  others in ascending order, the two add up to the count, and all_done says that none is missing.
\<close>

theorem piece_map_counts:
  assumes "pm_wf m"
  shows "pm_done_count m = card (pm_abs m) \<and> set (pm_missing m) = {..<pm_count m} - pm_abs m
    \<and> sorted (pm_missing m) \<and> distinct (pm_missing m)
    \<and> pm_done_count m + length (pm_missing m) = pm_count m
    \<and> (pm_all_done m \<longleftrightarrow> pm_missing m = [])"
proof -
  have sub: "pm_abs m \<subseteq> {..<pm_count m}"
    using pm.mem_less [OF assms] by (auto simp: pm_abs_def)
  have miss: "set (pm_missing m) = {..<pm_count m} - pm_abs m"
    by (auto simp: pm_missing_def pm_abs_def)
  have dist: "distinct (pm_missing m)" "sorted (pm_missing m)"
    by (simp_all add: pm_missing_def sorted_wrt_filter)
  have "length (pm_missing m) = card ({..<pm_count m} - pm_abs m)"
    using distinct_card [OF dist(1)] miss by simp
  also have "\<dots> = pm_count m - card (pm_abs m)"
    using card_Diff_subset [OF finite_subset [OF sub finite_lessThan] sub] by simp
  finally have "length (pm_missing m) = pm_count m - card (pm_abs m)" .
  moreover have "card (pm_abs m) \<le> pm_count m"
    using card_mono [OF finite_lessThan sub] by simp
  ultimately have sum: "card (pm_abs m) + length (pm_missing m) = pm_count m"
    by linarith
  have "pm_done_count m = card (pm_abs m)"
    using pm.num_card [OF assms] by (simp add: pm_abs_def)
  moreover have "pm_missing m = [] \<longleftrightarrow> length (pm_missing m) = 0" by simp
  ultimately show ?thesis using sum miss dist unfolding pm_all_done_def by linarith
qed

theorem piece_map_counts_witness:
  "pm_done_count (pm_set 2 (pm_new 11)) + length (pm_missing (pm_set 2 (pm_new 11))) = 11"
  using piece_map_counts [of "pm_set 2 (pm_new 11)"] by simp

text \<open>
  The wire bitfield of a map restores the map on the other side, and merging a bitfield twice
  is the same as merging it once.
\<close>

theorem bitfield_roundtrip:
  assumes "pm_wf m" "pm_count m + 8 \<le> 2 ^ 32"
  shows "set_from_bitfield (to_bitfield m) (pm_new (pm_count m)) = m
    \<and> set_from_bitfield bf (set_from_bitfield bf m) = set_from_bitfield bf m"
proof -
  have "set_from_bitfield (to_bitfield m) (pm_new (pm_count m)) = m"
    using assms
    by (intro pm_ext) (simp_all add: pm_is_set_from_bitfield to_bitfield_def pm_is_set_iff [of m])
  moreover have "set_from_bitfield bf (set_from_bitfield bf m) = set_from_bitfield bf m"
    using assms by (intro pm_ext) (auto simp: pm_is_set_from_bitfield)
  ultimately show ?thesis ..
qed

theorem bitfield_roundtrip_witness:
  "set_from_bitfield (to_bitfield (pm_set 9 (pm_new 12))) (pm_new 12) = pm_set 9 (pm_new 12)"
  using bitfield_roundtrip [of "pm_set 9 (pm_new 12)"] by simp

section \<open>Properties of the resume control file\<close>

lemma bm_from_hex_Some:
  assumes "bm_from_hex dec h n = Some b"
  shows "bm_wf b \<and> bm_pieces b = n
    \<and> (\<exists>bs. dec h = Some bs \<and> (\<forall>i. bm_is_done b i \<longleftrightarrow> i < n \<and> bits_get lsb_pos bs i))"
proof -
  define c where "c = n mod 8"
  have c: "c < 8" "n = 8 * (n div 8) + c" by (simp_all add: c_def)
  from assms obtain bs where bs: "dec h = Some bs" and len: "length bs = div_ceil n 8"
    by (auto simp: bm_from_hex_def split: option.splits if_splits)
  define bits where "bits = (if c \<noteq> 0 \<and> bs \<noteq> []
      then butlast bs @ [last bs AND (push_bit c 1 - 1)] else bs)"
  have b: "bm_bits b = bits" "bm_pieces b = n" "bm_done b = length (filter (bm_is_done b) [0..<n])"
    using assms bs len
    by (auto simp: bm_from_hex_def Let_def bits_def c_def bm_is_done_def cong: filter_cong)
  have lb: "length bits = div_ceil n 8" using len by (cases bs rule: rev_cases) (auto simp: bits_def)
  have get: "bits_get lsb_pos bits i \<longleftrightarrow> i < n \<and> bits_get lsb_pos bs i" for i
  proof (cases "i div 8 < length bs")
    case False
    then show ?thesis by (simp add: bits_get_def lb len)
  next
    case True
    define k r q where "k = i div 8" and "r = i mod 8" and "q = n div 8"
    have i: "i = 8 * k + r" "r < 8" by (simp_all add: k_def r_def)
    have lenq: "length bs = (if c = 0 then q else Suc q)"
      using div_ceil_8_split [OF c(1), of q] c(2) by (simp add: len q_def)
    have k: "k < length bs" using True by (simp add: k_def)
    have mask: "bit (push_bit c 1 - 1 :: byte) r \<longleftrightarrow> r < c" if "c \<noteq> 0"
      using i(2) by (simp flip: mask_eq_exp_minus_1 add: bit_mask_iff)
    have "bits ! k = (if c \<noteq> 0 \<and> k = q then bs ! k AND (push_bit c 1 - 1) else bs ! k)"
      using k lenq by (auto simp: bits_def nth_append nth_butlast last_conv_nth)
    moreover have "i < n \<longleftrightarrow> (c \<noteq> 0 \<and> k = q \<longrightarrow> r < c)"
      using i c k lenq by (auto simp: q_def [symmetric] split: if_splits)
    ultimately show ?thesis
      using k mask lb len by (auto simp: bits_get_def k_def [symmetric] r_def [symmetric] lsb_pos_def bit_and_iff)
  qed
  have done_iff: "bm_is_done b i \<longleftrightarrow> i < n \<and> bits_get lsb_pos bs i" for i
    using bm_is_done_raw [of b i] lb by (simp add: b get)
  have "bm_done b = card {i. bits_get lsb_pos bits i}"
    using distinct_card [of "filter (bm_is_done b) [0..<n]"]
    by (auto simp: b(3) done_iff get intro!: arg_cong [where f = card])
  then show ?thesis
    using bs done_iff lb get by (auto simp: bm_wf_def b(1,2))
qed

lemma sum_pieces_tail:
  "0 < n \<Longrightarrow> (\<Sum>i\<leftarrow>filter P [0..<n]. if i + 1 = n then t else L)
     = L * length (filter P [0..<n - 1]) + (if P (n - 1) then t else (0 :: nat))"
proof -
  assume "0 < n"
  then obtain k where n: "n = Suc k" by (cases n) auto
  have "(\<Sum>i\<leftarrow>filter P [0..<k]. if i + 1 = Suc k then t else L) = (\<Sum>i\<leftarrow>filter P [0..<k]. L)"
    by (rule arg_cong [where f = sum_list], rule map_cong) auto
  then show ?thesis by (simp add: n sum_list_triv mult.commute)
qed

lemma tail_fill: "x \<le> y \<Longrightarrow> y < (t :: nat) \<Longrightarrow>
    x + (if p then t - y else 0) \<le> t \<and> (x + (if p then t - y else 0) = t \<longleftrightarrow> x = y \<and> p)"
  by auto

lemma PIECE_LEN_pos [simp]: "0 < PIECE_LEN"
  by (simp add: PIECE_LEN_def)

lemma bm_tail:
  assumes "0 < tot"
  shows "(div_ceil tot PIECE_LEN - 1) * PIECE_LEN < tot \<and> tot \<le> div_ceil tot PIECE_LEN * PIECE_LEN
    \<and> 0 < div_ceil tot PIECE_LEN"
proof -
  let ?n = "div_ceil tot PIECE_LEN"
  have pos: "0 < ?n" using assms by (simp add: less_div_ceil)
  then have "?n - 1 < ?n" by simp
  then have "PIECE_LEN * (?n - 1) < tot" by (rule iffD1 [OF less_div_ceil [OF PIECE_LEN_pos]])
  moreover have "tot \<le> PIECE_LEN * ?n" by (rule iffD1 [OF div_ceil_le [OF PIECE_LEN_pos]]) simp
  ultimately show ?thesis using pos by (simp add: mult.commute)
qed

text \<open>
  Whatever control file is on disk, a bitmap it yields satisfies the invariant (padding bits
  dropped, counter recomputed), has the piece count of the total length, and its byte count never
  exceeds that length; it equals the length exactly when the bitmap is complete.
\<close>

theorem ctrl_load_sound:
  assumes "ctrl_load dec file tot remote = Some b"
  shows "bm_wf b \<and> bm_pieces b = div_ceil tot PIECE_LEN \<and> bm_done_bytes b tot \<le> tot
    \<and> (bm_done_bytes b tot = tot \<longleftrightarrow> bm_is_complete b)"
proof -
  let ?n = "div_ceil tot PIECE_LEN"
  from assms have "\<exists>h. bm_from_hex dec h ?n = Some b"
    by (auto simp: ctrl_load_def split: option.splits if_splits)
  then obtain h where "bm_from_hex dec h ?n = Some b" ..
  from bm_from_hex_Some [OF this] have b: "bm_wf b" "bm_pieces b = ?n" by auto
  show ?thesis
  proof (cases "tot = 0")
    case True
    then have "?n = 0" by (simp add: div_ceil_def PIECE_LEN_def)
    with True b bm.num_le [OF b(1)] show ?thesis by (simp add: bm_done_bytes_def bm_is_complete_def)
  next
    case False
    then have tail: "(?n - 1) * PIECE_LEN < tot" "0 < ?n" using bm_tail [of tot] by auto
    define d where "d = length (filter (bm_is_done b) [0..<?n - 1])"
    have "d \<le> length [0..<?n - 1]" unfolding d_def by (rule length_filter_le)
    then have d: "d \<le> ?n - 1" by simp
    have bytes: "bm_done_bytes b tot
        = PIECE_LEN * d + (if bm_is_done b (?n - 1) then tot - (?n - 1) * PIECE_LEN else 0)"
      using sum_pieces_tail [OF tail(2), of "tot - (?n - 1) * PIECE_LEN" PIECE_LEN "bm_is_done b"] tail(2)
      unfolding bm_done_bytes_def b(2) Let_def d_def by simp
    have mono: "PIECE_LEN * d \<le> (?n - 1) * PIECE_LEN"
      using d by (simp add: mult.commute)
    have full: "PIECE_LEN * d = (?n - 1) * PIECE_LEN \<longleftrightarrow> d = ?n - 1"
      by (simp add: mult.commute PIECE_LEN_def)
    have "d = ?n - 1 \<longleftrightarrow> (\<forall>i < ?n - 1. bm_is_done b i)"
    proof -
      have "d = ?n - 1 \<longleftrightarrow> length (filter (bm_is_done b) [0..<?n - 1]) = length [0..<?n - 1]"
        by (simp add: d_def)
      also have "\<dots> \<longleftrightarrow> (\<forall>i \<in> set [0..<?n - 1]. bm_is_done b i)"
        by (metis filter_id_conv length_filter_less nat_neq_iff)
      finally show ?thesis by auto
    qed
    then have compl: "bm_is_complete b \<longleftrightarrow> d = ?n - 1 \<and> bm_is_done b (?n - 1)"
      using bm.num_full [OF b(1)] tail(2) b(2) unfolding bm_is_complete_def
      by (metis Suc_pred' less_Suc_eq)
    show ?thesis
      using tail_fill [OF mono tail(1), of "bm_is_done b (?n - 1)"] b unfolding bytes compl full by simp
  qed
qed

text \<open>A concrete hex codec, two lower-case digits per byte, for the witnesses.\<close>

definition hex_chars :: string where
  "hex_chars = ''0123456789abcdef''"

definition hex_enc :: "bytes \<Rightarrow> string" where
  "hex_enc bs = concat (map (\<lambda>b. [hex_chars ! (unat b div 16), hex_chars ! (unat b mod 16)]) bs)"

fun hex_dec :: "string \<Rightarrow> bytes option" where
  "hex_dec [] = Some []"
| "hex_dec [c] = None"
| "hex_dec (c # d # cs) =
     (if c \<in> set hex_chars \<and> d \<in> set hex_chars
      then map_option (Cons (of_nat (16 * length (takeWhile (\<lambda>x. x \<noteq> c) hex_chars)
             + length (takeWhile (\<lambda>x. x \<noteq> d) hex_chars)))) (hex_dec cs)
      else None)"

lemma hex_chars_index:
  assumes "n < 16"
  shows "hex_chars ! n \<in> set hex_chars \<and> length (takeWhile (\<lambda>x. x \<noteq> hex_chars ! n) hex_chars) = n"
proof -
  have "\<forall>n \<in> set [0..<16]. hex_chars ! n \<in> set hex_chars
      \<and> length (takeWhile (\<lambda>x. x \<noteq> hex_chars ! n) hex_chars) = n"
    by code_simp
  with assms show ?thesis by auto
qed

lemma hex_dec_enc: "hex_dec (hex_enc bs) = Some bs"
proof (induction bs)
  case (Cons b bs)
  have "unat b < 256" using unsigned_less [of b] by simp
  then have "unat b div 16 < 16" by (simp add: div_less_iff_less_mult)
  with Cons show ?case
    using hex_chars_index [of "unat b div 16"] hex_chars_index [of "unat b mod 16"]
    by (simp add: hex_enc_def)
qed (simp add: hex_enc_def)

text \<open>
  A control file written for a bitmap is read back as that bitmap by any hex codec that
  inverts itself, and is refused when the total length or the remote path differs.
\<close>

theorem ctrl_roundtrip:
  assumes "\<And>bs. dec (enc bs) = Some bs" "bm_wf b" "bm_pieces b = div_ceil tot PIECE_LEN"
  shows "ctrl_load dec (Some (ctrl_save enc tot remote b)) tot' remote'
    = (if tot' = tot \<and> remote' = remote then Some b else None)"
proof -
  let ?n = "div_ceil tot PIECE_LEN"
  have "bm_from_hex dec (bm_to_hex enc b) ?n = Some b"
  proof -
    have "bm_from_hex dec (bm_to_hex enc b) ?n \<noteq> None"
      using assms by (simp add: bm_from_hex_def bm_to_hex_def bm_wf_def Let_def)
    then obtain b' where b': "bm_from_hex dec (bm_to_hex enc b) ?n = Some b'" by auto
    from bm_from_hex_Some [OF b'] assms(1)
    have w: "bm_wf b'" "bm_pieces b' = bm_pieces b"
      and d: "bm_is_done b' i \<longleftrightarrow> i < ?n \<and> bits_get lsb_pos (bm_bits b) i" for i
      by (auto simp: bm_to_hex_def assms(3))
    have "bits_get lsb_pos (bm_bits b') i = bits_get lsb_pos (bm_bits b) i" for i
      using d [of i] w assms(2,3) by (auto simp: bm_is_done_iff bm_wf_def)
    then have "bm_bits b' = bm_bits b"
      using w assms(2) by (intro bits_get_ext [OF bit_perm_lsb]) (simp_all add: bm_wf_def)
    moreover from this have "bm_done b' = bm_done b"
      using w assms(2) by (simp add: bm_wf_def)
    ultimately have "bm_bits b' = bm_bits b" "bm_done b' = bm_done b" by simp_all
    with w(2) b' show ?thesis by simp
  qed
  then show ?thesis
    by (auto simp: ctrl_load_def ctrl_save_def)
qed

theorem ctrl_roundtrip_witness:
  "ctrl_load hex_dec (Some (ctrl_save hex_enc 5000000 ''/a'' (snd (bm_mark 2 (bm_new 5000000)))))
     5000000 ''/a'' = Some (snd (bm_mark 2 (bm_new 5000000)))"
proof -
  have "bm_wf (snd (bm_mark 2 (bm_new 5000000)))"
    by (simp add: bm_wf_mark)
  then show ?thesis
    by (subst ctrl_roundtrip) (simp_all add: hex_dec_enc bm_new_def Let_def)
qed

theorem ctrl_load_sound_witness:
  "\<exists>b. ctrl_load hex_dec (Some (ctrl_save hex_enc 5000000 ''/a'' (bm_new 5000000))) 5000000 ''/a''
     = Some b \<and> bm_done_bytes b 5000000 \<le> 5000000"
proof -
  have "ctrl_load hex_dec (Some (ctrl_save hex_enc 5000000 ''/a'' (bm_new 5000000))) 5000000 ''/a'' \<noteq> None"
    by (simp add: ctrl_load_def ctrl_save_def bm_to_hex_def bm_from_hex_def hex_dec_enc bm_new_def Let_def)
  then show ?thesis using ctrl_load_sound by blast
qed

end
