(* ===== verification/Piece_Layout.thy ===== *)
theory Piece_Layout
  imports Bitfields
begin

text \<open>
  The file layout of a torrent (\<open>PieceLayout\<close>, \<open>FileLayout\<close> and \<open>files_done_bytes\<close> of
  \<open>crates/xfer-storage/src/piece.rs\<close>): files laid end to end in one global byte space that is cut
  into pieces. The specification of the geometry is \<open>layout_addrs\<close>, the list of all
  \<open>(file, offset)\<close> cells in global order; a piece is a slice of it.

  Byte counts are naturals: they agree with the code's \<open>u64\<close> as long as the global length plus one
  piece stays below \<open>2 ^ 64\<close>. The truncations to \<open>u32\<close> (\<open>piece_count\<close>, the index passed to
  \<open>have\<close>) are written out.
\<close>

section \<open>Layout and segments\<close>

record file_layout =
  fl_path :: "string list"
  fl_length :: nat
  fl_offset :: nat

record piece_layout =
  pl_piece_length :: nat
  pl_files :: "file_layout list"
  pl_multi_file :: bool

fun layout_files :: "nat \<Rightarrow> (string list \<times> nat) list \<Rightarrow> file_layout list" where
  "layout_files offset [] = []"
| "layout_files offset ((path, len) # fs) =
     \<lparr>fl_path = path, fl_length = len, fl_offset = offset\<rparr> # layout_files (offset + len) fs"

definition layout_new :: "nat \<Rightarrow> (string list \<times> nat) list \<Rightarrow> piece_layout" where
  "layout_new pl fs =
     (let files = layout_files 0 fs;
          multi_file = (\<not> (length files = 1 \<and> length (fl_path (files ! 0)) = 1))
      in \<lparr>pl_piece_length = pl, pl_files = files, pl_multi_file = multi_file\<rparr>)"

definition with_multi_file :: "piece_layout \<Rightarrow> bool \<Rightarrow> piece_layout" where
  "with_multi_file L multi = L\<lparr>pl_multi_file := multi\<rparr>"

definition is_single_file :: "piece_layout \<Rightarrow> bool" where
  "is_single_file L \<longleftrightarrow> \<not> pl_multi_file L \<and> length (pl_files L) = 1"

definition total_length :: "piece_layout \<Rightarrow> nat" where
  "total_length L = sum_list (map fl_length (pl_files L))"

definition piece_count :: "piece_layout \<Rightarrow> nat" where
  "piece_count L =
     (if pl_piece_length L = 0 then 0
      else div_ceil (total_length L) (pl_piece_length L) mod 2 ^ 32)"

definition piece_len :: "piece_layout \<Rightarrow> nat \<Rightarrow> nat" where
  "piece_len L index =
     (let start = index * pl_piece_length L
      in if total_length L \<le> start then 0
         else min (total_length L - start) (pl_piece_length L))"

fun segments_loop :: "nat \<Rightarrow> nat \<Rightarrow> nat \<Rightarrow> file_layout list \<Rightarrow> (nat \<times> nat \<times> nat) list" where
  "segments_loop piece_start piece_end fi [] = []"
| "segments_loop piece_start piece_end fi (f # fs) =
     (let f_start = fl_offset f; f_end = fl_offset f + fl_length f
      in if piece_end \<le> f_start \<or> f_end \<le> piece_start
         then segments_loop piece_start piece_end (Suc fi) fs
         else let seg_start = max piece_start f_start - f_start;
                  seg_end = min piece_end f_end - f_start
              in (fi, seg_start, seg_end - seg_start) # segments_loop piece_start piece_end (Suc fi) fs)"

definition piece_segments :: "piece_layout \<Rightarrow> nat \<Rightarrow> (nat \<times> nat \<times> nat) list" where
  "piece_segments L index =
     (let piece_start = index * pl_piece_length L;
          piece_end = min (piece_start + pl_piece_length L) (total_length L)
      in segments_loop piece_start piece_end 0 (pl_files L))"

definition wanted_piece_mask :: "piece_layout \<Rightarrow> nat list option \<Rightarrow> piece_map option" where
  "wanted_piece_mask L selected =
     (case selected of
        None \<Rightarrow> None
      | Some sel \<Rightarrow>
          Some (fold (\<lambda>idx m. if list_ex (\<lambda>(fi, _, _). fi \<in> set sel) (piece_segments L idx)
                              then pm_set idx m else m)
                  [0..<piece_count L] (pm_new (piece_count L))))"

definition selected_length :: "piece_layout \<Rightarrow> nat list option \<Rightarrow> nat" where
  "selected_length L selected =
     (case selected of
        None \<Rightarrow> total_length L
      | Some sel \<Rightarrow>
          sum_list (map (\<lambda>(_, f). fl_length f)
            (filter (\<lambda>(i, _). i \<in> set sel) (enumerate 0 (pl_files L)))))"

section \<open>Bytes done per file\<close>

text \<open>
  \<open>files_done_bytes\<close> walks the finished pieces once, with a cursor \<open>fi\<close> that only moves forward:
  the \<open>while\<close> that skips files ending before the piece, and the \<open>while\<close> that credits the piece
  to the files it overlaps.
\<close>

function skip_files :: "(nat \<times> nat) list \<Rightarrow> nat \<Rightarrow> nat \<Rightarrow> nat" where
  "skip_files bounds p_start fi =
     (if fi < length bounds \<and> fst (bounds ! fi) + snd (bounds ! fi) \<le> p_start
      then skip_files bounds p_start (Suc fi) else fi)"
  by pat_completeness auto
termination by (relation "measure (\<lambda>(bounds, _, fi). length bounds - fi)") auto

function credit_files :: "(nat \<times> nat) list \<Rightarrow> nat \<Rightarrow> nat \<Rightarrow> nat \<Rightarrow> nat list \<Rightarrow> nat list" where
  "credit_files bounds p_start p_end j out =
     (if j < length bounds \<and> fst (bounds ! j) < p_end
      then let (f_start, f_len) = bounds ! j;
               seg_start = max p_start f_start;
               seg_end = min p_end (f_start + f_len)
           in credit_files bounds p_start p_end (Suc j)
                (if seg_start < seg_end then out[j := out ! j + (seg_end - seg_start)] else out)
      else out)"
  by pat_completeness auto
termination by (relation "measure (\<lambda>(bounds, _, _, j, _). length bounds - j)") auto

declare skip_files.simps [simp del] credit_files.simps [simp del]

fun done_loop :: "nat \<Rightarrow> nat \<Rightarrow> (nat \<times> nat) list \<Rightarrow> (nat \<Rightarrow> bool) \<Rightarrow> nat list \<Rightarrow> nat \<Rightarrow> nat list \<Rightarrow> nat list" where
  "done_loop pl tot bounds have_piece [] fi out = out"
| "done_loop pl tot bounds have_piece (i # is) fi out =
     (if \<not> have_piece (i mod 2 ^ 32) then done_loop pl tot bounds have_piece is fi out
      else let p_start = i * pl;
               p_end = min (p_start + pl) tot;
               fi' = skip_files bounds p_start fi
           in done_loop pl tot bounds have_piece is fi' (credit_files bounds p_start p_end fi' out))"

definition files_done_bytes :: "nat \<Rightarrow> nat \<Rightarrow> (nat \<times> nat) list \<Rightarrow> (nat \<Rightarrow> bool) \<Rightarrow> nat list" where
  "files_done_bytes pl tot bounds have_piece =
     (let out = replicate (length bounds) 0
      in if pl = 0 \<or> tot = 0 \<or> bounds = [] then out
         else done_loop pl tot bounds have_piece [0..<div_ceil tot pl] 0 out)"

definition layout_files_done_bytes :: "piece_layout \<Rightarrow> (nat \<Rightarrow> bool) \<Rightarrow> nat list" where
  "layout_files_done_bytes L have_piece =
     files_done_bytes (pl_piece_length L) (total_length L)
       (map (\<lambda>f. (fl_offset f, fl_length f)) (pl_files L)) have_piece"

section \<open>Geometry\<close>

text \<open>All cells of the torrent in global order, and the layouts the constructor builds.\<close>

definition file_addrs :: "nat \<Rightarrow> file_layout \<Rightarrow> (nat \<times> nat) list" where
  "file_addrs fi f = map (Pair fi) [0..<fl_length f]"

fun files_addrs :: "nat \<Rightarrow> file_layout list \<Rightarrow> (nat \<times> nat) list" where
  "files_addrs fi [] = []"
| "files_addrs fi (f # fs) = file_addrs fi f @ files_addrs (Suc fi) fs"

definition layout_addrs :: "piece_layout \<Rightarrow> (nat \<times> nat) list" where
  "layout_addrs L = files_addrs 0 (pl_files L)"

definition segs_addrs :: "(nat \<times> nat \<times> nat) list \<Rightarrow> (nat \<times> nat) list" where
  "segs_addrs segs = concat (map (\<lambda>(fi, off, len). map (Pair fi) [off..<off + len]) segs)"

definition piece_addrs :: "piece_layout \<Rightarrow> nat \<Rightarrow> (nat \<times> nat) list" where
  "piece_addrs L i = take (pl_piece_length L) (drop (i * pl_piece_length L) (layout_addrs L))"

fun contiguous :: "nat \<Rightarrow> file_layout list \<Rightarrow> bool" where
  "contiguous offset [] = True"
| "contiguous offset (f # fs) \<longleftrightarrow> fl_offset f = offset \<and> contiguous (offset + fl_length f) fs"

definition layout_wf :: "piece_layout \<Rightarrow> bool" where
  "layout_wf L \<longleftrightarrow> contiguous 0 (pl_files L) \<and> 0 < pl_piece_length L
     \<and> div_ceil (total_length L) (pl_piece_length L) < 2 ^ 32"

lemma contiguous_layout_files: "contiguous offset (layout_files offset fs)"
  by (induction fs arbitrary: offset) auto

lemma total_layout_new [simp]: "total_length (layout_new pl fs) = sum_list (map snd fs)"
proof -
  have "sum_list (map fl_length (layout_files o' fs)) = sum_list (map snd fs)" for o'
    by (induction fs arbitrary: o') auto
  then show ?thesis by (simp add: total_length_def layout_new_def Let_def)
qed

lemma layout_wf_new:
  "0 < pl \<Longrightarrow> div_ceil (sum_list (map snd fs)) pl < 2 ^ 32 \<Longrightarrow> layout_wf (layout_new pl fs)"
  unfolding layout_wf_def total_layout_new
  by (simp add: layout_new_def Let_def contiguous_layout_files)

lemma length_files_addrs: "length (files_addrs fi fs) = sum_list (map fl_length fs)"
  by (induction fs arbitrary: fi) (auto simp: file_addrs_def)

lemma length_layout_addrs [simp]: "length (layout_addrs L) = total_length L"
  by (simp add: layout_addrs_def length_files_addrs total_length_def)

lemma files_addrs_fi: "(g, k) \<in> set (files_addrs fi fs) \<Longrightarrow> fi \<le> g \<and> g < fi + length fs"
  by (induction fs arbitrary: fi) (fastforce simp: file_addrs_def)+

lemma distinct_files_addrs: "distinct (files_addrs fi fs)"
  by (induction fs arbitrary: fi)
    (auto simp: file_addrs_def distinct_map inj_on_def dest!: files_addrs_fi)

lemma distinct_layout_addrs [simp]: "distinct (layout_addrs L)"
  by (simp add: layout_addrs_def distinct_files_addrs)

lemma contiguous_offset: "contiguous offset fs \<Longrightarrow> f \<in> set fs \<Longrightarrow> offset \<le> fl_offset f"
  by (induction fs arbitrary: offset) fastforce+

lemma segments_loop_beyond: "contiguous offset fs \<Longrightarrow> pe \<le> offset \<Longrightarrow> segments_loop ps pe fi fs = []"
  by (induction fs arbitrary: offset fi) (auto simp: Let_def)

text \<open>The loop enumerates the cells between two global positions.\<close>

lemma segments_loop_addrs:
  assumes "contiguous offset fs" "pe \<le> offset + sum_list (map fl_length fs)"
  shows "segs_addrs (segments_loop ps pe fi fs)
    = take (pe - max ps offset) (drop (ps - offset) (files_addrs fi fs))"
  using assms
proof (induction fs arbitrary: offset fi)
  case Nil
  then show ?case by (simp add: segs_addrs_def)
next
  case (Cons f fs)
  let ?e = "offset + fl_length f"
  have off: "fl_offset f = offset" and cont: "contiguous ?e fs" using Cons.prems(1) by auto
  have IH: "segs_addrs (segments_loop ps pe (Suc fi) fs)
      = take (pe - max ps ?e) (drop (ps - ?e) (files_addrs (Suc fi) fs))"
    by (rule Cons.IH [OF cont]) (use Cons.prems(2) in simp)
  show ?case
  proof (cases "pe \<le> offset \<or> ?e \<le> ps")
    case True
    then show ?thesis
      using segments_loop_beyond [OF cont, of pe ps "Suc fi"] IH
      by (auto simp: Let_def off file_addrs_def segs_addrs_def)
  next
    case False
    have head: "map (Pair fi) [max ps offset - offset..<min pe ?e - offset]
        = take (pe - max ps offset) (drop (ps - offset) (file_addrs fi f))"
      using False by (cases "ps \<le> pe") (auto simp: file_addrs_def take_map drop_map min_def max_def)
    have tail: "take (pe - max ps ?e) (drop (ps - ?e) (files_addrs (Suc fi) fs))
        = take (pe - max ps offset - (fl_length f - (ps - offset))) (files_addrs (Suc fi) fs)"
      using False by (auto simp: max_def add.commute)
    have "segs_addrs (segments_loop ps pe fi (f # fs)) =
        map (Pair fi) [max ps offset - offset..<min pe ?e - offset]
        @ segs_addrs (segments_loop ps pe (Suc fi) fs)"
      using False by (cases "ps \<le> pe") (auto simp: segs_addrs_def Let_def off max_def min_def)
    then show ?thesis
      using False by (simp add: head IH tail file_addrs_def)
  qed
qed

lemma piece_segments_addrs:
  assumes "layout_wf L"
  shows "segs_addrs (piece_segments L i) = piece_addrs L i"
proof -
  let ?p = "i * pl_piece_length L"
  have "segs_addrs (piece_segments L i)
      = take (min (?p + pl_piece_length L) (total_length L) - ?p) (drop ?p (layout_addrs L))"
    using assms segments_loop_addrs [of 0 "pl_files L" "min (?p + pl_piece_length L) (total_length L)" ?p 0]
    by (simp add: piece_segments_def Let_def layout_wf_def layout_addrs_def total_length_def)
  also have "\<dots> = piece_addrs L i"
    by (auto simp: piece_addrs_def min_def)
  finally show ?thesis .
qed

lemma piece_count_wf: "layout_wf L \<Longrightarrow> piece_count L = div_ceil (total_length L) (pl_piece_length L)"
  by (simp add: piece_count_def layout_wf_def)

lemma less_piece_count:
  "layout_wf L \<Longrightarrow> i < piece_count L \<longleftrightarrow> i * pl_piece_length L < total_length L"
  unfolding piece_count_wf by (subst less_div_ceil) (simp_all add: layout_wf_def mult.commute)

lemma length_piece_addrs [simp]: "length (piece_addrs L i) = piece_len L i"
  by (auto simp: piece_addrs_def piece_len_def Let_def)

lemma piece_len_pos: "layout_wf L \<Longrightarrow> 0 < piece_len L i \<longleftrightarrow> i < piece_count L"
  by (auto simp: less_piece_count piece_len_def Let_def) (simp add: layout_wf_def)

lemma piece_addrs_beyond: "layout_wf L \<Longrightarrow> piece_count L \<le> i \<Longrightarrow> piece_addrs L i = []"
  using piece_len_pos [of L i] by (simp flip: length_piece_addrs)

lemma nth_piece_addrs:
  "k < piece_len L i \<Longrightarrow> piece_addrs L i ! k = layout_addrs L ! (i * pl_piece_length L + k)"
  by (auto simp: piece_addrs_def piece_len_def Let_def split: if_splits)

lemma piece_position:
  "k < piece_len L i \<Longrightarrow> i * pl_piece_length L + k < total_length L \<and> k < pl_piece_length L"
  by (auto simp: piece_len_def Let_def split: if_splits)

lemma distinct_piece_addrs [simp]: "distinct (piece_addrs L i)"
  by (simp add: piece_addrs_def)

lemma piece_addrs_disjoint:
  assumes "a \<in> set (piece_addrs L i)" "a \<in> set (piece_addrs L j)"
  shows "i = j"
proof -
  let ?pl = "pl_piece_length L"
  from assms obtain k l where k: "k < piece_len L i" "a = layout_addrs L ! (i * ?pl + k)"
    and l: "l < piece_len L j" "a = layout_addrs L ! (j * ?pl + l)"
    by (auto simp: in_set_conv_nth nth_piece_addrs)
  then have "i * ?pl + k = j * ?pl + l"
    using piece_position [OF k(1)] piece_position [OF l(1)] by (simp add: nth_eq_iff_index_eq)
  moreover have "k < ?pl" "l < ?pl" using piece_position [OF k(1)] piece_position [OF l(1)] by auto
  ultimately have "(i * ?pl + k) div ?pl = (j * ?pl + l) div ?pl" by simp
  then show ?thesis using \<open>k < ?pl\<close> \<open>l < ?pl\<close> by simp
qed

lemma slices_concat: "concat (map (\<lambda>i. take p (drop (i * p) xs)) [0..<n]) = take (n * p) xs"
proof (induction n)
  case (Suc n)
  then show ?case by (simp add: add.commute [of p] take_add)
qed simp

lemma pieces_concat:
  assumes "layout_wf L"
  shows "concat (map (piece_addrs L) [0..<piece_count L]) = layout_addrs L"
proof -
  have "total_length L \<le> pl_piece_length L * piece_count L"
    unfolding piece_count_wf [OF assms] using assms
    by (intro iffD1 [OF div_ceil_le]) (simp_all add: layout_wf_def)
  then show ?thesis
    using slices_concat [of "pl_piece_length L" "layout_addrs L" "piece_count L"]
    by (simp add: piece_addrs_def [abs_def] mult.commute)
qed

lemma sum_piece_len:
  assumes "layout_wf L"
  shows "(\<Sum>i\<leftarrow>[0..<piece_count L]. piece_len L i) = total_length L"
  using arg_cong [OF pieces_concat [OF assms], of length]
  by (simp add: length_concat o_def)

lemma in_files_addrs: "(g, k) \<in> set (files_addrs fi fs) \<longleftrightarrow>
    fi \<le> g \<and> g - fi < length fs \<and> k < fl_length (fs ! (g - fi))"
proof (induction fs arbitrary: fi)
  case (Cons f fs)
  show ?case
  proof (cases "g = fi")
    case True
    then show ?thesis by (auto simp: file_addrs_def dest: files_addrs_fi)
  next
    case False
    then have "fi \<le> g \<and> g - fi < Suc (length fs) \<longleftrightarrow> Suc fi \<le> g \<and> g - Suc fi < length fs" by auto
    moreover have "Suc fi \<le> g \<Longrightarrow> (f # fs) ! (g - fi) = fs ! (g - Suc fi)"
      by (simp add: nth_Cons' )
    ultimately show ?thesis using False by (auto simp: Cons.IH file_addrs_def)
  qed
qed simp

lemma in_layout_addrs: "(g, k) \<in> set (layout_addrs L) \<longleftrightarrow>
    g < length (pl_files L) \<and> k < fl_length (pl_files L ! g)"
  by (simp add: layout_addrs_def in_files_addrs)

lemma piece_addrs_subset: "set (piece_addrs L i) \<subseteq> set (layout_addrs L)"
  by (auto simp: piece_addrs_def dest!: in_set_takeD in_set_dropD)

text \<open>
  The segments of a piece spell out exactly the piece's slice of the global byte space, in
  order and across file boundaries; the pieces laid end to end are all cells of the torrent, each
  once; and \<open>piece_len\<close> is the number of cells of a piece.
\<close>

theorem piece_segments_slice:
  assumes "0 < pl" "div_ceil (sum_list (map snd fs)) pl < 2 ^ 32"
  shows "let L = layout_new pl fs in
    (\<forall>i. segs_addrs (piece_segments L i) = take pl (drop (i * pl) (layout_addrs L))
       \<and> piece_len L i = length (segs_addrs (piece_segments L i)))
    \<and> concat (map (\<lambda>i. segs_addrs (piece_segments L i)) [0..<piece_count L]) = layout_addrs L
    \<and> distinct (layout_addrs L)"
proof -
  let ?L = "layout_new pl fs"
  have wf: "layout_wf ?L" by (rule layout_wf_new [OF assms])
  have "pl_piece_length ?L = pl" by (simp add: layout_new_def Let_def)
  then show ?thesis
    using pieces_concat [OF wf] by (simp add: piece_segments_addrs [OF wf] Let_def)
      (simp add: piece_addrs_def)
qed

theorem piece_segments_slice_witness:
  "let L = layout_new 4 [([''a''], 3), ([''b''], 0), ([''c''], 6)] in
     concat (map (\<lambda>i. segs_addrs (piece_segments L i)) [0..<piece_count L]) = layout_addrs L"
proof -
  have "div_ceil (sum_list (map snd [([''a''], 3), ([''b''], 0), ([''c''], 6 :: nat)])) 4 < 2 ^ 32"
    by (simp add: div_ceil_def)
  from piece_segments_slice [OF zero_less_numeral this, unfolded Let_def] show ?thesis
    unfolding Let_def by (elim conjE)
qed

section \<open>The progress counters\<close>

definition overlap :: "nat \<Rightarrow> nat \<Rightarrow> nat \<times> nat \<Rightarrow> nat" where
  "overlap p_start p_end b = min p_end (fst b + snd b) - max p_start (fst b)"

lemma overlap_before: "fst b + snd b \<le> p_start \<Longrightarrow> overlap p_start p_end b = 0"
  by (simp add: overlap_def)

lemma overlap_after: "p_end \<le> fst b \<Longrightarrow> overlap p_start p_end b = 0"
  by (simp add: overlap_def)

lemma skip_files_inv:
  "(\<forall>k < fi. fst (bounds ! k) + snd (bounds ! k) \<le> p) \<Longrightarrow>
   (\<forall>k < skip_files bounds p fi. fst (bounds ! k) + snd (bounds ! k) \<le> p)"
proof (induction bounds p fi rule: skip_files.induct)
  case (1 bounds p fi)
  show ?case
    by (subst skip_files.simps) (use 1 in \<open>auto simp: less_Suc_eq\<close>)
qed

lemma credit_files_nth:
  "sorted (map fst bounds) \<Longrightarrow> length out = length bounds \<Longrightarrow>
   length (credit_files bounds ps pe j out) = length bounds \<and>
   (\<forall>k < length bounds. credit_files bounds ps pe j out ! k
      = out ! k + (if j \<le> k then overlap ps pe (bounds ! k) else 0))"
proof (induction bounds ps pe j out rule: credit_files.induct)
  case (1 bounds ps pe j out)
  show ?case
  proof (cases "j < length bounds \<and> fst (bounds ! j) < pe")
    case True
    obtain s l where b: "bounds ! j = (s, l)" by (cases "bounds ! j")
    define out' where "out' = (if max ps s < min pe (s + l)
      then out[j := out ! j + (min pe (s + l) - max ps s)] else out)"
    have step: "credit_files bounds ps pe j out = credit_files bounds ps pe (Suc j) out'"
      using True by (subst credit_files.simps) (simp add: b Let_def out'_def)
    have len: "length out' = length bounds" using 1 by (simp add: out'_def)
    have nth: "out' ! k = out ! k + (if k = j then overlap ps pe (bounds ! j) else 0)"
      if "k < length bounds" for k
      using that 1(3) True by (auto simp: out'_def overlap_def b)
    have "length (credit_files bounds ps pe (Suc j) out') = length bounds \<and>
      (\<forall>k < length bounds. credit_files bounds ps pe (Suc j) out' ! k
        = out' ! k + (if Suc j \<le> k then overlap ps pe (bounds ! k) else 0))"
      using 1(1) [OF True b [symmetric] refl refl] 1(2) len unfolding out'_def by simp
    moreover have "j \<le> k \<longleftrightarrow> k = j \<or> Suc j \<le> k" for k by auto
    ultimately show ?thesis unfolding step by (auto simp: nth)
  next
    case False
    have "overlap ps pe (bounds ! k) = 0" if "j \<le> k" "k < length bounds" for k
    proof (rule overlap_after)
      from that False have "pe \<le> fst (bounds ! j)" by auto
      also have "\<dots> \<le> fst (bounds ! k)"
        using sorted_nth_mono [OF 1(2), of j k] that by simp
      finally show "pe \<le> fst (bounds ! k)" .
    qed
    with False 1(3) show ?thesis by (subst (1 2) credit_files.simps) auto
  qed
qed

text \<open>The cursor never hides a file: skipping is sound because pieces come in ascending order.\<close>

lemma done_loop_nth:
  assumes "sorted (map fst bounds)" "length out = length bounds" "sorted is"
    and "\<And>i k. i \<in> set is \<Longrightarrow> k < fi \<Longrightarrow> fst (bounds ! k) + snd (bounds ! k) \<le> i * pl"
  shows "length (done_loop pl tot bounds have_piece is fi out) = length bounds \<and>
    (\<forall>k < length bounds. done_loop pl tot bounds have_piece is fi out ! k
      = out ! k + (\<Sum>i\<leftarrow>filter (\<lambda>i. have_piece (i mod 2 ^ 32)) is.
          overlap (i * pl) (min (i * pl + pl) tot) (bounds ! k)))"
  using assms
proof (induction "is" arbitrary: fi out)
  case (Cons i "is")
  show ?case
  proof (cases "have_piece (i mod 2 ^ 32)")
    case False
    have "length (done_loop pl tot bounds have_piece is fi out) = length bounds \<and>
      (\<forall>k < length bounds. done_loop pl tot bounds have_piece is fi out ! k
        = out ! k + (\<Sum>i\<leftarrow>filter (\<lambda>i. have_piece (i mod 2 ^ 32)) is.
            overlap (i * pl) (min (i * pl + pl) tot) (bounds ! k)))"
      by (rule Cons.IH) (use Cons.prems in auto)
    with False show ?thesis by simp
  next
    case True
    define fi' where "fi' = skip_files bounds (i * pl) fi"
    define out' where "out' = credit_files bounds (i * pl) (min (i * pl + pl) tot) fi' out"
    have fi': "fst (bounds ! k) + snd (bounds ! k) \<le> i * pl" if "k < fi'" for k
      using skip_files_inv [of fi bounds "i * pl"] Cons.prems(4) [of i] that by (auto simp: fi'_def)
    have out': "length out' = length bounds"
      "k < length bounds \<Longrightarrow> out' ! k = out ! k + overlap (i * pl) (min (i * pl + pl) tot) (bounds ! k)" for k
      using credit_files_nth [OF Cons.prems(1,2), of "i * pl" "min (i * pl + pl) tot" fi']
        overlap_before [OF fi'] by (auto simp: out'_def not_le)
    have "length (done_loop pl tot bounds have_piece is fi' out') = length bounds \<and>
      (\<forall>k < length bounds. done_loop pl tot bounds have_piece is fi' out' ! k
        = out' ! k + (\<Sum>i\<leftarrow>filter (\<lambda>i. have_piece (i mod 2 ^ 32)) is.
            overlap (i * pl) (min (i * pl + pl) tot) (bounds ! k)))"
    proof (rule Cons.IH [OF Cons.prems(1) out'(1)])
      show "sorted is" using Cons.prems(3) by simp
      fix i' k assume "i' \<in> set is" "k < fi'"
      then show "fst (bounds ! k) + snd (bounds ! k) \<le> i' * pl"
        using fi' [of k] Cons.prems(3) by (auto intro: order_trans)
    qed
    with True out'(2) show ?thesis
      by (simp add: Let_def fi'_def [symmetric] out'_def [symmetric])
  qed
qed simp

lemma overlap_card:
  assumes "0 < pl" "s + l \<le> tot"
  shows "overlap (i * pl) (min (i * pl + pl) tot) (s, l) = card {g. s \<le> g \<and> g < s + l \<and> g div pl = i}"
proof -
  have iff: "g div pl = i \<longleftrightarrow> i * pl \<le> g \<and> g < i * pl + pl" for g
    using dividend_less_div_times [OF assms(1), of g] div_times_less_eq_dividend [of g pl]
    by (auto simp: add.commute mult.commute intro: div_nat_eqI)
  have "s \<le> g \<and> g < s + l \<and> P \<le> g \<and> g < Q \<longleftrightarrow> g \<in> {max P s..<min (min Q tot) (s + l)}" for g P Q
    using assms(2) by auto
  then have "{g. s \<le> g \<and> g < s + l \<and> g div pl = i} = {max (i * pl) s..<min (min (i * pl + pl) tot) (s + l)}"
    unfolding iff by blast
  then show ?thesis by (simp add: overlap_def)
qed

lemma card_group:
  assumes "finite A" "\<And>a. a \<in> A \<Longrightarrow> P (f a) \<Longrightarrow> f a < (n :: nat)"
  shows "(\<Sum>i\<leftarrow>filter P [0..<n]. card {a \<in> A. f a = i}) = card {a \<in> A. P (f a)}"
proof -
  let ?S = "{a \<in> A. P (f a)}" and ?T = "set (filter P [0..<n])"
  have "(\<Sum>i\<leftarrow>filter P [0..<n]. card {a \<in> A. f a = i}) = (\<Sum>i\<in>?T. card {a \<in> A. f a = i})"
    by (simp add: sum_list_distinct_conv_sum_set del: set_filter set_upt)
  also have "\<dots> = (\<Sum>i\<in>?T. \<Sum>a | a \<in> ?S \<and> f a = i. 1)"
    by (rule sum.cong) (auto intro!: arg_cong [where f = card])
  also have "\<dots> = card ?S"
    using assms sum.group [of ?S ?T f "\<lambda>_. 1 :: nat"] by (auto simp: image_subset_iff)
  finally show ?thesis .
qed

definition file_done :: "piece_layout \<Rightarrow> (nat \<Rightarrow> bool) \<Rightarrow> file_layout \<Rightarrow> nat" where
  "file_done L have_piece f =
     card {g. fl_offset f \<le> g \<and> g < fl_offset f + fl_length f \<and> have_piece (g div pl_piece_length L)}"

lemma contiguous_sorted: "contiguous offset fs \<Longrightarrow> sorted (map fl_offset fs)"
  by (induction fs arbitrary: offset) (fastforce dest: contiguous_offset)+

lemma contiguous_end: "contiguous offset fs \<Longrightarrow> f \<in> set fs \<Longrightarrow>
    fl_offset f + fl_length f \<le> offset + sum_list (map fl_length fs)"
  by (induction fs arbitrary: offset) fastforce+

lemma length_filter_upt_cond: "length (filter P [0..<n]) = card {i. i < n \<and> P i}"
  using distinct_card [of "filter P [0..<n]"] by (simp add: conj_commute)

lemma layout_files_done_nth:
  assumes wf: "layout_wf L"
  shows "length (layout_files_done_bytes L have_piece) = length (pl_files L) \<and>
    (\<forall>k < length (pl_files L). layout_files_done_bytes L have_piece ! k = file_done L have_piece (pl_files L ! k))"
proof -
  let ?pl = "pl_piece_length L" and ?tot = "total_length L"
  let ?b = "map (\<lambda>f. (fl_offset f, fl_length f)) (pl_files L)"
  from wf have pl: "0 < ?pl" and cont: "contiguous 0 (pl_files L)"
    and cnt: "div_ceil ?tot ?pl < 2 ^ 32" by (simp_all add: layout_wf_def)
  have fend: "fl_offset f + fl_length f \<le> ?tot" if "f \<in> set (pl_files L)" for f
    using contiguous_end [OF cont that] by (simp add: total_length_def)
  show ?thesis
  proof (cases "?tot = 0 \<or> ?b = []")
    case True
    then have z: "layout_files_done_bytes L have_piece = replicate (length (pl_files L)) 0"
      by (auto simp: layout_files_done_bytes_def files_done_bytes_def Let_def)
    have "file_done L have_piece (pl_files L ! k) = 0" if "k < length (pl_files L)" for k
      using True fend [OF nth_mem [OF that]] that by (auto simp: file_done_def)
    with z show ?thesis by simp
  next
    case False
    have eq: "layout_files_done_bytes L have_piece
        = done_loop ?pl ?tot ?b have_piece [0..<div_ceil ?tot ?pl] 0 (replicate (length ?b) 0)"
      using False pl by (auto simp: layout_files_done_bytes_def files_done_bytes_def Let_def)
    have filt: "filter (\<lambda>i. have_piece (i mod 2 ^ 32)) [0..<div_ceil ?tot ?pl]
        = filter have_piece [0..<div_ceil ?tot ?pl]"
      by (rule filter_cong [OF refl]) (use cnt in simp)
    have srt: "sorted (map fst ?b)" using contiguous_sorted [OF cont] by (simp add: o_def)
    have loop: "length (layout_files_done_bytes L have_piece) = length ?b \<and>
      (\<forall>k < length ?b. layout_files_done_bytes L have_piece ! k
        = replicate (length ?b) 0 ! k + (\<Sum>i\<leftarrow>filter have_piece [0..<div_ceil ?tot ?pl].
            overlap (i * ?pl) (min (i * ?pl + ?pl) ?tot) (?b ! k)))"
      unfolding eq filt [symmetric] by (rule done_loop_nth [OF srt]) simp_all
    have "(\<Sum>i\<leftarrow>filter have_piece [0..<div_ceil ?tot ?pl].
        overlap (i * ?pl) (min (i * ?pl + ?pl) ?tot) (?b ! k)) = file_done L have_piece (pl_files L ! k)"
      if k: "k < length (pl_files L)" for k
    proof -
      let ?f = "pl_files L ! k"
      let ?A = "{g. fl_offset ?f \<le> g \<and> g < fl_offset ?f + fl_length ?f}"
      note fe = fend [OF nth_mem [OF k]]
      have fin: "finite ?A" by (rule finite_subset [of _ "{..<fl_offset ?f + fl_length ?f}"]) auto
      have "overlap (i * ?pl) (min (i * ?pl + ?pl) ?tot) (?b ! k) = card {g \<in> ?A. g div ?pl = i}" for i
        using k overlap_card [OF pl fe, of i] by (simp add: conj_assoc)
      moreover have "(\<Sum>i\<leftarrow>filter have_piece [0..<div_ceil ?tot ?pl]. card {g \<in> ?A. g div ?pl = i})
          = card {g \<in> ?A. have_piece (g div ?pl)}"
      proof (rule card_group [OF fin])
        fix g assume "g \<in> ?A"
        then have "g < ?tot" using fe by simp
        moreover have "?pl * (g div ?pl) \<le> g" by simp
        ultimately show "g div ?pl < div_ceil ?tot ?pl"
          by (intro iffD2 [OF less_div_ceil [OF pl]]) (rule le_less_trans)
      qed
      ultimately show ?thesis by (simp add: file_done_def conj_assoc)
    qed
    with loop show ?thesis by simp
  qed
qed

lemma file_done_le: "file_done L P f \<le> fl_length f"
proof -
  have "file_done L P f \<le> card {fl_offset f..<fl_offset f + fl_length f}"
    unfolding file_done_def by (rule card_mono) auto
  then show ?thesis by simp
qed

lemma file_done_all:
  assumes "\<And>g. fl_offset f \<le> g \<Longrightarrow> g < fl_offset f + fl_length f \<Longrightarrow> P (g div pl_piece_length L)"
  shows "file_done L P f = fl_length f"
proof -
  have "{g. fl_offset f \<le> g \<and> g < fl_offset f + fl_length f \<and> P (g div pl_piece_length L)}
      = {fl_offset f..<fl_offset f + fl_length f}"
    using assms by auto
  then show ?thesis by (simp add: file_done_def)
qed

lemma sum_file_done:
  "contiguous offset fs \<Longrightarrow> (\<Sum>f\<leftarrow>fs. file_done L P f)
     = card {g. offset \<le> g \<and> g < offset + sum_list (map fl_length fs) \<and> P (g div pl_piece_length L)}"
proof (induction fs arbitrary: offset)
  case (Cons f fs)
  let ?e = "offset + fl_length f" and ?n = "sum_list (map fl_length fs)"
  let ?C = "\<lambda>a b. {g. a \<le> g \<and> g < b \<and> P (g div pl_piece_length L)}"
  have "?C offset (?e + ?n) = ?C offset ?e \<union> ?C ?e (?e + ?n)" by auto
  moreover have "card (?C offset ?e \<union> ?C ?e (?e + ?n)) = card (?C offset ?e) + card (?C ?e (?e + ?n))"
    by (rule card_Un_disjoint) (auto intro: finite_subset [of _ "{..<?e + ?n}"])
  moreover have "(\<Sum>f\<leftarrow>fs. file_done L P f) = card (?C ?e (?e + ?n))"
    by (rule Cons.IH) (use Cons.prems in simp)
  moreover have "file_done L P f = card (?C offset ?e)"
    using Cons.prems by (simp add: file_done_def)
  ultimately show ?case by (simp add: add.assoc)
qed simp

lemma done_pieces_card:
  assumes "layout_wf L"
  shows "(\<Sum>i\<leftarrow>filter P [0..<piece_count L]. piece_len L i)
    = card {g. g < total_length L \<and> P (g div pl_piece_length L)}"
proof -
  let ?pl = "pl_piece_length L" and ?tot = "total_length L"
  have pl: "0 < ?pl" using assms by (simp add: layout_wf_def)
  have len: "piece_len L i = card {g \<in> {..<?tot}. g div ?pl = i}" for i
  proof -
    have "piece_len L i = overlap (i * ?pl) (min (i * ?pl + ?pl) ?tot) (0, ?tot)"
      by (auto simp: overlap_def piece_len_def Let_def min_def)
    also have "\<dots> = card {g \<in> {..<?tot}. g div ?pl = i}"
      by (subst overlap_card [OF pl]) (simp_all add: lessThan_def)
    finally show ?thesis .
  qed
  show ?thesis
    unfolding len by (subst card_group) (auto simp: less_piece_count [OF assms]
      intro: le_less_trans [OF div_times_less_eq_dividend])
qed

text \<open>
  Per-file progress is exact: entry \<open>k\<close> counts the bytes of file \<open>k\<close> that lie in finished
  pieces (so it never exceeds the file length and is the length when all its pieces are finished),
  and the entries add up to the bytes of the finished pieces, even though the cursor visits each
  file once.
\<close>

theorem files_done_bytes_exact:
  assumes "layout_wf L"
  shows "layout_files_done_bytes L have_piece = map (file_done L have_piece) (pl_files L)
    \<and> (\<forall>f. file_done L have_piece f \<le> fl_length f)
    \<and> sum_list (layout_files_done_bytes L have_piece)
        = (\<Sum>i\<leftarrow>filter have_piece [0..<piece_count L]. piece_len L i)"
proof -
  have eq: "layout_files_done_bytes L have_piece = map (file_done L have_piece) (pl_files L)"
    using layout_files_done_nth [OF assms, of have_piece] by (intro nth_equalityI) auto
  moreover have "(\<Sum>f\<leftarrow>pl_files L. file_done L have_piece f)
      = (\<Sum>i\<leftarrow>filter have_piece [0..<piece_count L]. piece_len L i)"
    using sum_file_done [of 0 "pl_files L" L have_piece] done_pieces_card [OF assms, of have_piece] assms
    by (simp add: layout_wf_def total_length_def)
  ultimately show ?thesis by (simp add: file_done_le)
qed

definition sample_layout :: piece_layout where
  "sample_layout = layout_new 4 [([''a''], 3), ([''b''], 0), ([''c''], 6)]"

lemma sample_layout_wf: "layout_wf sample_layout"
  unfolding sample_layout_def by (rule layout_wf_new) (simp_all add: div_ceil_def)

theorem files_done_bytes_exact_witness:
  "sum_list (layout_files_done_bytes sample_layout (\<lambda>i. i = 0))
     = (\<Sum>i\<leftarrow>filter (\<lambda>i. i = 0) [0..<piece_count sample_layout]. piece_len sample_layout i)"
  using files_done_bytes_exact [OF sample_layout_wf] by blast

lemma fold_pm_set_if:
  "fold (\<lambda>idx m. if P idx then pm_set idx m else m) xs m = fold pm_set (filter P xs) m"
  by (induction xs arbitrary: m) auto

lemma wanted_piece_mask_Some:
  "\<exists>m. wanted_piece_mask L (Some sel) = Some m \<and> pm_wf m \<and> pm_count m = piece_count L \<and>
    (\<forall>i. pm_is_set m i \<longleftrightarrow> i < piece_count L \<and> (\<exists>s \<in> set (piece_segments L i). fst s \<in> set sel))"
proof -
  let ?P = "\<lambda>idx. list_ex (\<lambda>(fi, _, _). fi \<in> set sel) (piece_segments L idx)"
  have "?P i \<longleftrightarrow> (\<exists>s \<in> set (piece_segments L i). fst s \<in> set sel)" for i
    by (auto simp: list_ex_iff split: prod.splits) (metis fst_conv)
  then show ?thesis
    using pm.fold_add [of "pm_new (piece_count L)" "filter ?P [0..<piece_count L]"]
    by (auto simp: wanted_piece_mask_def fold_pm_set_if)
qed

lemma piece_addrs_global:
  assumes "layout_wf L" "g < total_length L"
  shows "layout_addrs L ! g \<in> set (piece_addrs L (g div pl_piece_length L))"
proof -
  let ?pl = "pl_piece_length L"
  have "g div ?pl * ?pl + g mod ?pl = g" by simp
  moreover have "g mod ?pl < ?pl" using assms(1) by (simp add: layout_wf_def)
  ultimately have "g mod ?pl < total_length L - g div ?pl * ?pl" "g mod ?pl < ?pl"
    using assms(2) by linarith+
  then have "g mod ?pl < piece_len L (g div ?pl)"
    by (simp add: piece_len_def Let_def)
  then show ?thesis
    using nth_piece_addrs [of "g mod ?pl" L "g div ?pl"] nth_mem [of "g mod ?pl" "piece_addrs L (g div ?pl)"]
    by (simp add: div_mult_mod_eq)
qed

lemma nth_files_addrs:
  "contiguous offset fs \<Longrightarrow> k < length fs \<Longrightarrow> fl_offset (fs ! k) \<le> g \<Longrightarrow>
   g < fl_offset (fs ! k) + fl_length (fs ! k) \<Longrightarrow>
   files_addrs fi fs ! (g - offset) = (fi + k, g - fl_offset (fs ! k))"
proof (induction fs arbitrary: offset fi k)
  case (Cons f fs)
  show ?case
  proof (cases k)
    case 0
    with Cons.prems show ?thesis by (auto simp: nth_append file_addrs_def)
  next
    case (Suc k')
    with Cons.prems have "offset + fl_length f \<le> fl_offset (fs ! k')"
      using contiguous_offset [of "offset + fl_length f" fs "fs ! k'"] by auto
    with Cons.prems Suc Cons.IH [of "offset + fl_length f" k' "Suc fi"] show ?thesis
      by (auto simp: nth_append file_addrs_def)
  qed
qed simp

text \<open>
  File selection is sound: the mask for a selection exists, marks only pieces with a segment in
  a selected file, and once its pieces are finished every selected file is complete.
\<close>

theorem wanted_mask_completes:
  assumes "layout_wf L"
  shows "\<exists>m. wanted_piece_mask L (Some sel) = Some m \<and> pm_wf m
    \<and> (\<forall>i. pm_is_set m i \<longrightarrow> (\<exists>s \<in> set (piece_segments L i). fst s \<in> set sel))
    \<and> (\<forall>k \<in> set sel. k < length (pl_files L) \<longrightarrow>
         layout_files_done_bytes L (pm_is_set m) ! k = fl_length (pl_files L ! k))"
proof -
  from wanted_piece_mask_Some [of L sel] obtain m where
    m: "wanted_piece_mask L (Some sel) = Some m" "pm_wf m"
      "\<And>i. pm_is_set m i \<longleftrightarrow> i < piece_count L \<and> (\<exists>s \<in> set (piece_segments L i). fst s \<in> set sel)"
    by blast
  have "file_done L (pm_is_set m) (pl_files L ! k) = fl_length (pl_files L ! k)"
    if k: "k \<in> set sel" "k < length (pl_files L)" for k
  proof (rule file_done_all)
    fix g assume g: "fl_offset (pl_files L ! k) \<le> g" "g < fl_offset (pl_files L ! k) + fl_length (pl_files L ! k)"
    let ?i = "g div pl_piece_length L"
    have cont: "contiguous 0 (pl_files L)" using assms by (simp add: layout_wf_def)
    have gt: "g < total_length L"
      using g(2) contiguous_end [OF cont nth_mem [OF k(2)]] by (simp add: total_length_def)
    have "(k, g - fl_offset (pl_files L ! k)) \<in> set (piece_addrs L ?i)"
      using piece_addrs_global [OF assms gt] nth_files_addrs [OF cont k(2) g, of 0]
      by (simp add: layout_addrs_def)
    then have "\<exists>s \<in> set (piece_segments L ?i). fst s = k"
      unfolding piece_segments_addrs [OF assms, symmetric] by (force simp: segs_addrs_def)
    moreover have "?i < piece_count L"
      using gt by (simp add: less_piece_count [OF assms]) (rule le_less_trans [OF div_times_less_eq_dividend])
    ultimately show "pm_is_set m ?i" using k(1) m(3) by auto
  qed
  then show ?thesis
    using m layout_files_done_nth [OF assms, of "pm_is_set m"] by auto
qed

theorem wanted_mask_completes_witness:
  "\<exists>m. wanted_piece_mask sample_layout (Some [2]) = Some m
    \<and> layout_files_done_bytes sample_layout (pm_is_set m) ! 2 = 6"
proof -
  have "length (pl_files sample_layout) = 3" "fl_length (pl_files sample_layout ! 2) = 6"
    by (simp_all add: sample_layout_def layout_new_def)
  with wanted_mask_completes [OF sample_layout_wf, of "[2]"] show ?thesis by auto
qed

end
