(* ===== verification/Disk_File.thy ===== *)
theory Disk_File
  imports Xfer_Prelude
begin

text \<open>
  A file as its bytes, with the three operations the storage code performs on it: a positioned
  write (\<open>seek\<close> and \<open>write_all\<close>, or \<open>write_all_at\<close>), extension with zeros, and \<open>set_len\<close>. Used by the
  piece store and by the split downloader's writer.
\<close>

text \<open>Seek and write: a gap beyond the end of the file reads as zeros, an empty write does nothing.\<close>

definition file_write :: "bytes \<Rightarrow> nat \<Rightarrow> bytes \<Rightarrow> bytes" where
  "file_write f off seg =
     (if seg = [] then f
      else take off (f @ replicate (off - length f) 0) @ seg @ drop (off + length seg) f)"

definition file_extend :: "bytes \<Rightarrow> nat \<Rightarrow> bytes" where
  "file_extend f len = f @ replicate (len - length f) 0"

text \<open>\<open>set_len\<close>: cut or extended with zeros.\<close>

definition set_len :: "nat \<Rightarrow> bytes \<Rightarrow> bytes" where
  "set_len n f = take n f @ replicate (n - length f) 0"

lemma length_file_write:
  "length (file_write f off seg) = (if seg = [] then length f else max (length f) (off + length seg))"
  by (auto simp: file_write_def)

lemma nth_file_write:
  assumes "x < length (file_write f off seg)"
  shows "file_write f off seg ! x =
    (if off \<le> x \<and> x < off + length seg then seg ! (x - off) else if x < length f then f ! x else 0)"
proof (cases "seg = []")
  case True
  with assms show ?thesis by (auto simp: file_write_def)
next
  case False
  with assms have x: "x < max (length f) (off + length seg)" by (simp add: length_file_write)
  define h where "h = take off (f @ replicate (off - length f) 0)"
  have h: "length h = off" by (simp add: h_def)
  have hx: "x < off \<Longrightarrow> h ! x = (if x < length f then f ! x else 0)"
    by (simp add: h_def nth_append)
  have eq: "file_write f off seg = h @ seg @ drop (off + length seg) f"
    using False by (simp add: file_write_def h_def)
  consider "x < off" | "off \<le> x" "x < off + length seg" | "off + length seg \<le> x" "x < length f"
    using x by fastforce
  then show ?thesis
  proof cases
    case 1
    then show ?thesis by (simp add: eq nth_append h hx)
  next
    case 2
    then obtain y where "x = off + y" by (auto simp: le_iff_add)
    with 2 show ?thesis by (simp add: eq nth_append h)
  next
    case 3
    then obtain y where "x = off + length seg + y" by (auto simp: le_iff_add)
    with 3 show ?thesis by (simp add: eq nth_append h)
  qed
qed

text \<open>A write of the bytes a file is meant to have keeps every byte that is right, and makes its own right.\<close>

lemma file_write_right:
  assumes "seg = take (length seg) (drop off content)" "p < length f" "f ! p = content ! p"
  shows "p < length (file_write f off seg) \<and> file_write f off seg ! p = content ! p"
proof -
  have lt: "p < length (file_write f off seg)" using assms(2) by (auto simp: length_file_write)
  have "seg ! (p - off) = content ! p" if "off \<le> p" "p < off + length seg"
  proof -
    have "length seg \<le> length content - off" by (metis assms(1) length_drop length_take min.cobounded1 min.commute)
    with that have "off + (p - off) < length content" "p - off < length seg" by auto
    with that show ?thesis by (subst assms(1)) simp
  qed
  with lt assms(2,3) show ?thesis by (simp add: nth_file_write [OF lt])
qed

lemma file_write_covers:
  assumes "seg = take (length seg) (drop off content)" "off \<le> p" "p < off + length seg"
  shows "p < length (file_write f off seg) \<and> file_write f off seg ! p = content ! p"
proof -
  have lt: "p < length (file_write f off seg)" using assms(2,3) by (auto simp: length_file_write)
  have "length seg \<le> length content - off" by (metis assms(1) length_drop length_take min.cobounded1 min.commute)
  with assms(2,3) have "off + (p - off) < length content" "p - off < length seg" by auto
  with assms(2) have "seg ! (p - off) = content ! p" by (subst assms(1)) simp
  with lt assms(2,3) show ?thesis by (simp add: nth_file_write [OF lt])
qed

lemma length_set_len [simp]: "length (set_len n f) = n"
  by (simp add: set_len_def)

lemma nth_set_len: "p < n \<Longrightarrow> p < length f \<Longrightarrow> set_len n f ! p = f ! p"
  by (simp add: set_len_def nth_append)

end
