(* ===== verification/Piece_Store.thy ===== *)
theory Piece_Store
  imports Piece_Layout Disk_File
begin

text \<open>
  \<open>PieceStore\<close> of \<open>crates/xfer-storage/src/piece.rs\<close>: the opened files of a torrent, the piece
  map and the FIFO write-back cache. An opened file is its content; \<open>ps_io\<close> is the environment: the
  outcomes of the coming write and sync calls, \<open>Some k\<close> for one that fails after writing \<open>k\<close>
  bytes, \<open>None\<close> (or no entry) for success. Errors are values; an out-of-range slice of the code is
  \<open>Panic\<close>.
\<close>

section \<open>State and disk\<close>

datatype store_error = Io | Panic

record piece_store =
  ps_layout :: piece_layout
  ps_files :: "bytes option list"
  ps_map :: piece_map
  ps_cache :: "(nat \<times> bytes) list"
  ps_cache_bytes :: nat
  ps_cache_limit :: nat
  ps_io :: "nat option list"

fun next_io :: "nat option list \<Rightarrow> nat option \<times> nat option list" where
  "next_io [] = (None, [])"
| "next_io (r # rs) = (r, rs)"

text \<open>
  \<open>open_store\<close>: \<open>disk\<close> gives the content of an existing path; a wanted file is opened without
  truncation or created empty, an unwanted one is absent.
\<close>

definition file_path :: "piece_layout \<Rightarrow> string \<Rightarrow> file_layout \<Rightarrow> string list" where
  "file_path L name f = (if is_single_file L then [name] else name # fl_path f)"

definition open_store :: "(string list \<Rightarrow> bytes option) \<Rightarrow> string \<Rightarrow> piece_layout \<Rightarrow> nat list option \<Rightarrow>
    nat option list \<Rightarrow> piece_store" where
  "open_store disk name L wanted io =
     \<lparr>ps_layout = L,
      ps_files = map (\<lambda>(fi, f).
        let is_wanted = (case wanted of None \<Rightarrow> True | Some w \<Rightarrow> fi \<in> set w)
        in if is_wanted then Some (case disk (file_path L name f) of None \<Rightarrow> [] | Some c \<Rightarrow> c) else None)
        (enumerate 0 (pl_files L)),
      ps_map = pm_new (piece_count L), ps_cache = [], ps_cache_bytes = 0, ps_cache_limit = 0,
      ps_io = io\<rparr>"

fun preallocate_files :: "nat option list \<Rightarrow> file_layout list \<Rightarrow> bytes option list \<Rightarrow>
    store_error option \<times> bytes option list \<times> nat option list" where
  "preallocate_files io (l # ls) (None # fs) =
     (case preallocate_files io ls fs of (r, fs', io') \<Rightarrow> (r, None # fs', io'))"
| "preallocate_files io (l # ls) (Some f # fs) =
     (if fl_length l = 0 \<or> fl_length l \<le> length f
      then (case preallocate_files io ls fs of (r, fs', io') \<Rightarrow> (r, Some f # fs', io'))
      else case next_io io of
             (Some k, io1) \<Rightarrow> (Some Io, Some f # fs, io1)
           | (None, io1) \<Rightarrow>
               (case preallocate_files io1 ls fs of
                  (r, fs', io') \<Rightarrow> (r, Some (file_extend f (fl_length l)) # fs', io')))"
| "preallocate_files io ls fs = (None, fs, io)"

definition preallocate :: "piece_store \<Rightarrow> store_error option \<times> piece_store" where
  "preallocate st =
     (case preallocate_files (ps_io st) (pl_files (ps_layout st)) (ps_files st) of
        (r, fs, io) \<Rightarrow> (r, st\<lparr>ps_files := fs, ps_io := io\<rparr>))"

section \<open>Writing\<close>

text \<open>\<open>write_piece_direct\<close>: the loop over the piece's segments.\<close>

fun write_segs :: "bytes \<Rightarrow> nat \<Rightarrow> (nat \<times> nat \<times> nat) list \<Rightarrow> piece_store \<Rightarrow> store_error option \<times> piece_store" where
  "write_segs data written [] st = (None, st)"
| "write_segs data written ((fi, off, len) # segs) st =
     (if length data < written + len then (Some Panic, st)
      else
        let seg = take len (drop written data); written' = written + len
        in case ps_files st ! fi of
             None \<Rightarrow> write_segs data written' segs st
           | Some f \<Rightarrow>
               (case next_io (ps_io st) of
                  (Some k, io) \<Rightarrow>
                    (Some Io, st\<lparr>ps_files := (ps_files st)[fi := Some (file_write f off (take k seg))], ps_io := io\<rparr>)
                | (None, io) \<Rightarrow>
                    write_segs data written' segs
                      (st\<lparr>ps_files := (ps_files st)[fi := Some (file_write f off seg)], ps_io := io\<rparr>)))"

definition write_piece_direct :: "nat \<Rightarrow> bytes \<Rightarrow> piece_store \<Rightarrow> store_error option \<times> piece_store" where
  "write_piece_direct index data st = write_segs data 0 (piece_segments (ps_layout st) index) st"

text \<open>
  The common body of the two loops below: the oldest entry leaves the cache, is written, and is put
  back in front when the write fails.
\<close>

definition spill_oldest :: "nat \<Rightarrow> bytes \<Rightarrow> (nat \<times> bytes) list \<Rightarrow> piece_store \<Rightarrow> store_error option \<times> piece_store" where
  "spill_oldest i data rest st =
     (case write_piece_direct i data
             (st\<lparr>ps_cache := rest, ps_cache_bytes := ps_cache_bytes st - length data\<rparr>) of
        (None, st') \<Rightarrow> (None, st')
      | (Some Panic, st') \<Rightarrow> (Some Panic, st')
      | (Some Io, st') \<Rightarrow>
          (Some Io, st'\<lparr>ps_cache_bytes := ps_cache_bytes st' + length data, ps_cache := (i, data) # ps_cache st'\<rparr>))"

lemma opened_update:
  "fs ! i = Some f \<Longrightarrow> j < length fs \<Longrightarrow> fs[i := Some g] ! j = None \<longleftrightarrow> fs ! j = None"
  by (cases "j = i") auto

text \<open>Writing segments only changes the files and consumes outcomes.\<close>

lemma write_segs_frame:
  "\<exists>F I. snd (write_segs data written segs st) = st\<lparr>ps_files := F, ps_io := I\<rparr>
    \<and> length F = length (ps_files st)
    \<and> (\<forall>i < length F. F ! i = None \<longleftrightarrow> ps_files st ! i = None)"
proof (induction data written segs st rule: write_segs.induct)
  case (1 data written st)
  have "st = st\<lparr>ps_files := ps_files st, ps_io := ps_io st\<rparr>" by simp
  then show ?case by (metis snd_conv write_segs.simps(1))
next
  case (2 data written fi off len segs st)
  have id: "st = st\<lparr>ps_files := ps_files st, ps_io := ps_io st\<rparr>" by simp
  show ?case
  proof (cases "length data < written + len")
    case True
    then show ?thesis using id by (simp, metis)
  next
    case False
    note nf = False
    show ?thesis
    proof (cases "ps_files st ! fi")
      case None
      with 2(1) [OF False refl refl None] False show ?thesis by (simp add: Let_def)
    next
      case (Some f)
      show ?thesis
      proof (cases "fst (next_io (ps_io st))")
        case None
        then obtain io where io: "next_io (ps_io st) = (None, io)" by (cases "next_io (ps_io st)") auto
        from 2(2) [OF False refl refl Some io [symmetric] refl] obtain F I where
          *: "snd (write_segs data (written + len) segs (st\<lparr>ps_files := (ps_files st)
                [fi := Some (file_write f off (take len (drop written data)))], ps_io := io\<rparr>))
              = st\<lparr>ps_files := F, ps_io := I\<rparr>" "length F = length (ps_files st)"
            "\<forall>i < length F. F ! i = None \<longleftrightarrow> (ps_files st)[fi := Some (file_write f off (take len (drop written data)))] ! i = None"
          by (auto simp: io)
        have "\<forall>i < length F. F ! i = None \<longleftrightarrow> ps_files st ! i = None"
          using *(2,3) opened_update [OF \<open>ps_files st ! fi = Some f\<close>] by simp
        with * show ?thesis using False Some io by (auto simp: Let_def)
      next
        case (Some k)
        then obtain io where io: "next_io (ps_io st) = (Some k, io)" by (cases "next_io (ps_io st)") auto
        show ?thesis
          using nf \<open>ps_files st ! fi = Some f\<close> io
          by (auto simp: Let_def opened_update intro!: exI [of _ "(ps_files st)[fi := Some (file_write f off (take k (take len (drop written data))))]"] exI [of _ io])
      qed
    qed
  qed
qed

lemma write_piece_direct_frame:
  obtains F I where "snd (write_piece_direct i d st) = st\<lparr>ps_files := F, ps_io := I\<rparr>"
    "length F = length (ps_files st)" "\<forall>j < length F. F ! j = None \<longleftrightarrow> ps_files st ! j = None"
  using write_segs_frame [of d 0 "piece_segments (ps_layout st) i" st]
  by (auto simp: write_piece_direct_def)

lemma spill_oldest_cache:
  "fst (spill_oldest i d rest st) = None \<Longrightarrow> ps_cache (snd (spill_oldest i d rest st)) = rest"
proof -
  assume a: "fst (spill_oldest i d rest st) = None"
  let ?st = "st\<lparr>ps_cache := rest, ps_cache_bytes := ps_cache_bytes st - length d\<rparr>"
  obtain F I where "snd (write_piece_direct i d ?st) = ?st\<lparr>ps_files := F, ps_io := I\<rparr>"
    by (rule write_piece_direct_frame)
  with a show ?thesis
    by (auto simp: spill_oldest_def split: prod.splits option.splits store_error.splits)
qed

lemma spill_shrinks: "(None, st') = spill_oldest i d rest st \<Longrightarrow> ps_cache st' = rest"
  using spill_oldest_cache [of i d rest st] by (metis fst_conv snd_conv)

function flush_write_cache :: "piece_store \<Rightarrow> store_error option \<times> piece_store" where
  "flush_write_cache st =
     (case ps_cache st of
        [] \<Rightarrow> (None, st)
      | (i, data) # rest \<Rightarrow>
          (case spill_oldest i data rest st of
             (None, st') \<Rightarrow> flush_write_cache st'
           | (Some e, st') \<Rightarrow> (Some e, st')))"
  by pat_completeness auto
termination
  by (relation "measure (length \<circ> ps_cache)") (auto dest: spill_shrinks)

function evict_to_limit :: "piece_store \<Rightarrow> store_error option \<times> piece_store" where
  "evict_to_limit st =
     (if ps_cache_limit st < ps_cache_bytes st
      then (case ps_cache st of
              [] \<Rightarrow> (None, st)
            | (i, data) # rest \<Rightarrow>
                (case spill_oldest i data rest st of
                   (None, st') \<Rightarrow> evict_to_limit st'
                 | (Some e, st') \<Rightarrow> (Some e, st')))
      else (None, st))"
  by pat_completeness auto
termination
  by (relation "measure (length \<circ> ps_cache)") (auto dest: spill_shrinks)

declare flush_write_cache.simps [simp del] evict_to_limit.simps [simp del]

definition set_write_cache_limit :: "nat \<Rightarrow> piece_store \<Rightarrow> store_error option \<times> piece_store" where
  "set_write_cache_limit n st = evict_to_limit (st\<lparr>ps_cache_limit := n\<rparr>)"

text \<open>The first cached entry of a piece leaves the queue (\<open>position\<close> and \<open>remove\<close>).\<close>

definition cache_remove :: "nat \<Rightarrow> (nat \<times> bytes) list \<Rightarrow> (nat \<times> bytes) list" where
  "cache_remove index cache =
     takeWhile (\<lambda>c. fst c \<noteq> index) cache @ drop 1 (dropWhile (\<lambda>c. fst c \<noteq> index) cache)"

definition cache_get :: "nat \<Rightarrow> piece_store \<Rightarrow> bytes option" where
  "cache_get index st = map_option snd (find (\<lambda>c. fst c = index) (ps_cache st))"

definition write_piece :: "nat \<Rightarrow> bytes \<Rightarrow> piece_store \<Rightarrow> store_error option \<times> piece_store" where
  "write_piece index data st =
     (if ps_cache_limit st = 0 \<or> ps_cache_limit st < length data
      then write_piece_direct index data st
      else
        let st1 = (case cache_get index st of
                     None \<Rightarrow> st
                   | Some old \<Rightarrow> st\<lparr>ps_cache := cache_remove index (ps_cache st),
                                   ps_cache_bytes := ps_cache_bytes st - length old\<rparr>)
        in evict_to_limit (st1\<lparr>ps_cache := ps_cache st1 @ [(index, data)],
                              ps_cache_bytes := ps_cache_bytes st1 + length data\<rparr>))"

text \<open>\<open>sha1\<close> is the digest of the \<open>sha1\<close> crate; \<open>accept_piece\<close> returns \<open>Inr False\<close> for a bad piece.\<close>

definition verify_piece :: "(bytes \<Rightarrow> bytes) \<Rightarrow> bytes \<Rightarrow> bytes \<Rightarrow> bool" where
  "verify_piece sha1 data expected \<longleftrightarrow> sha1 data = expected"

definition accept_piece :: "(bytes \<Rightarrow> bytes) \<Rightarrow> nat \<Rightarrow> bytes \<Rightarrow> bytes \<Rightarrow> piece_store \<Rightarrow>
    (store_error + bool) \<times> piece_store" where
  "accept_piece sha1 index data expected st =
     (if \<not> verify_piece sha1 data expected then (Inr False, st)
      else case write_piece index data st of
             (Some e, st') \<Rightarrow> (Inl e, st')
           | (None, st') \<Rightarrow> (Inr True, st'\<lparr>ps_map := pm_set index (ps_map st')\<rparr>))"

definition mark_done :: "nat \<Rightarrow> piece_store \<Rightarrow> piece_store" where
  "mark_done index st = st\<lparr>ps_map := pm_set index (ps_map st)\<rparr>"

definition mark_all_done :: "piece_store \<Rightarrow> piece_store" where
  "mark_all_done st = st\<lparr>ps_map := fold pm_set [0..<pm_count (ps_map st)] (ps_map st)\<rparr>"

definition set_bitfield :: "bytes \<Rightarrow> piece_store \<Rightarrow> piece_store" where
  "set_bitfield bf st =
     (if length bf = div_ceil (pm_count (ps_map st)) 8
      then st\<lparr>ps_map := set_from_bitfield bf (ps_map st)\<rparr> else st)"

definition have_piece :: "piece_store \<Rightarrow> nat \<Rightarrow> bool" where
  "have_piece st i = pm_is_set (ps_map st) i"

definition done_bytes :: "piece_store \<Rightarrow> nat" where
  "done_bytes st =
     sum_list (map (\<lambda>i. if pm_is_set (ps_map st) i then piece_len (ps_layout st) i else 0)
       [0..<pm_count (ps_map st)])"

fun sync_files :: "bytes option list \<Rightarrow> nat option list \<Rightarrow> store_error option \<times> nat option list" where
  "sync_files [] io = (None, io)"
| "sync_files (None # fs) io = sync_files fs io"
| "sync_files (Some f # fs) io =
     (case next_io io of (Some k, io') \<Rightarrow> (Some Io, io') | (None, io') \<Rightarrow> sync_files fs io')"

definition flush_all :: "piece_store \<Rightarrow> store_error option \<times> piece_store" where
  "flush_all st =
     (case flush_write_cache st of
        (Some e, st') \<Rightarrow> (Some e, st')
      | (None, st') \<Rightarrow>
          (case sync_files (ps_files st') (ps_io st') of (r, io) \<Rightarrow> (r, st'\<lparr>ps_io := io\<rparr>)))"

definition bitfield :: "piece_store \<Rightarrow> bytes" where
  "bitfield st = to_bitfield (ps_map st)"

definition durable_bitfield :: "piece_store \<Rightarrow> bytes" where
  "durable_bitfield st =
     (if ps_cache_limit st = 0 \<or> ps_cache st = [] then bitfield st
      else to_bitfield (fold (\<lambda>c. pm_unset (fst c)) (ps_cache st) (ps_map st)))"

definition opened_indices :: "piece_store \<Rightarrow> nat list" where
  "opened_indices st = filter (\<lambda>i. ps_files st ! i \<noteq> None) [0..<length (ps_files st)]"

section \<open>Reading\<close>

fun read_cached_segs :: "bytes option list \<Rightarrow> bytes \<Rightarrow> nat \<Rightarrow> (nat \<times> nat \<times> nat) list \<Rightarrow> bytes" where
  "read_cached_segs files cached written [] = []"
| "read_cached_segs files cached written ((fi, off, len) # segs) =
     (let end = min (written + len) (length cached);
          start = min written (length cached);
          seg = take (end - start) (drop start cached)
      in (case files ! fi of None \<Rightarrow> [] | Some f \<Rightarrow> seg) @ read_cached_segs files cached (written + len) segs)"

text \<open>\<open>read_exact\<close> fails when the file is too short; a read of no bytes succeeds anywhere.\<close>

fun read_disk_segs :: "bytes option list \<Rightarrow> (nat \<times> nat \<times> nat) list \<Rightarrow> store_error + bytes" where
  "read_disk_segs files [] = Inr []"
| "read_disk_segs files ((fi, off, len) # segs) =
     (case files ! fi of
        None \<Rightarrow> read_disk_segs files segs
      | Some f \<Rightarrow>
          if len = 0 \<or> off + len \<le> length f
          then (case read_disk_segs files segs of
                  Inl e \<Rightarrow> Inl e | Inr out \<Rightarrow> Inr (take len (drop off f) @ out))
          else Inl Io)"

definition read_piece :: "nat \<Rightarrow> piece_store \<Rightarrow> store_error + bytes" where
  "read_piece index st =
     (let segs = piece_segments (ps_layout st) index
      in case cache_get index st of
           Some cached \<Rightarrow> Inr (read_cached_segs (ps_files st) cached 0 segs)
         | None \<Rightarrow> read_disk_segs (ps_files st) segs)"

fun read_block_cached :: "bytes option list \<Rightarrow> bytes \<Rightarrow> nat \<Rightarrow> nat \<Rightarrow> nat \<Rightarrow> nat \<Rightarrow> file_layout list \<Rightarrow> bytes" where
  "read_block_cached files cached piece_start block_start block_end fi [] = []"
| "read_block_cached files cached piece_start block_start block_end fi (f # fs) =
     (let f_start = fl_offset f; f_end = fl_offset f + fl_length f;
          rest = read_block_cached files cached piece_start block_start block_end (Suc fi) fs
      in if block_end \<le> f_start \<or> f_end \<le> block_start then rest
         else if files ! fi = None then rest
         else let rel = max block_start f_start - piece_start;
                  seg_len = min block_end f_end - max block_start f_start
              in if length cached \<le> rel then rest
                 else let end = min (rel + seg_len) (length cached)
                      in take (end - rel) (drop rel cached) @ rest)"

fun read_block_disk :: "bytes option list \<Rightarrow> nat \<Rightarrow> nat \<Rightarrow> nat \<Rightarrow> file_layout list \<Rightarrow> store_error + bytes" where
  "read_block_disk files block_start block_end fi [] = Inr []"
| "read_block_disk files block_start block_end fi (f # fs) =
     (let f_start = fl_offset f; f_end = fl_offset f + fl_length f
      in if block_end \<le> f_start \<or> f_end \<le> block_start
         then read_block_disk files block_start block_end (Suc fi) fs
         else let seg_start = max block_start f_start - f_start;
                  seg_end = min block_end f_end - f_start;
                  seg_len = seg_end - seg_start
              in case files ! fi of
                   None \<Rightarrow> read_block_disk files block_start block_end (Suc fi) fs
                 | Some file \<Rightarrow>
                     if seg_len = 0 \<or> seg_start + seg_len \<le> length file
                     then (case read_block_disk files block_start block_end (Suc fi) fs of
                             Inl e \<Rightarrow> Inl e | Inr out \<Rightarrow> Inr (take seg_len (drop seg_start file) @ out))
                     else Inl Io)"

definition read_block :: "nat \<Rightarrow> nat \<Rightarrow> nat \<Rightarrow> piece_store \<Rightarrow> store_error + bytes" where
  "read_block index begin len st =
     (let piece_start = index * pl_piece_length (ps_layout st);
          block_start = piece_start + begin;
          block_end = block_start + len;
          files = pl_files (ps_layout st)
      in case cache_get index st of
           Some cached \<Rightarrow> Inr (read_block_cached (ps_files st) cached piece_start block_start block_end 0 files)
         | None \<Rightarrow> read_block_disk (ps_files st) block_start block_end 0 files)"

section \<open>Cells on disk\<close>

definition cell :: "bytes option list \<Rightarrow> nat \<times> nat \<Rightarrow> byte option" where
  "cell files a =
     (case files ! fst a of None \<Rightarrow> None
      | Some f \<Rightarrow> if snd a < length f then Some (f ! snd a) else None)"

text \<open>\<open>file_ok\<close>: every cell of \<open>addrs\<close> in an opened file holds the byte \<open>bs\<close> gives it.\<close>

definition cells_hold :: "bytes option list \<Rightarrow> (nat \<times> nat) list \<Rightarrow> bytes \<Rightarrow> bool" where
  "cells_hold files addrs bs \<longleftrightarrow>
     (\<forall>k < length addrs. files ! fst (addrs ! k) \<noteq> None \<longrightarrow> cell files (addrs ! k) = Some (bs ! k))"

text \<open>A write keeps every cell outside it, and cells inside it that already hold the new byte.\<close>

lemma cell_write_keep:
  assumes "files ! fi = Some f" "fi < length files" "cell files a = Some b"
    and "\<And>x. a = (fi, x) \<Longrightarrow> off \<le> x \<Longrightarrow> x < off + length seg \<Longrightarrow> seg ! (x - off) = b"
  shows "cell (files[fi := Some (file_write f off seg)]) a = Some b"
proof (cases "fst a = fi")
  case False
  with assms(3) show ?thesis by (simp add: cell_def)
next
  case True
  with assms(1,3) have x: "snd a < length f" "f ! snd a = b" by (auto simp: cell_def split: if_splits)
  then have lt: "snd a < length (file_write f off seg)" by (auto simp: length_file_write)
  have "file_write f off seg ! snd a = b"
    unfolding nth_file_write [OF lt] using x assms(4) [of "snd a"] True by (cases a) auto
  with lt True assms(2) show ?thesis by (simp add: cell_def)
qed

lemma cell_write_new:
  assumes "fi < length files" "off \<le> x" "x < off + length seg"
  shows "cell (files[fi := Some (file_write f off seg)]) (fi, x) = Some (seg ! (x - off))"
proof -
  have "seg \<noteq> []" using assms by auto
  then have lt: "x < length (file_write f off seg)" using assms by (simp add: length_file_write)
  with assms show ?thesis by (simp add: cell_def nth_file_write [OF lt])
qed

lemma segs_addrs_Cons: "segs_addrs ((fi, off, len) # segs) = map (Pair fi) [off..<off + len] @ segs_addrs segs"
  by (simp add: segs_addrs_def)

text \<open>
  What writing a piece's segments does to the cells. In every outcome a cell keeps its byte unless
  the write gives it another one; on success every addressed cell of an opened file holds the data;
  enough data never panics.
\<close>

lemma write_segs_keep:
  assumes "\<And>s. s \<in> set segs \<Longrightarrow> fst s < length (ps_files st)" "distinct (segs_addrs segs)"
    and "cell (ps_files st) a = Some b"
    and "\<And>k. k < length (segs_addrs segs) \<Longrightarrow> segs_addrs segs ! k = a \<Longrightarrow> data ! (written + k) = b"
  shows "cell (ps_files (snd (write_segs data written segs st))) a = Some b"
  using assms
proof (induction data written segs st rule: write_segs.induct)
  case (1 data written st)
  then show ?case by simp
next
  case (2 data written fi off len segs st)
  have fi: "fi < length (ps_files st)" using 2(3) [of "(fi, off, len)"] by simp
  have dist: "distinct (segs_addrs segs)" using 2(4) by (simp add: segs_addrs_Cons)
  have tail: "data ! (written + len + k) = b"
    if "k < length (segs_addrs segs)" "segs_addrs segs ! k = a" for k
    using 2(6) [of "len + k"] that by (simp add: segs_addrs_Cons nth_append add.assoc)
  have head: "take len (drop written data) ! (x - off) = b"
    if "a = (fi, x)" "off \<le> x" "x < off + len" "written + len \<le> length data" for x
  proof -
    have "x - off < len" using that by auto
    with 2(6) [of "x - off"] that show ?thesis
      by (simp add: segs_addrs_Cons nth_append)
  qed
  show ?case
  proof (cases "length data < written + len")
    case True
    with 2(5) show ?thesis by simp
  next
    case nf: False
    show ?thesis
    proof (cases "ps_files st ! fi")
      case None
      with nf 2(1) [OF nf refl refl None _ dist 2(5)] 2(3) tail show ?thesis by (simp add: Let_def)
    next
      case (Some f)
      show ?thesis
      proof (cases "next_io (ps_io st)")
        case (Pair r io)
        show ?thesis
        proof (cases r)
          case None
          let ?st = "st\<lparr>ps_files := (ps_files st)[fi := Some (file_write f off (take len (drop written data)))], ps_io := io\<rparr>"
          have "cell ((ps_files st)[fi := Some (file_write f off (take len (drop written data)))]) a = Some b"
            by (rule cell_write_keep [OF Some fi 2(5)], rule head) (use nf in auto)
          with 2(2) [OF nf refl refl Some Pair [symmetric] None _ dist] 2(3) tail nf Some Pair None
          show ?thesis by (simp add: Let_def)
        next
          case (Some k)
          have "cell ((ps_files st)[fi := Some (file_write f off (take k (take len (drop written data))))]) a = Some b"
            by (rule cell_write_keep [OF \<open>ps_files st ! fi = Some f\<close> fi 2(5)])
              (use head nf in \<open>auto simp: min_def split: if_splits\<close>)
          with nf \<open>ps_files st ! fi = Some f\<close> Pair Some show ?thesis by (simp add: Let_def)
        qed
      qed
    qed
  qed
qed

lemma write_segs_no_panic:
  "written + length (segs_addrs segs) \<le> length data \<Longrightarrow> fst (write_segs data written segs st) \<noteq> Some Panic"
proof (induction data written segs st rule: write_segs.induct)
  case (2 data written fi off len segs st)
  then show ?case
    by (auto simp: Let_def segs_addrs_Cons split: option.splits prod.splits)
qed simp

lemma write_segs_result:
  assumes "fst (write_segs data written segs st) = None"
    and "\<And>s. s \<in> set segs \<Longrightarrow> fst s < length (ps_files st)" "distinct (segs_addrs segs)"
  shows "cells_hold (ps_files (snd (write_segs data written segs st))) (segs_addrs segs) (drop written data)"
  using assms
proof (induction data written segs st rule: write_segs.induct)
  case (1 data written st)
  then show ?case by (simp add: segs_addrs_def cells_hold_def)
next
  case (2 data written fi off len segs st)
  have fi: "fi < length (ps_files st)" using 2(4) [of "(fi, off, len)"] by simp
  have dist: "distinct (segs_addrs segs)" using 2(5) by (simp add: segs_addrs_Cons)
  from 2(3) have nf: "\<not> length data < written + len" by auto
  let ?A = "map (Pair fi) [off..<off + len]"
  have nth_tail: "drop written data ! (len + k) = drop (written + len) data ! k" for k
    using nf by (simp add: add.assoc)
  have split: "cells_hold F (segs_addrs ((fi, off, len) # segs)) (drop written data)"
    if h: "\<And>k. k < len \<Longrightarrow> F ! fi \<noteq> None \<Longrightarrow> cell F (fi, off + k) = Some (data ! (written + k))"
      and t: "cells_hold F (segs_addrs segs) (drop (written + len) data)" for F
    unfolding cells_hold_def
  proof (intro allI impI)
    fix k assume k: "k < length (segs_addrs ((fi, off, len) # segs))"
      and op: "F ! fst (segs_addrs ((fi, off, len) # segs) ! k) \<noteq> None"
    show "cell F (segs_addrs ((fi, off, len) # segs) ! k) = Some (drop written data ! k)"
    proof (cases "k < len")
      case True
      with h [of k] op nf show ?thesis by (simp add: segs_addrs_Cons nth_append)
    next
      case False
      then obtain l where l: "k = len + l" by (auto simp: le_iff_add not_less)
      with t k op nth_tail [of l] show ?thesis by (simp add: segs_addrs_Cons nth_append cells_hold_def)
    qed
  qed
  show ?case
  proof (cases "ps_files st ! fi")
    case None
    have r: "write_segs data written ((fi, off, len) # segs) st = write_segs data (written + len) segs st"
      using nf None by (simp add: Let_def)
    from 2(3) have "fst (write_segs data (written + len) segs st) = None" unfolding r .
    with 2(1) [OF nf refl refl None _ _ dist] 2(4)
    have IH: "cells_hold (ps_files (snd (write_segs data (written + len) segs st))) (segs_addrs segs) (drop (written + len) data)"
      by auto
    have "ps_files (snd (write_segs data (written + len) segs st)) ! fi = None"
      using write_segs_frame [of data "written + len" segs st] None fi by auto
    with split [OF _ IH] show ?thesis unfolding r by simp
  next
    case (Some f)
    obtain r io where Pair: "next_io (ps_io st) = (r, io)" by (cases "next_io (ps_io st)")
    from 2(3) nf Some Pair have None: "r = None" by (cases r) (auto simp: Let_def)
    let ?st = "st\<lparr>ps_files := (ps_files st)[fi := Some (file_write f off (take len (drop written data)))], ps_io := io\<rparr>"
    have r: "write_segs data written ((fi, off, len) # segs) st = write_segs data (written + len) segs ?st"
      using nf Some Pair None by (simp add: Let_def)
    from 2(3) have "fst (write_segs data (written + len) segs ?st) = None" unfolding r .
    with 2(2) [OF nf refl refl Some Pair [symmetric] None _ _ dist] 2(4)
    have IH: "cells_hold (ps_files (snd (write_segs data (written + len) segs ?st))) (segs_addrs segs) (drop (written + len) data)"
      by auto
    have len: "length (take len (drop written data)) = len" using nf by simp
    have "cell (ps_files (snd (write_segs data (written + len) segs ?st))) (fi, off + k) = Some (data ! (written + k))"
      if k: "k < len" for k
    proof (rule write_segs_keep)
      show "s \<in> set segs \<Longrightarrow> fst s < length (ps_files ?st)" for s using 2(4) [of s] by simp
      show "cell (ps_files ?st) (fi, off + k) = Some (data ! (written + k))"
        using cell_write_new [OF fi, of off "off + k" "take len (drop written data)" f, unfolded len] k nf by simp
      fix l assume "l < length (segs_addrs segs)" "segs_addrs segs ! l = (fi, off + k)"
      then have "(fi, off + k) \<in> set (segs_addrs segs)" by (metis nth_mem)
      moreover have "(fi, off + k) \<in> set ?A" using k by auto
      ultimately show "data ! (written + len + l) = data ! (written + k)"
        using 2(5) unfolding segs_addrs_Cons distinct_append by blast
    qed (rule dist)
    with split [OF _ IH] show ?thesis unfolding r by simp
  qed
qed

section \<open>The invariant\<close>

text \<open>
  \<open>content i\<close> is the true data of piece \<open>i\<close>. Every cached entry is the true data of its piece; the
  pieces of a set \<open>S\<close> are settled when each is cached or completely on disk (in the opened files).
\<close>

definition on_disk :: "(nat \<Rightarrow> bytes) \<Rightarrow> piece_store \<Rightarrow> nat \<Rightarrow> bool" where
  "on_disk content st i \<longleftrightarrow> cells_hold (ps_files st) (piece_addrs (ps_layout st) i) (content i)"

definition settled :: "(nat \<Rightarrow> bytes) \<Rightarrow> nat set \<Rightarrow> piece_store \<Rightarrow> bool" where
  "settled content S st \<longleftrightarrow> (\<forall>i \<in> S. i \<in> fst ` set (ps_cache st) \<or> on_disk content st i)"

definition store_wf :: "(nat \<Rightarrow> bytes) \<Rightarrow> piece_store \<Rightarrow> bool" where
  "store_wf content st \<longleftrightarrow>
     layout_wf (ps_layout st) \<and> length (ps_files st) = length (pl_files (ps_layout st)) \<and>
     pm_wf (ps_map st) \<and> pm_count (ps_map st) = piece_count (ps_layout st) \<and>
     distinct (map fst (ps_cache st)) \<and> ps_cache_bytes st = sum_list (map (length \<circ> snd) (ps_cache st)) \<and>
     (\<forall>c \<in> set (ps_cache st). snd c = content (fst c)) \<and>
     (\<forall>i. length (content i) = piece_len (ps_layout st) i)"

lemma piece_segments_files:
  assumes "s \<in> set (piece_segments L i)"
  shows "fst s < length (pl_files L)"
proof -
  have "s \<in> set (segments_loop ps pe fi fs) \<Longrightarrow> fst s < fi + length fs" for ps pe fi fs
    by (induction ps pe fi fs rule: segments_loop.induct) (fastforce simp: Let_def split: if_splits)+
  from this [of _ _ 0 "pl_files L"] assms show ?thesis by (auto simp: piece_segments_def Let_def)
qed

lemma direct_frame:
  assumes "snd (write_piece_direct i d st) = st'"
  shows "ps_layout st' = ps_layout st" "ps_map st' = ps_map st" "ps_cache st' = ps_cache st"
    "ps_cache_bytes st' = ps_cache_bytes st" "ps_cache_limit st' = ps_cache_limit st"
    "length (ps_files st') = length (ps_files st)"
    "j < length (ps_files st) \<Longrightarrow> ps_files st' ! j = None \<longleftrightarrow> ps_files st ! j = None"
proof -
  obtain F I where "st' = st\<lparr>ps_files := F, ps_io := I\<rparr>" "length F = length (ps_files st)"
    "\<forall>j < length F. F ! j = None \<longleftrightarrow> ps_files st ! j = None"
    using assms write_piece_direct_frame by metis
  then show "ps_layout st' = ps_layout st" "ps_map st' = ps_map st" "ps_cache st' = ps_cache st"
    "ps_cache_bytes st' = ps_cache_bytes st" "ps_cache_limit st' = ps_cache_limit st"
    "length (ps_files st') = length (ps_files st)"
    "j < length (ps_files st) \<Longrightarrow> ps_files st' ! j = None \<longleftrightarrow> ps_files st ! j = None"
    by simp_all
qed

lemma direct_wf:
  assumes "store_wf content st"
  shows "store_wf content (snd (write_piece_direct i d st))"
  using assms direct_frame [OF refl, where i = i and d = d and st = st] by (simp add: store_wf_def)

lemma piece_addrs_file:
  assumes "k < length (piece_addrs L i)"
  shows "fst (piece_addrs L i ! k) < length (pl_files L)"
proof -
  obtain g x where a: "piece_addrs L i ! k = (g, x)" by fastforce
  with nth_mem [OF assms] have "(g, x) \<in> set (layout_addrs L)" using piece_addrs_subset by auto
  then show ?thesis unfolding in_layout_addrs a by simp
qed

lemma direct_keeps_disk:
  assumes wf: "store_wf content st" and disk: "on_disk content st j"
  shows "on_disk content (snd (write_piece_direct i (content i) st)) j"
  unfolding on_disk_def cells_hold_def
proof (intro allI impI)
  let ?st = "snd (write_piece_direct i (content i) st)" and ?L = "ps_layout st"
  note fr = direct_frame [OF refl, where i = i and d = "content i" and st = st]
  fix k assume k: "k < length (piece_addrs (ps_layout ?st) j)"
    and op: "ps_files ?st ! fst (piece_addrs (ps_layout ?st) j ! k) \<noteq> None"
  have L: "layout_wf ?L" and len: "length (ps_files st) = length (pl_files ?L)"
    using wf by (simp_all add: store_wf_def)
  have k': "k < length (piece_addrs ?L j)" using k by (simp add: fr)
  have "fst (piece_addrs ?L j ! k) < length (ps_files st)" using piece_addrs_file [OF k'] len by simp
  then have "ps_files st ! fst (piece_addrs ?L j ! k) \<noteq> None" using op fr(7) by (simp add: fr(1))
  then have c: "cell (ps_files st) (piece_addrs ?L j ! k) = Some (content j ! k)"
    using disk k' by (simp add: on_disk_def cells_hold_def)
  have "cell (ps_files ?st) (piece_addrs ?L j ! k) = Some (content j ! k)"
    unfolding write_piece_direct_def
  proof (rule write_segs_keep [OF _ _ c])
    show "s \<in> set (piece_segments ?L i) \<Longrightarrow> fst s < length (ps_files st)" for s
      using piece_segments_files len by simp
    show "distinct (segs_addrs (piece_segments ?L i))" by (simp add: piece_segments_addrs [OF L])
    fix l assume l: "l < length (segs_addrs (piece_segments ?L i))"
      "segs_addrs (piece_segments ?L i) ! l = piece_addrs ?L j ! k"
    then have l': "l < length (piece_addrs ?L i)" "piece_addrs ?L i ! l = piece_addrs ?L j ! k"
      by (simp_all add: piece_segments_addrs [OF L])
    then have "i = j" using piece_addrs_disjoint nth_mem k' by metis
    with l' k' have "l = k" using nth_eq_iff_index_eq [OF distinct_piece_addrs] by blast
    with \<open>i = j\<close> show "content i ! (0 + l) = content j ! k" by simp
  qed
  then show "cell (ps_files ?st) (piece_addrs (ps_layout ?st) j ! k) = Some (content j ! k)"
    by (simp add: fr)
qed

lemma direct_on_disk:
  assumes wf: "store_wf content st" and ok: "fst (write_piece_direct i (content i) st) = None"
  shows "on_disk content (snd (write_piece_direct i (content i) st)) i"
proof -
  let ?L = "ps_layout st"
  have L: "layout_wf ?L" and len: "length (ps_files st) = length (pl_files ?L)"
    using wf by (simp_all add: store_wf_def)
  have "cells_hold (ps_files (snd (write_piece_direct i (content i) st)))
      (segs_addrs (piece_segments ?L i)) (drop 0 (content i))"
    unfolding write_piece_direct_def
    by (rule write_segs_result)
      (use ok len piece_segments_files in \<open>auto simp: write_piece_direct_def piece_segments_addrs [OF L]\<close>)
  then show ?thesis
    by (simp add: on_disk_def direct_frame [OF refl] piece_segments_addrs [OF L])
qed

lemma direct_no_panic:
  "store_wf content st \<Longrightarrow> fst (write_piece_direct i (content i) st) \<noteq> Some Panic"
  unfolding write_piece_direct_def
  by (rule write_segs_no_panic) (simp add: store_wf_def piece_segments_addrs)

text \<open>Failing needs a failing write: with no fault left every operation succeeds.\<close>

definition fault_free :: "piece_store \<Rightarrow> bool" where
  "fault_free st \<longleftrightarrow> (\<forall>r \<in> set (ps_io st). r = None)"

lemma next_io_None: "\<forall>r \<in> set io. r = None \<Longrightarrow> fst (next_io io) = None \<and> (\<forall>r \<in> set (snd (next_io io)). r = None)"
  by (cases io) auto

lemma write_segs_fault_free:
  "\<forall>r \<in> set (ps_io st). r = None \<Longrightarrow> fst (write_segs data written segs st) \<noteq> Some Io \<and>
    (\<forall>r \<in> set (ps_io (snd (write_segs data written segs st))). r = None)"
proof (induction data written segs st rule: write_segs.induct)
  case (2 data written fi off len segs st)
  obtain io where io: "next_io (ps_io st) = (None, io)" "\<forall>r \<in> set io. r = None"
    using next_io_None [OF 2(3)] by (cases "next_io (ps_io st)") auto
  show ?case
  proof (cases "length data < written + len")
    case True
    with 2(3) show ?thesis by simp
  next
    case nf: False
    show ?thesis
    proof (cases "ps_files st ! fi")
      case None
      with 2(1) [OF nf refl refl None 2(3)] nf show ?thesis by (simp add: Let_def)
    next
      case (Some f)
      with 2(2) [OF nf refl refl Some io(1) [symmetric] refl] nf io show ?thesis by (simp add: Let_def)
    qed
  qed
qed simp

lemma direct_fault_free:
  "fault_free st \<Longrightarrow> fst (write_piece_direct i d st) \<noteq> Some Io \<and> fault_free (snd (write_piece_direct i d st))"
  unfolding write_piece_direct_def fault_free_def by (rule write_segs_fault_free)

section \<open>The cache\<close>

lemma spill_result:
  assumes wf: "store_wf content st" and c: "ps_cache st = (i, d) # rest" and set: "settled content S st"
  shows "store_wf content (snd (spill_oldest i d rest st)) \<and> settled content S (snd (spill_oldest i d rest st))
    \<and> ps_cache_limit (snd (spill_oldest i d rest st)) = ps_cache_limit st
    \<and> ps_map (snd (spill_oldest i d rest st)) = ps_map st
    \<and> ps_layout (snd (spill_oldest i d rest st)) = ps_layout st
    \<and> fst (spill_oldest i d rest st) \<noteq> Some Panic
    \<and> (fault_free st \<longrightarrow> fst (spill_oldest i d rest st) = None \<and> fault_free (snd (spill_oldest i d rest st)))"
proof -
  have d: "d = content i" using wf c by (auto simp: store_wf_def)
  let ?st1 = "st\<lparr>ps_cache := rest, ps_cache_bytes := ps_cache_bytes st - length d\<rparr>"
  obtain r st2 where w: "write_piece_direct i (content i) ?st1 = (r, st2)" by fastforce
  then have w1: "fst (write_piece_direct i (content i) ?st1) = r" "snd (write_piece_direct i (content i) ?st1) = st2"
    by simp_all
  have wf1: "store_wf content ?st1" using wf c by (simp add: store_wf_def)
  have wf2: "store_wf content st2" using direct_wf [OF wf1, of i "content i"] w1 by simp
  have keep: "on_disk content st j \<Longrightarrow> on_disk content st2 j" for j
    using direct_keeps_disk [OF wf1, of j i] w1 by (simp add: on_disk_def)
  note fr = direct_frame [OF w1(2), simplified]
  have ff: "fault_free st \<Longrightarrow> r \<noteq> Some Io \<and> fault_free st2"
    using direct_fault_free [of ?st1 i "content i"] w1 by (simp add: fault_free_def)
  have np: "r \<noteq> Some Panic" using direct_no_panic [OF wf1, of i] w1 by simp
  show ?thesis
  proof (cases r)
    case None
    have "on_disk content st2 i" using direct_on_disk [OF wf1, of i] w1 None by simp
    then have "settled content S st2" using set keep c by (auto simp: settled_def fr)
    with None w wf2 fr ff show ?thesis by (simp add: spill_oldest_def d)
  next
    case (Some e)
    with np have e: "e = Io" by (cases e) auto
    let ?st3 = "st2\<lparr>ps_cache_bytes := ps_cache_bytes st2 + length d, ps_cache := (i, d) # ps_cache st2\<rparr>"
    have sp: "spill_oldest i d rest st = (Some Io, ?st3)" using w Some e by (simp add: spill_oldest_def d)
    have "store_wf content ?st3" using wf2 wf c d by (simp add: store_wf_def fr)
    moreover have "settled content S ?st3"
      using set keep c by (auto simp: settled_def fr on_disk_def)
    ultimately show ?thesis using sp fr ff Some e by auto
  qed
qed

lemma evict_result:
  assumes "store_wf content st" "settled content S st"
  shows "store_wf content (snd (evict_to_limit st)) \<and> settled content S (snd (evict_to_limit st))
    \<and> ps_cache_limit (snd (evict_to_limit st)) = ps_cache_limit st \<and> ps_map (snd (evict_to_limit st)) = ps_map st
    \<and> ps_layout (snd (evict_to_limit st)) = ps_layout st
    \<and> fst (evict_to_limit st) \<noteq> Some Panic
    \<and> (fst (evict_to_limit st) = None \<longrightarrow> ps_cache_bytes (snd (evict_to_limit st)) \<le> ps_cache_limit st)
    \<and> (fault_free st \<longrightarrow> fst (evict_to_limit st) = None \<and> fault_free (snd (evict_to_limit st)))"
  using assms
proof (induction st rule: evict_to_limit.induct)
  case (1 st)
  show ?case
  proof (cases "ps_cache_limit st < ps_cache_bytes st")
    case False
    with 1 show ?thesis by (simp add: evict_to_limit.simps [of st])
  next
    case lim: True
    then obtain i d rest where c: "ps_cache st = (i, d) # rest"
      using 1(2) by (cases "ps_cache st") (auto simp: store_wf_def)
    obtain r st' where sp: "spill_oldest i d rest st = (r, st')" by fastforce
    note s = spill_result [OF 1(2) c 1(3), unfolded sp fst_conv snd_conv]
    show ?thesis
    proof (cases r)
      case None
      have step: "evict_to_limit st = evict_to_limit st'"
        using lim c sp None by (subst evict_to_limit.simps) simp
      from 1(1) [OF lim c refl sp [symmetric] None] s show ?thesis unfolding step by auto
    next
      case (Some e)
      have step: "evict_to_limit st = (Some e, st')"
        using lim c sp Some by (subst evict_to_limit.simps) simp
      from s Some show ?thesis unfolding step by auto
    qed
  qed
qed

lemma flush_result:
  assumes "store_wf content st" "settled content S st"
  shows "store_wf content (snd (flush_write_cache st)) \<and> settled content S (snd (flush_write_cache st))
    \<and> ps_cache_limit (snd (flush_write_cache st)) = ps_cache_limit st \<and> ps_map (snd (flush_write_cache st)) = ps_map st
    \<and> ps_layout (snd (flush_write_cache st)) = ps_layout st
    \<and> fst (flush_write_cache st) \<noteq> Some Panic
    \<and> (fst (flush_write_cache st) = None \<longrightarrow> ps_cache (snd (flush_write_cache st)) = [])
    \<and> (fault_free st \<longrightarrow> fst (flush_write_cache st) = None \<and> fault_free (snd (flush_write_cache st)))"
  using assms
proof (induction st rule: flush_write_cache.induct)
  case (1 st)
  show ?case
  proof (cases "ps_cache st")
    case Nil
    with 1 show ?thesis by (simp add: flush_write_cache.simps [of st])
  next
    case (Cons c rest)
    then obtain i d where c: "ps_cache st = (i, d) # rest" by (cases c) auto
    obtain r st' where sp: "spill_oldest i d rest st = (r, st')" by fastforce
    note s = spill_result [OF 1(2) c 1(3), unfolded sp fst_conv snd_conv]
    show ?thesis
    proof (cases r)
      case None
      have step: "flush_write_cache st = flush_write_cache st'"
        using c sp None by (subst flush_write_cache.simps) simp
      from 1(1) [OF c refl sp [symmetric] None] s show ?thesis unfolding step by auto
    next
      case (Some e)
      have step: "flush_write_cache st = (Some e, st')"
        using c sp Some by (subst flush_write_cache.simps) simp
      from s Some show ?thesis unfolding step by auto
    qed
  qed
qed

lemma cache_get_Some:
  "distinct (map fst (ps_cache st)) \<Longrightarrow> cache_get i st = Some d \<longleftrightarrow> (i, d) \<in> set (ps_cache st)"
proof -
  have "distinct (map fst cs) \<Longrightarrow> map_option snd (find (\<lambda>c. fst c = i) cs) = Some d \<longleftrightarrow> (i, d) \<in> set cs"
    for cs :: "(nat \<times> bytes) list"
    by (induction cs) (force simp: image_iff)+
  then show "distinct (map fst (ps_cache st)) \<Longrightarrow> ?thesis" by (simp add: cache_get_def)
qed

lemma cache_get_None: "cache_get i st = None \<longleftrightarrow> i \<notin> fst ` set (ps_cache st)"
  by (force simp: cache_get_def find_None_iff)

lemma cache_remove_split:
  assumes "distinct (map fst cs)" "(i, d) \<in> set cs"
  shows "\<exists>xs ys. cs = xs @ (i, d) # ys \<and> cache_remove i cs = xs @ ys \<and> i \<notin> fst ` set (xs @ ys)"
proof -
  from split_list [OF assms(2)] obtain xs ys where cs: "cs = xs @ (i, d) # ys" by blast
  with assms(1) have notin: "i \<notin> fst ` set xs" "i \<notin> fst ` set ys" by auto
  then have "\<forall>c \<in> set xs. fst c \<noteq> i" by auto
  then have "cache_remove i cs = xs @ ys"
    by (simp add: cache_remove_def cs takeWhile_append dropWhile_append)
  with cs notin show ?thesis by auto
qed

lemma write_piece_result:
  assumes wf: "store_wf content st" and set: "settled content S st" and d: "d = content i"
  shows "store_wf content (snd (write_piece i d st)) \<and> settled content S (snd (write_piece i d st))
    \<and> ps_cache_limit (snd (write_piece i d st)) = ps_cache_limit st \<and> ps_map (snd (write_piece i d st)) = ps_map st
    \<and> ps_layout (snd (write_piece i d st)) = ps_layout st
    \<and> fst (write_piece i d st) \<noteq> Some Panic
    \<and> (fst (write_piece i d st) = None \<longrightarrow> settled content (insert i S) (snd (write_piece i d st)))
    \<and> (fst (write_piece i d st) = None \<longrightarrow> ps_cache_bytes st \<le> ps_cache_limit st \<longrightarrow>
        ps_cache_bytes (snd (write_piece i d st)) \<le> ps_cache_limit st)
    \<and> (fault_free st \<longrightarrow> fst (write_piece i d st) = None \<and> fault_free (snd (write_piece i d st)))"
proof (cases "ps_cache_limit st = 0 \<or> ps_cache_limit st < length d")
  case True
  then have w: "write_piece i d st = write_piece_direct i (content i) st" by (simp add: write_piece_def d)
  note fr = direct_frame [OF refl, where i = i and d = "content i" and st = st]
  have "settled content S (snd (write_piece_direct i (content i) st))"
    using set direct_keeps_disk [OF wf] by (auto simp: settled_def fr)
  moreover have "settled content (insert i S) (snd (write_piece_direct i (content i) st))"
    if "fst (write_piece_direct i (content i) st) = None"
    using calculation direct_on_disk [OF wf that] by (simp add: settled_def)
  moreover have "fault_free st \<Longrightarrow> fst (write_piece_direct i (content i) st) = None"
    using direct_fault_free [of st i "content i"] direct_no_panic [OF wf, of i]
    by (cases "fst (write_piece_direct i (content i) st)") (auto, metis store_error.exhaust)
  ultimately show ?thesis
    unfolding w using direct_wf [OF wf, of i "content i"] direct_no_panic [OF wf, of i]
      direct_fault_free [of st i "content i"] by (simp add: fr)
next
  case False
  define st1 where "st1 = (case cache_get i st of None \<Rightarrow> st
    | Some old \<Rightarrow> st\<lparr>ps_cache := cache_remove i (ps_cache st), ps_cache_bytes := ps_cache_bytes st - length old\<rparr>)"
  let ?st2 = "st1\<lparr>ps_cache := ps_cache st1 @ [(i, d)], ps_cache_bytes := ps_cache_bytes st1 + length d\<rparr>"
  have w: "write_piece i d st = evict_to_limit ?st2"
    using False by (simp only: write_piece_def if_False Let_def st1_def)
  have dist: "distinct (map fst (ps_cache st))" using wf by (simp add: store_wf_def)
  have same: "ps_layout st1 = ps_layout st" "ps_files st1 = ps_files st" "ps_map st1 = ps_map st"
    "ps_cache_limit st1 = ps_cache_limit st" "ps_io st1 = ps_io st"
    by (simp_all add: st1_def split: option.split)
  have st1: "store_wf content st1 \<and> i \<notin> fst ` set (ps_cache st1)
      \<and> fst ` set (ps_cache st) \<subseteq> insert i (fst ` set (ps_cache st1))"
  proof (cases "cache_get i st")
    case None
    then have "st1 = st" by (simp add: st1_def)
    with wf None show ?thesis by (auto simp: cache_get_None)
  next
    case (Some old)
    then have "(i, old) \<in> set (ps_cache st)" using cache_get_Some [OF dist] by simp
    from cache_remove_split [OF dist this] obtain xs ys where
      xy: "ps_cache st = xs @ (i, old) # ys" "cache_remove i (ps_cache st) = xs @ ys" "i \<notin> fst ` set (xs @ ys)"
      by blast
    have "st1 = st\<lparr>ps_cache := xs @ ys, ps_cache_bytes := ps_cache_bytes st - length old\<rparr>"
      using Some xy(2) by (simp add: st1_def)
    with wf xy show ?thesis by (auto simp: store_wf_def)
  qed
  have wf2: "store_wf content ?st2" using st1 d by (simp add: store_wf_def)
  have set2: "settled content (insert i S) ?st2"
    unfolding settled_def
  proof
    fix j assume j: "j \<in> insert i S"
    show "j \<in> fst ` set (ps_cache ?st2) \<or> on_disk content ?st2 j"
    proof (cases "j = i")
      case False
      with j set have "j \<in> fst ` set (ps_cache st) \<or> on_disk content st j" by (auto simp: settled_def)
      with st1 False show ?thesis by (simp add: on_disk_def same) blast
    qed simp
  qed
  have "settled content S (snd (evict_to_limit ?st2))"
    using evict_result [OF wf2 set2] by (simp add: settled_def)
  then show ?thesis
    unfolding w using evict_result [OF wf2 set2] by (simp add: same fault_free_def)
qed

definition store_ok :: "(nat \<Rightarrow> bytes) \<Rightarrow> piece_store \<Rightarrow> bool" where
  "store_ok content st \<longleftrightarrow> store_wf content st \<and> settled content (pm_abs (ps_map st)) st"

lemma accept_piece_ok:
  assumes ok: "store_ok content st" and sha: "sha1 d = expected \<Longrightarrow> d = content i"
  shows "store_ok content (snd (accept_piece sha1 i d expected st))
    \<and> ps_cache_limit (snd (accept_piece sha1 i d expected st)) = ps_cache_limit st
    \<and> ps_layout (snd (accept_piece sha1 i d expected st)) = ps_layout st
    \<and> fst (accept_piece sha1 i d expected st) \<noteq> Inl Panic
    \<and> pm_abs (ps_map (snd (accept_piece sha1 i d expected st)))
        = (if fst (accept_piece sha1 i d expected st) = Inr True \<and> i < piece_count (ps_layout st)
           then insert i (pm_abs (ps_map st)) else pm_abs (ps_map st))"
proof (cases "sha1 d = expected")
  case False
  with ok show ?thesis by (simp add: accept_piece_def verify_piece_def)
next
  case True
  let ?S = "pm_abs (ps_map st)"
  have wf: "store_wf content st" "settled content ?S st" using ok by (simp_all add: store_ok_def)
  obtain r st' where w: "write_piece i d st = (r, st')" by fastforce
  note res = write_piece_result [OF wf sha [OF True], unfolded w fst_conv snd_conv]
  show ?thesis
  proof (cases r)
    case (Some e)
    with res w True show ?thesis by (auto simp: accept_piece_def verify_piece_def store_ok_def)
  next
    case None
    have r: "store_wf content st'" "ps_map st' = ps_map st" "ps_cache_limit st' = ps_cache_limit st"
      "ps_layout st' = ps_layout st" "settled content (insert i ?S) st'"
      using res None by blast+
    have pw: "pm_wf (ps_map st)" "pm_count (ps_map st) = piece_count (ps_layout st)"
      using wf(1) by (simp_all add: store_wf_def)
    define st2 where "st2 = st'\<lparr>ps_map := pm_set i (ps_map st')\<rparr>"
    have acc: "accept_piece sha1 i d expected st = (Inr True, st2)"
      using w True None by (simp add: accept_piece_def verify_piece_def st2_def)
    have abs: "pm_abs (ps_map st2) = (if i < piece_count (ps_layout st) then insert i ?S else ?S)"
      using pw by (auto simp: pm_abs_def pm_is_set_set st2_def r(2))
    have wf2: "store_wf content st2"
      using r(1) by (simp add: store_wf_def st2_def)
    have "settled content (insert i ?S) st2"
      using r(5) by (simp add: settled_def on_disk_def st2_def)
    then have "settled content (pm_abs (ps_map st2)) st2"
      by (simp add: abs settled_def)
    with wf2 abs show ?thesis
      by (simp add: acc store_ok_def) (simp add: st2_def r(3,4))
  qed
qed

section \<open>Reading back\<close>

text \<open>The bytes of a list of cells that lie in opened files.\<close>

definition visible :: "bytes option list \<Rightarrow> (nat \<times> nat) list \<Rightarrow> bytes \<Rightarrow> bytes" where
  "visible files addrs bs = map snd (filter (\<lambda>(a, b). files ! fst a \<noteq> None) (zip addrs bs))"

lemma visible_append:
  "length xs = length us \<Longrightarrow> visible files (xs @ ys) (us @ vs) = visible files xs us @ visible files ys vs"
  by (simp add: visible_def)

lemma visible_file:
  "length bs = n \<Longrightarrow> visible files (map (Pair fi) [off..<off + n]) bs = (if files ! fi = None then [] else bs)"
proof -
  assume n: "length bs = n"
  have "filter (\<lambda>(a, b). files ! fst a \<noteq> None) (zip (map (Pair fi) xs) ys)
      = (if files ! fi = None then [] else zip (map (Pair fi) xs) ys)" for xs :: "nat list" and ys :: bytes
    by (induction xs ys rule: list_induct2') auto
  with n show ?thesis by (simp add: visible_def)
qed

lemma read_cached_visible:
  "written + length (segs_addrs segs) \<le> length cached \<Longrightarrow>
   read_cached_segs files cached written segs
     = visible files (segs_addrs segs) (take (length (segs_addrs segs)) (drop written cached))"
proof (induction files cached written segs rule: read_cached_segs.induct)
  case (1 files cached written)
  then show ?case by (simp add: segs_addrs_def visible_def)
next
  case (2 files cached written fi off len segs)
  let ?n = "length (segs_addrs segs)"
  have le: "written + len + ?n \<le> length cached" using 2(2) by (simp add: segs_addrs_Cons)
  have split: "take (len + ?n) (drop written cached)
      = take len (drop written cached) @ take ?n (drop (written + len) cached)"
    by (simp add: take_add add.commute)
  have "visible files (segs_addrs ((fi, off, len) # segs)) (take (len + ?n) (drop written cached))
      = (if files ! fi = None then [] else take len (drop written cached))
        @ visible files (segs_addrs segs) (take ?n (drop (written + len) cached))"
    unfolding split segs_addrs_Cons
    by (subst visible_append) (use le in \<open>simp_all add: visible_file\<close>)
  with 2(1) [OF refl refl refl] le show ?case
    by (auto simp: segs_addrs_Cons Let_def min_def split: option.split)
qed

lemma read_disk_visible:
  "cells_hold files (segs_addrs segs) bs \<Longrightarrow> length bs = length (segs_addrs segs) \<Longrightarrow>
   read_disk_segs files segs = Inr (visible files (segs_addrs segs) bs)"
proof (induction files segs arbitrary: bs rule: read_disk_segs.induct)
  case (1 files)
  then show ?case by (simp add: segs_addrs_def visible_def)
next
  case (2 files fi off len segs)
  define us vs where "us = take len bs" and "vs = drop len bs"
  have bs: "bs = us @ vs" "length us = len" "length vs = length (segs_addrs segs)"
    using 2(4) by (simp_all add: us_def vs_def segs_addrs_Cons)
  have tail: "cells_hold files (segs_addrs segs) vs"
    unfolding cells_hold_def
  proof (intro allI impI)
    fix k assume k: "k < length (segs_addrs segs)" "files ! fst (segs_addrs segs ! k) \<noteq> None"
    with 2(3) [unfolded cells_hold_def, rule_format, of "len + k"]
    show "cell files (segs_addrs segs ! k) = Some (vs ! k)"
      by (simp add: segs_addrs_Cons nth_append bs)
  qed
  have vis: "visible files (segs_addrs ((fi, off, len) # segs)) bs
      = (if files ! fi = None then [] else us) @ visible files (segs_addrs segs) vs"
    unfolding segs_addrs_Cons bs(1) by (subst visible_append) (simp_all add: bs visible_file)
  show ?case
  proof (cases "files ! fi")
    case None
    with 2(1) [OF None tail bs(3)] vis show ?thesis by simp
  next
    case (Some f)
    have cells: "off + k < length f \<and> f ! (off + k) = us ! k" if "k < len" for k
      using 2(3) [unfolded cells_hold_def, rule_format, of k] that Some
      by (auto simp: segs_addrs_Cons nth_append bs cell_def split: if_splits)
    have len: "len = 0 \<or> off + len \<le> length f"
      using cells [of "len - 1"] by (cases len) auto
    have "take len (drop off f) = us"
      using cells len bs(2) by (intro nth_equalityI) auto
    with 2(2) [OF Some len tail bs(3)] vis Some len show ?thesis by auto
  qed
qed

lemma read_block_disk_segs:
  "read_block_disk files bs be fi fs = read_disk_segs files (segments_loop bs be fi fs)"
proof (induction fs arbitrary: fi)
  case (Cons f fs)
  show ?case
  proof (cases "be \<le> fl_offset f \<or> fl_offset f + fl_length f \<le> bs")
    case True
    with Cons show ?thesis by (simp add: Let_def)
  next
    case False
    show ?thesis
      unfolding read_block_disk.simps segments_loop.simps Let_def if_not_P [OF False]
        read_disk_segs.simps Cons.IH by (rule refl)
  qed
qed simp

lemma read_block_cached_segs:
  assumes "contiguous offset fs" "ps \<le> bs" "be \<le> ps + length cached"
  shows "read_block_cached files cached ps bs be fi fs
    = read_cached_segs files cached (max bs offset - ps) (segments_loop bs be fi fs)"
  using assms(1)
proof (induction fs arbitrary: offset fi)
  case (Cons f fs)
  let ?e = "offset + fl_length f"
  have off: "fl_offset f = offset" and cont: "contiguous ?e fs" using Cons.prems by auto
  note IH = Cons.IH [OF cont, of "Suc fi"]
  consider "be \<le> offset" | "offset < be" "?e \<le> bs" | "offset < be" "bs < ?e" by linarith
  then show ?case
  proof cases
    case 1
    then show ?thesis
      using IH segments_loop_beyond [OF cont, of be bs "Suc fi"] by (simp add: Let_def off)
  next
    case 2
    then show ?thesis using IH by (simp add: Let_def off max_absorb1)
  next
    case 3
    have rest: "read_block_cached files cached ps bs be (Suc fi) fs
        = read_cached_segs files cached (max bs offset - ps + (min be ?e - max bs offset)) (segments_loop bs be (Suc fi) fs)"
    proof (cases "be \<le> ?e")
      case True
      then show ?thesis using IH segments_loop_beyond [OF cont True, of bs "Suc fi"] by simp
    next
      case False
      then have "max bs offset - ps + (min be ?e - max bs offset) = max bs ?e - ps"
        using 3 assms(2) by (auto simp: max_def min_def)
      then show ?thesis using IH by simp
    qed
    have seg: "min be ?e - offset - (max bs offset - offset) = min be ?e - max bs offset" by auto
    define A B where "A = max bs offset" and "B = min be ?e"
    have cond: "\<not> (be \<le> offset \<or> ?e \<le> bs)" using 3 by simp
    have B: "ps + (A - ps) = A" "offset + (A - offset) = A" "B \<le> ps + length cached"
      using assms(2,3) by (auto simp: A_def B_def)
    show ?thesis
    proof (cases "length cached \<le> A - ps")
      case True
      then have "B - A = 0" using B by linarith
      with B(2) rest cond True show ?thesis
        by (simp add: Let_def off seg A_def [symmetric] B_def [symmetric] split: option.split)
    next
      case False
      then have "A - ps + (B - A) \<le> length cached" using B by linarith
      with B(2) rest cond False show ?thesis
        by (simp add: Let_def off seg A_def [symmetric] B_def [symmetric] split: option.split)
    qed
  qed
qed simp

lemma read_piece_visible:
  assumes ok: "store_ok content st" and i: "pm_is_set (ps_map st) i"
  shows "read_piece i st = Inr (visible (ps_files st) (piece_addrs (ps_layout st) i) (content i))"
proof -
  let ?L = "ps_layout st"
  have wf: "store_wf content st" and set: "settled content (pm_abs (ps_map st)) st"
    using ok by (simp_all add: store_ok_def)
  then have L: "layout_wf ?L" and dist: "distinct (map fst (ps_cache st))"
    and len: "length (content i) = piece_len ?L i" by (simp_all add: store_wf_def)
  show ?thesis
  proof (cases "cache_get i st")
    case (Some d)
    then have "d = content i" using wf by (auto simp: cache_get_Some [OF dist] store_wf_def)
    with Some show ?thesis
      using read_cached_visible [of 0 "piece_segments ?L i" "content i" "ps_files st"]
      by (simp add: read_piece_def piece_segments_addrs [OF L] len)
  next
    case None
    then have "on_disk content st i" using set i by (auto simp: cache_get_None settled_def pm_abs_def)
    with None show ?thesis
      using read_disk_visible [of "ps_files st" "piece_segments ?L i" "content i"]
      by (simp add: read_piece_def piece_segments_addrs [OF L] len on_disk_def)
  qed
qed

lemma cells_hold_slice:
  assumes "cells_hold files addrs bs" "length bs = length addrs"
  shows "cells_hold files (take n (drop b addrs)) (take n (drop b bs))"
  using assms by (auto simp: cells_hold_def)

lemma read_block_visible:
  assumes ok: "store_ok content st" and i: "pm_is_set (ps_map st) i"
    and len: "b + n \<le> piece_len (ps_layout st) i"
  shows "read_block i b n st = Inr (visible (ps_files st)
    (take n (drop b (piece_addrs (ps_layout st) i))) (take n (drop b (content i))))"
proof -
  let ?L = "ps_layout st" and ?ps = "i * pl_piece_length (ps_layout st)"
  let ?segs = "segments_loop (?ps + b) (?ps + b + n) 0 (pl_files ?L)"
  have wf: "store_wf content st" and set: "settled content (pm_abs (ps_map st)) st"
    using ok by (simp_all add: store_ok_def)
  then have L: "layout_wf ?L" and dist: "distinct (map fst (ps_cache st))"
    and clen: "length (content i) = piece_len ?L i" by (simp_all add: store_wf_def)
  have cont: "contiguous 0 (pl_files ?L)" using L by (simp add: layout_wf_def)
  have "i < piece_count ?L"
    using pm.mem_less [of "ps_map st" i] i wf by (auto simp: store_wf_def)
  then have lt: "?ps < total_length ?L" by (simp add: less_piece_count [OF L])
  have "b + n \<le> total_length ?L - ?ps" and pl: "b + n \<le> pl_piece_length ?L"
    using len lt by (simp_all add: piece_len_def Let_def)
  with lt have end_le: "?ps + b + n \<le> total_length ?L" "b + n \<le> pl_piece_length ?L"
    by linarith+
  have segs: "segs_addrs ?segs = take n (drop b (piece_addrs ?L i))"
  proof -
    have "segs_addrs ?segs = take n (drop (?ps + b) (layout_addrs ?L))"
      using segments_loop_addrs [OF cont, of "?ps + b + n" "?ps + b" 0] end_le(1)
      by (simp add: total_length_def layout_addrs_def)
    also have "\<dots> = take n (drop b (piece_addrs ?L i))"
      using end_le(2) by (simp add: piece_addrs_def drop_take add.commute)
    finally show ?thesis .
  qed
  have slen: "length (segs_addrs ?segs) = n" using len by (simp add: segs)
  show ?thesis
  proof (cases "cache_get i st")
    case (Some d)
    then have d: "d = content i" using wf by (auto simp: cache_get_Some [OF dist] store_wf_def)
    have "read_block_cached (ps_files st) (content i) ?ps (?ps + b) (?ps + b + n) 0 (pl_files ?L)
        = read_cached_segs (ps_files st) (content i) b ?segs"
      using read_block_cached_segs [OF cont, of ?ps "?ps + b" "?ps + b + n" "content i"] len
      by (simp add: clen)
    with Some show ?thesis
      using read_cached_visible [of b ?segs "content i" "ps_files st"] len
      by (simp add: read_block_def Let_def d slen clen) (simp add: segs)
  next
    case None
    then have "on_disk content st i" using set i by (auto simp: cache_get_None settled_def pm_abs_def)
    then have "cells_hold (ps_files st) (segs_addrs ?segs) (take n (drop b (content i)))"
      unfolding segs on_disk_def by (rule cells_hold_slice) (simp add: clen)
    with None show ?thesis
      using read_disk_visible [of "ps_files st" ?segs "take n (drop b (content i))"] slen len clen
      by (simp add: read_block_def Let_def read_block_disk_segs segs)
  qed
qed

section \<open>Runs of the store\<close>

definition extends :: "bytes option \<Rightarrow> bytes option \<Rightarrow> bool" where
  "extends f f' \<longleftrightarrow> (case f of None \<Rightarrow> f' = None | Some c \<Rightarrow> \<exists>n. f' = Some (c @ replicate n 0))"

lemma extends_refl [simp]: "extends f f"
  by (auto simp: extends_def split: option.split intro: exI [of _ 0])

lemma extends_file_extend [simp]: "extends (Some f) (Some (file_extend f n))"
  by (auto simp: extends_def file_extend_def)

lemma preallocate_files_extends:
  "preallocate_files io ls fs = (r, fs', io') \<Longrightarrow> list_all2 extends fs fs'"
proof (induction io ls fs arbitrary: r fs' io' rule: preallocate_files.induct)
  case (2 io l ls f fs)
  show ?case
  proof (cases "fl_length l = 0 \<or> fl_length l \<le> length f")
    case True
    with 2 show ?thesis by (auto split: prod.splits)
  next
    case False
    show ?thesis
    proof (cases "next_io io")
      case (Pair k io1)
      with False 2(2) [OF False Pair [symmetric]] 2(3) show ?thesis
        by (auto split: prod.splits option.splits intro: list_all2_refl)
    qed
  qed
qed (auto split: prod.splits intro: list_all2_refl)

lemma extend_keeps_cell:
  assumes "list_all2 extends fs fs'" "fst a < length fs"
  shows "(fs' ! fst a = None \<longleftrightarrow> fs ! fst a = None) \<and> (cell fs a = Some b \<longrightarrow> cell fs' a = Some b)"
  using list_all2_nthD [OF assms] by (auto simp: cell_def extends_def nth_append split: option.splits if_splits)

lemma preallocate_ok:
  assumes "store_ok content st"
  shows "store_ok content (snd (preallocate st)) \<and> ps_layout (snd (preallocate st)) = ps_layout st
    \<and> ps_map (snd (preallocate st)) = ps_map st"
proof -
  obtain r fs io where p: "preallocate_files (ps_io st) (pl_files (ps_layout st)) (ps_files st) = (r, fs, io)"
    by (metis prod_cases3)
  note ext = preallocate_files_extends [OF p]
  have len: "length fs = length (ps_files st)" using list_all2_lengthD [OF ext] by simp
  have st: "snd (preallocate st) = st\<lparr>ps_files := fs, ps_io := io\<rparr>" by (simp add: preallocate_def p)
  have wf: "store_wf content st" "settled content (pm_abs (ps_map st)) st"
    using assms by (simp_all add: store_ok_def)
  have disk: "on_disk content (st\<lparr>ps_files := fs, ps_io := io\<rparr>) i" if d: "on_disk content st i" for i
    unfolding on_disk_def cells_hold_def
  proof (intro allI impI)
    let ?A = "piece_addrs (ps_layout st) i"
    fix k assume k: "k < length (piece_addrs (ps_layout (st\<lparr>ps_files := fs, ps_io := io\<rparr>)) i)"
      and op: "ps_files (st\<lparr>ps_files := fs, ps_io := io\<rparr>) ! fst (piece_addrs (ps_layout (st\<lparr>ps_files := fs, ps_io := io\<rparr>)) i ! k) \<noteq> None"
    have "fst (?A ! k) < length (ps_files st)"
      using piece_addrs_file [of k "ps_layout st" i] k wf(1) by (simp add: store_wf_def)
    from extend_keeps_cell [OF ext this, of "content i ! k"] d k op
    show "cell (ps_files (st\<lparr>ps_files := fs, ps_io := io\<rparr>)) (piece_addrs (ps_layout (st\<lparr>ps_files := fs, ps_io := io\<rparr>)) i ! k) = Some (content i ! k)"
      by (simp add: on_disk_def cells_hold_def)
  qed
  have "store_wf content (st\<lparr>ps_files := fs, ps_io := io\<rparr>)" using wf(1) len by (simp add: store_wf_def)
  moreover have "settled content (pm_abs (ps_map st)) (st\<lparr>ps_files := fs, ps_io := io\<rparr>)"
    using wf(2) disk by (auto simp: settled_def)
  ultimately show ?thesis by (simp add: st store_ok_def)
qed

lemma set_limit_ok:
  assumes "store_ok content st"
  shows "store_ok content (snd (set_write_cache_limit n st)) \<and> ps_layout (snd (set_write_cache_limit n st)) = ps_layout st"
proof -
  let ?st = "st\<lparr>ps_cache_limit := n\<rparr>"
  have "store_wf content ?st" "settled content (pm_abs (ps_map st)) ?st"
    using assms by (simp_all add: store_ok_def store_wf_def settled_def on_disk_def)
  from evict_result [OF this] show ?thesis
    unfolding set_write_cache_limit_def store_ok_def by simp
qed

lemma flush_write_cache_ok:
  "store_ok content st \<Longrightarrow> store_ok content (snd (flush_write_cache st))
     \<and> ps_layout (snd (flush_write_cache st)) = ps_layout st \<and> ps_map (snd (flush_write_cache st)) = ps_map st"
  using flush_result [of content st "pm_abs (ps_map st)"] unfolding store_ok_def by simp

lemma store_ok_io [simp]: "store_ok content (st\<lparr>ps_io := io\<rparr>) = store_ok content st"
  by (simp add: store_ok_def store_wf_def settled_def on_disk_def)

lemma flush_all_ok:
  assumes "store_ok content st"
  shows "store_ok content (snd (flush_all st)) \<and> ps_layout (snd (flush_all st)) = ps_layout st
    \<and> ps_map (snd (flush_all st)) = ps_map st \<and> ps_files (snd (flush_all st)) = ps_files (snd (flush_write_cache st))
    \<and> ps_cache (snd (flush_all st)) = ps_cache (snd (flush_write_cache st))
    \<and> (fst (flush_all st) = None \<longrightarrow> fst (flush_write_cache st) = None)"
proof -
  obtain r st' where f: "flush_write_cache st = (r, st')" by fastforce
  note ok = flush_write_cache_ok [OF assms, unfolded f snd_conv]
  show ?thesis
    using ok by (simp add: flush_all_def f split: option.split prod.split)
qed

datatype store_op = Accept nat bytes bytes | Set_limit nat | Flush | Flush_all | Preallocate

fun store_run :: "(bytes \<Rightarrow> bytes) \<Rightarrow> store_op \<Rightarrow> piece_store \<Rightarrow> piece_store" where
  "store_run sha1 (Accept i d e) st = snd (accept_piece sha1 i d e st)"
| "store_run sha1 (Set_limit n) st = snd (set_write_cache_limit n st)"
| "store_run sha1 Flush st = snd (flush_write_cache st)"
| "store_run sha1 Flush_all st = snd (flush_all st)"
| "store_run sha1 Preallocate st = snd (preallocate st)"

text \<open>Accepted data is true data: the digest of a piece identifies it (no collision in the run).\<close>

definition authentic :: "(bytes \<Rightarrow> bytes) \<Rightarrow> (nat \<Rightarrow> bytes) \<Rightarrow> store_op list \<Rightarrow> bool" where
  "authentic sha1 content ops \<longleftrightarrow> (\<forall>i d e. Accept i d e \<in> set ops \<longrightarrow> sha1 d = e \<longrightarrow> d = content i)"

lemma store_run_ok:
  assumes "store_ok content st" "authentic sha1 content ops"
  shows "store_ok content (fold (store_run sha1) ops st) \<and> ps_layout (fold (store_run sha1) ops st) = ps_layout st"
  using assms
proof (induction ops arbitrary: st)
  case (Cons f ops)
  have "store_ok content (store_run sha1 f st) \<and> ps_layout (store_run sha1 f st) = ps_layout st"
  proof (cases f)
    case (Accept i d e)
    then have "sha1 d = e \<Longrightarrow> d = content i" using Cons.prems(2) by (simp add: authentic_def)
    from accept_piece_ok [OF Cons.prems(1) this] Accept show ?thesis by simp
  qed (use Cons.prems(1) set_limit_ok flush_write_cache_ok flush_all_ok preallocate_ok in simp_all)
  moreover have "authentic sha1 content ops" using Cons.prems(2) by (auto simp: authentic_def)
  ultimately show ?case using Cons.IH by simp
qed simp

lemma open_store_ok:
  assumes "layout_wf L" "\<forall>i. length (content i) = piece_len L i"
  shows "store_ok content (open_store disk name L wanted io)"
  using assms by (auto simp: store_ok_def store_wf_def settled_def open_store_def pm_abs_def)

lemma durable_members:
  assumes "store_wf content st" "ps_cache_limit st \<noteq> 0 \<or> ps_cache st = []"
  shows "bits_get msb_pos (durable_bitfield st) i \<longleftrightarrow> pm_is_set (ps_map st) i \<and> i \<notin> fst ` set (ps_cache st)"
proof -
  have fold: "pm_wf m \<Longrightarrow> pm_wf (fold (\<lambda>c. pm_unset (fst c)) cs m) \<and>
      (\<forall>i. pm_is_set (fold (\<lambda>c. pm_unset (fst c)) cs m) i \<longleftrightarrow> pm_is_set m i \<and> i \<notin> fst ` set cs)"
    for m and cs :: "(nat \<times> bytes) list"
    by (induction cs arbitrary: m) (auto simp: pm_is_set_unset)
  have m: "pm_wf (ps_map st)" using assms(1) by (simp add: store_wf_def)
  show ?thesis
    using assms(2) fold [OF m, of "ps_cache st"] m
    by (auto simp: durable_bitfield_def bitfield_def to_bitfield_def simp flip: pm_is_set_iff)
qed

section \<open>Properties of the store\<close>

text \<open>
  C3. Crash safety. After any sequence of accepted pieces, cache resizings, flushes and
  preallocations, with any pattern of failing and partial writes, every piece the durable bitfield
  claims is completely on disk in the opened files, as long as the cache is enabled or empty; and
  every piece marked complete is on disk or still held, with its true data, in the cache.
\<close>

theorem store_crash_safe:
  assumes "layout_wf L" "\<forall>i. length (content i) = piece_len L i" "authentic sha1 content ops"
    and "st = fold (store_run sha1) ops (open_store disk name L wanted io)"
  shows "((ps_cache_limit st \<noteq> 0 \<or> ps_cache st = []) \<longrightarrow>
      (\<forall>i. bits_get msb_pos (durable_bitfield st) i \<longrightarrow> on_disk content st i))
    \<and> (\<forall>i. have_piece st i \<longrightarrow> (i, content i) \<in> set (ps_cache st) \<or> on_disk content st i)"
proof -
  have ok: "store_ok content st"
    using store_run_ok [OF open_store_ok [OF assms(1,2)] assms(3)] assms(4) by simp
  then have wf: "store_wf content st" and set: "settled content (pm_abs (ps_map st)) st"
    by (simp_all add: store_ok_def)
  have "(i, content i) \<in> set (ps_cache st) \<or> on_disk content st i" if "have_piece st i" for i
  proof -
    have "i \<in> fst ` set (ps_cache st) \<or> on_disk content st i"
      using set that by (auto simp: settled_def pm_abs_def have_piece_def)
    then show ?thesis using wf by (force simp: store_wf_def)
  qed
  moreover have "on_disk content st i"
    if "ps_cache_limit st \<noteq> 0 \<or> ps_cache st = []" "bits_get msb_pos (durable_bitfield st) i" for i
    using set durable_members [OF wf that(1), of i] that(2) by (auto simp: settled_def pm_abs_def)
  ultimately show ?thesis by blast
qed

definition sample_content :: "nat \<Rightarrow> bytes" where
  "sample_content i = replicate (piece_len sample_layout i) (of_nat (i + 1))"

definition sample_ops :: "store_op list" where
  "sample_ops = [Set_limit 4, Accept 0 (sample_content 0) (sample_content 0),
     Accept 1 (sample_content 1) (sample_content 1), Accept 2 [9] [8], Flush_all]"

definition sample_store :: "nat option list \<Rightarrow> piece_store" where
  "sample_store io = fold (store_run id) sample_ops (open_store (\<lambda>_. None) ''t'' sample_layout None io)"

lemma sample_authentic: "authentic id sample_content sample_ops"
  by (auto simp: authentic_def sample_ops_def)

lemma sample_content_length: "\<forall>i. length (sample_content i) = piece_len sample_layout i"
  by (simp add: sample_content_def)

lemma sample_store_ok: "store_ok sample_content (sample_store io)"
  unfolding sample_store_def
  by (rule conjunct1 [OF store_run_ok [OF open_store_ok [OF sample_layout_wf sample_content_length] sample_authentic]])

text \<open>
  Reads. In a store whose invariant holds, a complete piece and every block inside it read back
  as the true data of the opened files, from the cache or from disk alike, without an error.
\<close>

theorem store_reads_content:
  assumes "store_ok content st" "have_piece st i"
  shows "read_piece i st = Inr (visible (ps_files st) (piece_addrs (ps_layout st) i) (content i))
    \<and> (\<forall>b n. b + n \<le> piece_len (ps_layout st) i \<longrightarrow>
         read_block i b n st = Inr (visible (ps_files st)
           (take n (drop b (piece_addrs (ps_layout st) i))) (take n (drop b (content i)))))"
  using read_piece_visible [OF assms(1)] read_block_visible [OF assms(1)] assms(2)
  by (simp add: have_piece_def)

text \<open>
  Acceptance. A piece with a wrong digest changes nothing and is reported as refused; a piece
  with the right digest is stored and marked, or an I/O error is reported and the marks stay as they
  were; no slice panics, the invariant is kept, and a successful call leaves the cache within its
  limit if it was.
\<close>

theorem accept_piece_outcome:
  assumes "store_ok content st" "sha1 d = expected \<Longrightarrow> d = content i" "i < piece_count (ps_layout st)"
    and "accept_piece sha1 i d expected st = (r, st')"
  shows "store_ok content st' \<and> r \<noteq> Inl Panic
    \<and> (r = Inr False \<longleftrightarrow> sha1 d \<noteq> expected) \<and> (r = Inr False \<longrightarrow> st' = st)
    \<and> pm_abs (ps_map st') = (if r = Inr True then insert i (pm_abs (ps_map st)) else pm_abs (ps_map st))
    \<and> (r = Inr True \<longrightarrow> ps_cache_bytes st \<le> ps_cache_limit st \<longrightarrow> ps_cache_bytes st' \<le> ps_cache_limit st')
    \<and> (fault_free st \<longrightarrow> r = Inr (sha1 d = expected))"
proof -
  have acc: "store_ok content st' \<and> ps_cache_limit st' = ps_cache_limit st \<and> r \<noteq> Inl Panic
      \<and> pm_abs (ps_map st') = (if r = Inr True then insert i (pm_abs (ps_map st)) else pm_abs (ps_map st))"
    using accept_piece_ok [OF assms(1), of sha1 d expected i, OF assms(2)] assms(3,4) by simp
  show ?thesis
  proof (cases "sha1 d = expected")
    case False
    then have "r = Inr False" "st' = st" using assms(4) by (auto simp: accept_piece_def verify_piece_def)
    with acc False show ?thesis by simp
  next
    case True
    have wf: "store_wf content st" "settled content (pm_abs (ps_map st)) st"
      using assms(1) by (simp_all add: store_ok_def)
    obtain w st1 where w: "write_piece i d st = (w, st1)" by fastforce
    have res: "w = None \<longrightarrow> ps_cache_bytes st \<le> ps_cache_limit st \<longrightarrow> ps_cache_bytes st1 \<le> ps_cache_limit st"
      "fault_free st \<longrightarrow> w = None"
      using write_piece_result [OF wf assms(2) [OF True], unfolded w fst_conv snd_conv] by blast+
    show ?thesis
    proof (cases w)
      case None
      then have "r = Inr True" "st' = st1\<lparr>ps_map := pm_set i (ps_map st1)\<rparr>"
        using assms(4) True w by (auto simp: accept_piece_def verify_piece_def)
      with acc res None True show ?thesis by simp
    next
      case (Some e)
      then have "r = Inl e" using assms(4) True w by (auto simp: accept_piece_def verify_piece_def)
      with acc res Some True show ?thesis by simp
    qed
  qed
qed

text \<open>
  Flushing. A successful flush leaves the cache empty with every complete piece on disk, so the
  durable bitfield is the whole bitfield; flushing the cache succeeds whenever no write fails.
\<close>

theorem flush_all_durable:
  assumes "store_ok content st" "flush_all st = (r, st')"
  shows "store_ok content st' \<and> ps_map st' = ps_map st
    \<and> (r = None \<longrightarrow> ps_cache st' = [] \<and> durable_bitfield st' = bitfield st
          \<and> (\<forall>i. have_piece st i \<longrightarrow> on_disk content st' i))
    \<and> (fault_free st \<longrightarrow> fst (flush_write_cache st) = None)"
proof -
  have wf: "store_wf content st" "settled content (pm_abs (ps_map st)) st"
    using assms(1) by (simp_all add: store_ok_def)
  note fa = flush_all_ok [OF assms(1), unfolded assms(2) fst_conv snd_conv]
  note fr = flush_result [OF wf]
  have "ps_cache st' = []" if "r = None" using fa fr that by simp
  then show ?thesis
    using fa fr
    by (auto simp: durable_bitfield_def bitfield_def have_piece_def store_ok_def settled_def pm_abs_def)
qed

lemma sample_code: "open_store (\<lambda>_. None) ''t'' sample_layout None io =
   \<lparr>ps_layout = sample_layout, ps_files = [Some [], Some [], Some []],
    ps_map = pm_new (piece_count sample_layout), ps_cache = [], ps_cache_bytes = 0, ps_cache_limit = 0,
    ps_io = io\<rparr>"
  by (simp add: open_store_def sample_layout_def layout_new_def)

lemma sample_count: "piece_count sample_layout = 3"
  by (simp add: piece_count_def total_length_def sample_layout_def layout_new_def div_ceil_def)

lemma sample_len: "piece_len sample_layout 0 = 4" "piece_len sample_layout (Suc 0) = 4"
  by (simp_all add: piece_len_def total_length_def sample_layout_def layout_new_def)

lemma sample_segs:
  "piece_segments sample_layout 0 = [(0, 0, 3), (1, 0, 0), (2, 0, 1)]"
  "piece_segments sample_layout (Suc 0) = [(2, 1, 4)]"
  by (simp_all add: piece_segments_def sample_layout_def layout_new_def total_length_def)

lemma sample_contents: "sample_content 0 = [1, 1, 1, 1]" "sample_content (Suc 0) = [2, 2, 2, 2]"
  by (simp_all add: sample_content_def sample_len numeral_eq_Suc)

lemmas sample_eval = sample_code sample_segs sample_contents set_write_cache_limit_def
  accept_piece_def verify_piece_def write_piece_def cache_get_def cache_remove_def spill_oldest_def write_piece_direct_def
  file_write_def flush_all_def evict_to_limit.simps flush_write_cache.simps pm_set_def pm_new_def
  div_ceil_def sample_count

lemma sample_lost:
  "fold (store_run id) [Set_limit 4, Accept 0 (sample_content 0) (sample_content 0), Set_limit 0]
     (open_store (\<lambda>_. None) ''t'' sample_layout None [Some 0])
   = \<lparr>ps_layout = sample_layout, ps_files = [Some [], Some [], Some []],
      ps_map = \<lparr>pm_count = 3, pm_bits = [128]\<rparr>, ps_cache = [(0, [1, 1, 1, 1])], ps_cache_bytes = 4,
      ps_cache_limit = 0, ps_io = []\<rparr>"
  by (simp add: sample_eval)

lemma sample_store_eval:
  "sample_store [] = \<lparr>ps_layout = sample_layout,
     ps_files = [Some [1, 1, 1], Some [], Some [1, 2, 2, 2, 2]], ps_map = \<lparr>pm_count = 3, pm_bits = [192]\<rparr>,
     ps_cache = [], ps_cache_bytes = 0, ps_cache_limit = 4, ps_io = []\<rparr>"
  by (simp add: sample_store_def sample_ops_def sample_eval)

theorem store_crash_safe_witness:
  "let st = fold (store_run id) [Set_limit 4, Accept 0 (sample_content 0) (sample_content 0), Set_limit 0]
              (open_store (\<lambda>_. None) ''t'' sample_layout None [Some 0])
   in (0, sample_content 0) \<in> set (ps_cache st) \<or> on_disk sample_content st 0"
proof -
  have auth: "authentic id sample_content [Set_limit 4, Accept 0 (sample_content 0) (sample_content 0), Set_limit 0]"
    by (simp add: authentic_def)
  have "have_piece (fold (store_run id) [Set_limit 4, Accept 0 (sample_content 0) (sample_content 0), Set_limit 0]
      (open_store (\<lambda>_. None) ''t'' sample_layout None [Some 0])) 0"
    unfolding sample_lost by (simp add: have_piece_def pm_is_set_def)
  with store_crash_safe [OF sample_layout_wf sample_content_length auth refl] show ?thesis
    unfolding Let_def by blast
qed

theorem store_reads_content_witness:
  "read_piece 0 (sample_store []) = Inr (visible (ps_files (sample_store [])) (piece_addrs sample_layout 0) (sample_content 0))"
proof -
  have "have_piece (sample_store []) 0" "ps_layout (sample_store []) = sample_layout"
    by (simp_all add: sample_store_eval have_piece_def pm_is_set_def)
  with store_reads_content [OF sample_store_ok [of "[]"], of 0] show ?thesis by simp
qed

theorem accept_piece_outcome_witness:
  "fst (accept_piece id 2 (sample_content 2) (sample_content 2) (sample_store [])) = Inr True"
proof -
  obtain r st' where a: "accept_piece id 2 (sample_content 2) (sample_content 2) (sample_store []) = (r, st')"
    by fastforce
  have "2 < piece_count (ps_layout (sample_store []))" by (simp add: sample_store_eval sample_count)
  from accept_piece_outcome [OF sample_store_ok _ this a]
  show ?thesis by (simp add: a) (simp add: fault_free_def sample_store_eval)
qed

theorem flush_all_durable_witness:
  "ps_map (snd (flush_all (sample_store []))) = ps_map (sample_store [])"
  using flush_all_durable [OF sample_store_ok [of "[]"], of "fst (flush_all (sample_store []))" "snd (flush_all (sample_store []))"]
  by simp

text \<open>
  The guard of \<open>durable_bitfield\<close> on a zero limit is wrong after a failed shrink: when the
  cache is switched off and writing the cached piece fails, the piece stays in the cache, the limit
  is zero, and the durable bitfield claims a piece of which no byte is on disk.
\<close>

theorem durable_bitfield_after_failed_shrink:
  "let st = fold (store_run id) [Set_limit 4, Accept 0 (sample_content 0) (sample_content 0), Set_limit 0]
              (open_store (\<lambda>_. None) ''t'' sample_layout None [Some 0])
   in bits_get msb_pos (durable_bitfield st) 0 \<and> ps_files st = [Some [], Some [], Some []]
      \<and> \<not> on_disk sample_content st 0"
proof -
  have "piece_addrs sample_layout 0 = [(0, 0), (0, 1), (0, 2), (2, 0)]"
    using piece_segments_addrs [OF sample_layout_wf, of 0] by (simp add: sample_segs segs_addrs_def upt_rec numeral_2_eq_2)
  then have "0 < piece_len sample_layout 0" "piece_addrs sample_layout 0 ! 0 = (0, 0)"
    by (simp_all add: sample_len)
  then show ?thesis
    unfolding sample_lost Let_def
    by (auto simp: durable_bitfield_def bitfield_def to_bitfield_def bits_get_def msb_pos_def on_disk_def
        cells_hold_def cell_def intro!: exI [of _ 0])
qed

end
