(* ===== verification/Peer_Wire.thy ===== *)
theory Peer_Wire
  imports Bitfields
begin

text \<open>
  The BitTorrent peer wire protocol, \<open>crates/xfer-bt/src/message.rs\<close>: messages and their wire
  form, the 68-byte handshake, the incremental reader \<open>PeerReader\<close> and the block requests of a
  piece.

  The async stream is the list of its coming reads: \<open>Some b\<close> for a read that returns the bytes
  \<open>b\<close> (none of them at end of file), \<open>None\<close> for one that fails; when the list is used up every
  read is at end of file. The reader is proved for every way the bytes can be cut into reads.
\<close>

section \<open>Messages\<close>

datatype wire_error = UnexpectedEof | InvalidData | ReadError

datatype message =
    KeepAlive | Choke | Unchoke | Interested | NotInterested
  | Have u32
  | Bitfield bytes
  | Request u32 u32 u32
  | Piece u32 u32 bytes
  | Cancel u32 u32 u32
  | HaveAll | HaveNone
  | RejectRequest u32 u32 u32
  | AllowedFast u32
  | SuggestPiece u32
  | Port u16
  | Extended u8 bytes
  | Unknown u8 bytes

fun message_id :: "message \<Rightarrow> u8 option" where
  "message_id KeepAlive = None"
| "message_id Choke = Some 0"
| "message_id Unchoke = Some 1"
| "message_id Interested = Some 2"
| "message_id NotInterested = Some 3"
| "message_id (Have i) = Some 4"
| "message_id (Bitfield bf) = Some 5"
| "message_id (Request i b l) = Some 6"
| "message_id (Piece i b d) = Some 7"
| "message_id (Cancel i b l) = Some 8"
| "message_id (Port p) = Some 0x09"
| "message_id (SuggestPiece i) = Some 0x0D"
| "message_id HaveAll = Some 0x0E"
| "message_id HaveNone = Some 0x0F"
| "message_id (RejectRequest i b l) = Some 0x10"
| "message_id (AllowedFast i) = Some 0x11"
| "message_id (Extended e d) = Some 0x14"
| "message_id (Unknown mid d) = Some mid"

fun payload_len :: "message \<Rightarrow> nat" where
  "payload_len KeepAlive = 0"
| "payload_len Choke = 1"
| "payload_len Unchoke = 1"
| "payload_len Interested = 1"
| "payload_len NotInterested = 1"
| "payload_len HaveAll = 1"
| "payload_len HaveNone = 1"
| "payload_len (Have i) = 5"
| "payload_len (Port p) = 5"
| "payload_len (SuggestPiece i) = 5"
| "payload_len (AllowedFast i) = 5"
| "payload_len (Bitfield bf) = 1 + length bf"
| "payload_len (Request i b l) = 13"
| "payload_len (Cancel i b l) = 13"
| "payload_len (RejectRequest i b l) = 13"
| "payload_len (Piece i b d) = 9 + length d"
| "payload_len (Extended e d) = 2 + length d"
| "payload_len (Unknown mid d) = 1 + length d"

text \<open>The part of \<open>encode\<close> after the id byte.\<close>

fun message_body :: "message \<Rightarrow> bytes" where
  "message_body (Have i) = u32_to_be i"
| "message_body (Bitfield bf) = bf"
| "message_body (Request i b l) = u32_to_be i @ u32_to_be b @ u32_to_be l"
| "message_body (Cancel i b l) = u32_to_be i @ u32_to_be b @ u32_to_be l"
| "message_body (RejectRequest i b l) = u32_to_be i @ u32_to_be b @ u32_to_be l"
| "message_body (Piece i b d) = u32_to_be i @ u32_to_be b @ d"
| "message_body (Port p) = u16_to_be p"
| "message_body (SuggestPiece i) = u32_to_be i"
| "message_body (AllowedFast i) = u32_to_be i"
| "message_body (Extended e d) = e # d"
| "message_body (Unknown mid d) = d"
| "message_body m = []"

definition encode_message :: "message \<Rightarrow> bytes" where
  "encode_message m =
     (case message_id m of
        None \<Rightarrow> [0, 0, 0, 0]
      | Some mid \<Rightarrow>
          let out = mid # message_body m in u32_to_be (of_nat (length out)) @ out)"

definition u32_at :: "bytes \<Rightarrow> nat \<Rightarrow> wire_error + u32" where
  "u32_at body k =
     (if k + 4 \<le> length body
      then Inr (u32_from_be (body ! k) (body ! (k + 1)) (body ! (k + 2)) (body ! (k + 3)))
      else Inl InvalidData)"

fun read3 :: "bytes \<Rightarrow> (u32 \<Rightarrow> u32 \<Rightarrow> u32 \<Rightarrow> message) \<Rightarrow> wire_error + message" where
  "read3 body c =
     (case u32_at body 0 of Inl e \<Rightarrow> Inl e | Inr i \<Rightarrow>
     (case u32_at body 4 of Inl e \<Rightarrow> Inl e | Inr b \<Rightarrow>
     (case u32_at body 8 of Inl e \<Rightarrow> Inl e | Inr l \<Rightarrow> Inr (c i b l))))"

fun read1 :: "bytes \<Rightarrow> (u32 \<Rightarrow> message) \<Rightarrow> wire_error + message" where
  "read1 body c = (case u32_at body 0 of Inl e \<Rightarrow> Inl e | Inr i \<Rightarrow> Inr (c i))"

definition parse_message :: "bytes \<Rightarrow> wire_error + message" where
  "parse_message payload =
     (case payload of
        [] \<Rightarrow> Inr KeepAlive
      | mid # body \<Rightarrow>
          if mid = 0 then Inr Choke
          else if mid = 1 then Inr Unchoke
          else if mid = 2 then Inr Interested
          else if mid = 3 then Inr NotInterested
          else if mid = 4 then read1 body Have
          else if mid = 5 then Inr (Bitfield body)
          else if mid = 6 then read3 body Request
          else if mid = 7 then
            (case u32_at body 0 of Inl e \<Rightarrow> Inl e | Inr i \<Rightarrow>
            (case u32_at body 4 of Inl e \<Rightarrow> Inl e | Inr b \<Rightarrow> Inr (Piece i b (drop 8 body))))
          else if mid = 8 then read3 body Cancel
          else if mid = 0x09 then
            (if length body < 2 then Inr (Unknown mid body)
             else Inr (Port (u16_from_be (body ! 0) (body ! 1))))
          else if mid = 0x0D then read1 body SuggestPiece
          else if mid = 0x0E then Inr HaveAll
          else if mid = 0x0F then Inr HaveNone
          else if mid = 0x10 then read3 body RejectRequest
          else if mid = 0x11 then read1 body AllowedFast
          else if mid = 0x14 then
            (case body of [] \<Rightarrow> Inr (Unknown mid body) | e # d \<Rightarrow> Inr (Extended e d))
          else Inr (Unknown mid body))"

section \<open>Handshake\<close>

definition PSTR :: bytes where
  "PSTR = [66, 105, 116, 84, 111, 114, 114, 101, 110, 116, 32, 112, 114, 111, 116, 111, 99, 111, 108]"

definition RESERVED :: bytes where
  "RESERVED =
     (let r = replicate 8 0;
          r = r[5 := (r ! 5) OR 0x10];
          r = r[7 := (r ! 7) OR 0x04]
      in r[7 := (r ! 7) OR 0x01])"

definition supports_extension :: "bytes \<Rightarrow> bool" where
  "supports_extension reserved \<longleftrightarrow> (reserved ! 5) AND 0x10 \<noteq> 0"

definition supports_fast_extension :: "bytes \<Rightarrow> bool" where
  "supports_fast_extension reserved \<longleftrightarrow> (reserved ! 7) AND 0x04 \<noteq> 0"

definition supports_dht :: "bytes \<Rightarrow> bool" where
  "supports_dht reserved \<longleftrightarrow> (reserved ! 7) AND 0x01 \<noteq> 0"

record handshake =
  hs_info_hash :: bytes
  hs_peer_id :: bytes
  hs_reserved :: bytes

definition encode_handshake :: "bytes \<Rightarrow> bytes \<Rightarrow> bytes" where
  "encode_handshake info_hash peer_id =
     [of_nat (length PSTR)] @ PSTR @ RESERVED @ info_hash @ peer_id"

definition slice :: "nat \<Rightarrow> nat \<Rightarrow> bytes \<Rightarrow> bytes" where
  "slice a b bs = take (b - a) (drop a bs)"

definition decode_handshake :: "bytes \<Rightarrow> wire_error + handshake" where
  "decode_handshake data =
     (if length data < 68 then Inl InvalidData
      else let pstrlen = unat (data ! 0)
           in if pstrlen \<noteq> length PSTR then Inl InvalidData
              else if slice 1 (1 + pstrlen) data \<noteq> PSTR then Inl InvalidData
              else Inr \<lparr>hs_info_hash = slice (9 + pstrlen) (29 + pstrlen) data,
                        hs_peer_id = slice (29 + pstrlen) (49 + pstrlen) data,
                        hs_reserved = slice (1 + pstrlen) (9 + pstrlen) data\<rparr>)"

section \<open>The incremental reader\<close>

type_synonym stream = "bytes option list"

record peer_reader =
  pr_buf :: bytes
  pr_handshake :: "handshake option"

definition reader_new :: peer_reader where
  "reader_new = \<lparr>pr_buf = [], pr_handshake = None\<rparr>"

definition preload :: "bytes \<Rightarrow> peer_reader \<Rightarrow> peer_reader" where
  "preload bs r = (if bs = [] then r else r\<lparr>pr_buf := bs @ pr_buf r\<rparr>)"

datatype fill_result = Filled | Eof | Failed

text \<open>The \<open>while buf.len() < n\<close> loops: one read of the stream per turn.\<close>

fun fill_to :: "nat \<Rightarrow> bytes \<Rightarrow> stream \<Rightarrow> fill_result \<times> bytes \<times> stream" where
  "fill_to n buf [] = (if n \<le> length buf then Filled else Eof, buf, [])"
| "fill_to n buf (c # cs) =
     (if n \<le> length buf then (Filled, buf, c # cs)
      else case c of
             None \<Rightarrow> (Failed, buf, cs)
           | Some b \<Rightarrow> if b = [] then (Eof, buf, cs) else fill_to n (buf @ b) cs)"

definition read_handshake :: "peer_reader \<Rightarrow> stream \<Rightarrow> (wire_error + handshake option) \<times> peer_reader \<times> stream" where
  "read_handshake r s =
     (case pr_handshake r of
        Some h \<Rightarrow> (Inr (Some h), r, s)
      | None \<Rightarrow>
          (case fill_to 68 (pr_buf r) s of
             (Failed, buf, s') \<Rightarrow> (Inl ReadError, r\<lparr>pr_buf := buf\<rparr>, s')
           | (Eof, buf, s') \<Rightarrow>
               (if buf = [] then Inr None else Inl UnexpectedEof, r\<lparr>pr_buf := buf\<rparr>, s')
           | (Filled, buf, s') \<Rightarrow>
               (case decode_handshake buf of
                  Inl e \<Rightarrow> (Inl e, r\<lparr>pr_buf := buf\<rparr>, s')
                | Inr h \<Rightarrow> (Inr (Some h), r\<lparr>pr_buf := drop 68 buf, pr_handshake := Some h\<rparr>, s'))))"

definition MAX_MESSAGE :: nat where
  "MAX_MESSAGE = 2 * 1024 * 1024"

definition frame_len :: "bytes \<Rightarrow> nat" where
  "frame_len buf = unat (u32_from_be (buf ! 0) (buf ! 1) (buf ! 2) (buf ! 3))"

definition read_message :: "peer_reader \<Rightarrow> stream \<Rightarrow> (wire_error + message option) \<times> peer_reader \<times> stream" where
  "read_message r s =
     (case fill_to 4 (pr_buf r) s of
        (Failed, buf, s') \<Rightarrow> (Inl ReadError, r\<lparr>pr_buf := buf\<rparr>, s')
      | (Eof, buf, s') \<Rightarrow> (if buf = [] then Inr None else Inl UnexpectedEof, r\<lparr>pr_buf := buf\<rparr>, s')
      | (Filled, buf, s') \<Rightarrow>
          if MAX_MESSAGE < frame_len buf then (Inl InvalidData, r\<lparr>pr_buf := buf\<rparr>, s')
          else let tot = 4 + frame_len buf
               in (case fill_to tot buf s' of
                     (Failed, buf', s'') \<Rightarrow> (Inl ReadError, r\<lparr>pr_buf := buf'\<rparr>, s'')
                   | (Eof, buf', s'') \<Rightarrow> (Inl UnexpectedEof, r\<lparr>pr_buf := buf'\<rparr>, s'')
                   | (Filled, buf', s'') \<Rightarrow>
                       (case parse_message (slice 4 tot buf') of
                          Inl e \<Rightarrow> (Inl e, r\<lparr>pr_buf := buf'\<rparr>, s'')
                        | Inr m \<Rightarrow> (Inr (Some m), r\<lparr>pr_buf := drop tot buf'\<rparr>, s''))))"

section \<open>Block requests\<close>

definition BLOCK_SIZE :: nat where
  "BLOCK_SIZE = 16 * 1024"

text \<open>The loop does not end for a block size of zero, so its result is an option.\<close>

partial_function (option) request_loop :: "nat \<Rightarrow> nat \<Rightarrow> nat \<Rightarrow> (nat \<times> nat) list \<Rightarrow> (nat \<times> nat) list option" where
  "request_loop piece_len block_size begin out =
     (if begin < piece_len
      then request_loop piece_len block_size (begin + min (piece_len - begin) block_size)
             (out @ [(begin, min (piece_len - begin) block_size)])
      else Some out)"

definition request_blocks :: "nat \<Rightarrow> nat \<Rightarrow> (nat \<times> nat) list option" where
  "request_blocks piece_len block_size = request_loop piece_len block_size 0 []"

section \<open>Messages round trip\<close>

text \<open>
  The messages the wire can carry: an \<open>Unknown\<close> has an id no other constructor uses, or the short
  body that makes the parser fall back to it.
\<close>

definition known_ids :: "u8 set" where
  "known_ids = {0, 1, 2, 3, 4, 5, 6, 7, 8, 0x0D, 0x0E, 0x0F, 0x10, 0x11}"

fun message_wf :: "message \<Rightarrow> bool" where
  "message_wf (Unknown mid d) \<longleftrightarrow>
     mid \<notin> known_ids \<and> (mid = 9 \<longrightarrow> length d < 2) \<and> (mid = 0x14 \<longrightarrow> d = [])"
| "message_wf m \<longleftrightarrow> True"

definition wire_ok :: "message \<Rightarrow> bool" where
  "wire_ok m \<longleftrightarrow> message_wf m \<and> length (message_body m) < MAX_MESSAGE"

lemma u32_at_append: "length xs = k \<Longrightarrow> u32_at (xs @ u32_to_be w @ ys) k = Inr w"
  using u32_from_to_be [of w] by (simp add: u32_at_def nth_append u32_to_be_def)

lemma u32_at_0: "u32_at (u32_to_be w @ ys) 0 = Inr w" "u32_at (u32_to_be w) 0 = Inr w"
  using u32_at_append [of "[]" 0 w ys] u32_at_append [of "[]" 0 w "[]"] by simp_all

lemma u32_at_4: "u32_at (u32_to_be v @ u32_to_be w @ ys) 4 = Inr w"
  by (rule u32_at_append) simp

lemma u32_at_8: "u32_at (u32_to_be u @ u32_to_be v @ u32_to_be w) 8 = Inr w"
  using u32_at_append [of "u32_to_be u @ u32_to_be v" 8 w "[]"] by simp

lemma parse_body: "message_wf m \<Longrightarrow> message_id m = Some mid \<Longrightarrow> parse_message (mid # message_body m) = Inr m"
  by (cases m) (auto simp: parse_message_def u32_at_0 u32_at_4 u32_at_8 known_ids_def
      u16_to_be_def split: list.split intro: u16_from_to_be [unfolded u16_to_be_def, simplified])

lemma parse_message_wf:
  assumes "parse_message payload = Inr m"
  shows "message_wf m \<and> length (message_body m) \<le> length payload"
proof (cases payload)
  case Nil
  with assms show ?thesis by (auto simp: parse_message_def)
next
  case (Cons mid body)
  with assms show ?thesis
    by (auto simp: parse_message_def known_ids_def u32_at_def split: if_splits sum.splits list.splits)
qed

text \<open>The frame a full buffer starts with: what \<open>read_message\<close> does once its loops have filled it.\<close>

definition wire_dec :: "bytes \<Rightarrow> (message \<times> nat) option" where
  "wire_dec buf =
     (if length buf < 4 \<or> MAX_MESSAGE < frame_len buf \<or> length buf < 4 + frame_len buf then None
      else case parse_message (slice 4 (4 + frame_len buf) buf) of
             Inl e \<Rightarrow> None | Inr m \<Rightarrow> Some (m, 4 + frame_len buf))"

lemma frame_len_be [simp]: "frame_len (u32_to_be w @ xs) = unat w"
  using u32_from_to_be [of w] by (simp add: frame_len_def nth_append)

lemma frame_len_append: "4 \<le> length xs \<Longrightarrow> frame_len (xs @ ys) = frame_len xs"
  by (cases "xs = []") (auto simp: frame_len_def nth_append)

lemma MAX_MESSAGE_less: "MAX_MESSAGE < 2 ^ 32"
  by (simp add: MAX_MESSAGE_def)

lemma encode_message_frame:
  assumes "wire_ok m"
  shows "\<exists>p. encode_message m = u32_to_be (of_nat (length p)) @ p \<and> parse_message p = Inr m
    \<and> length p \<le> MAX_MESSAGE \<and> unat (of_nat (length p) :: u32) = length p"
proof (cases "message_id m")
  case None
  then have "m = KeepAlive" by (cases m) auto
  then show ?thesis
    by (intro exI [of _ "[]"]) (simp add: encode_message_def parse_message_def u32_to_be_def)
next
  case (Some mid)
  let ?p = "mid # message_body m"
  have len: "length ?p \<le> MAX_MESSAGE" using assms by (simp add: wire_ok_def)
  then have "length ?p < 2 ^ 32" using MAX_MESSAGE_less by (rule le_less_trans)
  then have "unat (of_nat (length ?p) :: u32) = length ?p"
    unfolding unat_of_nat by (intro mod_less) simp
  moreover have "parse_message ?p = Inr m"
    using assms Some by (intro parse_body) (simp_all add: wire_ok_def)
  ultimately show ?thesis
    using len Some by (intro exI [of _ ?p]) (simp add: encode_message_def Let_def)
qed

lemma wire_dec_encode: "wire_ok m \<Longrightarrow> wire_dec (encode_message m @ rest) = Some (m, length (encode_message m))"
  using encode_message_frame [of m] by (auto simp: wire_dec_def slice_def)

interpretation peer_wire: prefix_codec encode_message wire_dec wire_ok
  by unfold_locales (rule wire_dec_encode)

section \<open>The reader does not depend on the segmentation\<close>

definition live :: "stream \<Rightarrow> bool" where
  "live s \<longleftrightarrow> (\<forall>c \<in> set s. c \<noteq> None \<and> c \<noteq> Some [])"

definition stream_bytes :: "stream \<Rightarrow> bytes" where
  "stream_bytes s = concat (map the s)"

lemma live_simps [simp]: "live []" "live (c # s) \<longleftrightarrow> c \<noteq> None \<and> c \<noteq> Some [] \<and> live s"
  by (auto simp: live_def)

lemma stream_bytes_simps [simp]: "stream_bytes [] = []" "stream_bytes (c # s) = the c @ stream_bytes s"
  by (simp_all add: stream_bytes_def)

lemma fill_to_live:
  assumes "live s"
  shows "\<exists>buf' s'. live s' \<and> buf' @ stream_bytes s' = buf @ stream_bytes s \<and>
    (if n \<le> length (buf @ stream_bytes s) then fill_to n buf s = (Filled, buf', s') \<and> n \<le> length buf'
     else fill_to n buf s = (Eof, buf', s') \<and> s' = [])"
  using assms
proof (induction n buf s rule: fill_to.induct)
  case (2 n buf c cs)
  then obtain b where c: "c = Some b" "b \<noteq> []" "live cs" by (cases c) auto
  show ?case
  proof (cases "n \<le> length buf")
    case True
    with 2 show ?thesis by (intro exI [of _ buf] exI [of _ "c # cs"]) simp
  next
    case False
    then have step: "fill_to n buf (c # cs) = fill_to n (buf @ b) cs" using c by simp
    have bytes: "buf @ stream_bytes (c # cs) = (buf @ b) @ stream_bytes cs" using c by simp
    show ?thesis unfolding step bytes by (rule 2(1) [OF False c(1,2,3)])
  qed
next
  case (1 n buf)
  then show ?case by (intro exI [of _ buf] exI [of _ "[]"]) simp
qed

lemma frame_split:
  assumes "buf @ xs = u32_to_be w @ ys" "4 \<le> length buf"
  shows "frame_len buf = unat w"
  using frame_len_append [OF assms(2), of xs] assms(1) by simp

lemma read_message_live:
  assumes "live s" "pr_buf r @ stream_bytes s = encode_message m @ rest" "wire_ok m"
  shows "\<exists>r' s'. read_message r s = (Inr (Some m), r', s') \<and> live s'
    \<and> pr_buf r' @ stream_bytes s' = rest"
proof -
  from encode_message_frame [OF assms(3)] obtain p where p: "encode_message m = u32_to_be (of_nat (length p)) @ p"
    "parse_message p = Inr m" "length p \<le> MAX_MESSAGE" "unat (of_nat (length p) :: u32) = length p" by blast
  have all: "pr_buf r @ stream_bytes s = u32_to_be (of_nat (length p)) @ p @ rest" using assms(2) p(1) by simp
  have "4 \<le> length (pr_buf r @ stream_bytes s)" unfolding all by simp
  with fill_to_live [OF assms(1), of "pr_buf r" 4] obtain b1 s1 where
    f1: "fill_to 4 (pr_buf r) s = (Filled, b1, s1)" "4 \<le> length b1" "live s1" "b1 @ stream_bytes s1 = u32_to_be (of_nat (length p)) @ p @ rest"
    by (auto simp: all)
  have fl: "frame_len b1 = length p" using frame_split [OF f1(4,2)] p(4) by simp
  have "4 + length p \<le> length (b1 @ stream_bytes s1)" unfolding f1(4) by simp
  with fill_to_live [OF f1(3), of b1 "4 + length p"] obtain b2 s2 where
    f2: "fill_to (4 + length p) b1 s1 = (Filled, b2, s2)" "4 + length p \<le> length b2" "live s2"
      "b2 @ stream_bytes s2 = u32_to_be (of_nat (length p)) @ p @ rest"
    by (auto simp: f1(4))
  have "slice 4 (4 + length p) b2 = take (length p) (drop 4 (b2 @ stream_bytes s2))"
    using f2(2) by (simp add: slice_def)
  also have "\<dots> = p" unfolding f2(4) by simp
  finally have sl: "slice 4 (4 + length p) b2 = p" .
  have "drop (4 + length p) b2 @ stream_bytes s2 = drop (4 + length p) (b2 @ stream_bytes s2)"
    using f2(2) by simp
  also have "\<dots> = rest" unfolding f2(4) by simp
  finally show ?thesis
    using f1 f2 fl p sl by (simp add: read_message_def)
qed

lemma read_message_end:
  assumes "live s" "pr_buf r @ stream_bytes s = []"
  shows "\<exists>r' s'. read_message r s = (Inr None, r', s')"
  using fill_to_live [OF assms(1), of "pr_buf r" 4] assms(2) by (auto simp: read_message_def)

lemma read_message_truncated:
  assumes "live s" "wire_ok m" "encode_message m = (pr_buf r @ stream_bytes s) @ q" "q \<noteq> []" "pr_buf r @ stream_bytes s \<noteq> []"
  shows "\<exists>r' s'. read_message r s = (Inl UnexpectedEof, r', s')"
proof (cases "4 \<le> length (pr_buf r @ stream_bytes s)")
  case False
  with fill_to_live [OF assms(1), of "pr_buf r" 4] assms(5) show ?thesis
    by (auto simp: read_message_def)
next
  case True
  from encode_message_frame [OF assms(2)] obtain p where p: "encode_message m = u32_to_be (of_nat (length p)) @ p"
    "length p \<le> MAX_MESSAGE" "unat (of_nat (length p) :: u32) = length p" by blast
  from fill_to_live [OF assms(1), of "pr_buf r" 4] True obtain b1 s1 where
    f1: "fill_to 4 (pr_buf r) s = (Filled, b1, s1)" "4 \<le> length b1" "live s1" "b1 @ stream_bytes s1 = pr_buf r @ stream_bytes s"
    by auto
  have "b1 @ (stream_bytes s1 @ q) = u32_to_be (of_nat (length p)) @ p" using f1(4) assms(3) p(1) by simp
  from frame_split [OF this f1(2)] have fl: "frame_len b1 = length p" using p(3) by simp
  have "length (encode_message m) = 4 + length p" by (simp add: p(1))
  then have "\<not> 4 + length p \<le> length (b1 @ stream_bytes s1)"
    using assms(3,4) f1(4) by (cases q) auto
  with fill_to_live [OF f1(3), of b1 "4 + length p"] obtain b2 s2 where
    "fill_to (4 + length p) b1 s1 = (Eof, b2, s2)" by auto
  with f1 fl p show ?thesis by (simp add: read_message_def)
qed

text \<open>The results of \<open>n\<close> calls of \<open>read_message\<close> in a row.\<close>

fun read_n :: "nat \<Rightarrow> peer_reader \<Rightarrow> stream \<Rightarrow> (wire_error + message option) list" where
  "read_n 0 r s = []"
| "read_n (Suc n) r s = (case read_message r s of (m, r', s') \<Rightarrow> m # read_n n r' s')"

lemma read_n_live:
  assumes "live s" "pr_buf r @ stream_bytes s = concat (map encode_message ms) @ rest" "list_all wire_ok ms"
  shows "\<exists>r' s'. read_n (length ms + k) r s = map (Inr \<circ> Some) ms @ read_n k r' s' \<and> live s'
    \<and> pr_buf r' @ stream_bytes s' = rest"
  using assms
proof (induction ms arbitrary: r s)
  case (Cons m ms)
  from Cons.prems(2) have "pr_buf r @ stream_bytes s = encode_message m @ concat (map encode_message ms) @ rest"
    by simp
  from read_message_live [OF Cons.prems(1) this] Cons.prems(3) obtain r1 s1 where
    1: "read_message r s = (Inr (Some m), r1, s1)" "live s1"
      "pr_buf r1 @ stream_bytes s1 = concat (map encode_message ms) @ rest" by auto
  from Cons.IH [OF 1(2,3)] Cons.prems(3) 1(1) show ?case by auto
qed auto

text \<open>
  C33. However the connection cuts the bytes into reads, and whatever part is already buffered, the
  reader returns exactly the messages that were encoded, in order, then end of stream; when the
  connection is cut inside a message it reports UnexpectedEof after the complete ones.
\<close>

theorem reader_any_segmentation:
  assumes "live s" "list_all wire_ok ms" "wire_ok m" "p @ q = encode_message m" "q \<noteq> []"
    and "pr_buf r @ stream_bytes s = concat (map encode_message ms) @ p"
  shows "read_n (length ms + 1) r s
    = map (Inr \<circ> Some) ms @ [if p = [] then Inr None else Inl UnexpectedEof]"
proof -
  from read_n_live [OF assms(1,6,2), of 1] obtain r' s' where
    1: "read_n (length ms + 1) r s = map (Inr \<circ> Some) ms @ read_n 1 r' s'" "live s'" "pr_buf r' @ stream_bytes s' = p"
    by blast
  have "read_n 1 r' s' = [if p = [] then Inr None else Inl UnexpectedEof]"
  proof (cases "p = []")
    case True
    with read_message_end [OF 1(2), of r'] 1(3) show ?thesis by auto
  next
    case False
    with read_message_truncated [OF 1(2) assms(3), of r' q] assms(4,5) 1(3) show ?thesis by auto
  qed
  with 1(1) show ?thesis by simp
qed

theorem reader_any_segmentation_witness:
  "read_n 3 reader_new [Some [0, 0], Some [0, 5, 4, 0, 0, 0], Some [7, 0, 0, 0, 0, 0, 0]]
     = [Inr (Some (Have 7)), Inr (Some KeepAlive), Inl UnexpectedEof]"
proof -
  have enc: "encode_message (Have 7) = [0, 0, 0, 5, 4, 0, 0, 0, 7]" "encode_message KeepAlive = [0, 0, 0, 0]"
    "encode_message Choke = [0, 0, 0, 1, 0]"
    by (simp_all add: encode_message_def u32_to_be_def drop_bit_eq_div)
  have ok: "wire_ok (Have 7)" "wire_ok KeepAlive" "wire_ok Choke"
    by (simp_all add: wire_ok_def MAX_MESSAGE_def)
  show ?thesis
    using reader_any_segmentation [of "[Some [0, 0], Some [0, 5, 4, 0, 0, 0], Some [7, 0, 0, 0, 0, 0, 0]]"
        "[Have 7, KeepAlive]" Choke "[0, 0]" "[0, 1, 0]" reader_new] ok
    by (simp add: enc reader_new_def numeral_3_eq_3)
qed

text \<open>
  Parsing is a left inverse of encoding on well-formed messages, and every payload the parser
  accepts gives a well-formed message, so what was received can be sent on and read back.
\<close>

theorem parse_message_canonical:
  assumes "parse_message payload = Inr m" "length payload < MAX_MESSAGE"
  shows "wire_ok m \<and> parse_message (drop 4 (encode_message m)) = Inr m
    \<and> wire_dec (encode_message m @ rest) = Some (m, length (encode_message m))"
proof -
  have ok: "wire_ok m" using parse_message_wf [OF assms(1)] assms(2) by (simp add: wire_ok_def)
  from encode_message_frame [OF ok] ok show ?thesis by (auto simp: wire_dec_encode)
qed

theorem parse_message_canonical_witness:
  "wire_ok (Unknown 9 [1]) \<and> parse_message (drop 4 (encode_message (Unknown 9 [1]))) = Inr (Unknown 9 [1])"
proof -
  have "parse_message [9, 1] = Inr (Unknown 9 [1])" by (simp add: parse_message_def)
  from parse_message_canonical [OF this] show ?thesis by (simp add: MAX_MESSAGE_def)
qed

section \<open>Handshake and block requests\<close>

lemma slice_mid: "length xs = a \<Longrightarrow> length ys = b - a \<Longrightarrow> slice a b (xs @ ys @ zs) = ys"
  by (simp add: slice_def)

lemma length_PSTR [simp]: "length PSTR = 19"
  by (simp add: PSTR_def)

lemma RESERVED_eval: "RESERVED = [0, 0, 0, 0, 0, 0x10, 0, 5]"
  by (simp add: RESERVED_def Let_def numeral_eq_Suc)

lemma decode_encode_handshake:
  assumes "length ih = 20" "length pid = 20"
  shows "decode_handshake (encode_handshake ih pid @ rest)
    = Inr \<lparr>hs_info_hash = ih, hs_peer_id = pid, hs_reserved = RESERVED\<rparr>"
proof -
  let ?w = "encode_handshake ih pid @ rest"
  have w: "?w = [19] @ PSTR @ RESERVED @ ih @ pid @ rest" by (simp add: encode_handshake_def)
  have lenr: "length RESERVED = 8" by (simp add: RESERVED_eval)
  have "?w ! 0 = 19" by (simp add: w)
  moreover have "slice 1 20 ?w = PSTR" unfolding w by (rule slice_mid) simp_all
  moreover have "slice 20 28 ?w = RESERVED"
    using slice_mid [of "[19] @ PSTR" 20 RESERVED 28 "ih @ pid @ rest"] by (simp add: w lenr)
  moreover have "slice 28 48 ?w = ih"
    using slice_mid [of "[19] @ PSTR @ RESERVED" 28 ih 48 "pid @ rest"] assms by (simp add: w lenr)
  moreover have "slice 48 68 ?w = pid"
    using slice_mid [of "[19] @ PSTR @ RESERVED @ ih" 48 pid 68 rest] assms by (simp add: w lenr)
  moreover have "68 \<le> length ?w" using assms by (simp add: w lenr)
  ultimately show ?thesis by (simp add: decode_handshake_def)
qed

lemma decode_handshake_take:
  "68 \<le> length buf \<Longrightarrow> decode_handshake (buf @ xs) = decode_handshake buf"
proof -
  assume len: "68 \<le> length buf"
  have "b \<le> length buf \<Longrightarrow> slice a b (buf @ xs) = slice a b buf" for a b
    by (cases "a \<le> b") (auto simp: slice_def)
  then show ?thesis using len by (cases "buf = []") (auto simp: decode_handshake_def Let_def nth_append)
qed

text \<open>
  A handshake sent by this client is read back by any segmentation of the stream with the same
  info hash and peer id; it declares the extension protocol, the fast extension and DHT; and the
  bytes behind it stay in front of the reader for the messages that follow.
\<close>

theorem handshake_roundtrip:
  assumes "length ih = 20" "length pid = 20" "live s" "pr_handshake r = None"
    and "pr_buf r @ stream_bytes s = encode_handshake ih pid @ rest"
  shows "\<exists>h r' s'. read_handshake r s = (Inr (Some h), r', s') \<and> hs_info_hash h = ih \<and> hs_peer_id h = pid
    \<and> supports_extension (hs_reserved h) \<and> supports_fast_extension (hs_reserved h) \<and> supports_dht (hs_reserved h)
    \<and> pr_handshake r' = Some h \<and> live s' \<and> pr_buf r' @ stream_bytes s' = rest"
proof -
  let ?h = "\<lparr>hs_info_hash = ih, hs_peer_id = pid, hs_reserved = RESERVED\<rparr>"
  have len: "length (encode_handshake ih pid) = 68" using assms(1,2) by (simp add: encode_handshake_def RESERVED_eval)
  then have "68 \<le> length (pr_buf r @ stream_bytes s)" unfolding assms(5) by simp
  with fill_to_live [OF assms(3), of "pr_buf r" 68] obtain b s' where
    f: "fill_to 68 (pr_buf r) s = (Filled, b, s')" "68 \<le> length b" "live s'" "b @ stream_bytes s' = encode_handshake ih pid @ rest"
    by (auto simp: assms(5))
  have "decode_handshake b = Inr ?h"
    using decode_handshake_take [OF f(2), of "stream_bytes s'"] decode_encode_handshake [OF assms(1,2), of rest]
    by (simp add: f(4))
  moreover have "drop 68 b @ stream_bytes s' = rest"
  proof -
    have "drop 68 b @ stream_bytes s' = drop 68 (b @ stream_bytes s')" using f(2) by simp
    then show ?thesis unfolding f(4) by (simp add: len)
  qed
  ultimately show ?thesis
    using f assms(4)
    by (intro exI [of _ ?h]) (simp add: read_handshake_def supports_extension_def supports_fast_extension_def
        supports_dht_def RESERVED_eval)
qed

theorem handshake_roundtrip_witness:
  "\<exists>h r' s'. read_handshake reader_new [Some (encode_handshake (replicate 20 7) (replicate 20 9))] = (Inr (Some h), r', s')
     \<and> hs_info_hash h = replicate 20 7"
proof -
  have "encode_handshake (replicate 20 7) (replicate 20 9) \<noteq> []" by (simp add: encode_handshake_def)
  then show ?thesis
    using handshake_roundtrip [of "replicate 20 7" "replicate 20 9"
        "[Some (encode_handshake (replicate 20 7) (replicate 20 9))]" reader_new "[]"]
    by (auto simp: reader_new_def)
qed

lemma request_loop_ok:
  assumes "0 < bs" "a \<le> pl"
  shows "\<exists>rs. request_loop pl bs a out = Some (out @ rs) \<and>
    concat (map (\<lambda>(b, l). [b..<b + l]) rs) = [a..<pl] \<and> (\<forall>(b, l) \<in> set rs. 0 < l \<and> l \<le> bs)"
  using assms(2)
proof (induction "pl - a" arbitrary: a out rule: less_induct)
  case less
  show ?case
  proof (cases "a < pl")
    case False
    with less.prems show ?thesis by (subst request_loop.simps) auto
  next
    case True
    let ?l = "min (pl - a) bs"
    have l: "0 < ?l" "a + ?l \<le> pl" "?l \<le> bs" using True assms(1) by auto
    then have "pl - (a + ?l) < pl - a" using True by linarith
    from less.hyps [OF this l(2), of "out @ [(a, ?l)]"] obtain rs where
      rs: "request_loop pl bs (a + ?l) (out @ [(a, ?l)]) = Some ((out @ [(a, ?l)]) @ rs)"
        "concat (map (\<lambda>(b, l). [b..<b + l]) rs) = [a + ?l..<pl]"
        "\<forall>(b, l) \<in> set rs. 0 < l \<and> l \<le> bs" by blast
    have "[a..<a + ?l] @ [a + ?l..<pl] = [a..<pl]"
      using l(2) upt_add_eq_append [of a "a + ?l" "pl - (a + ?l)"] by simp
    moreover have "request_loop pl bs a out = request_loop pl bs (a + ?l) (out @ [(a, ?l)])"
      using True by (subst request_loop.simps) simp
    ultimately show ?thesis
      using rs l by (intro exI [of _ "(a, ?l) # rs"]) (simp del: upt_Suc)
  qed
qed

lemma request_loop_zero:
  assumes "request_loop pl bs a out = Some rs"
  shows "bs = 0 \<longrightarrow> pl \<le> a"
proof (rule request_loop.raw_induct [OF _ assms, of "\<lambda>pl bs a out rs. bs = 0 \<longrightarrow> pl \<le> a"])
  fix f and pl bs a :: nat and out y
  assume IH: "\<And>pl bs (a :: nat) out y. f pl bs a out = Some y \<Longrightarrow> bs = 0 \<longrightarrow> pl \<le> a"
    and step: "(if a < pl then f pl bs (a + min (pl - a) bs) (out @ [(a, min (pl - a) bs)]) else Some out) = Some y"
  show "bs = 0 \<longrightarrow> pl \<le> a"
    using step IH [of pl bs "a + min (pl - a) bs" "out @ [(a, min (pl - a) bs)]" y]
    by (cases "a < pl") (auto simp: min_def not_less)
qed

text \<open>
  The block requests of a piece cut it into consecutive non-empty blocks of at most the block
  size, and the computation ends for every positive block size; for block size zero it does not end
  on any non-empty piece (the callers pass \<open>BLOCK_SIZE\<close>).
\<close>

theorem request_blocks_partition:
  "(if 0 < block_size
    then \<exists>rs. request_blocks piece_len block_size = Some rs
      \<and> concat (map (\<lambda>(b, l). [b..<b + l]) rs) = [0..<piece_len]
      \<and> list_all (\<lambda>(b, l). 0 < l \<and> l \<le> block_size) rs
    else request_blocks piece_len block_size = (if piece_len = 0 then Some [] else None))"
proof (cases "0 < block_size")
  case True
  then show ?thesis
    using request_loop_ok [OF True, of 0 piece_len "[]"] by (auto simp: request_blocks_def list_all_iff)
next
  case False
  show ?thesis
  proof (cases "piece_len = 0")
    case True
    with False show ?thesis by (simp add: request_blocks_def request_loop.simps)
  next
    case False
    with \<open>\<not> 0 < block_size\<close> request_loop_zero [of piece_len block_size 0 "[]"] show ?thesis
      by (cases "request_blocks piece_len block_size") (auto simp: request_blocks_def)
  qed
qed

text \<open>The size \<open>encode\<close> reserves is the size it writes, except that a \<open>Port\<close> message reserves two bytes more.\<close>

lemma encode_message_length:
  "length (encode_message m) + (case m of Port p \<Rightarrow> 2 | _ \<Rightarrow> 0) = 4 + payload_len m"
  by (cases m) (simp_all add: encode_message_def)

end
