(* ===== verification/Dht_Table.thy ===== *)
theory Dht_Table
  imports Xfer_Prelude
begin

text \<open>
  The DHT's metric and routing table: \<open>crates/xfer-dht/src/node_id.rs\<close> and
  \<open>crates/xfer-dht/src/routing_table.rs\<close>. A node id is its 20 bytes, ordered as the derived
  \<open>Ord\<close> of the code orders byte arrays. A bucket's nodes and replacements are lists, oldest first;
  its time stamp, which no operation modelled here reads, is left out, as is the JSON form.
\<close>

section \<open>Node ids\<close>

datatype node_id = NodeId (id_bytes: bytes)

instantiation node_id :: linorder
begin

definition less_eq_node_id :: "node_id \<Rightarrow> node_id \<Rightarrow> bool" where
  "less_eq_node_id a b \<longleftrightarrow> id_bytes a \<le> id_bytes b"

definition less_node_id :: "node_id \<Rightarrow> node_id \<Rightarrow> bool" where
  "less_node_id a b \<longleftrightarrow> id_bytes a < id_bytes b"

instance
  by standard (auto simp: less_eq_node_id_def less_node_id_def node_id.expand)

end

definition id_xor :: "node_id \<Rightarrow> node_id \<Rightarrow> bytes" where
  "id_xor a b = map2 (\<lambda>x y. x XOR y) (id_bytes a) (id_bytes b)"

text \<open>\<open>u8::leading_zeros\<close>, and the loop of \<open>leading_zero_bits\<close> from byte \<open>i\<close> on.\<close>

definition byte_leading_zeros :: "byte \<Rightarrow> nat" where
  "byte_leading_zeros b = length (takeWhile (\<lambda>k. \<not> bit b (7 - k)) [0..<8])"

fun lzb_from :: "nat \<Rightarrow> bytes \<Rightarrow> nat" where
  "lzb_from i [] = 160"
| "lzb_from i (b # bs) = (if b \<noteq> 0 then i * 8 + byte_leading_zeros b else lzb_from (Suc i) bs)"

definition leading_zero_bits :: "bytes \<Rightarrow> nat" where
  "leading_zero_bits xs = lzb_from 0 xs"

section \<open>Routing table\<close>

datatype socket_addr = V4 bytes u16 | V6 bytes u16

record node_entry =
  ne_id :: node_id
  ne_addr :: socket_addr

definition K :: nat where
  "K = 8"

record bucket =
  bk_nodes :: "node_entry list"
  bk_replacements :: "node_entry list"

definition bucket_new :: bucket where
  "bucket_new = \<lparr>bk_nodes = [], bk_replacements = []\<rparr>"

definition bucket_full :: "bucket \<Rightarrow> bool" where
  "bucket_full b \<longleftrightarrow> K \<le> length (bk_nodes b)"

record routing_table =
  rt_our_id :: node_id
  rt_buckets :: "bucket list"

definition table_new :: "node_id \<Rightarrow> routing_table" where
  "table_new our_id = \<lparr>rt_our_id = our_id, rt_buckets = replicate 160 bucket_new\<rparr>"

definition bucket_index :: "routing_table \<Rightarrow> node_id \<Rightarrow> nat" where
  "bucket_index t id1 = min (leading_zero_bits (id_xor (rt_our_id t) id1)) 159"

text \<open>Position of the first entry with an id, as \<open>position(|n| n.id == id)\<close>.\<close>

fun position :: "node_id \<Rightarrow> node_entry list \<Rightarrow> nat option" where
  "position id1 [] = None"
| "position id1 (n # ns) = (if ne_id n = id1 then Some 0 else map_option Suc (position id1 ns))"

definition remove_at :: "nat \<Rightarrow> 'a list \<Rightarrow> 'a list" where
  "remove_at i xs = take i xs @ drop (Suc i) xs"

text \<open>The three outcomes of \<open>add\<close> inside the bucket.\<close>

definition bucket_add :: "node_entry \<Rightarrow> bucket \<Rightarrow> bucket" where
  "bucket_add entry b =
     (case position (ne_id entry) (bk_nodes b) of
        Some pos \<Rightarrow>
          let nodes = (if ne_addr (bk_nodes b ! pos) \<noteq> ne_addr entry
                       then (bk_nodes b)[pos := (bk_nodes b ! pos)\<lparr>ne_addr := ne_addr entry\<rparr>] else bk_nodes b);
              node = nodes ! pos
          in b\<lparr>bk_nodes := remove_at pos nodes @ [node]\<rparr>
      | None \<Rightarrow>
          if bucket_full b
          then (if list_ex (\<lambda>n. ne_id n = ne_id entry) (bk_replacements b) then b
                else let reps = bk_replacements b @ [entry]
                     in b\<lparr>bk_replacements := (if K * 2 < length reps then tl reps else reps)\<rparr>)
          else b\<lparr>bk_nodes := bk_nodes b @ [entry]\<rparr>)"

definition table_add :: "node_entry \<Rightarrow> routing_table \<Rightarrow> routing_table" where
  "table_add entry t =
     (if ne_id entry = rt_our_id t then t
      else let idx = bucket_index t (ne_id entry)
           in t\<lparr>rt_buckets := (rt_buckets t)[idx := bucket_add entry (rt_buckets t ! idx)]\<rparr>)"

definition bucket_mark_bad :: "node_id \<Rightarrow> bucket \<Rightarrow> bucket" where
  "bucket_mark_bad id1 b =
     (case position id1 (bk_nodes b) of
        None \<Rightarrow> b
      | Some pos \<Rightarrow>
          let b' = b\<lparr>bk_nodes := remove_at pos (bk_nodes b)\<rparr>
          in (case bk_replacements b' of
                [] \<Rightarrow> b'
              | rep # reps \<Rightarrow> b'\<lparr>bk_nodes := bk_nodes b' @ [rep], bk_replacements := reps\<rparr>))"

definition mark_bad :: "node_id \<Rightarrow> routing_table \<Rightarrow> routing_table" where
  "mark_bad id1 t =
     (let idx = bucket_index t id1
      in t\<lparr>rt_buckets := (rt_buckets t)[idx := bucket_mark_bad id1 (rt_buckets t ! idx)]\<rparr>)"

definition all_nodes :: "routing_table \<Rightarrow> node_entry list" where
  "all_nodes t = concat (map bk_nodes (rt_buckets t))"

definition table_len :: "routing_table \<Rightarrow> nat" where
  "table_len t = sum_list (map (length \<circ> bk_nodes) (rt_buckets t))"

text \<open>\<open>sort_by_key\<close> is stable, as is \<open>sort_key\<close>; keys are compared as byte arrays.\<close>

definition closest :: "routing_table \<Rightarrow> node_id \<Rightarrow> nat \<Rightarrow> node_entry list" where
  "closest t target count = take count (sort_key (\<lambda>e. id_xor (ne_id e) target) (all_nodes t))"

section \<open>The metric\<close>

definition id_ok :: "node_id \<Rightarrow> bool" where
  "id_ok a \<longleftrightarrow> length (id_bytes a) = 20"

lemma id_xor_comm: "id_xor a b = id_xor b a"
  unfolding id_xor_def by (subst zip_commute) (simp add: o_def case_prod_beta xor.commute)

lemma length_id_xor [simp]: "id_ok a \<Longrightarrow> id_ok b \<Longrightarrow> length (id_xor a b) = 20"
  by (simp add: id_ok_def id_xor_def)

lemma id_xor_cancel: "id_ok a \<Longrightarrow> id_ok b \<Longrightarrow> id_ok c \<Longrightarrow> id_xor a c = id_xor b c \<longleftrightarrow> a = b"
proof -
  have xor_inj: "x XOR z = y XOR z \<longleftrightarrow> x = y" for x y z :: byte
    by (metis xor.assoc xor.right_neutral xor_self_eq)
  assume "id_ok a" "id_ok b" "id_ok c"
  then have "id_xor a c = id_xor b c \<longleftrightarrow> id_bytes a = id_bytes b"
    by (auto simp: id_ok_def id_xor_def list_eq_iff_nth_eq xor_inj)
  then show ?thesis by (simp add: node_id.expand node_id.split_sel) (metis node_id.expand)
qed

lemma id_xor_self: "id_ok a \<Longrightarrow> id_xor a a = replicate 20 0"
  by (auto simp: id_ok_def id_xor_def list_eq_iff_nth_eq)

lemma lzb_from_bound: "i + length bs \<le> 20 \<Longrightarrow> lzb_from i bs \<le> 160 \<and>
    (lzb_from i bs = 160 \<longleftrightarrow> list_all (\<lambda>b. b = 0) bs)"
proof (induction i bs rule: lzb_from.induct)
  case (2 i b bs)
  have "byte_leading_zeros b < 8" if "b \<noteq> 0"
  proof -
    have "\<exists>k < 8. bit b (7 - k)"
    proof (rule ccontr)
      assume no: "\<not> ?thesis"
      have "b = 0"
      proof (rule bit_word_eqI)
        fix n assume "n < LENGTH(8)"
        then have "7 - n < 8" "7 - (7 - n) = n" by auto
        with no show "bit b n = bit 0 n" by (metis bit_0_eq bot_apply bot_bool_def)
      qed
      with that show False by simp
    qed
    then have "takeWhile (\<lambda>k. \<not> bit b (7 - k)) [0..<8] \<noteq> [0..<8]"
      by (subst takeWhile_eq_all_conv) auto
    then have "length (takeWhile (\<lambda>k. \<not> bit b (7 - k)) [0..<8]) < length [0..<8]"
      by (metis length_takeWhile_le le_neq_implies_less takeWhile_eq_take take_all_iff order_refl)
    then show ?thesis by (simp add: byte_leading_zeros_def)
  qed
  with 2 show ?case by (cases "b = 0") auto
qed simp

lemma lzb_lt:
  assumes "id_ok a" "id_ok b"
  shows "leading_zero_bits (id_xor a b) < 160 \<longleftrightarrow> a \<noteq> b"
proof -
  have "leading_zero_bits (id_xor a b) = 160 \<longleftrightarrow> id_xor a b = replicate 20 0"
    using lzb_from_bound [of 0 "id_xor a b"] assms
    by (auto simp: leading_zero_bits_def list_all_iff intro!: replicate_eqI)
  also have "\<dots> \<longleftrightarrow> a = b"
    using id_xor_cancel [of a b b] id_xor_self [of b] assms by auto
  finally show ?thesis
    using lzb_from_bound [of 0 "id_xor a b"] assms by (auto simp: leading_zero_bits_def)
qed

section \<open>The table invariant\<close>

definition bucket_wf :: "node_id \<Rightarrow> nat \<Rightarrow> bucket \<Rightarrow> bool" where
  "bucket_wf our i b \<longleftrightarrow>
     length (bk_nodes b) \<le> K \<and> length (bk_replacements b) \<le> 2 * K \<and>
     distinct (map ne_id (bk_nodes b @ bk_replacements b)) \<and>
     (bk_replacements b \<noteq> [] \<longrightarrow> length (bk_nodes b) = K) \<and>
     (\<forall>e \<in> set (bk_nodes b) \<union> set (bk_replacements b). id_ok (ne_id e) \<and> ne_id e \<noteq> our \<and>
        leading_zero_bits (id_xor our (ne_id e)) = i)"

definition table_wf :: "routing_table \<Rightarrow> bool" where
  "table_wf t \<longleftrightarrow> id_ok (rt_our_id t) \<and> length (rt_buckets t) = 160 \<and>
     (\<forall>i < 160. bucket_wf (rt_our_id t) i (rt_buckets t ! i))"

lemma bucket_wf_distinct: "bucket_wf our i b \<Longrightarrow> distinct (map ne_id (bk_nodes b @ bk_replacements b))"
  unfolding bucket_wf_def by blast

lemma bucket_wf_entry:
  "bucket_wf our i b \<Longrightarrow> e \<in> set (bk_nodes b) \<Longrightarrow>
   id_ok (ne_id e) \<and> ne_id e \<noteq> our \<and> leading_zero_bits (id_xor our (ne_id e)) = i"
  unfolding bucket_wf_def by blast

lemma table_wf_bucket: "table_wf t \<Longrightarrow> i < 160 \<Longrightarrow> bucket_wf (rt_our_id t) i (rt_buckets t ! i)"
  by (simp add: table_wf_def)

lemma disjoint_insert_sub: "A \<inter> B = {} \<Longrightarrow> R \<subseteq> insert x B \<Longrightarrow> x \<notin> A \<Longrightarrow> A \<inter> R = {}"
  by blast

lemma K_pos [simp]: "0 < K"
  by (simp add: K_def)

lemma position_Some:
  "position i ns = Some p \<Longrightarrow> \<exists>xs n ys. ns = xs @ n # ys \<and> length xs = p \<and> ne_id n = i \<and> i \<notin> ne_id ` set xs"
proof (induction ns arbitrary: p)
  case (Cons m ns)
  show ?case
  proof (cases "ne_id m = i")
    case True
    with Cons.prems show ?thesis by (intro exI [of _ "[]"]) auto
  next
    case False
    with Cons.prems obtain q where q: "position i ns = Some q" "p = Suc q" by auto
    from Cons.IH [OF q(1)] obtain xs n ys where
      "ns = xs @ n # ys" "length xs = q" "ne_id n = i" "i \<notin> ne_id ` set xs" by blast
    with False q(2) show ?thesis by (intro exI [of _ "m # xs"]) auto
  qed
qed simp

lemma position_None: "position i ns = None \<longleftrightarrow> i \<notin> ne_id ` set ns"
  by (induction ns) auto

lemma remove_at_split: "remove_at (length xs) (xs @ n # ys) = xs @ ys"
  by (simp add: remove_at_def)

lemma our_id_new [simp]: "rt_our_id (table_new our) = our"
  by (simp add: table_new_def)

lemma table_new_wf: "id_ok our \<Longrightarrow> table_wf (table_new our)"
  by (simp add: table_wf_def table_new_def bucket_wf_def bucket_new_def)

lemma bucket_add_present:
  assumes "position (ne_id e) (bk_nodes b) = Some p"
  shows "\<exists>xs n ys. bk_nodes b = xs @ n # ys \<and> ne_id n = ne_id e
    \<and> bucket_add e b = b\<lparr>bk_nodes := xs @ ys @ [n\<lparr>ne_addr := ne_addr e\<rparr>]\<rparr>"
proof -
  from position_Some [OF assms] obtain xs n ys where
    s: "bk_nodes b = xs @ n # ys" "length xs = p" "ne_id n = ne_id e" by blast
  have "n\<lparr>ne_addr := ne_addr e\<rparr> = n" if "ne_addr n = ne_addr e" using that by simp
  with s have "bucket_add e b = b\<lparr>bk_nodes := xs @ ys @ [n\<lparr>ne_addr := ne_addr e\<rparr>]\<rparr>"
    using assms by (auto simp: bucket_add_def Let_def remove_at_split simp flip: s(2))
  with s show ?thesis by blast
qed

lemma bucket_add_wf:
  assumes wf: "bucket_wf our i b" and e: "id_ok (ne_id e)" "ne_id e \<noteq> our" "leading_zero_bits (id_xor our (ne_id e)) = i"
  shows "bucket_wf our i (bucket_add e b)"
proof (cases "position (ne_id e) (bk_nodes b)")
  case (Some p)
  from bucket_add_present [OF this] obtain xs n ys where
    s: "bk_nodes b = xs @ n # ys" "ne_id n = ne_id e" "bucket_add e b = b\<lparr>bk_nodes := xs @ ys @ [n\<lparr>ne_addr := ne_addr e\<rparr>]\<rparr>"
    by blast
  with wf e show ?thesis by (auto simp: bucket_wf_def)
next
  case None
  then have notin: "ne_id e \<notin> ne_id ` set (bk_nodes b)" by (simp add: position_None)
  show ?thesis
  proof (cases "bucket_full b")
    case False
    with wf have "bk_replacements b = []" "length (bk_nodes b) < K" by (auto simp: bucket_wf_def bucket_full_def)
    with None notin wf e False show ?thesis by (auto simp: bucket_wf_def bucket_add_def)
  next
    case True
    with wf have full: "length (bk_nodes b) = K" by (simp add: bucket_wf_def bucket_full_def)
    show ?thesis
    proof (cases "list_ex (\<lambda>n. ne_id n = ne_id e) (bk_replacements b)")
      case True
      with None \<open>bucket_full b\<close> wf show ?thesis by (simp add: bucket_add_def)
    next
      case False
      then have notin2: "ne_id e \<notin> ne_id ` set (bk_replacements b)" by (auto simp: list_ex_iff)
      let ?r = "bk_replacements b @ [e]"
      define r where "r = (if K * 2 < length ?r then tl ?r else ?r)"
      have add: "bucket_add e b = b\<lparr>bk_replacements := r\<rparr>"
        using None True False by (simp add: bucket_add_def Let_def r_def)
      have r: "length r \<le> 2 * K" "set r \<subseteq> set ?r" "distinct (map ne_id ?r) \<longrightarrow> distinct (map ne_id r)"
        using wf by (auto simp: r_def bucket_wf_def map_tl distinct_tl dest: list.set_sel(2) [rotated])
      have "distinct (map ne_id r)" using r(3) bucket_wf_distinct [OF wf] notin2 by auto
      have sub: "ne_id ` set r \<subseteq> insert (ne_id e) (ne_id ` set (bk_replacements b))" using r(2) by auto
      have nodes: "distinct (map ne_id (bk_nodes b))" "ne_id ` set (bk_nodes b) \<inter> ne_id ` set (bk_replacements b) = {}"
        using bucket_wf_distinct [OF wf] by simp_all
      have "ne_id ` set (bk_nodes b) \<inter> ne_id ` set r = {}" by (rule disjoint_insert_sub [OF nodes(2) sub notin])
      with \<open>distinct (map ne_id r)\<close> nodes(1)
      have dist: "distinct (map ne_id (bk_nodes b @ r))" by simp
      have entries: "id_ok (ne_id x) \<and> ne_id x \<noteq> our \<and> leading_zero_bits (id_xor our (ne_id x)) = i"
        if x: "x \<in> set (bk_nodes b) \<union> set r" for x
      proof (cases "x = e")
        case False
        with x r(2) have "x \<in> set (bk_nodes b) \<union> set (bk_replacements b)" by auto
        with wf show ?thesis unfolding bucket_wf_def by blast
      qed (use e in simp)
      show ?thesis
        unfolding add bucket_wf_def
        using dist r(1) full by (intro conjI ballI impI) (simp_all, (use entries in auto))
    qed
  qed
qed

lemma bucket_mark_bad_wf:
  assumes wf: "bucket_wf our i b"
  shows "bucket_wf our i (bucket_mark_bad j b)"
proof (cases "position j (bk_nodes b)")
  case None
  with wf show ?thesis by (simp add: bucket_mark_bad_def)
next
  case (Some p)
  from position_Some [OF this] obtain xs n ys where
    s: "bk_nodes b = xs @ n # ys" "length xs = p" by blast
  then have rm: "remove_at p (xs @ n # ys) = xs @ ys" using remove_at_split by metis
  show ?thesis
  proof (cases "bk_replacements b")
    case Nil
    with Some wf show ?thesis by (auto simp: bucket_mark_bad_def s(1) rm bucket_wf_def)
  next
    case (Cons r rs)
    with Some wf show ?thesis by (auto simp: bucket_mark_bad_def s(1) rm bucket_wf_def)
  qed
qed

lemma bucket_index_lt: "bucket_index t i < 160"
  by (simp add: bucket_index_def)

lemma bucket_index_other:
  "id_ok (rt_our_id t) \<Longrightarrow> id_ok i \<Longrightarrow> i \<noteq> rt_our_id t \<Longrightarrow>
   bucket_index t i = leading_zero_bits (id_xor (rt_our_id t) i)"
  using lzb_lt [of "rt_our_id t" i] by (auto simp: bucket_index_def)

lemma table_add_wf:
  assumes "table_wf t" "id_ok (ne_id e)"
  shows "table_wf (table_add e t)"
proof (cases "ne_id e = rt_our_id t")
  case False
  let ?i = "bucket_index t (ne_id e)"
  have "bucket_wf (rt_our_id t) ?i (bucket_add e (rt_buckets t ! ?i))"
    using assms False bucket_index_lt [of t "ne_id e"] bucket_index_other [of t "ne_id e"]
    by (intro bucket_add_wf) (auto simp: table_wf_def)
  then have "bucket_wf (rt_our_id t) i ((rt_buckets t)[?i := bucket_add e (rt_buckets t ! ?i)] ! i)" if "i < 160" for i
    using assms(1) that by (cases "i = ?i") (auto simp: table_wf_def)
  with assms False show ?thesis
    by (auto simp: table_add_def table_wf_def Let_def)
qed (use assms in \<open>simp add: table_add_def\<close>)

lemma mark_bad_wf: "table_wf t \<Longrightarrow> table_wf (mark_bad i t)"
proof -
  let ?i = "bucket_index t i"
  assume t: "table_wf t"
  then have "bucket_wf (rt_our_id t) j ((rt_buckets t)[?i := bucket_mark_bad i (rt_buckets t ! ?i)] ! j)" if "j < 160" for j
    using that by (cases "j = ?i") (auto simp: table_wf_def bucket_mark_bad_wf)
  with t show ?thesis by (simp add: mark_bad_def table_wf_def Let_def)
qed

datatype table_op = Add node_entry | Mark_bad node_id

fun table_run :: "table_op \<Rightarrow> routing_table \<Rightarrow> routing_table" where
  "table_run (Add e) t = table_add e t"
| "table_run (Mark_bad i) t = mark_bad i t"

fun op_ok :: "table_op \<Rightarrow> bool" where
  "op_ok (Add e) \<longleftrightarrow> id_ok (ne_id e)"
| "op_ok (Mark_bad i) \<longleftrightarrow> True"

lemma our_id_run [simp]: "rt_our_id (table_run f t) = rt_our_id t"
  by (cases f) (simp_all add: table_add_def mark_bad_def Let_def)

lemma table_run_wf:
  "table_wf t \<Longrightarrow> list_all op_ok ops \<Longrightarrow> table_wf (fold table_run ops t) \<and> rt_our_id (fold table_run ops t) = rt_our_id t"
proof (induction ops arbitrary: t)
  case (Cons f ops)
  have "table_wf (table_run f t)"
    using Cons.prems by (cases f) (simp_all add: table_add_wf mark_bad_wf)
  from Cons.IH [OF this] Cons.prems show ?case by simp
qed simp

lemma distinct_concat_nth:
  assumes "\<And>i. i < length xss \<Longrightarrow> distinct (xss ! i)"
    and "\<And>i j. i < length xss \<Longrightarrow> j < length xss \<Longrightarrow> i \<noteq> j \<Longrightarrow> set (xss ! i) \<inter> set (xss ! j) = {}"
  shows "distinct (concat xss)"
  using assms
proof (induction xss)
  case (Cons xs xss)
  have "distinct (concat xss)"
  proof (rule Cons.IH)
    show "i < length xss \<Longrightarrow> distinct (xss ! i)" for i using Cons.prems(1) [of "Suc i"] by simp
    show "i < length xss \<Longrightarrow> j < length xss \<Longrightarrow> i \<noteq> j \<Longrightarrow> set (xss ! i) \<inter> set (xss ! j) = {}" for i j
      using Cons.prems(2) [of "Suc i" "Suc j"] by simp
  qed
  moreover have "set xs \<inter> set ys = {}" if "ys \<in> set xss" for ys
  proof -
    from that obtain j where "j < length xss" "ys = xss ! j" by (auto simp: in_set_conv_nth)
    with Cons.prems(2) [of 0 "Suc j"] show ?thesis by simp
  qed
  moreover have "distinct xs" using Cons.prems(1) [of 0] by simp
  ultimately show ?case by auto
qed simp

lemma all_nodes_distinct:
  assumes "table_wf t"
  shows "distinct (map ne_id (all_nodes t))"
proof -
  have disj: "set (map ne_id (bk_nodes (rt_buckets t ! i))) \<inter> set (map ne_id (bk_nodes (rt_buckets t ! j))) = {}"
    if "i < 160" "j < 160" "i \<noteq> j" for i j
  proof -
    note i = bucket_wf_entry [OF table_wf_bucket [OF assms that(1)]]
    note j = bucket_wf_entry [OF table_wf_bucket [OF assms that(2)]]
    show ?thesis
    proof (rule ccontr)
      assume "\<not> ?thesis"
      then obtain e f where "e \<in> set (bk_nodes (rt_buckets t ! i))" "f \<in> set (bk_nodes (rt_buckets t ! j))" "ne_id e = ne_id f"
        by auto
      with i [of e] j [of f] that(3) show False by simp
    qed
  qed
  have dist: "distinct (map ne_id (bk_nodes (rt_buckets t ! i)))" if "i < 160" for i
    using bucket_wf_distinct [OF table_wf_bucket [OF assms that]] by simp
  have len: "length (rt_buckets t) = 160" using assms by (simp add: table_wf_def)
  have "distinct (concat (map (\<lambda>b. map ne_id (bk_nodes b)) (rt_buckets t)))"
    by (rule distinct_concat_nth) (use disj dist in \<open>simp_all add: len\<close>)
  then show ?thesis by (simp add: all_nodes_def map_concat o_def)
qed

text \<open>
  C34. Every sequence of additions and removals started on an empty table keeps the invariant: 160
  buckets of at most K nodes and 2K replacements, replacements only behind a full bucket, every
  entry in the bucket of its shared prefix, no id twice in the whole table and never our own.
\<close>

theorem routing_table_invariant:
  assumes "id_ok our" "list_all op_ok ops" "t = fold table_run ops (table_new our)"
  shows "table_wf t \<and> distinct (map ne_id (all_nodes t)) \<and> our \<notin> ne_id ` set (all_nodes t)
    \<and> table_len t = length (all_nodes t) \<and> table_len t \<le> 160 * K"
proof -
  have t: "table_wf t" "rt_our_id t = our"
    using table_run_wf [OF table_new_wf [OF assms(1)] assms(2)] unfolding assms(3) by simp_all
  have "table_len t = length (all_nodes t)" by (simp add: table_len_def all_nodes_def length_concat o_def)
  moreover have "our \<notin> ne_id ` set (all_nodes t)"
  proof
    assume "our \<in> ne_id ` set (all_nodes t)"
    then obtain i e where "i < length (rt_buckets t)" "e \<in> set (bk_nodes (rt_buckets t ! i))" "ne_id e = our"
      by (auto simp: all_nodes_def in_set_conv_nth [of _ "rt_buckets t"])
    moreover from this(1) t have "bucket_wf our i (rt_buckets t ! i)" by (simp add: table_wf_def)
    ultimately show False using bucket_wf_entry by blast
  qed
  moreover have "table_len t \<le> 160 * K"
  proof -
    have "length (bk_nodes b) \<le> K" if "b \<in> set (rt_buckets t)" for b
    proof -
      from that obtain i where "i < length (rt_buckets t)" "b = rt_buckets t ! i" by (auto simp: in_set_conv_nth)
      with t(1) show ?thesis unfolding table_wf_def bucket_wf_def by metis
    qed
    then have "table_len t \<le> sum_list (map (\<lambda>_. K) (rt_buckets t))"
      unfolding table_len_def by (intro sum_list_mono) simp
    with t(1) show ?thesis by (simp add: table_wf_def sum_list_triv)
  qed
  ultimately show ?thesis using t(1) all_nodes_distinct by simp
qed

definition sample_ids :: "nat \<Rightarrow> node_entry" where
  "sample_ids n = \<lparr>ne_id = NodeId (replicate 19 0 @ [of_nat n]), ne_addr = V4 [10, 0, 0, 1] 6881\<rparr>"

theorem routing_table_invariant_witness:
  "table_wf (fold table_run [Add (sample_ids 1), Add (sample_ids 2), Mark_bad (ne_id (sample_ids 1))] (table_new (ne_id (sample_ids 0))))"
proof -
  have ok: "id_ok (ne_id (sample_ids n))" for n by (simp add: id_ok_def sample_ids_def)
  show ?thesis
    using routing_table_invariant [OF ok [of 0] _ refl,
        of "[Add (sample_ids 1), Add (sample_ids 2), Mark_bad (ne_id (sample_ids 1))]"] ok by simp
qed

text \<open>
  Adding a node never loses one: all nodes stay, and the added one is afterwards in the table
  with the announced address, or its bucket was full and its id waits among the replacements.
\<close>

theorem table_add_outcome:
  assumes "table_wf t" "id_ok (ne_id e)" "ne_id e \<noteq> rt_our_id t"
  shows "ne_id ` set (all_nodes t) \<subseteq> ne_id ` set (all_nodes (table_add e t))
    \<and> ((\<exists>n \<in> set (all_nodes (table_add e t)). ne_id n = ne_id e \<and> ne_addr n = ne_addr e) \<or>
       bucket_full (rt_buckets t ! bucket_index t (ne_id e)) \<and>
       ne_id e \<in> ne_id ` set (bk_replacements (rt_buckets (table_add e t) ! bucket_index t (ne_id e))))"
proof -
  let ?i = "bucket_index t (ne_id e)"
  let ?b = "rt_buckets t ! ?i"
  have i: "?i < length (rt_buckets t)" using assms(1) bucket_index_lt by (simp add: table_wf_def)
  have add: "rt_buckets (table_add e t) = (rt_buckets t)[?i := bucket_add e ?b]"
    using assms(3) by (simp add: table_add_def Let_def)
  have keep: "ne_id ` set (bk_nodes ?b) \<subseteq> ne_id ` set (bk_nodes (bucket_add e ?b))"
  proof (cases "position (ne_id e) (bk_nodes ?b)")
    case (Some p)
    from bucket_add_present [OF this] show ?thesis by auto
  qed (auto simp: bucket_add_def Let_def)
  have out: "(\<exists>n \<in> set (bk_nodes (bucket_add e ?b)). ne_id n = ne_id e \<and> ne_addr n = ne_addr e) \<or>
      bucket_full ?b \<and> ne_id e \<in> ne_id ` set (bk_replacements (bucket_add e ?b))"
  proof (cases "position (ne_id e) (bk_nodes ?b)")
    case (Some p)
    from bucket_add_present [OF this] show ?thesis by auto
  next
    case None
    have "e \<in> set (tl (rs @ [e]))" if "K * 2 < length (rs @ [e])" for rs :: "node_entry list"
      using that by (cases rs) (auto simp: K_def)
    then have tl: "ne_id e \<in> ne_id ` set (tl (rs @ [e]))" if "K * 2 < length (rs @ [e])" for rs
      using that by blast
    show ?thesis
    proof (cases "bucket_full ?b")
      case False
      with None show ?thesis by (simp add: bucket_add_def)
    next
      case True
      have "ne_id e \<in> ne_id ` set (bk_replacements (bucket_add e ?b))"
      proof (cases "list_ex (\<lambda>n. ne_id n = ne_id e) (bk_replacements ?b)")
        case present: True
        with None True have "bucket_add e ?b = ?b" by (simp add: bucket_add_def)
        moreover from present have "ne_id e \<in> ne_id ` set (bk_replacements ?b)"
          by (auto simp: list_ex_iff intro: rev_image_eqI)
        ultimately show ?thesis by simp
      next
        case False
        with None True tl [of "bk_replacements ?b"] show ?thesis by (simp add: bucket_add_def Let_def)
      qed
      with True show ?thesis by blast
    qed
  qed
  have sub: "ne_id ` set (all_nodes t) \<subseteq> ne_id ` set (all_nodes (table_add e t))"
  proof
    fix x assume "x \<in> ne_id ` set (all_nodes t)"
    then obtain j where j: "j < length (rt_buckets t)" "x \<in> ne_id ` set (bk_nodes (rt_buckets t ! j))"
      by (auto simp: all_nodes_def in_set_conv_nth [of _ "rt_buckets t"])
    then have "x \<in> ne_id ` set (bk_nodes (rt_buckets (table_add e t) ! j))"
      using keep by (cases "j = ?i") (auto simp: add)
    moreover have "rt_buckets (table_add e t) ! j \<in> set (rt_buckets (table_add e t))" using j by (simp add: add)
    ultimately show "x \<in> ne_id ` set (all_nodes (table_add e t))" by (auto simp: all_nodes_def)
  qed
  have "bucket_add e ?b \<in> set (rt_buckets (table_add e t))" using i by (simp add: add set_update_memI)
  then have "set (bk_nodes (bucket_add e ?b)) \<subseteq> set (all_nodes (table_add e t))" by (auto simp: all_nodes_def)
  with out sub i show ?thesis by (auto simp: add)
qed

theorem table_add_outcome_witness:
  "ne_id ` set (all_nodes (table_new (ne_id (sample_ids 0))))
     \<subseteq> ne_id ` set (all_nodes (table_add (sample_ids 3) (table_new (ne_id (sample_ids 0)))))"
proof -
  have ok: "id_ok (ne_id (sample_ids n))" for n by (simp add: id_ok_def sample_ids_def)
  have "ne_id (sample_ids 3) \<noteq> rt_our_id (table_new (ne_id (sample_ids 0)))"
    by (simp add: sample_ids_def table_new_def)
  then show ?thesis using table_add_outcome [OF table_new_wf [OF ok] ok] by blast
qed

text \<open>
  C35. A closest-nodes query returns as many nodes as asked for (or all there are), without
  repetition, in ascending XOR distance to the target, and no node left out is nearer than one
  returned.
\<close>

theorem closest_correct:
  assumes "table_wf t"
  shows "length (closest t target n) = min n (table_len t)
    \<and> distinct (map ne_id (closest t target n)) \<and> set (closest t target n) \<subseteq> set (all_nodes t)
    \<and> sorted (map (\<lambda>e. id_xor (ne_id e) target) (closest t target n))
    \<and> (\<forall>e \<in> set (closest t target n). \<forall>f \<in> set (all_nodes t) - set (closest t target n).
         id_xor (ne_id e) target \<le> id_xor (ne_id f) target)"
proof -
  let ?d = "\<lambda>e. id_xor (ne_id e) target"
  let ?s = "sort_key ?d (all_nodes t)"
  have len: "length ?s = table_len t" by (simp add: table_len_def all_nodes_def length_concat o_def)
  have "distinct (map ne_id ?s)"
    using all_nodes_distinct [OF assms] by (simp add: distinct_map distinct_sort)
  then have dist: "distinct (map ne_id (take n ?s))" by (simp add: distinct_take flip: take_map)
  have sorted: "sorted (map ?d ?s)" by simp
  have "?d e \<le> ?d f" if "e \<in> set (take n ?s)" "f \<in> set (all_nodes t)" "f \<notin> set (take n ?s)" for e f
  proof -
    have "f \<in> set (drop n ?s)"
      using that by (metis Un_iff append_take_drop_id set_append set_sort)
    moreover have "sorted (map ?d (take n ?s) @ map ?d (drop n ?s))"
      using sorted by (metis append_take_drop_id map_append)
    ultimately show ?thesis using that(1) by (auto simp: sorted_append)
  qed
  moreover have "sorted (map ?d (take n ?s))" using sorted by (metis sorted_wrt_take take_map)
  moreover have "set (take n ?s) \<subseteq> set (all_nodes t)" using set_take_subset [of n ?s] by simp
  ultimately show ?thesis using dist len by (auto simp: closest_def)
qed

theorem closest_correct_witness:
  "length (closest (table_new (ne_id (sample_ids 0))) (ne_id (sample_ids 5)) 8) = 0"
proof -
  have "table_wf (table_new (ne_id (sample_ids 0)))"
    by (rule table_new_wf) (simp add: id_ok_def sample_ids_def)
  from closest_correct [OF this, of "ne_id (sample_ids 5)" 8] show ?thesis
    by (simp add: table_len_def table_new_def bucket_new_def o_def sum_list_replicate)
qed

end
