(* ===== verification/Text_Bytes.thy ===== *)
theory Text_Bytes
  imports Xfer_Prelude
begin

text \<open>
  Rust's string functions on UTF-8 bytes, as far as the parsers use them: white space, lines, splitting,
  prefixes, ASCII case, and slicing at a byte index, which panics inside a character.
\<close>

definition lit :: "string \<Rightarrow> bytes" where
  "lit s = map of_char s"

section \<open>White space\<close>

text \<open>The characters with the Unicode property \<open>White_Space\<close>, in UTF-8.\<close>

definition ws_seqs :: "bytes list" where
  "ws_seqs =
     [[9], [10], [11], [12], [13], [32], [0xC2, 0x85], [0xC2, 0xA0], [0xE1, 0x9A, 0x80],
      [0xE2, 0x80, 0x80], [0xE2, 0x80, 0x81], [0xE2, 0x80, 0x82], [0xE2, 0x80, 0x83], [0xE2, 0x80, 0x84],
      [0xE2, 0x80, 0x85], [0xE2, 0x80, 0x86], [0xE2, 0x80, 0x87], [0xE2, 0x80, 0x88], [0xE2, 0x80, 0x89],
      [0xE2, 0x80, 0x8A], [0xE2, 0x80, 0xA8], [0xE2, 0x80, 0xA9], [0xE2, 0x80, 0xAF], [0xE2, 0x81, 0x9F],
      [0xE3, 0x80, 0x80]]"

definition starts_with :: "bytes \<Rightarrow> bytes \<Rightarrow> bool" where
  "starts_with p s \<longleftrightarrow> take (length p) s = p"

definition strip_prefix :: "bytes \<Rightarrow> bytes \<Rightarrow> bytes option" where
  "strip_prefix p s = (if starts_with p s then Some (drop (length p) s) else None)"

definition head_len :: "bytes list \<Rightarrow> bytes \<Rightarrow> nat" where
  "head_len seqs s = (case find (\<lambda>w. starts_with w s) seqs of Some w \<Rightarrow> length w | None \<Rightarrow> 0)"

lemma head_len_pos: "0 < head_len seqs s \<Longrightarrow> s \<noteq> []"
  by (auto simp: head_len_def starts_with_def find_Some_iff split: option.splits)

function strip_seqs :: "bytes list \<Rightarrow> bytes \<Rightarrow> bytes" where
  "strip_seqs seqs s = (if head_len seqs s = 0 then s else strip_seqs seqs (drop (head_len seqs s) s))"
  by pat_completeness auto
termination
proof (relation "measure (\<lambda>(q, s). length s)")
  fix seqs :: "bytes list" and s :: bytes
  assume h: "head_len seqs s \<noteq> 0"
  then have "s \<noteq> []" using head_len_pos by blast
  with h show "((seqs, drop (head_len seqs s) s), (seqs, s)) \<in> measure (\<lambda>(q, s). length s)"
    by (cases s) auto
qed simp

declare strip_seqs.simps [simp del]

definition trim_start :: "bytes \<Rightarrow> bytes" where
  "trim_start s = strip_seqs ws_seqs s"

definition trim_end :: "bytes \<Rightarrow> bytes" where
  "trim_end s = rev (strip_seqs (map rev ws_seqs) (rev s))"

definition trim :: "bytes \<Rightarrow> bytes" where
  "trim s = trim_end (trim_start s)"

definition trim_matches :: "byte \<Rightarrow> bytes \<Rightarrow> bytes" where
  "trim_matches c s = rev (dropWhile (\<lambda>b. b = c) (rev (dropWhile (\<lambda>b. b = c) s)))"

text \<open>A text with no white space at either end is left alone.\<close>

definition tight :: "bytes \<Rightarrow> bool" where
  "tight s \<longleftrightarrow> head_len ws_seqs s = 0 \<and> head_len (map rev ws_seqs) (rev s) = 0"

lemma trim_tight: "tight s \<Longrightarrow> trim s = s"
  by (simp add: trim_def trim_start_def trim_end_def tight_def strip_seqs.simps)

text \<open>Printable ASCII at both ends is enough.\<close>

lemma head_len_other: "list_all (\<lambda>w. w \<noteq> [] \<and> hd w \<noteq> hd s) seqs \<Longrightarrow> s \<noteq> [] \<Longrightarrow> head_len seqs s = 0"
proof -
  assume a: "list_all (\<lambda>w. w \<noteq> [] \<and> hd w \<noteq> hd s) seqs" and "s \<noteq> []"
  have "\<not> starts_with w s" if "w \<in> set seqs" for w
  proof
    assume w: "starts_with w s"
    from a that have "w \<noteq> []" "hd w \<noteq> hd s" by (auto simp: list_all_iff)
    with w \<open>s \<noteq> []\<close> show False by (cases w; cases s) (auto simp: starts_with_def)
  qed
  then have "find (\<lambda>w. starts_with w s) seqs = None" by (simp add: find_None_iff)
  then show "head_len seqs s = 0" by (simp add: head_len_def)
qed

lemma ws_ends: "list_all (\<lambda>w. w \<noteq> [] \<and> (hd w < 33 \<or> 0x80 \<le> hd w)) ws_seqs"
  "list_all (\<lambda>w. w \<noteq> [] \<and> (hd w < 33 \<or> 0x80 \<le> hd w)) (map rev ws_seqs)"
  by (simp_all add: ws_seqs_def)

lemma head_len_graphic:
  assumes "s \<noteq> []" "33 \<le> hd s" "hd s < 0x80" "list_all (\<lambda>w. w \<noteq> [] \<and> (hd w < 33 \<or> 0x80 \<le> hd w)) seqs"
  shows "head_len seqs s = 0"
  by (rule head_len_other [OF _ assms(1)]) (use assms in \<open>auto simp: list_all_iff\<close>)

lemma tight_graphic:
  "s \<noteq> [] \<Longrightarrow> 33 \<le> hd s \<Longrightarrow> hd s < 0x80 \<Longrightarrow> 33 \<le> last s \<Longrightarrow> last s < 0x80 \<Longrightarrow> tight s"
  by (simp add: tight_def head_len_graphic ws_ends hd_rev)

lemma tight_Nil [simp]: "tight []"
  by (simp add: tight_def head_len_def ws_seqs_def starts_with_def)

section \<open>Lines and pieces\<close>

text \<open>\<open>str::lines\<close>: pieces between line feeds, a carriage return before a line feed dropped, no last empty piece.\<close>

definition strip_cr :: "bytes \<Rightarrow> bytes" where
  "strip_cr l = (if l \<noteq> [] \<and> last l = 13 then butlast l else l)"

fun lines_from :: "bytes \<Rightarrow> bytes \<Rightarrow> bytes list" where
  "lines_from cur [] = (if cur = [] then [] else [cur])"
| "lines_from cur (b # s) = (if b = 10 then strip_cr cur # lines_from [] s else lines_from (cur @ [b]) s)"

definition lines :: "bytes \<Rightarrow> bytes list" where
  "lines s = lines_from [] s"

lemma lines_from_append:
  "10 \<notin> set l \<Longrightarrow> lines_from cur (l @ 10 # s) = strip_cr (cur @ l) # lines_from [] s"
  by (induction l arbitrary: cur) auto

lemma lines_unlines:
  assumes "\<And>l. l \<in> set ls \<Longrightarrow> 10 \<notin> set l \<and> (l = [] \<or> last l \<noteq> 13)"
  shows "lines (concat (map (\<lambda>l. l @ [10]) ls)) = ls"
  using assms by (induction ls) (auto simp: lines_def lines_from_append strip_cr_def)

definition split_once :: "byte \<Rightarrow> bytes \<Rightarrow> (bytes \<times> bytes) option" where
  "split_once c s = (if c \<in> set s then Some (takeWhile (\<lambda>b. b \<noteq> c) s, drop 1 (dropWhile (\<lambda>b. b \<noteq> c) s)) else None)"

lemma split_once_append: "c \<notin> set a \<Longrightarrow> split_once c (a @ c # b) = Some (a, b)"
  by (auto simp: split_once_def takeWhile_append dropWhile_append)

definition is_sub :: "bytes \<Rightarrow> bytes \<Rightarrow> bool" where
  "is_sub p s \<longleftrightarrow> list_ex (\<lambda>i. starts_with p (drop i s)) [0..<Suc (length s)]"

section \<open>ASCII case\<close>

definition to_upper :: "byte \<Rightarrow> byte" where
  "to_upper b = (if 97 \<le> b \<and> b \<le> 122 then b - 32 else b)"

definition to_lower :: "byte \<Rightarrow> byte" where
  "to_lower b = (if 65 \<le> b \<and> b \<le> 90 then b + 32 else b)"

definition ascii_upper :: "bytes \<Rightarrow> bytes" where
  "ascii_upper s = map to_upper s"

definition ascii_lower :: "bytes \<Rightarrow> bytes" where
  "ascii_lower s = map to_lower s"

definition eq_ignore_case :: "bytes \<Rightarrow> bytes \<Rightarrow> bool" where
  "eq_ignore_case a b \<longleftrightarrow> ascii_lower a = ascii_lower b"

section \<open>Slices and digits\<close>

text \<open>\<open>s[..n]\<close>: \<open>None\<close> is the panic on an index outside the text or inside a character.\<close>

definition is_char_boundary :: "bytes \<Rightarrow> nat \<Rightarrow> bool" where
  "is_char_boundary s n \<longleftrightarrow> n = 0 \<or> n = length s \<or> (n < length s \<and> s ! n AND 0xC0 \<noteq> 0x80)"

definition slice_to :: "nat \<Rightarrow> bytes \<Rightarrow> bytes option" where
  "slice_to n s = (if is_char_boundary s n then Some (take n s) else None)"

definition is_hex_digit :: "byte \<Rightarrow> bool" where
  "is_hex_digit b \<longleftrightarrow> is_ascii_digit b \<or> (65 \<le> b \<and> b \<le> 70) \<or> (97 \<le> b \<and> b \<le> 102)"

definition hex_val :: "byte \<Rightarrow> nat" where
  "hex_val b = (if is_ascii_digit b then unat b - 48 else if b \<le> 70 then unat b - 55 else unat b - 87)"

definition hex_digit :: "nat \<Rightarrow> byte" where
  "hex_digit n = (if n < 10 then of_nat (48 + n) else of_nat (87 + n))"

lemma hex_digit: "n < 16 \<Longrightarrow> is_hex_digit (hex_digit n) \<and> hex_val (hex_digit n) = n"
proof -
  assume "n < 16"
  then have "n \<in> set [0..<16]" by simp
  then show ?thesis
    by (simp add: upt_rec) (auto simp: hex_digit_def is_hex_digit_def hex_val_def is_ascii_digit_def)
qed

end
