(* ===== verification/Krpc.thy ===== *)
theory Krpc
  imports Bencode Dht_Table Text_Bytes
begin

text \<open>
  The DHT's messages, \<open>crates/xfer-dht/src/krpc.rs\<close>: compact peer and node encodings, queries and
  responses as bencoded dictionaries, and their parsers. The dictionaries are the ordered maps of
  the bencode model and the bytes go through its \<open>encode\<close> and \<open>decode\<close>, as in the code. The
  human-readable texts of the format errors are dropped; the remote error keeps code and message.
\<close>

section \<open>Text\<close>

text \<open>\<open>str::from_utf8\<close>: which byte strings are UTF-8.\<close>

definition cont_byte :: "byte \<Rightarrow> bool" where
  "cont_byte b \<longleftrightarrow> 0x80 \<le> b \<and> b \<le> 0xBF"

function utf8_valid :: "bytes \<Rightarrow> bool" where
  "utf8_valid bs =
     (case bs of
        [] \<Rightarrow> True
      | a # r \<Rightarrow>
          if a < 0x80 then utf8_valid r
          else if 0xC2 \<le> a \<and> a \<le> 0xDF then
            (case r of b # r' \<Rightarrow> cont_byte b \<and> utf8_valid r' | _ \<Rightarrow> False)
          else if 0xE0 \<le> a \<and> a \<le> 0xEF then
            (case r of
               b # c # r' \<Rightarrow>
                 cont_byte b \<and> cont_byte c \<and> (a = 0xE0 \<longrightarrow> 0xA0 \<le> b) \<and> (a = 0xED \<longrightarrow> b \<le> 0x9F) \<and> utf8_valid r'
             | _ \<Rightarrow> False)
          else if 0xF0 \<le> a \<and> a \<le> 0xF4 then
            (case r of
               b # c # d # r' \<Rightarrow>
                 cont_byte b \<and> cont_byte c \<and> cont_byte d \<and> (a = 0xF0 \<longrightarrow> 0x90 \<le> b) \<and> (a = 0xF4 \<longrightarrow> b \<le> 0x8F)
                 \<and> utf8_valid r'
             | _ \<Rightarrow> False)
          else False)"
  by pat_completeness auto
termination by (relation "measure length") auto

declare utf8_valid.simps [simp del]

definition as_str :: "bvalue \<Rightarrow> bytes option" where
  "as_str v = (case as_bytes v of None \<Rightarrow> None | Some b \<Rightarrow> if utf8_valid b then Some b else None)"

lemma utf8_ascii: "list_all (\<lambda>b. b < 0x80) bs \<Longrightarrow> utf8_valid bs"
  by (induction bs) (subst utf8_valid.simps, simp)+

section \<open>Compact encodings\<close>

datatype krpc_error = KBencode bencode_error | KFormat | KRemote i64 bytes | KTidMismatch

fun addr_port :: "socket_addr \<Rightarrow> u16" where
  "addr_port (V4 ip p) = p"
| "addr_port (V6 ip p) = p"

fun is_ipv4 :: "socket_addr \<Rightarrow> bool" where
  "is_ipv4 (V4 ip p) = True"
| "is_ipv4 (V6 ip p) = False"

text \<open>\<open>chunks_exact\<close>: full chunks only, the remainder is dropped.\<close>

function chunks_exact :: "nat \<Rightarrow> bytes \<Rightarrow> bytes list" where
  "chunks_exact n bs = (if n = 0 \<or> length bs < n then [] else take n bs # chunks_exact n (drop n bs))"
  by pat_completeness auto
termination by (relation "measure (\<lambda>(n, bs). length bs)") auto

declare chunks_exact.simps [simp del]

definition encode_compact :: "socket_addr \<Rightarrow> bytes" where
  "encode_compact a = (case a of V4 ip p \<Rightarrow> ip | V6 ip p \<Rightarrow> [0, 0, 0, 0]) @ u16_to_be (addr_port a)"

definition from_compact :: "bytes \<Rightarrow> socket_addr list" where
  "from_compact data = concat (map (\<lambda>c.
     let port = u16_from_be (c ! 4) (c ! 5)
     in if port = 0 then [] else [V4 [c ! 0, c ! 1, c ! 2, c ! 3] port]) (chunks_exact 6 data))"

definition from_compact6 :: "bytes \<Rightarrow> socket_addr list" where
  "from_compact6 data = concat (map (\<lambda>c.
     let port = u16_from_be (c ! 16) (c ! 17)
     in if port = 0 then [] else [V6 (take 16 c) port]) (chunks_exact 18 data))"

definition encode_nodes_compact :: "node_entry list \<Rightarrow> bytes" where
  "encode_nodes_compact nodes = concat (map (\<lambda>n.
     id_bytes (ne_id n) @ (case ne_addr n of V4 ip p \<Rightarrow> ip | V6 ip p \<Rightarrow> [127, 0, 0, 1]) @
     u16_to_be (addr_port (ne_addr n))) nodes)"

definition decode_nodes_compact :: "bytes \<Rightarrow> node_entry list" where
  "decode_nodes_compact data = concat (map (\<lambda>c.
     let port = u16_from_be (c ! 24) (c ! 25)
     in if port = 0 then []
        else [\<lparr>ne_id = NodeId (take 20 c), ne_addr = V4 [c ! 20, c ! 21, c ! 22, c ! 23] port\<rparr>])
     (chunks_exact 26 data))"

definition decode_nodes6_compact :: "bytes \<Rightarrow> node_entry list" where
  "decode_nodes6_compact data = concat (map (\<lambda>c.
     let port = u16_from_be (c ! 36) (c ! 37)
     in if port = 0 then []
        else [\<lparr>ne_id = NodeId (take 20 c), ne_addr = V6 (take 16 (drop 20 c)) port\<rparr>])
     (chunks_exact 38 data))"

definition encode_nodes6_compact :: "node_entry list \<Rightarrow> bytes" where
  "encode_nodes6_compact nodes = concat (map (\<lambda>n.
     case ne_addr n of
       V6 ip p \<Rightarrow> id_bytes (ne_id n) @ ip @ u16_to_be p
     | V4 ip p \<Rightarrow> []) nodes)"

definition encode_peers6_compact :: "socket_addr list \<Rightarrow> bytes" where
  "encode_peers6_compact peers =
     concat (map (\<lambda>a. case a of V6 ip p \<Rightarrow> ip @ u16_to_be p | V4 ip p \<Rightarrow> []) peers)"

section \<open>Queries\<close>

type_synonym bdict = "(bytes, bvalue) btree_map"

definition encode_query :: "bytes \<Rightarrow> bytes \<Rightarrow> bdict \<Rightarrow> bytes" where
  "encode_query tid meth args =
     (let top = bt_insert (lit ''t'') (VBytes tid) [];
          top = bt_insert (lit ''y'') (VBytes (lit ''q'')) top;
          top = bt_insert (lit ''q'') (VBytes meth) top;
          top = bt_insert (lit ''a'') (VDict args) top
      in encode (VDict top))"

definition encode_ping :: "bytes \<Rightarrow> node_id \<Rightarrow> bytes" where
  "encode_ping tid our_id =
     (let args = bt_insert (lit ''id'') (VBytes (id_bytes our_id)) []
      in encode_query tid (lit ''ping'') args)"

definition encode_find_node :: "bytes \<Rightarrow> node_id \<Rightarrow> node_id \<Rightarrow> bytes" where
  "encode_find_node tid our_id target =
     (let args = bt_insert (lit ''id'') (VBytes (id_bytes our_id)) [];
          args = bt_insert (lit ''target'') (VBytes (id_bytes target)) args
      in encode_query tid (lit ''find_node'') args)"

definition encode_get_peers :: "bytes \<Rightarrow> node_id \<Rightarrow> bytes \<Rightarrow> bytes" where
  "encode_get_peers tid our_id info_hash =
     (let args = bt_insert (lit ''id'') (VBytes (id_bytes our_id)) [];
          args = bt_insert (lit ''info_hash'') (VBytes info_hash) args
      in encode_query tid (lit ''get_peers'') args)"

definition encode_announce_peer :: "bytes \<Rightarrow> node_id \<Rightarrow> bytes \<Rightarrow> u16 \<Rightarrow> bytes \<Rightarrow> bool \<Rightarrow> bytes" where
  "encode_announce_peer tid our_id info_hash port token implied_port =
     (let args = bt_insert (lit ''id'') (VBytes (id_bytes our_id)) [];
          args = bt_insert (lit ''info_hash'') (VBytes info_hash) args;
          args = bt_insert (lit ''implied_port'') (VInt (if implied_port then 1 else 0)) args;
          args = bt_insert (lit ''port'') (VInt (ucast port)) args;
          args = bt_insert (lit ''token'') (VBytes token) args
      in encode_query tid (lit ''announce_peer'') args)"

datatype incoming_query =
    Ping bytes node_id
  | FindNode bytes node_id node_id
  | GetPeers bytes node_id bytes
  | AnnouncePeer bytes node_id bytes "u16 option" bool bytes

text \<open>A required 20-byte field.\<close>

definition get20 :: "bdict \<Rightarrow> bytes \<Rightarrow> krpc_error + bytes" where
  "get20 d key =
     (case Option.bind (map_of d key) as_bytes of
        None \<Rightarrow> Inl KFormat
      | Some b \<Rightarrow> if length b \<noteq> 20 then Inl KFormat else Inr b)"

definition parse_announce :: "bytes \<Rightarrow> node_id \<Rightarrow> bdict \<Rightarrow> krpc_error + incoming_query" where
  "parse_announce tid sender a =
     (case get20 a (lit ''info_hash'') of
        Inl e \<Rightarrow> Inl e
      | Inr ih \<Rightarrow>
          let port = (case Option.bind (map_of a (lit ''port'')) as_int of
                        None \<Rightarrow> None
                      | Some p \<Rightarrow> if 0 < sint p \<and> sint p \<le> 65535 then Some (ucast p) else None);
              implied_port = (case Option.bind (map_of a (lit ''implied_port'')) as_int of
                                None \<Rightarrow> False | Some n \<Rightarrow> n \<noteq> 0);
              token = (case Option.bind (map_of a (lit ''token'')) as_bytes of None \<Rightarrow> [] | Some b \<Rightarrow> b)
          in Inr (AnnouncePeer tid sender ih port implied_port token))"

definition parse_query :: "bytes \<Rightarrow> krpc_error + incoming_query" where
  "parse_query data =
     (case decode data of
        Inl e \<Rightarrow> Inl (KBencode e)
      | Inr v \<Rightarrow>
     (case as_dict v of
        None \<Rightarrow> Inl KFormat
      | Some d \<Rightarrow>
     (case Option.bind (map_of d (lit ''t'')) as_bytes of
        None \<Rightarrow> Inl KFormat
      | Some tid \<Rightarrow>
     (case Option.bind (map_of d (lit ''y'')) as_str of
        None \<Rightarrow> Inl KFormat
      | Some y \<Rightarrow>
     if y \<noteq> lit ''q'' then Inl KFormat
     else
     (case Option.bind (map_of d (lit ''q'')) as_str of
        None \<Rightarrow> Inl KFormat
      | Some q \<Rightarrow>
     (case Option.bind (map_of d (lit ''a'')) as_dict of
        None \<Rightarrow> Inl KFormat
      | Some a \<Rightarrow>
     (case get20 a (lit ''id'') of
        Inl e \<Rightarrow> Inl e
      | Inr id_arr \<Rightarrow>
          if q = lit ''ping'' then Inr (Ping tid (NodeId id_arr))
          else if q = lit ''find_node'' then
            (case get20 a (lit ''target'') of
               Inl e \<Rightarrow> Inl e | Inr t \<Rightarrow> Inr (FindNode tid (NodeId id_arr) (NodeId t)))
          else if q = lit ''get_peers'' then
            (case get20 a (lit ''info_hash'') of
               Inl e \<Rightarrow> Inl e | Inr ih \<Rightarrow> Inr (GetPeers tid (NodeId id_arr) ih))
          else if q = lit ''announce_peer'' then parse_announce tid (NodeId id_arr) a
          else Inl KFormat)))))))"

section \<open>Responses\<close>

record node_response =
  nr_responder :: node_id
  nr_nodes :: "node_entry list"
  nr_token :: "bytes option"

record get_peers_response =
  gp_responder :: node_id
  gp_token :: bytes
  gp_peers :: "socket_addr list option"
  gp_nodes :: "node_entry list"

text \<open>The default texts of the two parsers' remote errors: the UTF-8 bytes of the literal in the code.\<close>

definition UNKNOWN_ERROR :: bytes where
  "UNKNOWN_ERROR = [0xE6, 0x9C, 0xAA, 0xE7, 0x9F, 0xA5, 0xE9, 0x94, 0x99, 0xE8, 0xAF, 0xAF]"

definition remote_error :: "(bvalue \<Rightarrow> bytes) \<Rightarrow> bdict \<Rightarrow> krpc_error" where
  "remote_error msg d =
     (case Option.bind (map_of d (lit ''e'')) as_list of
        Some err \<Rightarrow>
          if 2 \<le> length err
          then KRemote (case as_int (err ! 0) of None \<Rightarrow> 203 | Some c \<Rightarrow> c) (msg (err ! 1))
          else KRemote 203 UNKNOWN_ERROR
      | None \<Rightarrow> KRemote 203 UNKNOWN_ERROR)"

definition response_msg :: "bvalue \<Rightarrow> bytes" where
  "response_msg v =
     (case as_str v of
        Some s \<Rightarrow> s
      | None \<Rightarrow> (case as_bytes v of None \<Rightarrow> UNKNOWN_ERROR | Some b \<Rightarrow> if utf8_valid b then b else []))"

definition get_peers_msg :: "bvalue \<Rightarrow> bytes" where
  "get_peers_msg v = (case as_str v of Some s \<Rightarrow> s | None \<Rightarrow> UNKNOWN_ERROR)"

text \<open>The checks both response parsers make before they read their fields: \<open>t\<close>, \<open>y\<close>, \<open>r\<close>, \<open>id\<close>.\<close>

definition response_args :: "(bvalue \<Rightarrow> bytes) \<Rightarrow> bytes \<Rightarrow> bytes \<Rightarrow> krpc_error + bdict \<times> node_id" where
  "response_args msg data expected_tid =
     (case decode data of
        Inl e \<Rightarrow> Inl (KBencode e)
      | Inr v \<Rightarrow>
     (case as_dict v of
        None \<Rightarrow> Inl KFormat
      | Some d \<Rightarrow>
     (case Option.bind (map_of d (lit ''t'')) as_bytes of
        None \<Rightarrow> Inl KFormat
      | Some t \<Rightarrow>
     if t \<noteq> expected_tid then Inl KTidMismatch
     else
     (case Option.bind (map_of d (lit ''y'')) as_str of
        None \<Rightarrow> Inl KFormat
      | Some y \<Rightarrow>
     if y = lit ''e'' then Inl (remote_error msg d)
     else if y \<noteq> lit ''r'' then Inl KFormat
     else
     (case Option.bind (map_of d (lit ''r'')) as_dict of
        None \<Rightarrow> Inl KFormat
      | Some r \<Rightarrow>
     (case get20 r (lit ''id'') of
        Inl e \<Rightarrow> Inl e
      | Inr id_arr \<Rightarrow> Inr (r, NodeId id_arr)))))))"

definition decode_nodes_field :: "bdict \<Rightarrow> node_entry list" where
  "decode_nodes_field r =
     (case Option.bind (map_of r (lit ''nodes'')) as_bytes of None \<Rightarrow> [] | Some n \<Rightarrow> decode_nodes_compact n) @
     (case Option.bind (map_of r (lit ''nodes6'')) as_bytes of None \<Rightarrow> [] | Some n \<Rightarrow> decode_nodes6_compact n)"

definition parse_response :: "bytes \<Rightarrow> bytes \<Rightarrow> krpc_error + node_response" where
  "parse_response data expected_tid =
     (case response_args response_msg data expected_tid of
        Inl e \<Rightarrow> Inl e
      | Inr (r, responder) \<Rightarrow>
          Inr \<lparr>nr_responder = responder, nr_nodes = decode_nodes_field r,
               nr_token = Option.bind (map_of r (lit ''token'')) as_bytes\<rparr>)"

definition values_peers :: "bvalue option \<Rightarrow> socket_addr list option" where
  "values_peers v =
     (case v of
        Some (VList items) \<Rightarrow>
          Some (concat (map (\<lambda>it.
            case as_bytes it of
              None \<Rightarrow> []
            | Some b \<Rightarrow> if length b = 6 then from_compact b
                        else if length b = 18 then from_compact6 b else []) items))
      | Some (VBytes b) \<Rightarrow> if b \<noteq> [] \<and> length b mod 6 = 0 then Some (from_compact b) else None
      | _ \<Rightarrow> None)"

definition peers6_peers :: "bvalue option \<Rightarrow> socket_addr list" where
  "peers6_peers v =
     (case v of
        Some (VBytes b) \<Rightarrow> if b \<noteq> [] \<and> length b mod 18 = 0 then from_compact6 b else []
      | Some (VList items) \<Rightarrow>
          concat (map (\<lambda>it. case as_bytes it of
                              None \<Rightarrow> [] | Some b \<Rightarrow> if length b = 18 then from_compact6 b else []) items)
      | _ \<Rightarrow> [])"

definition parse_get_peers_response :: "bytes \<Rightarrow> bytes \<Rightarrow> krpc_error + get_peers_response" where
  "parse_get_peers_response data expected_tid =
     (case response_args get_peers_msg data expected_tid of
        Inl e \<Rightarrow> Inl e
      | Inr (r, responder) \<Rightarrow>
          let token = (case Option.bind (map_of r (lit ''token'')) as_bytes of None \<Rightarrow> [] | Some b \<Rightarrow> b);
              peers = values_peers (map_of r (lit ''values''));
              peers6 = peers6_peers (map_of r (lit ''peers6''));
              peers = (if peers6 \<noteq> [] then Some ((case peers of None \<Rightarrow> [] | Some p \<Rightarrow> p) @ peers6) else peers)
          in Inr \<lparr>gp_responder = responder, gp_token = token, gp_peers = peers, gp_nodes = decode_nodes_field r\<rparr>)"

definition encode_reply :: "bytes \<Rightarrow> bdict \<Rightarrow> bytes" where
  "encode_reply tid r =
     (let top = bt_insert (lit ''t'') (VBytes tid) [];
          top = bt_insert (lit ''y'') (VBytes (lit ''r'')) top;
          top = bt_insert (lit ''r'') (VDict r) top
      in encode (VDict top))"

definition encode_response_v6 :: "bytes \<Rightarrow> node_id \<Rightarrow> node_entry list \<Rightarrow> node_entry list \<Rightarrow> bytes option \<Rightarrow> bytes" where
  "encode_response_v6 tid our_id nodes nodes6 token =
     (let r = bt_insert (lit ''id'') (VBytes (id_bytes our_id)) [];
          r = (if nodes \<noteq> [] then bt_insert (lit ''nodes'') (VBytes (encode_nodes_compact nodes)) r else r);
          r = (if nodes6 \<noteq> []
               then let compact = encode_nodes6_compact nodes6
                    in if compact \<noteq> [] then bt_insert (lit ''nodes6'') (VBytes compact) r else r
               else r);
          r = (case token of None \<Rightarrow> r | Some t \<Rightarrow> bt_insert (lit ''token'') (VBytes t) r)
      in encode_reply tid r)"

definition encode_response :: "bytes \<Rightarrow> node_id \<Rightarrow> node_entry list \<Rightarrow> bytes option \<Rightarrow> bytes" where
  "encode_response tid our_id nodes token = encode_response_v6 tid our_id nodes [] token"

definition encode_get_peers_response_with_peers :: "bytes \<Rightarrow> node_id \<Rightarrow> socket_addr list \<Rightarrow> bytes \<Rightarrow> bytes" where
  "encode_get_peers_response_with_peers tid our_id peers token =
     (let r = bt_insert (lit ''id'') (VBytes (id_bytes our_id)) [];
          vs = map (\<lambda>p. VBytes (encode_compact p)) (filter is_ipv4 peers);
          r = bt_insert (lit ''values'') (VList vs) r;
          peers6 = encode_peers6_compact peers;
          r = (if peers6 \<noteq> [] then bt_insert (lit ''peers6'') (VBytes peers6) r else r);
          r = bt_insert (lit ''token'') (VBytes token) r
      in encode_reply tid r)"

definition encode_error :: "bytes \<Rightarrow> i64 \<Rightarrow> bytes \<Rightarrow> bytes" where
  "encode_error tid code msg =
     (let top = bt_insert (lit ''t'') (VBytes tid) [];
          top = bt_insert (lit ''y'') (VBytes (lit ''e'')) top;
          top = bt_insert (lit ''e'') (VList [VInt code, VBytes msg]) top
      in encode (VDict top))"

section \<open>Dictionaries on the wire\<close>

named_theorems krpc_simps \<open>lookups in and well-formedness of the dictionaries the encoders build\<close>

definition fits_len :: "bytes \<Rightarrow> bool" where
  "fits_len b \<longleftrightarrow> length b < 2 ^ 64"

definition dict_ok :: "nat \<Rightarrow> bdict \<Rightarrow> bool" where
  "dict_ok n m \<longleftrightarrow> bt_wf m \<and> (\<forall>(k, v) \<in> set m. fits_len k \<and> wf_value v \<and> vdepth v < n)"

declare bt_insert.simps [simp del] wf_value.simps(2,4) [simp del] vdepth.simps(4) [simp del]

lemma unat_of_char: "unat (of_char c :: byte) = of_char c"
proof -
  have "unat (of_nat (of_char c) :: byte) = of_char c" by (simp add: unat_of_nat)
  then show ?thesis by (simp only: of_nat_of_char)
qed

lemma lit_eq [krpc_simps]: "lit s = lit t \<longleftrightarrow> s = t"
proof -
  have "inj (of_char :: char \<Rightarrow> byte)"
    by (rule injI) (metis unat_of_char of_char_eq_iff)
  then show ?thesis by (simp add: lit_def inj_map_eq_map)
qed

lemma fits_len_lit [krpc_simps]: "length s < 100 \<Longrightarrow> fits_len (lit s)"
  by (simp add: fits_len_def lit_def)

lemma wf_VBytes [krpc_simps]: "wf_value (VBytes b) \<longleftrightarrow> fits_len b"
  by (simp add: fits_len_def wf_value.simps)

lemma dict_ok_Nil [krpc_simps]: "dict_ok n []"
  by (simp add: dict_ok_def bt_wf_def)

lemma dict_ok_insert [krpc_simps]:
  "dict_ok n m \<Longrightarrow> fits_len k \<Longrightarrow> wf_value v \<Longrightarrow> vdepth v < n \<Longrightarrow> dict_ok n (bt_insert k v m)"
  using set_bt_insert_subset [of k v m] by (fastforce simp: dict_ok_def bt_wf_insert)

lemma dict_ok_value:
  assumes "dict_ok n m"
  shows "wf_value (VDict m)" "vdepth (VDict m) \<le> n"
proof -
  show "wf_value (VDict m)" using assms by (auto simp: dict_ok_def fits_len_def list_all_iff wf_value.simps)
  have "\<forall>(k, v) \<in> set m. vdepth v < n" using assms by (auto simp: dict_ok_def)
  then have "foldr (\<lambda>(k, val) n. max (Suc (vdepth val)) n) m 0 \<le> n" by (induction m) auto
  then show "vdepth (VDict m) \<le> n" by (simp add: vdepth.simps)
qed

lemma decode_dict: "dict_ok MAX_DEPTH m \<Longrightarrow> decode (encode (VDict m)) = Inr (VDict m)"
  using decode_encode_gen [of "VDict m"] dict_ok_value [of MAX_DEPTH m] by simp

lemma wf_VDict: "dict_ok 2 m \<Longrightarrow> wf_value (VDict m) \<and> vdepth (VDict m) < MAX_DEPTH"
  using dict_ok_value [of 2 m] by (simp add: MAX_DEPTH_def)

lemmas krpc_lookup = map_of_bt_insert krpc_simps

lemma utf8_lit: "list_all (\<lambda>c. (of_char c :: nat) < 128) s \<Longrightarrow> utf8_valid (lit s)"
  by (rule utf8_ascii) (auto simp: lit_def list_all_iff word_less_nat_alt unat_of_char)

lemma as_str_lit: "list_all (\<lambda>c. (of_char c :: nat) < 128) s \<Longrightarrow> as_str (VBytes (lit s)) = Some (lit s)"
  by (simp add: as_str_def utf8_lit)

lemma parse_encode_query:
  assumes "dict_ok 2 args" "fits_len tid" "map_of args (lit ''id'') = Some (VBytes (id_bytes i))" "id_ok i"
    and "list_all (\<lambda>c. (of_char c :: nat) < 128) q" "length q < 100"
  shows "parse_query (encode_query tid (lit q) args) =
    (if q = ''ping'' then Inr (Ping tid i)
     else if q = ''find_node'' then
       (case get20 args (lit ''target'') of Inl e \<Rightarrow> Inl e | Inr t \<Rightarrow> Inr (FindNode tid i (NodeId t)))
     else if q = ''get_peers'' then
       (case get20 args (lit ''info_hash'') of Inl e \<Rightarrow> Inl e | Inr ih \<Rightarrow> Inr (GetPeers tid i ih))
     else if q = ''announce_peer'' then parse_announce tid i args
     else Inl KFormat)"
proof -
  define top where "top = bt_insert (lit ''a'') (VDict args) (bt_insert (lit ''q'') (VBytes (lit q))
    (bt_insert (lit ''y'') (VBytes (lit ''q'')) (bt_insert (lit ''t'') (VBytes tid) [])))"
  have "dict_ok MAX_DEPTH top"
    unfolding top_def using wf_VDict [OF assms(1)] assms(2,6)
    by (intro dict_ok_insert dict_ok_Nil) (simp_all add: krpc_simps MAX_DEPTH_def)
  then have dec: "decode (encode_query tid (lit q) args) = Inr (VDict top)"
    unfolding encode_query_def Let_def top_def [symmetric] by (rule decode_dict)
  have look: "map_of top (lit ''t'') = Some (VBytes tid)" "map_of top (lit ''y'') = Some (VBytes (lit ''q''))"
    "map_of top (lit ''q'') = Some (VBytes (lit q))" "map_of top (lit ''a'') = Some (VDict args)"
    by (simp_all add: top_def krpc_lookup)
  have "get20 args (lit ''id'') = Inr (id_bytes i)" using assms(3,4) by (simp add: get20_def id_ok_def)
  moreover have "as_str (VBytes (lit ''q'')) = Some (lit ''q'')" by (rule as_str_lit) simp
  moreover note as_str_lit [OF assms(5)]
  ultimately show ?thesis
    by (simp add: parse_query_def dec look lit_eq split: sum.split)
qed

lemma fits_id: "id_ok i \<Longrightarrow> fits_len (id_bytes i)"
  by (simp add: id_ok_def fits_len_def)

lemma get20_Some: "map_of d k = Some (VBytes b) \<Longrightarrow> length b = 20 \<Longrightarrow> get20 d k = Inr b"
  by (simp add: get20_def)

lemma ucast_u16_i64: "(ucast (ucast w :: i64) :: u16) = w"
  by (rule bit_word_eqI) (simp add: bit_ucast_iff)

text \<open>
  Every query this client sends is read back by the query parser as the query it encodes:
  transaction id, sender, target or info hash, and for an announcement the port (absent when it is
  zero), the implied-port flag and the token.
\<close>

theorem query_roundtrip:
  assumes "fits_len tid" "id_ok i" "id_ok target" "length ih = 20" "fits_len token"
  shows "parse_query (encode_ping tid i) = Inr (Ping tid i)
    \<and> parse_query (encode_find_node tid i target) = Inr (FindNode tid i target)
    \<and> parse_query (encode_get_peers tid i ih) = Inr (GetPeers tid i ih)
    \<and> parse_query (encode_announce_peer tid i ih port token implied)
        = Inr (AnnouncePeer tid i ih (if port = 0 then None else Some port) implied token)"
proof -
  have ih: "fits_len ih" using assms(4) by (simp add: fits_len_def)
  note ok = fits_id [OF assms(2)] fits_id [OF assms(3)] ih assms(1,5)
  have "parse_query (encode_ping tid i) = Inr (Ping tid i)"
    unfolding encode_ping_def Let_def
    by (subst parse_encode_query [where i = i]) (simp_all add: krpc_lookup ok assms)
  moreover have "parse_query (encode_find_node tid i target) = Inr (FindNode tid i target)"
    unfolding encode_find_node_def Let_def
    by (subst parse_encode_query [where i = i])
      (simp_all add: krpc_lookup ok assms get20_def, simp_all add: id_ok_def [symmetric] assms)
  moreover have "parse_query (encode_get_peers tid i ih) = Inr (GetPeers tid i ih)"
    unfolding encode_get_peers_def Let_def
    by (subst parse_encode_query [where i = i]) (simp_all add: krpc_lookup ok assms get20_def)
  moreover have "parse_query (encode_announce_peer tid i ih port token implied)
        = Inr (AnnouncePeer tid i ih (if port = 0 then None else Some port) implied token)"
  proof -
    have range: "0 < uint port \<longleftrightarrow> port \<noteq> 0" "uint port \<le> 65535" "0 \<le> uint port"
    proof -
      have "uint port < 2 ^ LENGTH(16)" "0 \<le> uint port" by (rule unsigned_less, simp)
      then show "0 < uint port \<longleftrightarrow> port \<noteq> 0" "uint port \<le> 65535" "0 \<le> uint port"
        by (auto simp: order_less_le uint_0_iff)
    qed
    have "uint (ucast port :: i64) = uint port"
      using range(2) by (simp add: unsigned_ucast_eq take_bit_int_eq_self)
    moreover have "signed_take_bit 63 (uint port) = uint port"
      by (rule signed_take_bit_int_eq_self)
        (rule order_trans [OF _ range(3)], simp, rule order_le_less_trans [OF range(2)], simp)
    ultimately have "sint (ucast port :: i64) = uint port"
      by (simp only: sint_uint len_of_numeral_defs) simp
    with range show ?thesis
      unfolding encode_announce_peer_def Let_def
      by (subst parse_encode_query [where i = i])
        (simp_all add: krpc_lookup ok assms get20_def parse_announce_def ucast_u16_i64)
  qed
  ultimately show ?thesis by blast
qed

theorem query_roundtrip_witness:
  "parse_query (encode_announce_peer [1, 2] (NodeId (replicate 20 7)) (replicate 20 9) 6881 [3] True)
     = Inr (AnnouncePeer [1, 2] (NodeId (replicate 20 7)) (replicate 20 9) (Some 6881) True [3])"
  using query_roundtrip [of "[1, 2]" "NodeId (replicate 20 7)" "NodeId (replicate 20 7)" "replicate 20 9" "[3]" 6881 True]
  by (simp add: fits_len_def id_ok_def)

section \<open>Compact round trips\<close>

lemma chunks_exact_concat:
  assumes "0 < n" "\<And>x. x \<in> set xs \<Longrightarrow> length (f x) = n"
  shows "chunks_exact n (concat (map f xs)) = map f xs"
  using assms(2)
proof (induction xs)
  case Nil
  then show ?case using assms(1) by (subst chunks_exact.simps) simp
next
  case (Cons x xs)
  then show ?case using assms(1) by (subst chunks_exact.simps) simp
qed

lemma length_concat_same: "(\<And>x. x \<in> set xs \<Longrightarrow> length (f x) = n) \<Longrightarrow> length (concat (map f xs)) = n * length xs"
  by (induction xs) simp_all

text \<open>An address has the number of bytes its family has.\<close>

fun addr_ok :: "socket_addr \<Rightarrow> bool" where
  "addr_ok (V4 ip p) \<longleftrightarrow> length ip = 4"
| "addr_ok (V6 ip p) \<longleftrightarrow> length ip = 16"

definition entry_ok :: "node_entry \<Rightarrow> bool" where
  "entry_ok n \<longleftrightarrow> id_ok (ne_id n) \<and> addr_ok (ne_addr n)"

text \<open>What a reader of \<open>nodes\<close> sees of an entry: an IPv6 address has become the loopback address.\<close>

definition as_v4 :: "node_entry \<Rightarrow> node_entry" where
  "as_v4 n = (case ne_addr n of V4 ip p \<Rightarrow> n | V6 ip p \<Rightarrow> n\<lparr>ne_addr := V4 [127, 0, 0, 1] p\<rparr>)"

lemma length4: "length ip = 4 \<longleftrightarrow> (\<exists>a b c d. ip = [a, b, c, d])"
  by (auto simp: numeral_eq_Suc length_Suc_conv)

lemma nth_skip: "length xs = k \<Longrightarrow> k \<le> n \<Longrightarrow> (xs @ ys) ! n = ys ! (n - k)"
  by (simp add: nth_append)

lemma port_be: "u16_from_be (u16_to_be w ! 0) (u16_to_be w ! Suc 0) = w"
  using u16_from_to_be [of w] by simp

lemma u16_to_be_last: "xs = [] \<Longrightarrow> u16_to_be w @ xs = u16_to_be w" by simp

lemma concat_map_option: "concat (map (\<lambda>x. if P x then [] else [f x]) xs) = map f (filter (\<lambda>x. \<not> P x) xs)"
  by (induction xs) simp_all

lemma decode_encode_nodes:
  assumes "\<And>n. n \<in> set nodes \<Longrightarrow> entry_ok n"
  shows "decode_nodes_compact (encode_nodes_compact nodes)
      = map as_v4 (filter (\<lambda>n. addr_port (ne_addr n) \<noteq> 0) nodes)"
    and "length (encode_nodes_compact nodes) = 26 * length nodes"
proof -
  define f where "f n = id_bytes (ne_id n) @ (case ne_addr n of V4 ip p \<Rightarrow> ip | V6 ip p \<Rightarrow> [127, 0, 0, 1]) @
     u16_to_be (addr_port (ne_addr n))" for n :: node_entry
  have wire: "encode_nodes_compact nodes = concat (map f nodes)"
    by (simp add: encode_nodes_compact_def f_def [abs_def])
  have len: "length (f n) = 26" if "n \<in> set nodes" for n
    using assms [OF that] by (auto simp: f_def entry_ok_def id_ok_def split: socket_addr.split elim: addr_ok.elims)
  show "length (encode_nodes_compact nodes) = 26 * length nodes"
    using length_concat_same [of nodes f 26] len by (simp add: wire)
  let ?g = "\<lambda>c. let port = u16_from_be (c ! 24) (c ! 25)
     in if port = 0 then []
        else [\<lparr>ne_id = NodeId (take 20 c), ne_addr = V4 [c ! 20, c ! 21, c ! 22, c ! 23] port\<rparr>]"
  have g: "?g (f n) = (if addr_port (ne_addr n) = 0 then [] else [as_v4 n])" if n: "n \<in> set nodes" for n
  proof -
    have "length (id_bytes (ne_id n)) = 20" "addr_ok (ne_addr n)" using assms [OF n] by (auto simp: entry_ok_def id_ok_def)
    moreover obtain i a where n': "n = \<lparr>ne_id = i, ne_addr = a\<rparr>" by (cases n) blast
    ultimately show ?thesis
      by (cases a) (auto simp: f_def length4 nth_skip port_be as_v4_def Let_def)
  qed
  have "decode_nodes_compact (encode_nodes_compact nodes) = concat (map (?g \<circ> f) nodes)"
    using chunks_exact_concat [of 26 nodes f] len
    by (simp add: wire decode_nodes_compact_def)
  also have "\<dots> = concat (map (\<lambda>n. if addr_port (ne_addr n) = 0 then [] else [as_v4 n]) nodes)"
    using g by (intro arg_cong [where f = concat] map_cong) simp_all
  finally show "decode_nodes_compact (encode_nodes_compact nodes)
      = map as_v4 (filter (\<lambda>n. addr_port (ne_addr n) \<noteq> 0) nodes)"
    by (simp add: concat_map_option)
qed

lemma decode_encode_nodes6:
  assumes "\<And>n. n \<in> set nodes \<Longrightarrow> entry_ok n"
  shows "decode_nodes6_compact (encode_nodes6_compact nodes)
      = filter (\<lambda>n. \<not> is_ipv4 (ne_addr n) \<and> addr_port (ne_addr n) \<noteq> 0) nodes"
    and "length (encode_nodes6_compact nodes) = 38 * length (filter (\<lambda>n. \<not> is_ipv4 (ne_addr n)) nodes)"
proof -
  define f where "f n = id_bytes (ne_id n) @ (case ne_addr n of V4 ip p \<Rightarrow> ip | V6 ip p \<Rightarrow> ip) @
     u16_to_be (addr_port (ne_addr n))" for n :: node_entry
  define n6 where "n6 = filter (\<lambda>n. \<not> is_ipv4 (ne_addr n)) nodes"
  have wire: "encode_nodes6_compact nodes = concat (map f n6)"
    unfolding encode_nodes6_compact_def n6_def
    by (induction nodes) (auto simp: f_def split: socket_addr.split)
  have ok: "length (id_bytes (ne_id n)) = 20 \<and> addr_ok (ne_addr n) \<and> \<not> is_ipv4 (ne_addr n)" if "n \<in> set n6" for n
    using that assms [of n] by (auto simp: n6_def entry_ok_def id_ok_def)
  have len: "length (f n) = 38" if "n \<in> set n6" for n
    using ok [OF that] by (cases "ne_addr n") (simp_all add: f_def)
  show "length (encode_nodes6_compact nodes) = 38 * length (filter (\<lambda>n. \<not> is_ipv4 (ne_addr n)) nodes)"
    using length_concat_same [of n6 f 38] len by (simp add: wire n6_def)
  let ?g = "\<lambda>c. let port = u16_from_be (c ! 36) (c ! 37)
     in if port = 0 then []
        else [\<lparr>ne_id = NodeId (take 20 c), ne_addr = V6 (take 16 (drop 20 c)) port\<rparr>]"
  have g: "?g (f n) = (if addr_port (ne_addr n) = 0 then [] else [n])" if n: "n \<in> set n6" for n
  proof -
    obtain i a where n': "n = \<lparr>ne_id = i, ne_addr = a\<rparr>" by (cases n) blast
    with ok [OF n] show ?thesis by (cases a) (auto simp: f_def nth_skip port_be Let_def)
  qed
  have "decode_nodes6_compact (encode_nodes6_compact nodes) = concat (map (?g \<circ> f) n6)"
    using chunks_exact_concat [of 38 n6 f] len by (simp add: wire decode_nodes6_compact_def)
  also have "\<dots> = concat (map (\<lambda>n. if addr_port (ne_addr n) = 0 then [] else [n]) n6)"
    using g by (intro arg_cong [where f = concat] map_cong) simp_all
  finally show "decode_nodes6_compact (encode_nodes6_compact nodes)
      = filter (\<lambda>n. \<not> is_ipv4 (ne_addr n) \<and> addr_port (ne_addr n) \<noteq> 0) nodes"
    by (simp add: concat_map_option n6_def conj_commute)
qed

lemma from_compact6_encode:
  assumes "\<And>a. a \<in> set peers \<Longrightarrow> addr_ok a"
  shows "from_compact6 (encode_peers6_compact peers) = filter (\<lambda>a. \<not> is_ipv4 a \<and> addr_port a \<noteq> 0) peers"
    and "length (encode_peers6_compact peers) = 18 * length (filter (\<lambda>a. \<not> is_ipv4 a) peers)"
proof -
  define f where "f a = (case a of V4 ip p \<Rightarrow> ip | V6 ip p \<Rightarrow> ip) @ u16_to_be (addr_port a)" for a
  define p6 where "p6 = filter (\<lambda>a. \<not> is_ipv4 a) peers"
  have wire: "encode_peers6_compact peers = concat (map f p6)"
    unfolding encode_peers6_compact_def p6_def by (induction peers) (auto simp: f_def split: socket_addr.split)
  have ok: "addr_ok a \<and> \<not> is_ipv4 a" if "a \<in> set p6" for a using that assms [of a] by (auto simp: p6_def)
  have len: "length (f a) = 18" if "a \<in> set p6" for a using ok [OF that] by (cases a) (simp_all add: f_def)
  show "length (encode_peers6_compact peers) = 18 * length (filter (\<lambda>a. \<not> is_ipv4 a) peers)"
    using length_concat_same [of p6 f 18] len by (simp add: wire p6_def)
  let ?g = "\<lambda>c. let port = u16_from_be (c ! 16) (c ! 17) in if port = 0 then [] else [V6 (take 16 c) port]"
  have g: "?g (f a) = (if addr_port a = 0 then [] else [a])" if "a \<in> set p6" for a
    using ok [OF that] by (cases a) (auto simp: f_def nth_skip port_be Let_def)
  have "from_compact6 (encode_peers6_compact peers) = concat (map (?g \<circ> f) p6)"
    using chunks_exact_concat [of 18 p6 f] len by (simp add: wire from_compact6_def)
  also have "\<dots> = concat (map (\<lambda>a. if addr_port a = 0 then [] else [a]) p6)"
    using g by (intro arg_cong [where f = concat] map_cong) simp_all
  finally show "from_compact6 (encode_peers6_compact peers) = filter (\<lambda>a. \<not> is_ipv4 a \<and> addr_port a \<noteq> 0) peers"
    by (simp add: concat_map_option p6_def conj_commute)
qed

lemma from_compact_encode:
  assumes "addr_ok a" "is_ipv4 a"
  shows "from_compact (encode_compact a) = (if addr_port a = 0 then [] else [a])"
    and "length (encode_compact a) = 6"
proof -
  show len: "length (encode_compact a) = 6" using assms by (cases a) (simp_all add: encode_compact_def)
  have "chunks_exact 6 (encode_compact a) = [encode_compact a]"
    using chunks_exact_concat [of 6 "[encode_compact a]" "\<lambda>x. x"] len by simp
  then show "from_compact (encode_compact a) = (if addr_port a = 0 then [] else [a])"
    using assms by (cases a) (auto simp: from_compact_def encode_compact_def length4 port_be Let_def nth_Cons')
qed

section \<open>Responses on the wire\<close>

lemma response_args_reply:
  assumes "dict_ok 2 r" "fits_len tid" "map_of r (lit ''id'') = Some (VBytes (id_bytes i))" "id_ok i"
  shows "response_args msg (encode_reply tid r) t = (if t = tid then Inr (r, i) else Inl KTidMismatch)"
proof -
  define top where "top = bt_insert (lit ''r'') (VDict r)
    (bt_insert (lit ''y'') (VBytes (lit ''r'')) (bt_insert (lit ''t'') (VBytes tid) []))"
  have "dict_ok MAX_DEPTH top"
    unfolding top_def using wf_VDict [OF assms(1)] assms(2)
    by (intro dict_ok_insert dict_ok_Nil) (simp_all add: krpc_simps MAX_DEPTH_def)
  then have dec: "decode (encode_reply tid r) = Inr (VDict top)"
    unfolding encode_reply_def Let_def top_def [symmetric] by (rule decode_dict)
  have look: "map_of top (lit ''t'') = Some (VBytes tid)" "map_of top (lit ''y'') = Some (VBytes (lit ''r''))"
    "map_of top (lit ''r'') = Some (VDict r)"
    by (simp_all add: top_def krpc_lookup)
  have "get20 r (lit ''id'') = Inr (id_bytes i)" using assms(3,4) by (simp add: get20_def id_ok_def)
  moreover have "as_str (VBytes (lit ''r'')) = Some (lit ''r'')" by (rule as_str_lit) simp
  ultimately show ?thesis by (auto simp: response_args_def dec look lit_eq)
qed

lemma response_args_error:
  assumes "fits_len tid" "fits_len text"
  shows "response_args msg (encode_error tid code text) t =
    Inl (if t = tid then KRemote code (msg (VBytes text)) else KTidMismatch)"
proof -
  define top where "top = bt_insert (lit ''e'') (VList [VInt code, VBytes text])
    (bt_insert (lit ''y'') (VBytes (lit ''e'')) (bt_insert (lit ''t'') (VBytes tid) []))"
  have "wf_value (VList [VInt code, VBytes text])" using assms(2) by (simp add: wf_value.simps fits_len_def)
  then have "dict_ok MAX_DEPTH top"
    unfolding top_def using assms
    by (intro dict_ok_insert dict_ok_Nil) (simp_all add: krpc_simps MAX_DEPTH_def)
  then have dec: "decode (encode_error tid code text) = Inr (VDict top)"
    unfolding encode_error_def Let_def top_def [symmetric] by (rule decode_dict)
  have look: "map_of top (lit ''t'') = Some (VBytes tid)" "map_of top (lit ''y'') = Some (VBytes (lit ''e''))"
    "map_of top (lit ''e'') = Some (VList [VInt code, VBytes text])"
    by (simp_all add: top_def krpc_lookup)
  have "as_str (VBytes (lit ''e'')) = Some (lit ''e'')" by (rule as_str_lit) simp
  then show ?thesis by (auto simp: response_args_def dec look lit_eq remote_error_def)
qed

lemma encode_nodes_empty: "encode_nodes_compact [] = []" "decode_nodes_compact [] = []" "decode_nodes6_compact [] = []"
  by (simp_all add: encode_nodes_compact_def decode_nodes_compact_def decode_nodes6_compact_def chunks_exact.simps)

text \<open>Lists short enough that their compact forms have a length the code's \<open>usize\<close> can hold.\<close>

definition fits_count :: "'a list \<Rightarrow> bool" where
  "fits_count xs \<longleftrightarrow> length xs < 2 ^ 50"

lemma fits_count_len: "length b \<le> 38 * length xs \<Longrightarrow> fits_count xs \<Longrightarrow> fits_len b"
  by (simp add: fits_count_def fits_len_def)

text \<open>
  C36. A response read back by its parser gives the responder, the token and the entries that were
  put in. The entries of the second list are kept when they are IPv6. An entry of the first list is
  kept whatever its family, and when it is IPv6 it arrives under the loopback address: the code does
  not skip it, as its comment says. Entries with port 0 are dropped, and another transaction id is
  refused.
\<close>

theorem response_roundtrip:
  assumes "fits_len tid" "id_ok i" "\<And>t. token = Some t \<Longrightarrow> fits_len t"
    and "\<And>n. n \<in> set nodes \<Longrightarrow> entry_ok n" "\<And>n. n \<in> set nodes6 \<Longrightarrow> entry_ok n"
    and "fits_count nodes" "fits_count nodes6"
  shows "parse_response (encode_response_v6 tid i nodes nodes6 token) t =
    (if t = tid
     then Inr \<lparr>nr_responder = i,
               nr_nodes = map as_v4 (filter (\<lambda>n. addr_port (ne_addr n) \<noteq> 0) nodes)
                 @ filter (\<lambda>n. \<not> is_ipv4 (ne_addr n) \<and> addr_port (ne_addr n) \<noteq> 0) nodes6,
               nr_token = token\<rparr>
     else Inl KTidMismatch)"
proof -
  define c4 where "c4 = encode_nodes_compact nodes"
  define c6 where "c6 = encode_nodes6_compact nodes6"
  define r0 where "r0 = bt_insert (lit ''id'') (VBytes (id_bytes i)) []"
  define r1 where "r1 = (if nodes \<noteq> [] then bt_insert (lit ''nodes'') (VBytes c4) r0 else r0)"
  define r2 where "r2 = (if c6 \<noteq> [] then bt_insert (lit ''nodes6'') (VBytes c6) r1 else r1)"
  define r where "r = (case token of None \<Rightarrow> r2 | Some t \<Rightarrow> bt_insert (lit ''token'') (VBytes t) r2)"
  have "nodes6 = [] \<Longrightarrow> c6 = []" by (simp add: c6_def encode_nodes6_compact_def)
  then have enc: "encode_response_v6 tid i nodes nodes6 token = encode_reply tid r"
    unfolding encode_response_v6_def Let_def r_def r2_def r1_def r0_def c4_def [symmetric] c6_def [symmetric]
    by (cases "nodes6 = []") simp_all
  note d4 = decode_encode_nodes [of nodes, OF assms(4), folded c4_def]
  note d6 = decode_encode_nodes6 [of nodes6, OF assms(5), folded c6_def]
  have fits: "fits_len c4" "fits_len c6"
  proof -
    show "fits_len c4" by (rule fits_count_len [OF _ assms(6)]) (simp add: d4(2))
    show "fits_len c6"
      by (rule fits_count_len [OF _ assms(7)])
        (use d6(2) length_filter_le [of "\<lambda>n. \<not> is_ipv4 (ne_addr n)" nodes6] in linarith)
  qed
  have "dict_ok 2 r0" by (simp add: r0_def krpc_simps fits_id [OF assms(2)])
  then have "dict_ok 2 r1" by (simp add: r1_def krpc_simps fits)
  then have "dict_ok 2 r2" by (simp add: r2_def krpc_simps fits)
  then have ok: "dict_ok 2 r" using assms(3) by (auto simp: r_def krpc_simps split: option.split)
  have look0: "map_of r0 (lit ''id'') = Some (VBytes (id_bytes i))" "map_of r0 (lit ''nodes'') = None"
      "map_of r0 (lit ''nodes6'') = None" "map_of r0 (lit ''token'') = None"
    by (simp_all add: r0_def krpc_lookup)
  have look1: "map_of r1 (lit ''id'') = Some (VBytes (id_bytes i))"
      "map_of r1 (lit ''nodes'') = (if nodes = [] then None else Some (VBytes c4))"
      "map_of r1 (lit ''nodes6'') = None" "map_of r1 (lit ''token'') = None"
    by (simp_all add: r1_def look0 krpc_lookup)
  have look2: "map_of r2 (lit ''id'') = Some (VBytes (id_bytes i))"
      "map_of r2 (lit ''nodes'') = (if nodes = [] then None else Some (VBytes c4))"
      "map_of r2 (lit ''nodes6'') = (if c6 = [] then None else Some (VBytes c6))" "map_of r2 (lit ''token'') = None"
    by (simp_all add: r2_def look1 krpc_lookup)
  have look: "map_of r (lit ''id'') = Some (VBytes (id_bytes i))"
      "map_of r (lit ''nodes'') = (if nodes = [] then None else Some (VBytes c4))"
      "map_of r (lit ''nodes6'') = (if c6 = [] then None else Some (VBytes c6))"
      "map_of r (lit ''token'') = map_option VBytes token"
    by (simp_all add: r_def look2 krpc_lookup split: option.split)
  have "decode_nodes_field r = decode_nodes_compact c4 @ decode_nodes6_compact c6"
    using d4(2) by (auto simp: decode_nodes_field_def look encode_nodes_empty)
  moreover have "Option.bind (map_of r (lit ''token'')) as_bytes = token"
    by (cases token) (simp_all add: look)
  ultimately show ?thesis
    by (simp add: parse_response_def enc response_args_reply [OF ok assms(1) look(1) assms(2)] d4(1) d6(1))
qed

theorem response_roundtrip_witness:
  "parse_response (encode_response_v6 [1, 2] (NodeId (replicate 20 7))
      [\<lparr>ne_id = NodeId (replicate 20 1), ne_addr = V6 (replicate 16 9) 80\<rparr>]
      [\<lparr>ne_id = NodeId (replicate 20 2), ne_addr = V6 (replicate 16 9) 81\<rparr>] (Some [5])) [1, 2]
   = Inr \<lparr>nr_responder = NodeId (replicate 20 7),
          nr_nodes = [\<lparr>ne_id = NodeId (replicate 20 1), ne_addr = V4 [127, 0, 0, 1] 80\<rparr>,
                      \<lparr>ne_id = NodeId (replicate 20 2), ne_addr = V6 (replicate 16 9) 81\<rparr>],
          nr_token = Some [5]\<rparr>"
  by (subst response_roundtrip) (simp_all add: fits_len_def id_ok_def entry_ok_def fits_count_def as_v4_def)

text \<open>
  A get-peers response with peers read back by its parser gives the token and all the peers,
  the IPv4 ones first and then the IPv6 ones, each with its own address; peers with port 0 are
  dropped.
\<close>

theorem peers_roundtrip:
  assumes "fits_len tid" "id_ok i" "fits_len token" "fits_count peers"
    and "\<And>a. a \<in> set peers \<Longrightarrow> addr_ok a"
  shows "parse_get_peers_response (encode_get_peers_response_with_peers tid i peers token) t =
    (if t = tid
     then Inr \<lparr>gp_responder = i, gp_token = token,
               gp_peers = Some (filter (\<lambda>a. is_ipv4 a \<and> addr_port a \<noteq> 0) peers
                 @ filter (\<lambda>a. \<not> is_ipv4 a \<and> addr_port a \<noteq> 0) peers),
               gp_nodes = []\<rparr>
     else Inl KTidMismatch)"
proof -
  define vs where "vs = map (\<lambda>p. VBytes (encode_compact p)) (filter is_ipv4 peers)"
  define c6 where "c6 = encode_peers6_compact peers"
  define r0 where "r0 = bt_insert (lit ''values'') (VList vs) (bt_insert (lit ''id'') (VBytes (id_bytes i)) [])"
  define r1 where "r1 = (if c6 \<noteq> [] then bt_insert (lit ''peers6'') (VBytes c6) r0 else r0)"
  define r where "r = bt_insert (lit ''token'') (VBytes token) r1"
  have enc: "encode_get_peers_response_with_peers tid i peers token = encode_reply tid r"
    unfolding encode_get_peers_response_with_peers_def Let_def r_def r1_def r0_def vs_def c6_def by simp
  note d6 = from_compact6_encode [of peers, OF assms(5), folded c6_def]
  have "fits_len c6"
    by (rule fits_count_len [OF _ assms(4)])
      (use d6(2) length_filter_le [of "\<lambda>a. \<not> is_ipv4 a" peers] in linarith)
  moreover have "wf_value (VList vs) \<and> vdepth (VList vs) < 2"
  proof -
    have "length (encode_compact p) = 6" if "p \<in> set peers" "is_ipv4 p" for p
      using from_compact_encode(2) assms(5) that by blast
    moreover have "vdepth (VList vs) \<le> 1" unfolding vs_def by (induction peers) simp_all
    ultimately show ?thesis by (auto simp: vs_def list_all_iff wf_value.simps)
  qed
  ultimately have ok: "dict_ok 2 r"
    by (simp add: r_def r1_def r0_def krpc_simps fits_id [OF assms(2)] assms(3))
  have look0: "map_of r0 (lit ''id'') = Some (VBytes (id_bytes i))" "map_of r0 (lit ''values'') = Some (VList vs)"
      "map_of r0 (lit ''nodes'') = None" "map_of r0 (lit ''nodes6'') = None" "map_of r0 (lit ''peers6'') = None"
    by (simp_all add: r0_def krpc_lookup)
  have look: "map_of r (lit ''id'') = Some (VBytes (id_bytes i))" "map_of r (lit ''values'') = Some (VList vs)"
      "map_of r (lit ''nodes'') = None" "map_of r (lit ''nodes6'') = None"
      "map_of r (lit ''peers6'') = (if c6 = [] then None else Some (VBytes c6))"
      "map_of r (lit ''token'') = Some (VBytes token)"
    by (simp_all add: r_def r1_def look0 krpc_lookup)
  have "values_peers (Some (VList vs)) = Some (filter (\<lambda>a. is_ipv4 a \<and> addr_port a \<noteq> 0) peers)"
    using assms(5) unfolding vs_def values_peers_def
    by (induction peers) (simp_all add: from_compact_encode)
  moreover have "peers6_peers (map_of r (lit ''peers6'')) = from_compact6 c6"
    using d6(2) by (auto simp: look peers6_peers_def from_compact6_def chunks_exact.simps)
  moreover have "decode_nodes_field r = []" by (simp add: decode_nodes_field_def look)
  ultimately show ?thesis
    by (simp add: parse_get_peers_response_def enc response_args_reply [OF ok assms(1) look(1) assms(2)] look(2,6) d6(1) Let_def)
qed

theorem peers_roundtrip_witness:
  "parse_get_peers_response (encode_get_peers_response_with_peers [1, 2] (NodeId (replicate 20 7))
      [V6 (replicate 16 9) 80, V4 [1, 2, 3, 4] 81] [5]) [1, 2]
   = Inr \<lparr>gp_responder = NodeId (replicate 20 7), gp_token = [5],
          gp_peers = Some [V4 [1, 2, 3, 4] 81, V6 (replicate 16 9) 80], gp_nodes = []\<rparr>"
  by (subst peers_roundtrip) (auto simp: fits_len_def id_ok_def fits_count_def)

text \<open>
  An error reply reaches the caller of either response parser as the remote error with its code
  and text (UTF-8 texts, as every Rust string is), and never as an answer; with another transaction
  id it is refused before it is looked at.
\<close>

theorem error_reply:
  assumes "fits_len tid" "fits_len text" "utf8_valid text"
  shows "parse_response (encode_error tid code text) t
      = Inl (if t = tid then KRemote code text else KTidMismatch)
    \<and> parse_get_peers_response (encode_error tid code text) t
      = Inl (if t = tid then KRemote code text else KTidMismatch)"
proof -
  have "response_msg (VBytes text) = text" "get_peers_msg (VBytes text) = text"
    using assms(3) by (simp_all add: response_msg_def get_peers_msg_def as_str_def)
  then show ?thesis
    by (simp add: parse_response_def parse_get_peers_response_def response_args_error [OF assms(1,2)])
qed

theorem error_reply_witness:
  "parse_response (encode_error [1, 2] 201 (lit ''err'')) [1, 2] = Inl (KRemote 201 (lit ''err''))
    \<and> parse_get_peers_response (encode_error [1, 2] 201 (lit ''err'')) [9, 9] = Inl KTidMismatch"
  using error_reply [of "[1, 2]" "lit ''err''" 201 "[1, 2]"] error_reply [of "[1, 2]" "lit ''err''" 201 "[9, 9]"]
    utf8_lit [of "''err''"] by (simp add: fits_len_def lit_def)

end
