(* ===== verification/Piece_Track.thy ===== *)
theory Piece_Track
  imports Bitfields
begin

text \<open>
  \<open>PieceTrack\<close> of \<open>crates/xfer-http/src/split.rs\<close>: the live piece bitmap of an HTTP download, one
  byte counter per piece and the bits of the full ones. Offsets are naturals (\<open>u64\<close> in the code;
  \<open>offset + len\<close> saturates there and is cut to the total length at once, so the cut sum is the
  same). The atomics and the lock are plain fields: there is one writer.
\<close>

record piece_track =
  pt_total :: nat
  pt_piece_len :: nat
  pt_done :: "nat list"
  pt_bf :: bytes

definition pt_new :: "nat \<Rightarrow> nat \<Rightarrow> piece_track" where
  "pt_new tot piece_len =
     (let piece_len = max piece_len 1; n = div_ceil tot piece_len
      in \<lparr>pt_total = tot, pt_piece_len = piece_len, pt_done = replicate n 0,
          pt_bf = replicate (div_ceil n 8) 0\<rparr>)"

definition pt_num_pieces :: "piece_track \<Rightarrow> nat" where
  "pt_num_pieces t = length (pt_done t) mod 2 ^ 32"

definition pt_len_at :: "piece_track \<Rightarrow> nat \<Rightarrow> nat" where
  "pt_len_at t i = (let start = i * pt_piece_len t in min (start + pt_piece_len t) (pt_total t) - start)"

text \<open>
  The loop of \<open>add_range\<close>, over the piece numbers it walks through: it stops when the offset has
  reached the end.
\<close>

fun pt_add_loop :: "nat \<Rightarrow> nat \<Rightarrow> nat list \<Rightarrow> piece_track \<Rightarrow> piece_track" where
  "pt_add_loop offset end [] t = t"
| "pt_add_loop offset end (i # is) t =
     (if offset < end
      then let ps = i * pt_piece_len t; pe = ps + pt_len_at t i;
               lo = max offset ps; hi = min end pe;
               t' = (if lo < hi
                     then let d = pt_done t ! i + (hi - lo);
                              t1 = t\<lparr>pt_done := (pt_done t)[i := d]\<rparr>
                          in if pt_len_at t1 i \<le> d
                             then t1\<lparr>pt_bf := (pt_bf t1)[i div 8 := (pt_bf t1 ! (i div 8)) OR drop_bit (i mod 8) 0x80]\<rparr>
                             else t1
                     else t)
           in pt_add_loop hi end is t'
      else t)"

definition pt_add_range :: "nat \<Rightarrow> nat \<Rightarrow> piece_track \<Rightarrow> piece_track" where
  "pt_add_range offset len t =
     (if len = 0 \<or> pt_done t = [] then t
      else let end = min (offset + len) (pt_total t); offset = min offset end
           in pt_add_loop offset end [offset div pt_piece_len t..<length (pt_done t)] t)"

definition pt_bitfield :: "piece_track \<Rightarrow> bytes" where
  "pt_bitfield t = pt_bf t"

record piece_snapshot =
  sn_piece_len :: nat
  sn_num_pieces :: nat
  sn_bitfield :: bytes

definition pt_snapshot :: "piece_track \<Rightarrow> piece_snapshot" where
  "pt_snapshot t = \<lparr>sn_piece_len = pt_piece_len t, sn_num_pieces = pt_num_pieces t, sn_bitfield = pt_bitfield t\<rparr>"

definition pt_partial_bitfield :: "piece_track \<Rightarrow> bytes" where
  "pt_partial_bitfield t =
     fold (\<lambda>i bf. let d = pt_done t ! i
                  in if 0 < d \<and> d < pt_len_at t i
                     then bf[i div 8 := (bf ! (i div 8)) OR drop_bit (i mod 8) 0x80] else bf)
       [0..<length (pt_done t)] (replicate (div_ceil (length (pt_done t)) 8) 0)"

section \<open>What the map says\<close>

text \<open>The bytes of a piece.\<close>

definition piece_bytes :: "piece_track \<Rightarrow> nat \<Rightarrow> nat set" where
  "piece_bytes t i = {i * pt_piece_len t ..< min (Suc i * pt_piece_len t) (pt_total t)}"

text \<open>
  The map is exact for a set of stored byte positions: each counter is the number of stored bytes of
  its piece, and exactly the bits of the completely stored pieces are set.
\<close>

definition pt_exact :: "piece_track \<Rightarrow> nat set \<Rightarrow> bool" where
  "pt_exact t S \<longleftrightarrow> 0 < pt_piece_len t \<and>
     length (pt_done t) = div_ceil (pt_total t) (pt_piece_len t) \<and>
     length (pt_bf t) = div_ceil (length (pt_done t)) 8 \<and>
     (\<forall>i < length (pt_done t). pt_done t ! i = card (piece_bytes t i \<inter> S)) \<and>
     (\<forall>i. bits_get msb_pos (pt_bf t) i \<longleftrightarrow> i < length (pt_done t) \<and> piece_bytes t i \<subseteq> S)"

lemma card_piece_bytes: "card (piece_bytes t i) = pt_len_at t i"
  by (simp add: piece_bytes_def pt_len_at_def Let_def add.commute)

lemma finite_piece_bytes [simp]: "finite (piece_bytes t i)"
  by (simp add: piece_bytes_def)

lemma or_bit_get:
  assumes "i div 8 < length bf"
  shows "bits_get msb_pos (bf[i div 8 := (bf ! (i div 8)) OR drop_bit (i mod 8) 0x80]) j
    \<longleftrightarrow> j = i \<or> bits_get msb_pos bf j"
  using assms by (auto simp: bits_get_update [OF bit_perm_msb] bit_or_iff msb_bit)

lemma piece_bytes_less:
  assumes "0 < pt_piece_len t" "i < div_ceil (pt_total t) (pt_piece_len t)"
  shows "piece_bytes t i \<noteq> {}"
  using assms by (simp add: less_div_ceil piece_bytes_def mult.commute)

lemma pt_exact_new: "pt_exact (pt_new tot n) {}"
proof -
  have "piece_bytes (pt_new tot n) i \<noteq> {}" if "i < div_ceil tot (max n 1)" for i
    by (rule piece_bytes_less) (use that in \<open>simp_all add: pt_new_def Let_def\<close>)
  then show ?thesis by (auto simp: pt_exact_def pt_new_def Let_def)
qed

lemma pt_cong:
  "pt_piece_len t' = pt_piece_len t \<Longrightarrow> pt_total t' = pt_total t \<Longrightarrow> piece_bytes t' i = piece_bytes t i"
  "pt_piece_len t' = pt_piece_len t \<Longrightarrow> pt_total t' = pt_total t \<Longrightarrow> pt_len_at t' i = pt_len_at t i"
  by (simp_all add: piece_bytes_def pt_len_at_def)

text \<open>One turn of the loop stores the bytes \<open>{lo..<hi}\<close> of piece \<open>i\<close>.\<close>

lemma pt_exact_turn:
  assumes t: "pt_exact t S" and i: "i < length (pt_done t)" and lh: "lo < hi"
    and sub: "{lo..<hi} \<subseteq> piece_bytes t i" and disj: "{lo..<hi} \<inter> S = {}"
    and t1: "t1 = t\<lparr>pt_done := (pt_done t)[i := pt_done t ! i + (hi - lo)]\<rparr>"
  shows "pt_exact (if pt_len_at t1 i \<le> pt_done t ! i + (hi - lo)
      then t1\<lparr>pt_bf := (pt_bf t1)[i div 8 := (pt_bf t1 ! (i div 8)) OR drop_bit (i mod 8) 0x80]\<rparr>
      else t1) (S \<union> {lo..<hi})"
    (is "pt_exact ?t' ?S'")
proof -
  have t': "pt_piece_len ?t' = pt_piece_len t" "pt_total ?t' = pt_total t"
    "pt_done ?t' = (pt_done t)[i := pt_done t ! i + (hi - lo)]" "length (pt_bf ?t') = length (pt_bf t)"
    by (simp_all add: t1)
  note pb = pt_cong(1) [OF t'(1,2)]
  have other: "piece_bytes t j \<inter> {lo..<hi} = {}" if "j \<noteq> i" for j
  proof -
    have "piece_bytes t j \<inter> piece_bytes t i = {}"
    proof (cases "j < i")
      case True
      then have "Suc j * pt_piece_len t \<le> i * pt_piece_len t" by (intro mult_le_mono1) simp
      then show ?thesis by (auto simp: piece_bytes_def)
    next
      case False
      with that have "Suc i * pt_piece_len t \<le> j * pt_piece_len t" by (intro mult_le_mono1) simp
      then show ?thesis by (auto simp: piece_bytes_def)
    qed
    with sub show ?thesis by blast
  qed
  have card_i: "card (piece_bytes t i \<inter> ?S') = pt_done t ! i + (hi - lo)"
  proof -
    have "piece_bytes t i \<inter> ?S' = (piece_bytes t i \<inter> S) \<union> {lo..<hi}" using sub by blast
    then have "card (piece_bytes t i \<inter> ?S') = card (piece_bytes t i \<inter> S) + card {lo..<hi}"
      by (simp only:) (rule card_Un_disjoint, use disj in auto)
    with t i show ?thesis by (simp add: pt_exact_def)
  qed
  have full: "pt_len_at t i \<le> pt_done t ! i + (hi - lo) \<longleftrightarrow> piece_bytes t i \<subseteq> ?S'"
  proof
    assume "pt_len_at t i \<le> pt_done t ! i + (hi - lo)"
    then have "card (piece_bytes t i) \<le> card (piece_bytes t i \<inter> ?S')" by (simp add: card_i card_piece_bytes)
    then have "piece_bytes t i \<inter> ?S' = piece_bytes t i" 
      by (intro card_subset_eq [OF finite_piece_bytes] le_antisym [OF card_mono [OF finite_piece_bytes]]) simp_all
    then show "piece_bytes t i \<subseteq> ?S'" by blast
  next
    assume "piece_bytes t i \<subseteq> ?S'"
    then have "piece_bytes t i \<inter> ?S' = piece_bytes t i" by blast
    then show "pt_len_at t i \<le> pt_done t ! i + (hi - lo)" by (metis card_i card_piece_bytes le_refl)
  qed
  have counts: "pt_done ?t' ! j = card (piece_bytes t j \<inter> ?S')" if "j < length (pt_done t)" for j
    unfolding t'(3) using that t card_i other [of j]
    by (cases "j = i") (simp_all add: pt_exact_def Int_Un_distrib)
  have idx: "i div 8 < length (pt_bf t)" using t i by (simp add: pt_exact_def div_ceil_8_index)
  have bits: "bits_get msb_pos (pt_bf ?t') j \<longleftrightarrow> j < length (pt_done t) \<and> piece_bytes t j \<subseteq> ?S'" for j
  proof (cases "j = i")
    case True
    have "bits_get msb_pos (pt_bf t) i \<longleftrightarrow> piece_bytes t i \<subseteq> S" using t i by (simp add: pt_exact_def)
    moreover have "pt_len_at t1 i = pt_len_at t i" by (rule pt_cong(2)) (simp_all add: t1)
    moreover have "lo \<in> piece_bytes t i" "lo \<notin> S" using lh sub disj by auto
    then have "\<not> piece_bytes t i \<subseteq> S" by blast
    ultimately show ?thesis
      using True i full or_bit_get [OF idx, of i] by (simp add: t1)
  next
    case False
    with other [of j] t show ?thesis
      using or_bit_get [OF idx, of j] by (auto simp: t1 pt_exact_def)
  qed
  show ?thesis unfolding pt_exact_def using t counts bits by (simp add: t' pb) (simp add: pt_exact_def)
qed

lemma pt_add_loop_exact:
  assumes "pt_exact t S" "n = length (pt_done t)"
    "offset < end \<Longrightarrow> i * pt_piece_len t \<le> offset \<and> offset < Suc i * pt_piece_len t"
    "end \<le> pt_total t" "{offset..<end} \<inter> S = {}"
  shows "pt_exact (pt_add_loop offset end [i..<n] t) (S \<union> {offset..<end}) \<and>
    pt_total (pt_add_loop offset end [i..<n] t) = pt_total t"
  using assms
proof (induction "n - i" arbitrary: i offset t S)
  case 0
  have "\<not> offset < end"
  proof
    assume lt: "offset < end"
    have "div_ceil (pt_total t) (pt_piece_len t) \<le> i" using 0 by (simp add: pt_exact_def)
    then have "pt_total t \<le> pt_piece_len t * i" using 0(2) by (simp add: pt_exact_def div_ceil_le)
    then show False using 0(4) [OF lt] 0(5) lt by (simp add: mult.commute)
  qed
  then have loop: "pt_add_loop offset end [i..<n] t = t"
    by (cases "[i..<n]") (simp_all del: upt_eq_Nil_conv)
  have "pt_exact t (S \<union> {offset..<end})" using \<open>\<not> offset < end\<close> 0(2) by simp
  then show ?case unfolding loop by simp
next
  case (Suc x)
  then have i: "i < n" "[i..<n] = i # [Suc i..<n]" by (simp_all add: upt_rec)
  show ?case
  proof (cases "offset < end")
    case False
    then show ?thesis unfolding i(2) using Suc.prems(1) by simp
  next
    case True
    let ?ps = "i * pt_piece_len t"
    let ?pe = "?ps + pt_len_at t i"
    have pe: "?pe = min (Suc i * pt_piece_len t) (pt_total t)"
      using Suc.prems(3) [OF True] Suc.prems(4) True by (auto simp: pt_len_at_def Let_def)
    let ?hi = "min end ?pe"
    define t1 where "t1 = t\<lparr>pt_done := (pt_done t)[i := pt_done t ! i + (?hi - offset)]\<rparr>"
    define t2 where "t2 = (if pt_len_at t1 i \<le> pt_done t ! i + (?hi - offset)
      then t1\<lparr>pt_bf := (pt_bf t1)[i div 8 := (pt_bf t1 ! (i div 8)) OR drop_bit (i mod 8) 0x80]\<rparr>
      else t1)"
    have lo: "max offset ?ps = offset" "offset < ?hi" "?hi \<le> end"
      using Suc.prems(3) [OF True] Suc.prems(4) True by (simp_all add: pe)
    have step: "pt_add_loop offset end [i..<n] t = pt_add_loop ?hi end [Suc i..<n] t2"
      by (simp only: i(2) pt_add_loop.simps Let_def True lo(1,2) if_True t2_def t1_def)
    have t2: "pt_piece_len t2 = pt_piece_len t" "pt_total t2 = pt_total t" "length (pt_done t2) = length (pt_done t)"
      by (simp_all add: t2_def t1_def)
    have ex: "pt_exact t2 (S \<union> {offset..<?hi})"
      unfolding t2_def
    proof (rule pt_exact_turn [OF Suc.prems(1) _ lo(2) _ _ t1_def])
      show "i < length (pt_done t)" using i(1) Suc.prems(2) by simp
      show "{offset..<?hi} \<subseteq> piece_bytes t i"
        using Suc.prems(3) [OF True] by (auto simp: piece_bytes_def pe)
      show "{offset..<?hi} \<inter> S = {}" using Suc.prems(5) lo(3) by auto
    qed
    have "pt_exact (pt_add_loop ?hi end [Suc i..<n] t2) ((S \<union> {offset..<?hi}) \<union> {?hi..<end}) \<and>
        pt_total (pt_add_loop ?hi end [Suc i..<n] t2) = pt_total t2"
    proof (rule Suc.hyps(1))
      show "x = n - Suc i" using Suc.hyps(2) by simp
      show "pt_exact t2 (S \<union> {offset..<?hi})" by (rule ex)
      show "n = length (pt_done t2)" using Suc.prems(2) t2 by simp
      show "end \<le> pt_total t2" using Suc.prems(4) t2 by simp
      have "{?hi..<end} \<subseteq> {offset..<end}" "{?hi..<end} \<inter> {offset..<?hi} = {}" using lo(2) by auto
      then show "{?hi..<end} \<inter> (S \<union> {offset..<?hi}) = {}" using Suc.prems(5) by blast
      assume "?hi < end"
      then have "?hi = Suc i * pt_piece_len t" using Suc.prems(4) by (auto simp: pe)
      moreover have "0 < pt_piece_len t" using Suc.prems(1) by (simp add: pt_exact_def)
      ultimately show "Suc i * pt_piece_len t2 \<le> ?hi \<and> ?hi < Suc (Suc i) * pt_piece_len t2"
        unfolding t2 by simp
    qed
    moreover have "(S \<union> {offset..<?hi}) \<union> {?hi..<end} = S \<union> {offset..<end}" using lo by auto
    ultimately show ?thesis using step t2 by simp
  qed
qed

lemma pt_add_range_exact:
  assumes "pt_exact t S" "{offset..<offset + len} \<inter> S = {}" "S \<subseteq> {..<pt_total t}"
  shows "pt_exact (pt_add_range offset len t) (S \<union> {offset..<min (offset + len) (pt_total t)}) \<and>
    pt_total (pt_add_range offset len t) = pt_total t"
proof (cases "len = 0 \<or> pt_done t = []")
  case True
  have "pt_total t = 0" if "pt_done t = []"
    using that assms(1) less_div_ceil [of "pt_piece_len t" 0 "pt_total t"] by (auto simp: pt_exact_def)
  with True have "{offset..<min (offset + len) (pt_total t)} = {}" by auto
  with assms(1) have "pt_exact t (S \<union> {offset..<min (offset + len) (pt_total t)})" by (simp only: Un_empty_right)
  with True show ?thesis by (simp add: pt_add_range_def)
next
  case False
  define e where "e = min (offset + len) (pt_total t)"
  define off where "off = min offset e"
  have "pt_exact (pt_add_loop off e [off div pt_piece_len t..<length (pt_done t)] t) (S \<union> {off..<e}) \<and>
    pt_total (pt_add_loop off e [off div pt_piece_len t..<length (pt_done t)] t) = pt_total t"
  proof (rule pt_add_loop_exact [OF assms(1) refl])
    show "e \<le> pt_total t" by (simp add: e_def)
    have "{off..<e} \<subseteq> {offset..<offset + len}" by (auto simp: off_def e_def)
    then show "{off..<e} \<inter> S = {}" using assms(2) by blast
    have "0 < pt_piece_len t" using assms(1) by (simp add: pt_exact_def)
    then show "off div pt_piece_len t * pt_piece_len t \<le> off \<and> off < Suc (off div pt_piece_len t) * pt_piece_len t"
      by (simp add: dividend_less_div_times)
  qed
  moreover have "{off..<e} = {offset..<e}" by (auto simp: off_def)
  ultimately show ?thesis using False by (simp add: pt_add_range_def Let_def e_def off_def)
qed

text \<open>Adding disjoint ranges one after the other.\<close>

fun add_ranges :: "(nat \<times> nat) list \<Rightarrow> piece_track \<Rightarrow> piece_track" where
  "add_ranges [] t = t"
| "add_ranges ((off, len) # rs) t = add_ranges rs (pt_add_range off len t)"

fun range_bytes :: "(nat \<times> nat) list \<Rightarrow> nat set" where
  "range_bytes [] = {}"
| "range_bytes ((off, len) # rs) = {off..<off + len} \<union> range_bytes rs"

fun ranges_disjoint :: "(nat \<times> nat) list \<Rightarrow> bool" where
  "ranges_disjoint [] = True"
| "ranges_disjoint ((off, len) # rs) \<longleftrightarrow> {off..<off + len} \<inter> range_bytes rs = {} \<and> ranges_disjoint rs"

lemma pt_piece_len_loop: "pt_piece_len (pt_add_loop offset end is t) = pt_piece_len t"
  by (induction offset "end" "is" t rule: pt_add_loop.induct) (simp_all add: Let_def)

lemma pt_piece_len_add_ranges: "pt_piece_len (add_ranges rs t) = pt_piece_len t"
  by (induction rs t rule: add_ranges.induct) (simp_all add: pt_add_range_def Let_def pt_piece_len_loop)

lemma add_ranges_exact:
  assumes "pt_exact t S" "S \<subseteq> {..<pt_total t}" "ranges_disjoint rs" "range_bytes rs \<inter> S = {}"
  shows "pt_exact (add_ranges rs t) (S \<union> (range_bytes rs \<inter> {..<pt_total t})) \<and> pt_total (add_ranges rs t) = pt_total t"
  using assms
proof (induction rs arbitrary: t S)
  case Nil
  then show ?case by simp
next
  case (Cons r rs)
  obtain off len where r: "r = (off, len)" by force
  let ?S = "S \<union> {off..<min (off + len) (pt_total t)}"
  have t: "pt_exact (pt_add_range off len t) ?S" "pt_total (pt_add_range off len t) = pt_total t"
    using pt_add_range_exact [OF Cons.prems(1) _ Cons.prems(2), of off len] Cons.prems(4) r by auto
  have "pt_exact (add_ranges rs (pt_add_range off len t)) (?S \<union> (range_bytes rs \<inter> {..<pt_total (pt_add_range off len t)})) \<and>
    pt_total (add_ranges rs (pt_add_range off len t)) = pt_total (pt_add_range off len t)"
    using Cons.prems r by (intro Cons.IH [OF t(1)]) (auto simp: t(2))
  moreover have "?S \<union> (range_bytes rs \<inter> {..<pt_total t}) = S \<union> (range_bytes (r # rs) \<inter> {..<pt_total t})"
    by (auto simp: r)
  ultimately show ?case by (simp add: r t(2))
qed

lemma fold_or_bits:
  assumes "\<forall>i \<in> set is. i div 8 < length bf"
  shows "length (fold (\<lambda>i bf. if P i then bf[i div 8 := (bf ! (i div 8)) OR drop_bit (i mod 8) 0x80] else bf) is bf) = length bf \<and>
    (\<forall>j. bits_get msb_pos (fold (\<lambda>i bf. if P i then bf[i div 8 := (bf ! (i div 8)) OR drop_bit (i mod 8) 0x80] else bf) is bf) j
      \<longleftrightarrow> j \<in> set is \<and> P j \<or> bits_get msb_pos bf j)"
  using assms
proof (induction "is" arbitrary: bf)
  case Nil
  then show ?case by simp
next
  case (Cons i "is")
  show ?case
  proof (cases "P i")
    case False
    with Cons show ?thesis by auto
  next
    case True
    have i: "i div 8 < length bf" using Cons.prems by simp
    show ?thesis
      using Cons.IH [of "bf[i div 8 := (bf ! (i div 8)) OR drop_bit (i mod 8) 0x80]"] Cons.prems True
      by (auto simp: or_bit_get [OF i])
  qed
qed

lemma partial_bit:
  assumes "pt_exact t S"
  shows "bits_get msb_pos (pt_partial_bitfield t) i \<longleftrightarrow>
    i < length (pt_done t) \<and> piece_bytes t i \<inter> S \<noteq> {} \<and> \<not> piece_bytes t i \<subseteq> S"
proof -
  have "0 < pt_done t ! i \<and> pt_done t ! i < pt_len_at t i \<longleftrightarrow> piece_bytes t i \<inter> S \<noteq> {} \<and> \<not> piece_bytes t i \<subseteq> S"
    if "i < length (pt_done t)"
  proof -
    have d: "pt_done t ! i = card (piece_bytes t i \<inter> S)" using assms that by (simp add: pt_exact_def)
    have "card (piece_bytes t i \<inter> S) < card (piece_bytes t i) \<longleftrightarrow> \<not> piece_bytes t i \<subseteq> S"
    proof
      assume "\<not> piece_bytes t i \<subseteq> S"
      then show "card (piece_bytes t i \<inter> S) < card (piece_bytes t i)" by (intro psubset_card_mono) auto
    qed (auto simp: Int_absorb2)
    then show ?thesis by (simp add: d card_piece_bytes card_gt_0_iff)
  qed
  then show ?thesis
    using fold_or_bits [of "[0..<length (pt_done t)]" "replicate (div_ceil (length (pt_done t)) 8) 0"
        "\<lambda>i. 0 < pt_done t ! i \<and> pt_done t ! i < pt_len_at t i"]
    by (auto simp: pt_partial_bitfield_def Let_def div_ceil_8_index)
qed

text \<open>
  The live bitmap is exact. After any disjoint stored ranges were recorded in a fresh map, bit
  \<open>i\<close> of the bitfield is set exactly when every byte of piece \<open>i\<close> is stored, bit \<open>i\<close> of the partial
  bitfield exactly when some but not all are, and the two never have a bit in common.
\<close>

theorem piece_track_exact:
  assumes "ranges_disjoint rs"
  shows "(bits_get msb_pos (pt_bitfield (add_ranges rs (pt_new tot n))) i \<longleftrightarrow>
      i < div_ceil tot (max n 1) \<and> {i * max n 1 ..< min (Suc i * max n 1) tot} \<subseteq> range_bytes rs) \<and>
    (bits_get msb_pos (pt_partial_bitfield (add_ranges rs (pt_new tot n))) i \<longleftrightarrow>
      i < div_ceil tot (max n 1) \<and>
      {i * max n 1 ..< min (Suc i * max n 1) tot} \<inter> range_bytes rs \<noteq> {} \<and>
      \<not> {i * max n 1 ..< min (Suc i * max n 1) tot} \<subseteq> range_bytes rs)"
proof -
  let ?t = "add_ranges rs (pt_new tot n)"
  let ?R = "range_bytes rs \<inter> {..<tot}"
  have tot: "pt_total (pt_new tot n) = tot" by (simp add: pt_new_def Let_def)
  have ex: "pt_exact ?t ?R" "pt_total ?t = tot"
    using add_ranges_exact [OF pt_exact_new [of tot n] _ assms] by (simp_all add: tot)
  have pl: "pt_piece_len ?t = max n 1" by (simp add: pt_piece_len_add_ranges pt_new_def Let_def)
  have pb: "piece_bytes ?t i = {i * max n 1 ..< min (Suc i * max n 1) tot}" by (simp add: piece_bytes_def pl ex(2))
  have len: "length (pt_done ?t) = div_ceil tot (max n 1)" using ex by (simp add: pt_exact_def pl)
  have sub: "{i * max n 1 ..< min (Suc i * max n 1) tot} \<subseteq> {..<tot}" by auto
  have "bits_get msb_pos (pt_bitfield ?t) i \<longleftrightarrow> i < div_ceil tot (max n 1) \<and> piece_bytes ?t i \<subseteq> ?R"
    using ex(1) by (simp add: pt_exact_def pt_bitfield_def len)
  moreover note partial_bit [OF ex(1), of i]
  ultimately show ?thesis using sub unfolding pb len by blast
qed

theorem piece_track_exact_witness:
  "bits_get msb_pos (pt_bitfield (add_ranges [(4, 3), (0, 4)] (pt_new 10 4))) 0
    \<and> bits_get msb_pos (pt_partial_bitfield (add_ranges [(4, 3), (0, 4)] (pt_new 10 4))) 1
    \<and> \<not> bits_get msb_pos (pt_bitfield (add_ranges [(4, 3), (0, 4)] (pt_new 10 4))) 1"
proof -
  have d: "ranges_disjoint [(4, 3), (0, 4)]" by auto
  have "4 \<in> {4..<8} \<inter> ({4..<7} \<union> {0..<4 :: nat})" "7 \<in> {4..<8} - ({4..<7} \<union> {0..<4 :: nat})" by simp_all
  then have "{4..<8} \<inter> ({4..<7} \<union> {0..<4 :: nat}) \<noteq> {}" "\<not> {4..<8} \<subseteq> {4..<7} \<union> {0..<4 :: nat}" by blast+
  then show ?thesis
    using piece_track_exact [OF d, of 10 4 0] piece_track_exact [OF d, of 10 4 1]
    by (simp add: div_ceil_def del: add_ranges.simps)
qed

end
