(* ===== verification/Http_Error.thy ===== *)
theory Http_Error
  imports Xfer_Prelude
begin

text \<open>
  The errors of the HTTP downloads, \<open>HttpError\<close> of \<open>crates/xfer-http/src/lib.rs\<close>, without their
  messages: which are worth a retry, and the task error codes.
\<close>

datatype http_error =
    HttpConnect
  | HttpTimeout
  | HttpStatus nat
  | HttpProtocol
  | ShortRead
  | NotSplittable
  | NotPlaylist
  | NotFlv
  | HttpIo
  | HttpCancelled

fun is_retryable :: "http_error \<Rightarrow> bool" where
  "is_retryable HttpTimeout = True"
| "is_retryable HttpConnect = True"
| "is_retryable HttpProtocol = True"
| "is_retryable ShortRead = True"
| "is_retryable (HttpStatus code) = (500 \<le> code)"
| "is_retryable _ = False"

fun is_retryable_segment :: "http_error \<Rightarrow> bool" where
  "is_retryable_segment (HttpStatus code) = (code = 408 \<or> code = 425 \<or> code = 429 \<or> 500 \<le> code)"
| "is_retryable_segment other = is_retryable other"

fun error_code :: "http_error \<Rightarrow> int" where
  "error_code HttpTimeout = 2"
| "error_code (HttpStatus _) = 3"
| "error_code HttpIo = 1"
| "error_code HttpCancelled = 0"
| "error_code _ = 5"

lemma retryable_segment: "is_retryable e \<Longrightarrow> is_retryable_segment e"
  by (cases e) simp_all

end
