(* ===== verification/Split_Writer.thy ===== *)
theory Split_Writer
  imports Piece_Track Disk_File Http_Error
begin

text \<open>
  The multi-connection HTTP download of \<open>crates/xfer-http/src/split.rs\<close>: the writer thread, which
  owns the segment table, the work queue, the data file and the control file, and the worker's pump.

  Byte counts and offsets (\<open>u64\<close>) and indices are naturals: the invariant of \<open>Split_Proofs\<close> keeps
  all of them at most the total length. An \<open>Instant\<close> is a number of milliseconds, passed to the
  operations that read the clock. A segment's shared end point always has the value of its \<open>end\<close>
  field and is left out; so is the slot the fatal error is copied to. The data file has its content
  and the content known to be durable; the control file is its parsed form (JSON is
  \<open>serde_json\<close>'s), replaced atomically by \<open>write_ctrl_atomic\<close>. Outcomes of I/O calls are arguments.
\<close>

section \<open>Constants\<close>

definition MAX_FAILURES :: nat where "MAX_FAILURES = 4"
definition MAX_SHORT_READS :: nat where "MAX_SHORT_READS = 8"
definition PARK_MS :: nat where "PARK_MS = 250"
definition ENDGAME_THRESHOLD :: nat where "ENDGAME_THRESHOLD = 64 * 1024 * 1024"
definition ENDGAME_MIN_SPLIT :: nat where "ENDGAME_MIN_SPLIT = 64 * 1024"
definition SEG_LEASE :: nat where "SEG_LEASE = 4000"
definition HANDOFF_WHOLE_MAX :: nat where "HANDOFF_WHOLE_MAX = 4 * 1024 * 1024"
definition HANDOFF_MIN :: nat where "HANDOFF_MIN = 32 * 1024"
definition STALL_TIMEOUT :: nat where "STALL_TIMEOUT = 15000"
definition CTRL_SAVE_INTERVAL :: nat where "CTRL_SAVE_INTERVAL = 1000"

section \<open>State\<close>

text \<open>The adaptive configuration enters through its \<open>max_connections\<close> only.\<close>

record split_options =
  so_connections :: nat
  so_min_split_size :: nat
  so_adaptive :: "nat option"

record seg =
  sg_start :: nat
  sg_end :: nat
  sg_written :: nat
  sg_done :: bool
  sg_queued :: bool
  sg_holders :: nat
  sg_last_progress :: nat

record ctrl_seg =
  cs_s :: nat
  cs_w :: nat
  cs_e :: nat

record split_ctrl =
  sc_v :: nat
  sc_total :: nat
  sc_base :: nat
  sc_url :: string
  sc_segs :: "ctrl_seg list"

text \<open>
  \<open>w_slot\<close> is the buffered job of the sync thread's channel, \<open>w_sync\<close> the job it works on and
  whether the data file has been synced for it.
\<close>

record writer =
  w_file :: bytes
  w_durable :: bytes
  w_ctrl :: "split_ctrl option"
  w_url :: string
  w_total :: nat
  w_base :: nat
  w_segs :: "seg list"
  w_queue :: "nat list"
  w_todo :: nat
  w_alive :: nat
  w_fatal :: "http_error option"
  w_finished :: bool
  w_completed :: nat
  w_notified :: bool
  w_last_save :: nat
  w_opts :: split_options
  w_desired :: nat
  w_last_progress :: nat
  w_slot :: "split_ctrl option"
  w_sync :: "(split_ctrl \<times> bool) option"
  w_pieces :: "piece_track option"

section \<open>Starting and resuming\<close>

text \<open>The loop of the tiling check: the position after the last segment, if they follow each other.\<close>

fun tile_cursor :: "nat \<Rightarrow> ctrl_seg list \<Rightarrow> nat option" where
  "tile_cursor cursor [] = Some cursor"
| "tile_cursor cursor (s # ss) =
     (if cs_s s \<noteq> cursor \<or> cs_e s \<le> cs_s s then None else tile_cursor (cs_e s) ss)"

definition usable_ctrl :: "nat \<Rightarrow> nat \<Rightarrow> split_ctrl option \<Rightarrow> (nat \<times> ctrl_seg list) option" where
  "usable_ctrl tot file_len cf =
     (case cf of
        None \<Rightarrow> None
      | Some c \<Rightarrow>
          if sc_v c \<noteq> 1 then None
          else if sc_total c \<noteq> tot then None
          else if \<not> list_all (\<lambda>s. cs_w s = 0 \<or> cs_s s + cs_w s \<le> file_len) (sc_segs c) then None
          else let table = sort_key cs_s (filter (\<lambda>s. cs_s s < cs_e s) (sc_segs c));
                   cursor = min (sc_base c) tot;
                   tiled = (table \<noteq> [] \<and> tile_cursor cursor table = Some tot)
               in if \<not> tiled then None else Some (min (sc_base c) tot, table))"

definition resumed_seg :: "nat \<Rightarrow> ctrl_seg \<Rightarrow> seg" where
  "resumed_seg now s =
     (let len = cs_e s - cs_s s; written = min (cs_w s) len; is_done = len \<le> written
      in \<lparr>sg_start = cs_s s, sg_end = cs_e s, sg_written = written, sg_done = is_done,
          sg_queued = \<not> is_done, sg_holders = 0, sg_last_progress = now\<rparr>)"

fun fresh_segs :: "nat \<Rightarrow> nat \<Rightarrow> nat \<Rightarrow> nat \<Rightarrow> nat \<Rightarrow> nat list \<Rightarrow> seg list" where
  "fresh_segs now base remain nseg prev [] = []"
| "fresh_segs now base remain nseg prev (i # is) =
     (let end = base + remain * i div nseg
      in \<lparr>sg_start = prev, sg_end = end, sg_written = 0, sg_done = False, sg_queued = True,
          sg_holders = 0, sg_last_progress = now\<rparr> # fresh_segs now base remain nseg end is)"

definition initial_nseg :: "split_options \<Rightarrow> nat \<Rightarrow> nat" where
  "initial_nseg opts remain =
     (let workers = max (so_connections opts) 1;
          by_min = max (div_ceil remain (so_min_split_size opts)) 1
      in min (max by_min 1) (workers * 2))"

definition seg_remaining :: "seg \<Rightarrow> nat" where
  "seg_remaining s = sg_end s - sg_start s - sg_written s"

definition rebuild_queue :: "seg list \<Rightarrow> nat list" where
  "rebuild_queue segs = filter (\<lambda>i. sg_queued (segs ! i) \<and> \<not> sg_done (segs ! i)) [0..<length segs]"

definition prefill :: "nat \<Rightarrow> seg list \<Rightarrow> piece_track \<Rightarrow> piece_track" where
  "prefill base segs p =
     fold (\<lambda>s p. if 0 < sg_written s then pt_add_range (sg_start s) (sg_written s) p else p) segs
       (if 0 < base then pt_add_range 0 base p else p)"

datatype boot_error = BootIo | BootPanic

definition boot_writer :: "nat \<Rightarrow> bytes \<Rightarrow> split_ctrl option \<Rightarrow> string \<Rightarrow> nat \<Rightarrow> split_options \<Rightarrow>
    piece_track option \<Rightarrow> nat \<Rightarrow> seg list \<Rightarrow> writer" where
  "boot_writer now file cf url tot opts pieces base segs =
     (let todo = sum_list (map seg_remaining segs)
      in \<lparr>w_file = file, w_durable = file, w_ctrl = cf, w_url = url, w_total = tot, w_base = base,
          w_segs = segs, w_queue = rebuild_queue segs, w_todo = todo, w_alive = 0, w_fatal = None,
          w_finished = (todo = 0), w_completed = base + (tot - base - todo), w_notified = False,
          w_last_save = now - CTRL_SAVE_INTERVAL, w_opts = opts, w_desired = 0, w_last_progress = now,
          w_slot = None, w_sync = None, w_pieces = map_option (prefill base segs) pieces\<rparr>)"

text \<open>
  \<open>Writer::bootstrap\<close> on the opened file: \<open>div_ceil\<close> by a zero split size panics; \<open>len_ok\<close> is the
  outcome of \<open>set_len\<close>.
\<close>

definition bootstrap :: "nat \<Rightarrow> bytes \<Rightarrow> split_ctrl option \<Rightarrow> string \<Rightarrow> nat \<Rightarrow> split_options \<Rightarrow>
    piece_track option \<Rightarrow> bool \<Rightarrow> boot_error + writer" where
  "bootstrap now file cf url tot opts pieces len_ok =
     (case usable_ctrl tot (length file) cf of
        Some (base, table) \<Rightarrow>
          Inr (boot_writer now file cf url tot opts pieces base (map (resumed_seg now) table))
      | None \<Rightarrow>
          let base = min (length file) tot; remain = tot - base
          in if 0 < remain \<and> so_min_split_size opts = 0 then Inl BootPanic
             else
               let nseg = initial_nseg opts remain;
                   segs = (if 0 < remain then fresh_segs now base remain nseg base [1..<Suc nseg] else [])
               in if tot < length file
                  then (if len_ok
                        then Inr (boot_writer now (set_len tot file) cf url tot opts pieces base segs)
                        else Inl BootIo)
                  else Inr (boot_writer now file cf url tot opts pieces base segs))"

definition spawn_count :: "writer \<Rightarrow> nat" where
  "spawn_count w = min (max (so_connections (w_opts w)) 1) (max (length (w_segs w)) 1)"

section \<open>Writing\<close>

definition set_fatal :: "http_error \<Rightarrow> writer \<Rightarrow> writer" where
  "set_fatal err w = (if w_fatal w = None then w\<lparr>w_fatal := Some err, w_notified := True\<rparr> else w)"

text \<open>\<open>fault\<close>: \<open>Some k\<close> when the write call fails after \<open>k\<close> bytes.\<close>

definition on_write :: "nat \<Rightarrow> nat \<Rightarrow> nat \<Rightarrow> bytes \<Rightarrow> nat option \<Rightarrow> writer \<Rightarrow> writer" where
  "on_write now sid offset data fault w =
     (if w_fatal w \<noteq> None then w
      else if length (w_segs w) \<le> sid then w
      else
        let s = w_segs w ! sid
        in if offset < sg_start s \<or> sg_end s \<le> offset \<or> offset - sg_start s \<noteq> sg_written s then w
           else
             let n = min (sg_end s - offset) (length data)
             in if n = 0 then w
                else case fault of
                       Some k \<Rightarrow> set_fatal HttpIo (w\<lparr>w_file := file_write (w_file w) offset (take k (take n data))\<rparr>)
                     | None \<Rightarrow>
                         let written = offset + n - sg_start s;
                             s' = s\<lparr>sg_written := written, sg_last_progress := now,
                                    sg_done := (written = sg_end s - sg_start s \<or> sg_done s)\<rparr>;
                             todo = w_todo w - n;
                             w1 = w\<lparr>w_file := file_write (w_file w) offset (take n data),
                                    w_segs := (w_segs w)[sid := s'],
                                    w_completed := w_completed w + n,
                                    w_pieces := map_option (pt_add_range offset n) (w_pieces w),
                                    w_todo := todo, w_last_progress := now\<rparr>
                         in if todo = 0 \<and> \<not> w_finished w
                            then w1\<lparr>w_finished := True, w_notified := True\<rparr> else w1)"

section \<open>Splitting segments\<close>

definition effective_min_split :: "writer \<Rightarrow> nat" where
  "effective_min_split w =
     (if w_todo w \<le> ENDGAME_THRESHOLD
      then min (so_min_split_size (w_opts w)) ENDGAME_MIN_SPLIT else so_min_split_size (w_opts w))"

definition split_off :: "nat \<Rightarrow> nat \<Rightarrow> nat \<Rightarrow> writer \<Rightarrow> nat \<times> writer" where
  "split_off now sid cutp w =
     (let old_end = sg_end (w_segs w ! sid);
          segs = (w_segs w)[sid := (w_segs w ! sid)\<lparr>sg_end := cutp\<rparr>];
          nsid = length segs;
          s = \<lparr>sg_start = cutp, sg_end = old_end, sg_written = 0, sg_done = False, sg_queued = True,
               sg_holders = 0, sg_last_progress = now\<rparr>
      in (nsid, w\<lparr>w_segs := segs @ [s], w_queue := w_queue w @ [nsid]\<rparr>))"

text \<open>The scans for the segment with the most left: the first one with the largest remainder.\<close>

fun scan_best :: "(seg \<Rightarrow> bool) \<Rightarrow> nat \<Rightarrow> seg list \<Rightarrow> (nat \<times> nat) option \<Rightarrow> (nat \<times> nat) option" where
  "scan_best eligible i [] best = best"
| "scan_best eligible i (s # ss) best =
     scan_best eligible (Suc i) ss
       (if eligible s \<and> (case best of None \<Rightarrow> True | Some (r, _) \<Rightarrow> r < seg_remaining s)
        then Some (seg_remaining s, i) else best)"

definition try_steal :: "nat \<Rightarrow> writer \<Rightarrow> (nat \<times> writer) option" where
  "try_steal now w =
     (let floor = effective_min_split w * 2
      in case scan_best (\<lambda>s. \<not> sg_done s \<and> \<not> sg_queued s \<and> floor \<le> seg_remaining s) 0 (w_segs w) None of
           None \<Rightarrow> None
         | Some (_, sid) \<Rightarrow>
             let s = w_segs w ! sid; pos = sg_start s + sg_written s; mid = pos + (sg_end s - pos) div 2
             in Some (split_off now sid mid w))"

definition handoff :: "nat \<Rightarrow> nat \<Rightarrow> bool \<Rightarrow> bool \<Rightarrow> writer \<Rightarrow> bool \<times> writer" where
  "handoff now sid whole force w =
     (if length (w_segs w) \<le> sid then (False, w)
      else
        let s = w_segs w ! sid; pos = sg_start s + sg_written s; old_end = sg_end s
        in if old_end \<le> pos then (False, w)
           else
             let remaining = old_end - pos
             in if remaining < HANDOFF_MIN \<and> \<not> force then (False, w)
                else
                  let cutp = (if whole \<or> remaining \<le> HANDOFF_WHOLE_MAX then pos else pos + remaining div 2);
                      w1 = snd (split_off now sid cutp w);
                      s1 = (w_segs w1 ! sid)\<lparr>sg_done := (cutp = pos \<or> sg_done s), sg_last_progress := now\<rparr>
                  in (True, w1\<lparr>w_segs := (w_segs w1)[sid := s1]\<rparr>))"

definition ensure_spare :: "writer \<Rightarrow> writer" where
  "ensure_spare w =
     (let cap = max (so_connections (w_opts w)) 1; want = min (w_alive w + 1) cap
      in if w_desired w < want then w\<lparr>w_desired := want\<rparr> else w)"

text \<open>The loops of the lease and of the watchdog: hand over each stalled segment, counting.\<close>

fun handoff_loop :: "(seg \<Rightarrow> bool) \<Rightarrow> bool \<Rightarrow> bool \<Rightarrow> nat \<Rightarrow> nat list \<Rightarrow> nat \<times> writer \<Rightarrow> nat \<times> writer" where
  "handoff_loop stalled whole force now [] (n, w) = (n, w)"
| "handoff_loop stalled whole force now (i # is) (n, w) =
     (if stalled (w_segs w ! i)
      then (case handoff now i whole force w of
              (ok, w') \<Rightarrow> handoff_loop stalled whole force now is (if ok then n + 1 else n, w'))
      else handoff_loop stalled whole force now is (n, w))"

definition lease_expired :: "nat \<Rightarrow> seg \<Rightarrow> bool" where
  "lease_expired now s \<longleftrightarrow> \<not> sg_done s \<and> \<not> sg_queued s \<and> 0 < sg_holders s \<and>
     sg_written s < sg_end s - sg_start s \<and> SEG_LEASE \<le> now - sg_last_progress s"

definition reclaim_stalled :: "nat \<Rightarrow> writer \<Rightarrow> writer" where
  "reclaim_stalled now w =
     (if w_finished w \<or> w_fatal w \<noteq> None \<or> w_todo w = 0 then w
      else case handoff_loop (lease_expired now) False False now [0..<length (w_segs w)] (0, w) of
             (n, w') \<Rightarrow> if 0 < n then ensure_spare w' else w')"

definition stranded :: "seg \<Rightarrow> bool" where
  "stranded s \<longleftrightarrow> \<not> sg_done s \<and> \<not> sg_queued s \<and> sg_written s < sg_end s - sg_start s"

definition watchdog_requeue_stalled :: "nat \<Rightarrow> writer \<Rightarrow> writer" where
  "watchdog_requeue_stalled now w =
     (if w_finished w \<or> w_fatal w \<noteq> None \<or> w_todo w = 0 then w
      else if now - w_last_progress w < STALL_TIMEOUT then w
      else case handoff_loop stranded True True now [0..<length (w_segs w)] (0, w) of
             (n, w') \<Rightarrow> (if 0 < n then ensure_spare w' else w')\<lparr>w_last_progress := now\<rparr>)"

section \<open>Handing out work\<close>

text \<open>\<open>Work seg from\<close>: the end point is read from the segment later, by the worker.\<close>

datatype assignment = Work nat nat | Park nat | Retire | Finished

definition retire_one :: "writer \<Rightarrow> writer" where
  "retire_one w = w\<lparr>w_alive := w_alive w - 1, w_desired := w_alive w - 1\<rparr>"

definition release_seg :: "(nat \<times> bool) option \<Rightarrow> writer \<Rightarrow> writer" where
  "release_seg rel w =
     (case rel of
        None \<Rightarrow> w
      | Some (sid, _) \<Rightarrow>
          if length (w_segs w) \<le> sid then w
          else
            let s = (w_segs w ! sid)\<lparr>sg_holders := sg_holders (w_segs w ! sid) - 1\<rparr>;
                incomplete = (\<not> sg_done s \<and> sg_written s < sg_end s - sg_start s)
            in if incomplete \<and> \<not> sg_queued s \<and> sg_holders s = 0
               then w\<lparr>w_segs := (w_segs w)[sid := s\<lparr>sg_queued := True\<rparr>], w_queue := w_queue w @ [sid]\<rparr>
               else w\<lparr>w_segs := (w_segs w)[sid := s]\<rparr>)"

definition take_seg :: "nat \<Rightarrow> nat \<Rightarrow> writer \<Rightarrow> writer" where
  "take_seg now sid w =
     (let s = w_segs w ! sid
      in w\<lparr>w_segs := (w_segs w)[sid := s\<lparr>sg_queued := False, sg_holders := sg_holders s + 1,
                                          sg_last_progress := now\<rparr>]\<rparr>)"

fun pop_queue :: "nat \<Rightarrow> nat list \<Rightarrow> writer \<Rightarrow> assignment option \<times> writer" where
  "pop_queue now [] w = (None, w\<lparr>w_queue := []\<rparr>)"
| "pop_queue now (sid # q) w =
     (if length (w_segs w) \<le> sid then pop_queue now q w
      else if sg_done (w_segs w ! sid) then pop_queue now q w
      else (Some (Work sid (sg_start (w_segs w ! sid) + sg_written (w_segs w ! sid))),
            take_seg now sid (w\<lparr>w_queue := q\<rparr>)))"

definition next_work :: "nat \<Rightarrow> (nat \<times> bool) option \<Rightarrow> nat \<Rightarrow> writer \<Rightarrow> assignment \<times> writer" where
  "next_work now rel failures w =
     (let w1 = release_seg rel w
      in if w_fatal w1 \<noteq> None \<or> w_finished w1 then (Finished, w1\<lparr>w_desired := 0\<rparr>)
         else
           let w2 = reclaim_stalled now w1
           in case pop_queue now (w_queue w2) w2 of
                (Some a, w3) \<Rightarrow> (a, w3)
              | (None, w3) \<Rightarrow>
                  (case try_steal now w3 of
                     Some (sid, w4) \<Rightarrow> (Work sid (sg_start (w_segs w4 ! sid)), take_seg now sid w4)
                   | None \<Rightarrow>
                       if 2 \<le> failures \<and> 1 < w_alive w3 then (Retire, retire_one w3)
                       else (Park PARK_MS, w3)))"

section \<open>Control file\<close>

definition serialize_ctrl :: "writer \<Rightarrow> split_ctrl" where
  "serialize_ctrl w =
     \<lparr>sc_v = 1, sc_total = w_total w, sc_base = w_base w, sc_url = w_url w,
      sc_segs = map (\<lambda>s. \<lparr>cs_s = sg_start s, cs_w = sg_written s, cs_e = sg_end s\<rparr>)
                  (filter (\<lambda>s. sg_start s < sg_end s) (w_segs w))\<rparr>"

text \<open>
  One step of the sync thread: take the buffered job; sync the data file for it, or give it up;
  replace the control file.
\<close>

definition sync_step :: "bool \<Rightarrow> writer \<Rightarrow> writer" where
  "sync_step ok w =
     (case w_sync w of
        None \<Rightarrow>
          (case w_slot w of
             None \<Rightarrow> w
           | Some job \<Rightarrow> w\<lparr>w_slot := None, w_sync := Some (job, False)\<rparr>)
      | Some (job, False) \<Rightarrow>
          if ok then w\<lparr>w_durable := w_file w, w_sync := Some (job, True)\<rparr> else w\<lparr>w_sync := None\<rparr>
      | Some (job, True) \<Rightarrow>
          if ok then w\<lparr>w_ctrl := Some job, w_sync := None\<rparr> else w\<lparr>w_sync := None\<rparr>)"

text \<open>The barrier: at most five steps are pending.\<close>

definition barrier :: "(nat \<Rightarrow> bool) \<Rightarrow> writer \<Rightarrow> writer" where
  "barrier oks w = fold (\<lambda>k. sync_step (oks k)) [0..<5] w"

definition submit :: "split_ctrl \<Rightarrow> writer \<Rightarrow> bool \<times> writer" where
  "submit job w = (if w_slot w = None then (True, w\<lparr>w_slot := Some job\<rparr>) else (False, w))"

definition save_ctrl_periodic :: "nat \<Rightarrow> writer \<Rightarrow> writer" where
  "save_ctrl_periodic now w =
     (if now - w_last_save w < CTRL_SAVE_INTERVAL then w
      else case submit (serialize_ctrl w) w of
             (ok, w') \<Rightarrow> if ok then w'\<lparr>w_last_save := now\<rparr> else w')"

definition save_ctrl_forced :: "nat \<Rightarrow> (nat \<Rightarrow> bool) \<Rightarrow> bool \<Rightarrow> bool \<Rightarrow> writer \<Rightarrow> bool \<times> writer" where
  "save_ctrl_forced now oks sync_ok write_ok w =
     (let w1 = barrier oks w
      in if \<not> sync_ok then (False, w1)
         else let w2 = w1\<lparr>w_durable := w_file w1\<rparr>
              in if \<not> write_ok then (False, w2)
                 else (True, w2\<lparr>w_ctrl := Some (serialize_ctrl w2), w_last_save := now\<rparr>))"

section \<open>Finishing\<close>

fun prefix_loop :: "nat \<Rightarrow> seg list \<Rightarrow> nat" where
  "prefix_loop cur [] = cur"
| "prefix_loop cur (s # ss) =
     (if cur < sg_start s then cur
      else let reach = sg_start s + sg_written s;
               cur' = (if cur < reach then reach else cur)
           in if reach < sg_end s then cur' else prefix_loop cur' ss)"

definition contiguous_prefix :: "writer \<Rightarrow> nat" where
  "contiguous_prefix w = prefix_loop (w_base w) (sort_key sg_start (w_segs w))"

datatype finish_mode = Success | Preserve | Discard

text \<open>\<open>oks 5\<close>: \<open>sync_all\<close>; then \<open>oks 6\<close>: \<open>set_len\<close> or the forced save's sync; \<open>oks 7\<close>: removal or write.\<close>

definition finish :: "nat \<Rightarrow> finish_mode \<Rightarrow> (nat \<Rightarrow> bool) \<Rightarrow> writer \<Rightarrow> bool \<times> writer" where
  "finish now mode oks w =
     (let w1 = barrier oks w
      in if \<not> oks 5 then (False, w1)
         else
           let w2 = w1\<lparr>w_durable := w_file w1\<rparr>
           in case mode of
                Success \<Rightarrow>
                  if \<not> oks 6 then (False, w2)
                  else (True, w2\<lparr>w_file := set_len (w_total w2) (w_file w2),
                                 w_ctrl := (if oks 7 then None else w_ctrl w2)\<rparr>)
              | Preserve \<Rightarrow> save_ctrl_forced now (\<lambda>_. True) (oks 6) (oks 7) w2
              | Discard \<Rightarrow>
                  if \<not> oks 6 then (False, w2)
                  else (True, w2\<lparr>w_file := set_len (contiguous_prefix w2) (w_file w2),
                                 w_ctrl := (if oks 7 then None else w_ctrl w2)\<rparr>))"

section \<open>Adaptive actions\<close>

datatype schedule_action = Maintain | Grow nat | Shrink nat nat | RetireConn nat | Spawn

definition find_largest_active_seg :: "writer \<Rightarrow> nat option" where
  "find_largest_active_seg w =
     map_option snd (scan_best (\<lambda>s. \<not> sg_done s \<and> 0 < seg_remaining s) 0 (w_segs w) None)"

definition shrink_seg :: "nat \<Rightarrow> nat \<Rightarrow> nat \<Rightarrow> writer \<Rightarrow> writer" where
  "shrink_seg now preferred reclaim_bytes w =
     (let floor = effective_min_split w;
          eligible = (\<lambda>s. \<not> sg_done s \<and> floor * 2 \<le> seg_remaining s);
          target = (if preferred < length (w_segs w) \<and> eligible (w_segs w ! preferred) then Some preferred
                    else case find_largest_active_seg w of
                           None \<Rightarrow> None
                         | Some i \<Rightarrow> if eligible (w_segs w ! i) then Some i else None)
      in case target of
           None \<Rightarrow> w
         | Some sid \<Rightarrow>
             let s = w_segs w ! sid; remaining = sg_end s - (sg_start s + sg_written s)
             in if remaining < floor * 2 then w
                else let reclaim = min (max reclaim_bytes floor) (remaining - floor)
                     in snd (split_off now sid (sg_end s - reclaim) w))"

definition apply_adaptive_action :: "nat \<Rightarrow> schedule_action \<Rightarrow> writer \<Rightarrow> writer" where
  "apply_adaptive_action now act w =
     (case so_adaptive (w_opts w) of
        None \<Rightarrow> w
      | Some max_connections \<Rightarrow>
          (case act of
             Maintain \<Rightarrow> w
           | Grow _ \<Rightarrow> w
           | Shrink conn_id reclaim_bytes \<Rightarrow> shrink_seg now conn_id reclaim_bytes w
           | RetireConn conn_id \<Rightarrow>
               (case handoff now conn_id False False w of (ok, w') \<Rightarrow> if ok then ensure_spare w' else w')
           | Spawn \<Rightarrow>
               let cap = min (max max_connections 1) (max (length (w_segs w) * 2) 1);
                   target = max (min cap (max (w_alive w * 2) (w_alive w + 1))) (w_alive w)
               in if w_alive w < target then w\<lparr>w_desired := target\<rparr> else w))"

section \<open>The loop of the writer thread\<close>

datatype to_writer =
    Write nat nat bytes "nat option"
  | Next "(nat \<times> bool) option" nat
  | Fatal http_error
  | SaveCtrl
  | AdaptiveAction schedule_action
  | WorkerJoined

definition start_loop :: "writer \<Rightarrow> writer" where
  "start_loop w = w\<lparr>w_alive := spawn_count w, w_desired := spawn_count w\<rparr>"

text \<open>
  The writer task of \<open>download_split\<close> up to its loop, when the file opens and \<open>set_len\<close> succeeds:
  the table is saved at once, and an already complete file is announced.
\<close>

definition launch :: "nat \<Rightarrow> bytes \<Rightarrow> split_ctrl option \<Rightarrow> string \<Rightarrow> nat \<Rightarrow> split_options \<Rightarrow> nat option \<Rightarrow> writer option" where
  "launch now file cf url tot opts piece_len =
     (case bootstrap now file cf url tot opts (map_option (pt_new tot) piece_len) True of
        Inl _ \<Rightarrow> None
      | Inr w \<Rightarrow>
          (case save_ctrl_forced now (\<lambda>_. True) True True w of
             (ok, w1) \<Rightarrow>
               if ok then Some (start_loop (if w_finished w1 then w1\<lparr>w_notified := True\<rparr> else w1)) else None))"

text \<open>How \<open>download_split\<close> ends the writer, from the cancellation and the fatal error it read.\<close>

definition final_mode :: "bool \<Rightarrow> http_error option \<Rightarrow> finish_mode" where
  "final_mode cancelled fatal =
     (if fatal = None \<and> \<not> cancelled then Success
      else if fatal = Some NotSplittable then Discard else Preserve)"

definition display_piece_len :: "nat \<Rightarrow> nat \<Rightarrow> nat" where
  "display_piece_len tot min_split_size = max (min min_split_size (max (tot div 2048) (64 * 1024))) 1"

text \<open>Every message but \<open>Finish\<close>, which ends the loop.\<close>

definition writer_step :: "nat \<Rightarrow> to_writer \<Rightarrow> writer \<Rightarrow> writer" where
  "writer_step now cmd w =
     (case cmd of
        Write sid offset data fault \<Rightarrow> on_write now sid offset data fault w
      | Next rel failures \<Rightarrow> snd (next_work now rel failures w)
      | Fatal err \<Rightarrow> set_fatal err w
      | SaveCtrl \<Rightarrow> save_ctrl_periodic now (watchdog_requeue_stalled now (reclaim_stalled now w))
      | AdaptiveAction act \<Rightarrow> apply_adaptive_action now act w
      | WorkerJoined \<Rightarrow> w\<lparr>w_alive := w_alive w + 1\<rparr>)"

section \<open>The worker\<close>

text \<open>
  The receive loop of \<open>run_segment\<close>: each chunk comes with the end point the segment has when it
  arrives. The result is the writes sent, whether the loop was cut short by the end point, and the
  bytes sent.
\<close>

fun pump :: "nat \<Rightarrow> nat \<Rightarrow> (nat \<times> bytes) list \<Rightarrow> (nat \<times> bytes) list \<times> bool \<times> nat" where
  "pump from sent [] = ([], False, sent)"
| "pump from sent ((end, chunk) # cs) =
     (if chunk = [] then pump from sent cs
      else let pos = from + sent
           in if end \<le> pos then ([], True, sent)
              else let cap = min (end - pos) (length chunk)
                   in if cap = length chunk
                      then (case pump from (sent + cap) cs of (ws, r) \<Rightarrow> ((pos, chunk) # ws, r))
                      else ([(pos, take cap chunk)], True, sent + cap))"

datatype body_end = Eof | Silent | BodyError http_error

text \<open>\<open>end0\<close> is the end point when the request is sent, \<open>end1\<close> when the body has ended.\<close>

definition run_segment :: "nat \<Rightarrow> nat \<Rightarrow> nat \<Rightarrow> (nat \<times> bytes) list \<Rightarrow> body_end \<Rightarrow> nat \<Rightarrow>
    (nat \<times> bytes) list \<times> (http_error + unit)" where
  "run_segment from end0 status body be end1 =
     (if end0 \<le> from then ([], Inr ())
      else if \<not> (200 \<le> status \<and> status < 300) then ([], Inl (HttpStatus status))
      else if status \<noteq> 206 \<and> from \<noteq> 0 then ([], Inl NotSplittable)
      else case pump from 0 body of
             (ws, truncated, sent) \<Rightarrow>
               (ws, if truncated then Inr ()
                    else case be of
                           BodyError e \<Rightarrow> Inl e
                         | Silent \<Rightarrow> Inl ShortRead
                         | Eof \<Rightarrow> if from + sent < end1 then Inl ShortRead else Inr ()))"

record worker_budget =
  wb_failures :: nat
  wb_short_reads :: nat

definition backoff_ms :: "nat \<Rightarrow> nat" where
  "backoff_ms failures = (if failures = 1 then 500 else if failures = 2 then 1000 else 2000)"

definition short_read_backoff_ms :: "nat \<Rightarrow> nat" where
  "short_read_backoff_ms n = (if n = 0 \<or> n = 1 then 250 else if n = 2 then 500 else 1000)"

datatype worker_turn = Continue worker_budget bool nat | Abort http_error

text \<open>What \<open>run_worker\<close> does after a segment: the new budgets, whether it failed, and the pause.\<close>

definition after_segment :: "worker_budget \<Rightarrow> http_error + unit \<Rightarrow> worker_turn" where
  "after_segment b res =
     (case res of
        Inr _ \<Rightarrow> Continue \<lparr>wb_failures = 0, wb_short_reads = 0\<rparr> False 0
      | Inl e \<Rightarrow>
          if e = NotSplittable then Abort e
          else
            let is_short_read = (e = ShortRead);
                b1 = (if is_short_read
                      then (if MAX_SHORT_READS \<le> wb_short_reads b + 1
                            then \<lparr>wb_failures = wb_failures b + 1, wb_short_reads = 0\<rparr>
                            else b\<lparr>wb_short_reads := wb_short_reads b + 1\<rparr>)
                      else b\<lparr>wb_failures := wb_failures b + 1\<rparr>)
            in if MAX_FAILURES \<le> wb_failures b1 then Abort e
               else Continue b1 True
                 (if is_short_read then short_read_backoff_ms (wb_short_reads b1) else backoff_ms (wb_failures b1)))"

end
