(* ===== verification/Split_Proofs.thy ===== *)
theory Split_Proofs
  imports Split_Writer "HOL-Library.Multiset"
begin

text \<open>
  Correctness of the split download's writer thread: the segment table stays a partition of the
  bytes beyond the base, no unfinished segment is forgotten, every byte counted as written is the
  right one on disk, and the control file only claims bytes that are durable, so that any number
  of crashes and resumptions ends in the right file.
\<close>

section \<open>The segment table\<close>

definition seg_ok :: "seg \<Rightarrow> bool" where
  "seg_ok s \<longleftrightarrow> sg_start s + sg_written s \<le> sg_end s \<and>
     (sg_done s \<longleftrightarrow> sg_start s + sg_written s = sg_end s)"

text \<open>How many segments contain a position, and what makes a table a partition of \<open>[base, tot)\<close>.\<close>

definition hits :: "nat \<Rightarrow> seg list \<Rightarrow> nat" where
  "hits p segs = sum_list (map (\<lambda>s. if sg_start s \<le> p \<and> p < sg_end s then 1 else 0) segs)"

definition partition_of :: "nat \<Rightarrow> nat \<Rightarrow> seg list \<Rightarrow> bool" where
  "partition_of base tot segs \<longleftrightarrow> (\<forall>p. hits p segs = (if base \<le> p \<and> p < tot then 1 else 0))"

text \<open>No unfinished segment is forgotten: it is in the queue, or somebody holds it.\<close>

definition queue_ok :: "seg list \<Rightarrow> nat list \<Rightarrow> bool" where
  "queue_ok segs queue \<longleftrightarrow> (\<forall>i \<in> set queue. i < length segs) \<and>
     (\<forall>i < length segs. \<not> sg_done (segs ! i) \<longrightarrow>
        (if sg_queued (segs ! i) then i \<in> set queue else 0 < sg_holders (segs ! i)))"

definition table_ok :: "nat \<Rightarrow> nat \<Rightarrow> seg list \<Rightarrow> nat list \<Rightarrow> nat \<Rightarrow> bool" where
  "table_ok base tot segs queue todo \<longleftrightarrow>
     list_all seg_ok segs \<and> partition_of base tot segs \<and> queue_ok segs queue \<and>
     todo = sum_list (map seg_remaining segs)"

text \<open>The positions counted as written.\<close>

definition stored_in :: "nat \<Rightarrow> seg list \<Rightarrow> nat set" where
  "stored_in base segs =
     {p. p < base \<or> (\<exists>i < length segs. sg_start (segs ! i) \<le> p \<and> p < sg_start (segs ! i) + sg_written (segs ! i))}"

abbreviation stored :: "writer \<Rightarrow> nat set" where
  "stored w \<equiv> stored_in (w_base w) (w_segs w)"

lemma sum_update:
  fixes f :: "'a \<Rightarrow> nat"
  assumes "i < length xs"
  shows "sum_list (map f (xs[i := y])) + f (xs ! i) = sum_list (map f xs) + f y"
  using assms
proof (induction xs arbitrary: i)
  case (Cons x xs)
  then show ?case by (cases i) (auto simp: algebra_simps)
qed simp

lemma hits_update:
  assumes "i < length segs"
  shows "hits p (segs[i := s]) + (if sg_start (segs ! i) \<le> p \<and> p < sg_end (segs ! i) then 1 else 0)
    = hits p segs + (if sg_start s \<le> p \<and> p < sg_end s then 1 else 0)"
  unfolding hits_def by (rule sum_update [OF assms])

lemma hits_append [simp]: "hits p (xs @ ys) = hits p xs + hits p ys"
  by (simp add: hits_def)

lemma list_all_update: "list_all P xs \<Longrightarrow> P y \<Longrightarrow> list_all P (xs[i := y])"
  using set_update_subset_insert [of xs i y] by (auto simp: list_all_iff)

lemma list_all_nth: "list_all P xs \<Longrightarrow> i < length xs \<Longrightarrow> P (xs ! i)"
  by (simp add: list_all_length)

text \<open>Two segments never share a position.\<close>

lemma hits_pos: "i < length segs \<Longrightarrow> sg_start (segs ! i) \<le> p \<Longrightarrow> p < sg_end (segs ! i) \<Longrightarrow> 0 < hits p segs"
  using elem_le_sum_list [of i "map (\<lambda>s. if sg_start s \<le> p \<and> p < sg_end s then 1 else 0 :: nat) segs"]
  by (simp add: hits_def)

lemma hits_two:
  assumes "i < length segs" "j < length segs" "i \<noteq> j"
    and "sg_start (segs ! i) \<le> p" "p < sg_end (segs ! i)" "sg_start (segs ! j) \<le> p" "p < sg_end (segs ! j)"
  shows "2 \<le> hits p segs"
proof -
  let ?e = "(segs ! i)\<lparr>sg_end := 0\<rparr>"
  have "hits p (segs[i := ?e]) + 1 = hits p segs" using hits_update [OF assms(1), of p ?e] assms by simp
  moreover have "0 < hits p (segs[i := ?e])" by (rule hits_pos [of j]) (use assms in simp_all)
  ultimately show ?thesis by linarith
qed

lemma partition_unique:
  assumes "partition_of base tot segs" "i < length segs" "j < length segs"
    and "sg_start (segs ! i) \<le> p" "p < sg_end (segs ! i)" "sg_start (segs ! j) \<le> p" "p < sg_end (segs ! j)"
  shows "i = j"
  using hits_two [of i segs j p] assms unfolding partition_of_def
  by (metis numeral_le_one_iff one_le_numeral semiring_norm(69) not_numeral_le_zero)

lemma partition_bounds:
  assumes "partition_of base tot segs" "i < length segs" "sg_start (segs ! i) \<le> p" "p < sg_end (segs ! i)"
  shows "base \<le> p \<and> p < tot"
  using hits_pos [OF assms(2-4)] assms(1) unfolding partition_of_def by (metis less_numeral_extra(3))

lemma partition_covers:
  assumes "partition_of base tot segs" "base \<le> p" "p < tot"
  obtains i where "i < length segs" "sg_start (segs ! i) \<le> p" "p < sg_end (segs ! i)"
proof -
  have "hits p segs \<noteq> 0" using assms by (simp add: partition_of_def)
  then show thesis by (auto simp: hits_def in_set_conv_nth split: if_splits intro: that)
qed

section \<open>Table changes\<close>

text \<open>A change that keeps the extent, the water mark and the flag of a segment.\<close>

definition same_extent :: "seg \<Rightarrow> seg \<Rightarrow> bool" where
  "same_extent s t \<longleftrightarrow> sg_start t = sg_start s \<and> sg_end t = sg_end s \<and>
     sg_written t = sg_written s \<and> sg_done t = sg_done s"

lemma extent_update:
  assumes "i < length segs" "same_extent (segs ! i) t"
  shows "hits p (segs[i := t]) = hits p segs"
    "sum_list (map seg_remaining (segs[i := t])) = sum_list (map seg_remaining segs)"
    "stored_in base (segs[i := t]) = stored_in base segs"
proof -
  show "hits p (segs[i := t]) = hits p segs"
    using hits_update [OF assms(1), of p t] assms(2) by (simp add: same_extent_def)
  show "sum_list (map seg_remaining (segs[i := t])) = sum_list (map seg_remaining segs)"
    using sum_update [OF assms(1), of seg_remaining t] assms(2) by (simp add: same_extent_def seg_remaining_def)
  show "stored_in base (segs[i := t]) = stored_in base segs"
    using assms unfolding stored_in_def same_extent_def
    by (auto simp: nth_list_update split: if_splits)
qed

lemma table_same_extent:
  assumes "table_ok base tot segs queue todo" "i < length segs" "same_extent (segs ! i) t"
    and "queue_ok (segs[i := t]) queue'"
  shows "table_ok base tot (segs[i := t]) queue' todo"
  using assms extent_update [OF assms(2,3)] list_all_nth [of seg_ok segs i]
  unfolding table_ok_def partition_of_def
  by (auto intro!: list_all_update simp: same_extent_def seg_ok_def)

text \<open>Cutting segment \<open>i\<close> at \<open>c\<close>: the new segment \<open>[c, end)\<close> is appended and queued.\<close>

definition cut_at :: "nat \<Rightarrow> seg \<Rightarrow> seg \<Rightarrow> bool" where
  "cut_at c s t \<longleftrightarrow> sg_start t = sg_start s \<and> sg_end t = c \<and> sg_written t = sg_written s \<and>
     sg_done t = (sg_start s + sg_written s = c) \<and> sg_queued t = sg_queued s \<and> sg_holders t = sg_holders s"

definition rest_from :: "nat \<Rightarrow> seg \<Rightarrow> seg \<Rightarrow> bool" where
  "rest_from c s n \<longleftrightarrow> sg_start n = c \<and> sg_end n = sg_end s \<and> sg_written n = 0 \<and> \<not> sg_done n \<and> sg_queued n"

lemma table_cut:
  assumes t: "table_ok base tot segs queue todo" and i: "i < length segs"
    and c: "sg_start (segs ! i) + sg_written (segs ! i) \<le> c" "c < sg_end (segs ! i)"
    and s': "cut_at c (segs ! i) s'" and n: "rest_from c (segs ! i) n"
  shows "table_ok base tot (segs[i := s'] @ [n]) (queue @ [length segs]) todo"
    and "stored_in base (segs[i := s'] @ [n]) = stored_in base segs"
proof -
  have h: "hits p (segs[i := s'] @ [n]) = hits p segs" for p
    using hits_update [OF i, of p s'] c s' n by (auto simp: cut_at_def rest_from_def hits_def)
  have "seg_remaining s' + seg_remaining n = seg_remaining (segs ! i)"
    using c s' n by (simp add: cut_at_def rest_from_def seg_remaining_def)
  then have sum: "sum_list (map seg_remaining (segs[i := s'] @ [n])) = todo"
    using sum_update [OF i, of seg_remaining s'] t by (simp add: table_ok_def)
  have ok: "seg_ok s'" "seg_ok n" using c s' n by (auto simp: cut_at_def rest_from_def seg_ok_def)
  have "\<not> sg_done (segs ! i)" using t c list_all_nth [of seg_ok segs i] i by (auto simp: table_ok_def seg_ok_def)
  with t i have q: "queue_ok (segs[i := s'] @ [n]) (queue @ [length segs])"
    using s' n unfolding table_ok_def queue_ok_def
    by (auto simp: nth_append nth_list_update cut_at_def rest_from_def less_Suc_eq)
  show "table_ok base tot (segs[i := s'] @ [n]) (queue @ [length segs]) todo"
    using t ok q sum h unfolding table_ok_def partition_of_def by (simp add: list_all_update)
  show "stored_in base (segs[i := s'] @ [n]) = stored_in base segs"
    using i s' n unfolding stored_in_def cut_at_def rest_from_def
    by (auto simp: nth_append nth_list_update less_Suc_eq split: if_splits)
qed

section \<open>Operations that only change the table\<close>

abbreviation tbl :: "writer \<Rightarrow> bool" where
  "tbl w \<equiv> table_ok (w_base w) (w_total w) (w_segs w) (w_queue w) (w_todo w)"

text \<open>Everything but the table, the worker counts and the clocks.\<close>

definition frame :: "writer \<Rightarrow> writer" where
  "frame w = w\<lparr>w_segs := [], w_queue := [], w_alive := 0, w_desired := 0, w_last_progress := 0, w_last_save := 0\<rparr>"

definition evolves :: "writer \<Rightarrow> writer \<Rightarrow> bool" where
  "evolves w w' \<longleftrightarrow> frame w' = frame w \<and> stored w' = stored w \<and> tbl w'"

lemma frame_fields:
  assumes "frame w' = frame w"
  shows "w_file w' = w_file w" "w_durable w' = w_durable w" "w_ctrl w' = w_ctrl w" "w_url w' = w_url w"
    "w_total w' = w_total w" "w_base w' = w_base w" "w_todo w' = w_todo w" "w_fatal w' = w_fatal w"
    "w_finished w' = w_finished w" "w_completed w' = w_completed w" "w_opts w' = w_opts w"
    "w_slot w' = w_slot w" "w_sync w' = w_sync w" "w_pieces w' = w_pieces w"
  using arg_cong [OF assms, of w_file] arg_cong [OF assms, of w_durable] arg_cong [OF assms, of w_ctrl]
    arg_cong [OF assms, of w_url] arg_cong [OF assms, of w_total] arg_cong [OF assms, of w_base]
    arg_cong [OF assms, of w_todo] arg_cong [OF assms, of w_fatal] arg_cong [OF assms, of w_finished]
    arg_cong [OF assms, of w_completed] arg_cong [OF assms, of w_opts] arg_cong [OF assms, of w_slot]
    arg_cong [OF assms, of w_sync] arg_cong [OF assms, of w_pieces]
  by (simp_all add: frame_def)

lemma evolves_refl [simp, intro]: "tbl w \<Longrightarrow> evolves w w"
  by (simp add: evolves_def)

lemma evolves_trans [trans]: "evolves w w' \<Longrightarrow> evolves w' w'' \<Longrightarrow> evolves w w''"
  by (simp add: evolves_def)

lemma evolves_tbl: "evolves w w' \<Longrightarrow> tbl w'"
  by (simp add: evolves_def)

lemmas evolves_fields = frame_fields [OF evolves_def [THEN iffD1, THEN conjunct1]]

lemma evolves_aux:
  "tbl w \<Longrightarrow> evolves w (w\<lparr>w_alive := a\<rparr>)" "tbl w \<Longrightarrow> evolves w (w\<lparr>w_desired := d\<rparr>)"
  "tbl w \<Longrightarrow> evolves w (w\<lparr>w_last_progress := t\<rparr>)" "tbl w \<Longrightarrow> evolves w (w\<lparr>w_last_save := t\<rparr>)"
  by (simp_all add: evolves_def frame_def)

lemma tbl_seg: "tbl w \<Longrightarrow> i < length (w_segs w) \<Longrightarrow> seg_ok (w_segs w ! i)"
  by (simp add: table_ok_def list_all_length)

lemma remaining_pos: "seg_ok s \<Longrightarrow> \<not> sg_done s \<longleftrightarrow> 0 < seg_remaining s"
  "seg_ok s \<Longrightarrow> \<not> sg_done s \<longleftrightarrow> sg_written s < sg_end s - sg_start s"
  by (auto simp: seg_ok_def seg_remaining_def)

lemma split_off_evolves:
  assumes "tbl w" "i < length (w_segs w)"
    and "sg_start (w_segs w ! i) + sg_written (w_segs w ! i) < c" "c < sg_end (w_segs w ! i)"
  shows "evolves w (snd (split_off now i c w))"
proof -
  let ?s = "w_segs w ! i"
  let ?n = "\<lparr>sg_start = c, sg_end = sg_end ?s, sg_written = 0, sg_done = False, sg_queued = True,
               sg_holders = 0, sg_last_progress = now\<rparr>"
  have "\<not> sg_done ?s" using tbl_seg [OF assms(1,2)] assms(3,4) by (auto simp: seg_ok_def)
  then have "cut_at c ?s (?s\<lparr>sg_end := c\<rparr>)" using assms(3) by (simp add: cut_at_def)
  moreover have "rest_from c ?s ?n" by (simp add: rest_from_def)
  ultimately show ?thesis
    using table_cut [OF assms(1,2) _ assms(4), of "?s\<lparr>sg_end := c\<rparr>" ?n] assms(3)
    by (simp add: evolves_def frame_def split_off_def Let_def)
qed

lemma scan_best_sound:
  assumes "scan_best P k ss best = Some (r, i)"
  shows "best = Some (r, i) \<or> (k \<le> i \<and> i < k + length ss \<and> P (ss ! (i - k)) \<and> r = seg_remaining (ss ! (i - k)))"
  using assms
proof (induction P k ss best rule: scan_best.induct)
  case (2 P k s ss best)
  show ?case
  proof (cases "P s \<and> (case best of None \<Rightarrow> True | Some (r, _) \<Rightarrow> r < seg_remaining s)")
    case True
    with 2 have "Some (seg_remaining s, k) = Some (r, i) \<or>
      (Suc k \<le> i \<and> i < Suc k + length ss \<and> P (ss ! (i - Suc k)) \<and> r = seg_remaining (ss ! (i - Suc k)))" by simp
    with True show ?thesis by (auto simp: nth_Cons' Suc_diff_Suc)
  next
    case False
    with 2 have "best = Some (r, i) \<or>
      (Suc k \<le> i \<and> i < Suc k + length ss \<and> P (ss ! (i - Suc k)) \<and> r = seg_remaining (ss ! (i - Suc k)))" by simp
    then show ?thesis by (auto simp: nth_Cons' Suc_diff_Suc)
  qed
qed simp

lemma scan_best_none:
  "scan_best P k ss best = None \<Longrightarrow> best = None \<and> (\<forall>s \<in> set ss. \<not> P s)"
proof (induction P k ss best rule: scan_best.induct)
  case (2 P k s ss best)
  let ?b = "P s \<and> (case best of None \<Rightarrow> True | Some (r, _) \<Rightarrow> r < seg_remaining s)"
  have "(if ?b then Some (seg_remaining s, k) else best) = None \<and> (\<forall>s \<in> set ss. \<not> P s)"
    using 2(2) unfolding scan_best.simps by (rule 2(1))
  then show ?case by (cases best) (auto split: if_splits)
qed simp

lemma effective_min_split_pos: "0 < so_min_split_size (w_opts w) \<Longrightarrow> 0 < effective_min_split w"
  by (simp add: effective_min_split_def ENDGAME_MIN_SPLIT_def)

lemma try_steal_evolves:
  assumes "tbl w" "0 < so_min_split_size (w_opts w)" "try_steal now w = Some (sid, w')"
  shows "evolves w w'" "sid = length (w_segs w)" "length (w_segs w') = Suc sid"
    "\<not> sg_done (w_segs w' ! sid)" "sg_written (w_segs w' ! sid) = 0"
proof -
  let ?P = "\<lambda>s. \<not> sg_done s \<and> \<not> sg_queued s \<and> effective_min_split w * 2 \<le> seg_remaining s"
  obtain r i where i: "scan_best ?P 0 (w_segs w) None = Some (r, i)"
    using assms(3) by (auto simp: try_steal_def Let_def split: option.splits)
  from scan_best_sound [OF i] have b: "i < length (w_segs w)" "?P (w_segs w ! i)" by auto
  let ?s = "w_segs w ! i"
  let ?pos = "sg_start ?s + sg_written ?s"
  let ?c = "?pos + (sg_end ?s - ?pos) div 2"
  have w': "(sid, w') = split_off now i ?c w" using assms(3) i by (simp add: try_steal_def Let_def)
  have "2 \<le> sg_end ?s - ?pos"
    using b effective_min_split_pos [OF assms(2)] by (simp add: seg_remaining_def)
  then have "?pos < ?c" "?c < sg_end ?s" by auto
  from split_off_evolves [OF assms(1) b(1) this] w' show "evolves w w'" by (metis snd_conv)
  show "sid = length (w_segs w)" "length (w_segs w') = Suc sid" "\<not> sg_done (w_segs w' ! sid)"
    "sg_written (w_segs w' ! sid) = 0"
    using w' by (simp_all add: split_off_def Let_def nth_append)
qed

lemma handoff_evolves:
  assumes "tbl w"
  shows "evolves w (snd (handoff now i whole force w))"
proof -
  let ?s = "w_segs w ! i"
  let ?pos = "sg_start ?s + sg_written ?s"
  let ?rem = "sg_end ?s - ?pos"
  let ?c = "if whole \<or> ?rem \<le> HANDOFF_WHOLE_MAX then ?pos else ?pos + ?rem div 2"
  show ?thesis
  proof (cases "length (w_segs w) \<le> i \<or> sg_end ?s \<le> ?pos \<or> (?rem < HANDOFF_MIN \<and> \<not> force)")
    case True
    with assms show ?thesis by (auto simp: handoff_def Let_def)
  next
    case False
    then have i: "i < length (w_segs w)" and pos: "?pos < sg_end ?s" by auto
    let ?n = "\<lparr>sg_start = ?c, sg_end = sg_end ?s, sg_written = 0, sg_done = False, sg_queued = True,
               sg_holders = 0, sg_last_progress = now\<rparr>"
    let ?t = "?s\<lparr>sg_end := ?c, sg_done := (?c = ?pos \<or> sg_done ?s), sg_last_progress := now\<rparr>"
    have nd: "\<not> sg_done ?s" using tbl_seg [OF assms i] pos by (auto simp: seg_ok_def)
    have c: "?pos \<le> ?c" "?c < sg_end ?s" using pos by auto
    have "cut_at ?c ?s ?t" using nd by (auto simp: cut_at_def)
    moreover have "rest_from ?c ?s ?n" by (simp add: rest_from_def)
    ultimately have "table_ok (w_base w) (w_total w) ((w_segs w)[i := ?t] @ [?n])
        (w_queue w @ [length (w_segs w)]) (w_todo w)"
      "stored_in (w_base w) ((w_segs w)[i := ?t] @ [?n]) = stored w"
      using table_cut [OF assms i c, of ?t ?n] by blast+
    moreover have "snd (handoff now i whole force w) =
        w\<lparr>w_segs := (w_segs w)[i := ?t] @ [?n], w_queue := w_queue w @ [length (w_segs w)]\<rparr>"
    proof -
      have "snd (handoff now i whole force w) = (let w1 = snd (split_off now i ?c w);
          s1 = (w_segs w1 ! i)\<lparr>sg_done := (?c = ?pos \<or> sg_done ?s), sg_last_progress := now\<rparr>
        in w1\<lparr>w_segs := (w_segs w1)[i := s1]\<rparr>)"
        using False unfolding handoff_def Let_def by (simp only: if_False de_Morgan_disj snd_conv)
      then show ?thesis using i by (simp add: Let_def split_off_def list_update_append nth_append)
    qed
    ultimately show ?thesis by (simp add: evolves_def frame_def)
  qed
qed

lemma ensure_spare_evolves: "tbl w \<Longrightarrow> evolves w (ensure_spare w)"
  by (simp add: ensure_spare_def Let_def evolves_aux)

lemma handoff_loop_evolves:
  assumes "tbl w"
  shows "evolves w (snd (handoff_loop P whole force now is (n, w)))"
  using assms
proof (induction "is" arbitrary: n w)
  case (Cons i "is")
  obtain ok w' where h: "handoff now i whole force w = (ok, w')" by force
  have w': "evolves w w'" using handoff_evolves [OF Cons.prems, of now i whole force] h by simp
  have "evolves w (snd (handoff_loop P whole force now is (m, w')))" for m
    by (rule evolves_trans [OF w' Cons.IH [OF evolves_tbl [OF w']]])
  with Cons h show ?case by simp
qed simp

lemma ensure_spare_if: "evolves w w' \<Longrightarrow> evolves w (if b then ensure_spare w' else w')"
  using evolves_trans [OF _ ensure_spare_evolves [OF evolves_tbl]] by simp

lemma reclaim_evolves:
  assumes "tbl w"
  shows "evolves w (reclaim_stalled now w)"
proof -
  obtain n w' where l: "handoff_loop (lease_expired now) False False now [0..<length (w_segs w)] (0, w) = (n, w')"
    by force
  have "evolves w w'"
    using handoff_loop_evolves [OF assms, of "lease_expired now" False False now "[0..<length (w_segs w)]" 0] l by simp
  from ensure_spare_if [OF this, of "0 < n"] show ?thesis using assms l by (simp add: reclaim_stalled_def)
qed

lemma watchdog_evolves:
  assumes "tbl w"
  shows "evolves w (watchdog_requeue_stalled now w)"
proof -
  obtain n w' where l: "handoff_loop stranded True True now [0..<length (w_segs w)] (0, w) = (n, w')" by force
  have w': "evolves w w'" using handoff_loop_evolves [OF assms, of stranded True True now "[0..<length (w_segs w)]" 0] l by simp
  then have e: "evolves w (if 0 < n then ensure_spare w' else w')" by (rule ensure_spare_if)
  have "evolves w ((if 0 < n then ensure_spare w' else w')\<lparr>w_last_progress := now\<rparr>)"
    by (rule evolves_trans [OF e evolves_aux(3) [OF evolves_tbl [OF e]]])
  with assms l show ?thesis by (simp add: watchdog_requeue_stalled_def)
qed

section \<open>Handing out work\<close>

lemma tbl_update:
  assumes "tbl w" "i < length (w_segs w)" "same_extent (w_segs w ! i) t" "queue_ok ((w_segs w)[i := t]) q"
  shows "evolves w (w\<lparr>w_segs := (w_segs w)[i := t], w_queue := q\<rparr>)"
  using table_same_extent [OF assms] extent_update(3) [OF assms(2,3)] by (simp add: evolves_def frame_def)

lemma queue_ok_update:
  assumes "queue_ok segs q" "i < length segs" "set q \<subseteq> set q'" "set q' \<subseteq> insert i (set q)"
    and "\<not> sg_done t \<Longrightarrow> if sg_queued t then i \<in> set q' else 0 < sg_holders t"
  shows "queue_ok (segs[i := t]) q'"
  using assms unfolding queue_ok_def by (auto simp: nth_list_update)

lemma release_evolves:
  assumes "tbl w"
  shows "evolves w (release_seg rel w)"
proof (cases rel)
  case None
  with assms show ?thesis by (simp add: release_seg_def)
next
  case (Some a)
  obtain sid b where a: "a = (sid, b)" by force
  show ?thesis
  proof (cases "length (w_segs w) \<le> sid")
    case True
    with assms show ?thesis by (simp add: release_seg_def Some a)
  next
    case False
    then have i: "sid < length (w_segs w)" by simp
    let ?s = "w_segs w ! sid"
    let ?t = "?s\<lparr>sg_holders := sg_holders ?s - 1\<rparr>"
    have q: "queue_ok (w_segs w) (w_queue w)" using assms by (simp add: table_ok_def)
    have inc: "\<not> sg_done ?s \<longleftrightarrow> sg_written ?s < sg_end ?s - sg_start ?s"
      by (rule remaining_pos [OF tbl_seg [OF assms i]])
    let ?b = "\<not> sg_done ?t \<and> sg_written ?t < sg_end ?t - sg_start ?t \<and> \<not> sg_queued ?t \<and> sg_holders ?t = 0"
    have 1: "evolves w (w\<lparr>w_segs := (w_segs w)[sid := ?t\<lparr>sg_queued := True\<rparr>], w_queue := w_queue w @ [sid]\<rparr>)"
      by (rule tbl_update [OF assms i]) (auto simp: same_extent_def intro!: queue_ok_update [OF q i])
    have "evolves w (w\<lparr>w_segs := (w_segs w)[sid := ?t], w_queue := w_queue w\<rparr>)" if "\<not> ?b"
    proof (rule tbl_update [OF assms i])
      show "queue_ok ((w_segs w)[sid := ?t]) (w_queue w)"
        by (rule queue_ok_update [OF q i]) (use that inc q i in \<open>auto simp: queue_ok_def\<close>)
    qed (simp add: same_extent_def)
    then have 2: "evolves w (w\<lparr>w_segs := (w_segs w)[sid := ?t]\<rparr>)" if "\<not> ?b"
      using that by simp
    show ?thesis
    proof (cases ?b)
      case True
      with 1 i show ?thesis by (simp add: release_seg_def Some a Let_def)
    next
      case b: False
      have "release_seg rel w = w\<lparr>w_segs := (w_segs w)[sid := ?t]\<rparr>"
        using b False unfolding release_seg_def Some a Let_def by (simp only: option.case prod.case if_False conj_assoc)
      with 2 [OF b] show ?thesis by simp
    qed
  qed
qed

lemma take_seg_evolves:
  assumes "tbl w" "i < length (w_segs w)"
  shows "evolves w (take_seg now i w)"
proof -
  have q: "queue_ok (w_segs w) (w_queue w)" using assms by (simp add: table_ok_def)
  have "evolves w (w\<lparr>w_segs := (w_segs w)[i := (w_segs w ! i)\<lparr>sg_queued := False,
      sg_holders := sg_holders (w_segs w ! i) + 1, sg_last_progress := now\<rparr>], w_queue := w_queue w\<rparr>)"
    by (rule tbl_update [OF assms]) (auto simp: same_extent_def intro!: queue_ok_update [OF q assms(2)])
  then show ?thesis by (simp add: take_seg_def Let_def)
qed

text \<open>A segment handed out: unfinished, from its water mark, with a holder.\<close>

definition handed_out :: "nat \<Rightarrow> nat \<Rightarrow> writer \<Rightarrow> bool" where
  "handed_out sid from w \<longleftrightarrow> sid < length (w_segs w) \<and>
     (let s = w_segs w ! sid
      in \<not> sg_done s \<and> \<not> sg_queued s \<and> 0 < sg_holders s \<and> from = sg_start s + sg_written s \<and> from < sg_end s)"

lemma handed_out_take:
  assumes "tbl w" "i < length (w_segs w)" "\<not> sg_done (w_segs w ! i)"
  shows "handed_out i (sg_start (w_segs w ! i) + sg_written (w_segs w ! i)) (take_seg now i w)"
  using assms tbl_seg [OF assms(1,2)] by (auto simp: handed_out_def take_seg_def Let_def seg_ok_def)

lemma tbl_drop_queue:
  assumes "tbl (w\<lparr>w_queue := i # q\<rparr>)" "i < length (w_segs w) \<Longrightarrow> sg_done (w_segs w ! i) \<or> \<not> sg_queued (w_segs w ! i)"
  shows "tbl (w\<lparr>w_queue := q\<rparr>)"
  using assms by (auto simp: table_ok_def queue_ok_def split: if_splits)

lemma pop_queue_evolves:
  assumes "tbl (w\<lparr>w_queue := q\<rparr>)" "pop_queue now q w = (r, w')"
  shows "evolves (w\<lparr>w_queue := q\<rparr>) w' \<and>
    (case r of
       None \<Rightarrow> w' = w\<lparr>w_queue := []\<rparr>
     | Some a \<Rightarrow> (\<exists>sid from. a = Work sid from \<and> handed_out sid from w'))"
  using assms
proof (induction q)
  case Nil
  then show ?case by auto
next
  case (Cons i q)
  have i: "i < length (w_segs w)" using Cons.prems(1) by (simp add: table_ok_def queue_ok_def)
  have fr: "evolves (w\<lparr>w_queue := i # q\<rparr>) w'" if "evolves (w\<lparr>w_queue := q\<rparr>) w'" for w'
    using that by (simp add: evolves_def frame_def)
  show ?case
  proof (cases "sg_done (w_segs w ! i)")
    case True
    have "tbl (w\<lparr>w_queue := q\<rparr>)" by (rule tbl_drop_queue [OF Cons.prems(1)]) (simp add: True)
    moreover have "pop_queue now q w = (r, w')" using Cons.prems(2) i True by simp
    ultimately show ?thesis using Cons.IH fr by blast
  next
    case False
    have r: "r = Some (Work i (sg_start (w_segs w ! i) + sg_written (w_segs w ! i)))"
      and w': "w' = take_seg now i (w\<lparr>w_queue := q\<rparr>)"
      using Cons.prems(2) i False by auto
    let ?w0 = "w\<lparr>w_queue := i # q\<rparr>"
    let ?t = "(w_segs w ! i)\<lparr>sg_queued := False, sg_holders := sg_holders (w_segs w ! i) + 1, sg_last_progress := now\<rparr>"
    have "evolves ?w0 (?w0\<lparr>w_segs := (w_segs ?w0)[i := ?t], w_queue := q\<rparr>)"
    proof (rule tbl_update [OF Cons.prems(1)])
      show "queue_ok ((w_segs ?w0)[i := ?t]) q"
        using Cons.prems(1) unfolding table_ok_def queue_ok_def
        by (auto simp: nth_list_update split: if_splits)
    qed (use i in \<open>simp_all add: same_extent_def\<close>)
    moreover have "?w0\<lparr>w_segs := (w_segs ?w0)[i := ?t], w_queue := q\<rparr> = w'" by (simp add: w' take_seg_def Let_def)
    ultimately have e: "evolves ?w0 w'" by simp
    have "seg_ok (w_segs w ! i)" using tbl_seg [OF Cons.prems(1)] i by simp
    then have "handed_out i (sg_start (w_segs w ! i) + sg_written (w_segs w ! i)) w'"
      using i False by (auto simp: handed_out_def w' take_seg_def Let_def seg_ok_def)
    with e r show ?thesis by simp
  qed
qed

text \<open>Everything unfinished is held, and too small to be split.\<close>

definition all_held :: "writer \<Rightarrow> bool" where
  "all_held w \<longleftrightarrow> (\<forall>s \<in> set (w_segs w). \<not> sg_done s \<longrightarrow>
     \<not> sg_queued s \<and> 0 < sg_holders s \<and> seg_remaining s < 2 * so_min_split_size (w_opts w))"

lemma next_work_outcome:
  assumes "tbl w" "0 < so_min_split_size (w_opts w)" "next_work now rel failures w = (a, w')"
  shows "evolves w w' \<and>
    (case a of
       Work sid from \<Rightarrow> w_fatal w = None \<and> \<not> w_finished w \<and> handed_out sid from w'
     | Finished \<Rightarrow> w_fatal w \<noteq> None \<or> w_finished w
     | Park _ \<Rightarrow> w_fatal w = None \<and> \<not> w_finished w \<and> all_held w'
     | Retire \<Rightarrow> w_fatal w = None \<and> \<not> w_finished w \<and> all_held w' \<and> 0 < w_alive w')"
proof -
  define w1 where "w1 = release_seg rel w"
  have w1: "evolves w w1" unfolding w1_def by (rule release_evolves [OF assms(1)])
  note f1 = evolves_fields [OF w1]
  show ?thesis
  proof (cases "w_fatal w1 \<noteq> None \<or> w_finished w1")
    case True
    then have "(a, w') = (Finished, w1\<lparr>w_desired := 0\<rparr>)"
      using assms(3) by (simp add: next_work_def Let_def w1_def [symmetric])
    then show ?thesis using True f1 evolves_trans [OF w1 evolves_aux(2) [OF evolves_tbl [OF w1]]] by auto
  next
    case False
    define w2 where "w2 = reclaim_stalled now w1"
    have w2: "evolves w w2" unfolding w2_def by (rule evolves_trans [OF w1 reclaim_evolves [OF evolves_tbl [OF w1]]])
    obtain r w3 where pop: "pop_queue now (w_queue w2) w2 = (r, w3)" by force
    have p: "evolves w2 w3" "case r of None \<Rightarrow> w3 = w2\<lparr>w_queue := []\<rparr>
       | Some a \<Rightarrow> (\<exists>sid from. a = Work sid from \<and> handed_out sid from w3)"
      using pop_queue_evolves [OF _ pop] evolves_tbl [OF w2] by simp_all
    have w3: "evolves w w3" by (rule evolves_trans [OF w2 p(1)])
    have live: "w_fatal w = None" "\<not> w_finished w" using False f1 by auto
    show ?thesis
    proof (cases r)
      case (Some b)
      then have "(a, w') = (b, w3)"
        using False assms(3) pop by (simp add: next_work_def Let_def w1_def [symmetric] w2_def [symmetric])
      with p(2) w3 live Some show ?thesis by auto
    next
      case None
      then have nw: "(a, w') = (case try_steal now w3 of
                     Some (sid, w4) \<Rightarrow> (Work sid (sg_start (w_segs w4 ! sid)), take_seg now sid w4)
                   | None \<Rightarrow>
                       if 2 \<le> failures \<and> 1 < w_alive w3 then (Retire, retire_one w3)
                       else (Park PARK_MS, w3))"
        using False assms(3) pop by (simp add: next_work_def Let_def w1_def [symmetric] w2_def [symmetric])
      have t3: "tbl w3" by (rule evolves_tbl [OF w3])
      have m3: "0 < so_min_split_size (w_opts w3)" using assms(2) evolves_fields [OF w3] by simp
      show ?thesis
      proof (cases "try_steal now w3")
        case (Some p4)
        obtain sid w4 where p4: "p4 = (sid, w4)" by force
        note st = try_steal_evolves [OF t3 m3 Some [unfolded p4]]
        have t4: "tbl w4" "sid < length (w_segs w4)" using evolves_tbl [OF st(1)] st(3) by simp_all
        have "handed_out sid (sg_start (w_segs w4 ! sid)) (take_seg now sid w4)"
          using handed_out_take [OF t4 st(4), of now] st(5) by simp
        moreover have "evolves w (take_seg now sid w4)"
          by (rule evolves_trans [OF evolves_trans [OF w3 st(1)] take_seg_evolves [OF t4]])
        ultimately show ?thesis using nw live by (simp add: Some p4)
      next
        case steal: None
        have "w_queue w3 = []" using p(2) None by simp
        then have held: "\<not> sg_queued s \<and> 0 < sg_holders s" if "s \<in> set (w_segs w3)" "\<not> sg_done s" for s
          using t3 that by (auto simp: table_ok_def queue_ok_def in_set_conv_nth split: if_splits)
        have "seg_remaining s < 2 * so_min_split_size (w_opts w3)" if s: "s \<in> set (w_segs w3)" "\<not> sg_done s" for s
        proof -
          have "scan_best (\<lambda>s. \<not> sg_done s \<and> \<not> sg_queued s \<and> effective_min_split w3 * 2 \<le> seg_remaining s) 0 (w_segs w3) None = None"
            using steal by (auto simp: try_steal_def Let_def split: option.splits)
          from scan_best_none [OF this] held [OF s] s have "seg_remaining s < effective_min_split w3 * 2" by auto
          also have "effective_min_split w3 \<le> so_min_split_size (w_opts w3)" by (simp add: effective_min_split_def)
          finally show ?thesis by simp
        qed
        with held have "all_held w3" by (simp add: all_held_def)
        then have all: "all_held w3" "all_held (retire_one w3)" by (simp_all add: all_held_def retire_one_def)
        have "evolves w (retire_one w3)"
          using w3 by (simp add: retire_one_def evolves_def frame_def)
        with all nw w3 live show ?thesis
          by (auto simp: steal retire_one_def split: if_splits)
      qed
    qed
  qed
qed

lemma shrink_evolves:
  assumes "tbl w" "0 < so_min_split_size (w_opts w)"
  shows "evolves w (shrink_seg now preferred reclaim w)"
proof -
  let ?fl = "effective_min_split w"
  let ?el = "\<lambda>s. \<not> sg_done s \<and> ?fl * 2 \<le> seg_remaining s"
  define target where "target = (if preferred < length (w_segs w) \<and> ?el (w_segs w ! preferred) then Some preferred
      else case find_largest_active_seg w of None \<Rightarrow> None
           | Some i \<Rightarrow> if ?el (w_segs w ! i) then Some i else None)"
  have i: "i < length (w_segs w)" "?el (w_segs w ! i)" if "target = Some i" for i
    using that scan_best_sound [of "\<lambda>s. \<not> sg_done s \<and> 0 < seg_remaining s" 0 "w_segs w" None]
    by (auto simp: target_def find_largest_active_seg_def split: if_splits option.splits)
  show ?thesis
  proof (cases target)
    case None
    with assms(1) show ?thesis by (simp add: shrink_seg_def Let_def target_def [symmetric])
  next
    case (Some i)
    let ?s = "w_segs w ! i"
    let ?rem = "sg_end ?s - (sg_start ?s + sg_written ?s)"
    let ?r = "min (max reclaim ?fl) (?rem - ?fl)"
    have fl: "0 < ?fl" by (rule effective_min_split_pos [OF assms(2)])
    have "?fl * 2 \<le> ?rem" using i(2) [OF Some] by (simp add: seg_remaining_def)
    with fl have "sg_start ?s + sg_written ?s < sg_end ?s - ?r" "sg_end ?s - ?r < sg_end ?s" by auto
    from split_off_evolves [OF assms(1) i(1) [OF Some] this] \<open>?fl * 2 \<le> ?rem\<close> show ?thesis
      by (simp add: shrink_seg_def Let_def target_def [symmetric] Some)
  qed
qed

lemma adaptive_evolves:
  assumes "tbl w" "0 < so_min_split_size (w_opts w)"
  shows "evolves w (apply_adaptive_action now act w)"
proof (cases "so_adaptive (w_opts w)")
  case None
  with assms show ?thesis by (simp add: apply_adaptive_action_def)
next
  case (Some m)
  show ?thesis
  proof (cases act)
    case (RetireConn i)
    obtain ok w' where h: "handoff now i False False w = (ok, w')" by force
    have "evolves w w'" using handoff_evolves [OF assms(1), of now i False False] h by simp
    from ensure_spare_if [OF this] show ?thesis by (simp add: apply_adaptive_action_def Some RetireConn h)
  next
    case Spawn
    have "evolves w (if b then w\<lparr>w_desired := t\<rparr> else w)" for b t using assms(1) evolves_aux(2) by simp
    then show ?thesis unfolding apply_adaptive_action_def Some Spawn Let_def option.case schedule_action.case .
  next
    case (Shrink i n)
    with Some show ?thesis by (simp only: apply_adaptive_action_def option.case schedule_action.case shrink_evolves [OF assms])
  qed (simp_all only: apply_adaptive_action_def Some option.case schedule_action.case evolves_refl [OF assms(1)])
qed

section \<open>The disk\<close>

definition right :: "bytes \<Rightarrow> bytes \<Rightarrow> nat \<Rightarrow> bool" where
  "right content f p \<longleftrightarrow> p < length f \<and> f ! p = content ! p"

text \<open>What a control file claims to be stored, and when it describes a partition.\<close>

definition claims :: "split_ctrl \<Rightarrow> nat set" where
  "claims c = {p. p < sc_base c \<or> (\<exists>s \<in> set (sc_segs c). cs_s s \<le> p \<and> p < cs_s s + cs_w s)}"

definition ctrl_ok :: "nat \<Rightarrow> split_ctrl \<Rightarrow> bool" where
  "ctrl_ok tot c \<longleftrightarrow> sc_v c = 1 \<and> sc_total c = tot \<and> sc_base c \<le> tot \<and>
     (\<forall>s \<in> set (sc_segs c). cs_s s < cs_e s \<and> cs_s s + cs_w s \<le> cs_e s) \<and>
     partition_of (sc_base c) tot (map (resumed_seg 0) (sc_segs c))"

text \<open>A control file whose claims hold of a file.\<close>

definition backed :: "bytes \<Rightarrow> bytes \<Rightarrow> split_ctrl \<Rightarrow> bool" where
  "backed content f c \<longleftrightarrow> ctrl_ok (length content) c \<and> (\<forall>p \<in> claims c. right content f p)"

definition disk_ok :: "bytes \<Rightarrow> writer \<Rightarrow> bool" where
  "disk_ok content w \<longleftrightarrow>
     (\<forall>p \<in> stored w. right content (w_file w) p) \<and>
     (\<forall>p. right content (w_durable w) p \<longrightarrow> right content (w_file w) p) \<and>
     (\<forall>c. w_ctrl w = Some c \<longrightarrow> backed content (w_durable w) c) \<and>
     (\<forall>c. w_slot w = Some c \<longrightarrow> backed content (w_file w) c) \<and>
     (\<forall>c. w_sync w = Some (c, False) \<longrightarrow> backed content (w_file w) c) \<and>
     (\<forall>c. w_sync w = Some (c, True) \<longrightarrow> backed content (w_durable w) c)"

definition counts_ok :: "writer \<Rightarrow> bool" where
  "counts_ok w \<longleftrightarrow> w_base w \<le> w_total w \<and> (w_finished w \<longleftrightarrow> w_todo w = 0) \<and>
     w_completed w + w_todo w = w_total w \<and> 0 < so_min_split_size (w_opts w) \<and>
     (\<forall>t. w_pieces w = Some t \<longrightarrow> pt_total t = w_total w \<and> pt_exact t (stored w))"

definition winv :: "bytes \<Rightarrow> writer \<Rightarrow> bool" where
  "winv content w \<longleftrightarrow> length content = w_total w \<and> tbl w \<and> counts_ok w \<and> disk_ok content w"

lemma winv_evolves:
  assumes "winv content w" "evolves w w'"
  shows "winv content w'"
proof -
  note f = evolves_fields [OF assms(2)]
  have st: "stored w' = stored w" and t: "tbl w'" using assms(2) unfolding evolves_def by blast+
  have "counts_ok w'" using assms(1) unfolding winv_def counts_ok_def st unfolding f by blast
  moreover have "disk_ok content w'" using assms(1) unfolding winv_def disk_ok_def st unfolding f by blast
  ultimately show ?thesis using assms(1) t unfolding winv_def f by blast
qed

lemma stored_less:
  assumes "tbl w" "w_base w \<le> w_total w" "p \<in> stored w"
  shows "p < w_total w"
proof (cases "p < w_base w")
  case False
  then obtain i where i: "i < length (w_segs w)" "sg_start (w_segs w ! i) \<le> p"
      "p < sg_start (w_segs w ! i) + sg_written (w_segs w ! i)"
    using assms(3) by (auto simp: stored_in_def)
  then have "p < sg_end (w_segs w ! i)" using tbl_seg [OF assms(1) i(1)] by (simp add: seg_ok_def)
  with i assms(1) partition_bounds show ?thesis by (auto simp: table_ok_def)
qed (use assms in simp)

text \<open>Finished means that every byte is stored.\<close>

lemma todo_zero:
  assumes "tbl w" "w_todo w = 0" "p < w_total w"
  shows "p \<in> stored w"
proof (cases "p < w_base w")
  case False
  then obtain i where i: "i < length (w_segs w)" "sg_start (w_segs w ! i) \<le> p" "p < sg_end (w_segs w ! i)"
    using partition_covers [of "w_base w" "w_total w" "w_segs w" p] assms by (auto simp: table_ok_def)
  have "seg_remaining (w_segs w ! i) = 0"
    using elem_le_sum_list [of i "map seg_remaining (w_segs w)"] assms(1,2) i(1) by (simp add: table_ok_def)
  with tbl_seg [OF assms(1) i(1)] have "sg_start (w_segs w ! i) + sg_written (w_segs w ! i) = sg_end (w_segs w ! i)"
    using i by (simp add: seg_ok_def seg_remaining_def)
  with i show ?thesis by (auto simp: stored_in_def)
qed (simp add: stored_in_def)

lemma set_fatal_winv: "winv content w \<Longrightarrow> winv content (set_fatal e w)"
  by (simp add: set_fatal_def winv_def counts_ok_def disk_ok_def)

text \<open>Writing right bytes keeps what is right.\<close>

lemma right_write:
  "seg = take (length seg) (drop off content) \<Longrightarrow> right content f p \<Longrightarrow> right content (file_write f off seg) p"
  using file_write_right [of seg off content p f] by (simp add: right_def)

lemma right_written:
  "seg = take (length seg) (drop off content) \<Longrightarrow> off \<le> p \<Longrightarrow> p < off + length seg \<Longrightarrow>
    right content (file_write f off seg) p"
  using file_write_covers [of seg off content p f] by (simp add: right_def)

lemma backed_mono: "backed content f c \<Longrightarrow> (\<And>p. right content f p \<Longrightarrow> right content f' p) \<Longrightarrow> backed content f' c"
  by (simp add: backed_def)

lemma disk_write:
  assumes "disk_ok content w" "seg = take (length seg) (drop off content)"
  shows "disk_ok content (w\<lparr>w_file := file_write (w_file w) off seg\<rparr>)"
  using assms(1) right_write [OF assms(2)] backed_mono [OF _ right_write [OF assms(2)]]
  by (auto simp: disk_ok_def)

lemma take_is_prefix: "data = take (length data) xs \<Longrightarrow> take n data = take (length (take n data)) xs"
  by (metis length_take min.commute take_take)

lemma stored_extend:
  assumes i: "i < length segs" and t: "sg_start t = sg_start (segs ! i)" "sg_written t = sg_written (segs ! i) + n"
  shows "stored_in base (segs[i := t]) =
    stored_in base segs \<union> {sg_start (segs ! i) + sg_written (segs ! i)..<sg_start (segs ! i) + sg_written (segs ! i) + n}"
proof (intro set_eqI iffI)
  fix p assume "p \<in> stored_in base (segs[i := t])"
  then show "p \<in> stored_in base segs \<union> {sg_start (segs ! i) + sg_written (segs ! i)..<sg_start (segs ! i) + sg_written (segs ! i) + n}"
  proof (cases "p < base")
    case False
    with \<open>p \<in> stored_in base (segs[i := t])\<close> obtain j where j: "j < length segs"
        "sg_start (segs[i := t] ! j) \<le> p" "p < sg_start (segs[i := t] ! j) + sg_written (segs[i := t] ! j)"
      by (auto simp: stored_in_def)
    show ?thesis
    proof (cases "j = i \<and> sg_start (segs ! i) + sg_written (segs ! i) \<le> p")
      case True
      with j t i show ?thesis by auto
    next
      case False
      then have "sg_start (segs ! j) \<le> p \<and> p < sg_start (segs ! j) + sg_written (segs ! j)"
        using j t i by (cases "j = i") auto
      with j(1) show ?thesis by (auto simp: stored_in_def)
    qed
  qed (simp add: stored_in_def)
next
  fix p assume p: "p \<in> stored_in base segs \<union> {sg_start (segs ! i) + sg_written (segs ! i)..<sg_start (segs ! i) + sg_written (segs ! i) + n}"
  have "\<exists>j < length (segs[i := t]). sg_start (segs[i := t] ! j) \<le> p \<and> p < sg_start (segs[i := t] ! j) + sg_written (segs[i := t] ! j)"
    if j: "j < length segs" "sg_start (segs ! j) \<le> p" "p < sg_start (segs ! j) + sg_written (segs ! j) + (if j = i then n else 0)" for j
    using j t by (intro exI [of _ j]) (cases "j = i"; simp)
  then show "p \<in> stored_in base (segs[i := t])"
    using p i unfolding stored_in_def by (fastforce split: if_splits)
qed

lemma on_write_winv:
  assumes inv: "winv content w" and data: "data = take (length data) (drop offset content)"
  shows "winv content (on_write now sid offset data fault w)"
proof -
  let ?s = "w_segs w ! sid"
  define n where "n = min (sg_end ?s - offset) (length data)"
  let ?ignored = "w_fatal w \<noteq> None \<or> length (w_segs w) \<le> sid \<or> offset < sg_start ?s \<or> sg_end ?s \<le> offset \<or>
      offset - sg_start ?s \<noteq> sg_written ?s \<or> n = 0"
  show ?thesis
  proof (cases ?ignored)
    case True
    then have "on_write now sid offset data fault w = w" unfolding on_write_def Let_def n_def [symmetric] by auto
    with inv show ?thesis by simp
  next
    case False
    then have i: "sid < length (w_segs w)" and off: "offset = sg_start ?s + sg_written ?s" "offset < sg_end ?s"
      and n: "0 < n" "offset + n \<le> sg_end ?s" by (auto simp: n_def)
    have t: "tbl w" using inv by (simp add: winv_def)
    show ?thesis
    proof (cases fault)
      case (Some k)
      define d where "d = take k (take n data)"
      have "d = take (length d) (drop offset content)" unfolding d_def by (intro take_is_prefix data)
      with inv have "winv content (w\<lparr>w_file := file_write (w_file w) offset d\<rparr>)"
        using disk_write [of content w d offset] unfolding winv_def counts_ok_def by simp
      moreover have "on_write now sid offset data fault w
          = set_fatal HttpIo (w\<lparr>w_file := file_write (w_file w) offset d\<rparr>)"
        using False unfolding on_write_def Some Let_def n_def [symmetric] by (simp add: d_def del: take_take)
      ultimately show ?thesis by (simp add: set_fatal_winv)
    next
      case None
      define d where "d = take n data"
      let ?t = "?s\<lparr>sg_written := offset + n - sg_start ?s, sg_last_progress := now,
                   sg_done := (offset + n - sg_start ?s = sg_end ?s - sg_start ?s \<or> sg_done ?s)\<rparr>"
      define w1 where "w1 = w\<lparr>w_file := file_write (w_file w) offset d, w_segs := (w_segs w)[sid := ?t],
        w_completed := w_completed w + n, w_pieces := map_option (pt_add_range offset n) (w_pieces w),
        w_todo := w_todo w - n, w_last_progress := now\<rparr>"
      have eq: "on_write now sid offset data fault w =
        (if w_todo w - n = 0 \<and> \<not> w_finished w then w1\<lparr>w_finished := True, w_notified := True\<rparr> else w1)"
        using False unfolding on_write_def None Let_def n_def [symmetric] d_def [symmetric] w1_def by simp
      have ok: "seg_ok ?s" by (rule tbl_seg [OF t i])
      have d: "d = take (length d) (drop offset content)" "length d = n"
        unfolding d_def by (rule take_is_prefix [OF data]) (simp add: n_def)
      have seg_t: "sg_start ?t = sg_start ?s" "sg_end ?t = sg_end ?s" "sg_written ?t = sg_written ?s + n" "seg_ok ?t"
        using off ok n by (auto simp: seg_ok_def)
      have rem: "seg_remaining ?s = seg_remaining ?t + n" using off seg_t n by (simp add: seg_remaining_def)
      have nd: "\<not> sg_done ?s" using ok off by (simp add: seg_ok_def)
      have sum: "sum_list (map seg_remaining ((w_segs w)[sid := ?t])) + n = w_todo w"
        using sum_update [OF i, of seg_remaining ?t] rem t by (simp add: table_ok_def)
      have todo: "w_todo w1 + n = w_todo w" using sum by (simp add: w1_def)
      have h: "hits p ((w_segs w)[sid := ?t]) = hits p (w_segs w)" for p
        using hits_update [OF i, of p ?t] by simp
      have "queue_ok ((w_segs w)[sid := ?t]) (w_queue w)"
        using t nd i by (auto simp: table_ok_def queue_ok_def nth_list_update split: if_splits)
      then have t1: "tbl w1"
        using t h sum seg_t(4) by (simp add: w1_def table_ok_def partition_of_def list_all_update)
      have st: "stored w1 = stored w \<union> {offset..<offset + n}"
        using stored_extend [OF i, of ?t n "w_base w"] off seg_t by (simp add: w1_def)
      have new: "{offset..<offset + n} \<inter> stored w = {}"
      proof -
        have "p \<notin> stored w" if p: "offset \<le> p" "p < offset + n" for p
        proof
          assume "p \<in> stored w"
          moreover have "w_base w \<le> p"
            using partition_bounds [of "w_base w" "w_total w" "w_segs w" sid p] t i off p n by (auto simp: table_ok_def)
          ultimately obtain j where j: "j < length (w_segs w)" "sg_start (w_segs w ! j) \<le> p"
              "p < sg_start (w_segs w ! j) + sg_written (w_segs w ! j)"
            by (auto simp: stored_in_def)
          moreover have "p < sg_end (w_segs w ! j)" using tbl_seg [OF t j(1)] j(3) by (simp add: seg_ok_def)
          ultimately have "sid = j"
            using partition_unique [of "w_base w" "w_total w" "w_segs w" sid j p] t i off p n by (auto simp: table_ok_def)
          with j(3) off p show False by simp
        qed
        then show ?thesis by auto
      qed
      have disk: "disk_ok content w1"
      proof -
        have "disk_ok content (w\<lparr>w_file := file_write (w_file w) offset d\<rparr>)"
          using inv disk_write [OF _ d(1), of w] by (simp add: winv_def)
        moreover have "right content (w_file w1) p" if "p \<in> stored w1" for p
        proof (cases "p \<in> stored w")
          case True
          with inv show ?thesis using right_write [OF d(1)] by (simp add: w1_def winv_def disk_ok_def)
        next
          case False
          with that st have "offset \<le> p" "p < offset + length d" by (auto simp: d(2))
          then show ?thesis using right_written [OF d(1)] by (simp add: w1_def)
        qed
        ultimately show ?thesis by (simp add: disk_ok_def w1_def)
      qed
      have pieces: "pt_total pn = w_total w1 \<and> pt_exact pn (stored w1)" if pn: "w_pieces w1 = Some pn" for pn
      proof -
        obtain pt where pw: "w_pieces w = Some pt" and tt: "pn = pt_add_range offset n pt"
          using pn by (auto simp: w1_def)
        have pt: "pt_total pt = w_total w" "pt_exact pt (stored w)" and base: "w_base w \<le> w_total w"
          using inv pw by (simp_all add: winv_def counts_ok_def)
        have "offset + n - 1 < w_total w"
          using partition_bounds [of "w_base w" "w_total w" "w_segs w" sid "offset + n - 1"] t i off n
          by (auto simp: table_ok_def)
        then have "min (offset + n) (pt_total pt) = offset + n" using pt(1) by simp
        moreover have "stored w \<subseteq> {..<pt_total pt}" using stored_less [OF t base] pt(1) by auto
        ultimately show ?thesis using pt_add_range_exact [OF pt(2) new] pt(1) by (simp add: tt st) (simp add: w1_def)
      qed
      have same: "w_total w1 = w_total w" "w_base w1 = w_base w" "w_opts w1 = w_opts w"
        "w_finished w1 = w_finished w" "w_completed w1 = w_completed w + n"
        by (simp_all add: w1_def)
      have inv1: "winv content (w1\<lparr>w_finished := f, w_notified := g\<rparr>)" if "f \<longleftrightarrow> w_todo w1 = 0" for f g
      proof -
        let ?w2 = "w1\<lparr>w_finished := f, w_notified := g\<rparr>"
        have "counts_ok ?w2" using inv todo that pieces unfolding winv_def counts_ok_def same
          by (simp add: same)
        moreover have "disk_ok content ?w2" using disk unfolding disk_ok_def by simp
        ultimately show ?thesis using inv t1 unfolding winv_def by (simp add: same)
      qed
      have td: "w_todo w1 = w_todo w - n" by (simp add: w1_def)
      have nf: "\<not> w_finished w" using inv todo n(1) unfolding winv_def counts_ok_def by auto
      have "winv content (on_write now sid offset data fault w)"
      proof (cases "w_todo w - n = 0")
        case True
        then show ?thesis using inv1 [of True True] td nf by (simp only: eq if_True simp_thms)
      next
        case False
        have "w1\<lparr>w_finished := False, w_notified := w_notified w1\<rparr> = w1" using same(4) nf by simp
        with False show ?thesis using inv1 [of False "w_notified w1"] td by (simp only: eq if_False simp_thms)
      qed
      then show ?thesis .
    qed
  qed
qed

section \<open>The control file\<close>

lemma hits_mset: "mset xs = mset ys \<Longrightarrow> hits p xs = hits p ys"
  unfolding hits_def by (subst (1 2) sum_mset_sum_list [symmetric]) simp

lemma hits_nonempty:
  "hits p (map (resumed_seg n) (map (\<lambda>s. \<lparr>cs_s = sg_start s, cs_w = sg_written s, cs_e = sg_end s\<rparr>)
     (filter (\<lambda>s. sg_start s < sg_end s) segs))) = hits p segs"
  by (induction segs) (auto simp: hits_def resumed_seg_def Let_def)

lemma serialize_ok:
  assumes "tbl w" "w_base w \<le> w_total w"
  shows "ctrl_ok (w_total w) (serialize_ctrl w)" and "claims (serialize_ctrl w) = stored w"
proof -
  have ok: "sg_start s + sg_written s \<le> sg_end s" if "s \<in> set (w_segs w)" for s
    using assms(1) that by (auto simp: table_ok_def list_all_iff seg_ok_def)
  show "ctrl_ok (w_total w) (serialize_ctrl w)"
    using assms ok hits_nonempty [of _ 0 "w_segs w"]
    by (auto simp: ctrl_ok_def serialize_ctrl_def partition_of_def table_ok_def comp_def)
  show "claims (serialize_ctrl w) = stored w"
  proof (intro set_eqI iffI)
    fix p assume "p \<in> claims (serialize_ctrl w)"
    then show "p \<in> stored w" by (auto simp: claims_def serialize_ctrl_def stored_in_def in_set_conv_nth)
  next
    fix p assume p: "p \<in> stored w"
    have "\<exists>c \<in> set (sc_segs (serialize_ctrl w)). cs_s c \<le> p \<and> p < cs_s c + cs_w c"
      if i: "i < length (w_segs w)" "sg_start (w_segs w ! i) \<le> p" "p < sg_start (w_segs w ! i) + sg_written (w_segs w ! i)" for i
    proof -
      have "w_segs w ! i \<in> set (filter (\<lambda>s. sg_start s < sg_end s) (w_segs w))"
        using i ok [of "w_segs w ! i"] by auto
      with i show ?thesis
        by (intro bexI [of _ "\<lparr>cs_s = sg_start (w_segs w ! i), cs_w = sg_written (w_segs w ! i), cs_e = sg_end (w_segs w ! i)\<rparr>"])
          (auto simp: serialize_ctrl_def)
    qed
    with p show "p \<in> claims (serialize_ctrl w)" by (auto simp: claims_def stored_in_def) (simp add: serialize_ctrl_def)
  qed
qed

lemma serialize_backed:
  assumes "winv content w"
  shows "backed content (w_file w) (serialize_ctrl w)"
  using assms serialize_ok [of w] by (simp add: winv_def counts_ok_def disk_ok_def backed_def)

lemma winv_disk:
  "winv content w \<Longrightarrow> disk_ok content (w\<lparr>w_durable := d, w_ctrl := c, w_slot := sl, w_sync := sy, w_last_save := t\<rparr>) \<Longrightarrow>
    winv content (w\<lparr>w_durable := d, w_ctrl := c, w_slot := sl, w_sync := sy, w_last_save := t\<rparr>)"
  by (simp add: winv_def counts_ok_def)

lemma sync_step_winv:
  assumes "winv content w"
  shows "winv content (sync_step ok w)"
proof -
  let ?u = "\<lambda>d c sl sy. w\<lparr>w_durable := d, w_ctrl := c, w_slot := sl, w_sync := sy, w_last_save := w_last_save w\<rparr>"
  have d: "disk_ok content w" using assms by (simp add: winv_def)
  have u: "winv content (?u dr c sl sy)" if "disk_ok content (?u dr c sl sy)" for dr c sl sy
    using winv_disk [OF assms that] .
  show ?thesis
  proof (cases "w_sync w")
    case None
    show ?thesis
    proof (cases "w_slot w")
      case None2: (Some job)
      have "sync_step ok w = ?u (w_durable w) (w_ctrl w) None (Some (job, False))"
        using None None2 by (simp add: sync_step_def)
      moreover have "disk_ok content (?u (w_durable w) (w_ctrl w) None (Some (job, False)))"
        using d None2 by (simp add: disk_ok_def)
      ultimately show ?thesis using u by (simp only:)
    qed (use None assms in \<open>simp add: sync_step_def\<close>)
  next
    case (Some js)
    obtain job synced where js: "js = (job, synced)" by force
    have drop: "winv content (?u (w_durable w) (w_ctrl w) (w_slot w) None)"
      by (rule u) (use d in \<open>simp add: disk_ok_def\<close>)
    have fsync: "winv content (?u (w_file w) (w_ctrl w) (w_slot w) (Some (job, True)))" if "\<not> synced"
    proof (rule u)
      have "\<And>c. backed content (w_durable w) c \<Longrightarrow> backed content (w_file w) c"
        using d backed_mono by (auto simp: disk_ok_def)
      then show "disk_ok content (?u (w_file w) (w_ctrl w) (w_slot w) (Some (job, True)))"
        using d Some js that by (simp add: disk_ok_def)
    qed
    have save: "winv content (?u (w_durable w) (Some job) (w_slot w) None)" if "synced"
      by (rule u) (use d Some js that in \<open>simp add: disk_ok_def\<close>)
    show ?thesis
    proof (cases synced)
      case True
      with Some js drop save show ?thesis by (cases ok) (simp_all add: sync_step_def)
    next
      case False
      with Some js drop fsync show ?thesis by (cases ok) (simp_all add: sync_step_def)
    qed
  qed
qed

lemma barrier_winv: "winv content w \<Longrightarrow> winv content (barrier oks w)"
proof -
  have "winv content w \<Longrightarrow> winv content (fold (\<lambda>k. sync_step (oks k)) ks w)" for ks
    by (induction ks arbitrary: w) (simp_all add: sync_step_winv)
  then show "winv content w \<Longrightarrow> winv content (barrier oks w)" by (simp add: barrier_def)
qed

lemma barrier_idle [simp]: "w_slot w = None \<Longrightarrow> w_sync w = None \<Longrightarrow> barrier oks w = w"
proof -
  have "w_slot w = None \<Longrightarrow> w_sync w = None \<Longrightarrow> fold (\<lambda>k. sync_step (oks k)) ks w = w" for ks
    by (induction ks) (simp_all add: sync_step_def)
  then show "w_slot w = None \<Longrightarrow> w_sync w = None \<Longrightarrow> barrier oks w = w" by (simp add: barrier_def)
qed

text \<open>The barrier waits for everything that was submitted.\<close>

lemma barrier_drains: "w_slot (barrier oks w) = None \<and> w_sync (barrier oks w) = None"
proof -
  define pending where "pending w = (case w_slot w of None \<Rightarrow> 0 | Some _ \<Rightarrow> 3) +
    (case w_sync w of None \<Rightarrow> (0 :: nat) | Some (_, b) \<Rightarrow> if b then 1 else 2)" for w :: writer
  have step: "pending (sync_step ok w) \<le> pending w - 1" for ok w
    by (auto simp: pending_def sync_step_def split: option.splits prod.splits bool.splits)
  have "pending (fold (\<lambda>k. sync_step (oks k)) ks w) \<le> pending w - length ks" for ks w
  proof (induction ks arbitrary: w)
    case (Cons k ks)
    have "pending (fold (\<lambda>k. sync_step (oks k)) (k # ks) w) \<le> pending (sync_step (oks k) w) - length ks"
      using Cons.IH [of "sync_step (oks k) w"] by simp
    then show ?case using step [of "oks k" w] by simp
  qed simp
  moreover have "pending w \<le> 5" by (auto simp: pending_def split: option.splits prod.splits)
  ultimately have "pending (barrier oks w) = 0" unfolding barrier_def
    by (metis diff_is_0_eq diff_zero le_zero_eq length_upt)
  then show ?thesis by (auto simp: pending_def split: option.splits prod.splits if_splits)
qed

lemma winv_synced:
  assumes "winv content w"
  shows "winv content (w\<lparr>w_durable := w_file w\<rparr>)"
proof -
  have d: "disk_ok content w" using assms by (simp add: winv_def)
  have "\<And>c. backed content (w_durable w) c \<Longrightarrow> backed content (w_file w) c"
    using d backed_mono by (auto simp: disk_ok_def)
  with d have "disk_ok content (w\<lparr>w_durable := w_file w\<rparr>)" by (auto simp: disk_ok_def)
  with assms show ?thesis by (simp add: winv_def counts_ok_def)
qed

lemma winv_saved:
  assumes "winv content w" "w_durable w = w_file w"
  shows "winv content (w\<lparr>w_ctrl := Some (serialize_ctrl w), w_last_save := now\<rparr>)"
proof -
  have "disk_ok content (w\<lparr>w_ctrl := Some (serialize_ctrl w), w_last_save := now\<rparr>)"
    using assms serialize_backed [OF assms(1)] by (simp add: winv_def disk_ok_def)
  with assms show ?thesis by (simp add: winv_def counts_ok_def)
qed

lemma save_ctrl_forced_winv:
  assumes "winv content w"
  shows "winv content (snd (save_ctrl_forced now oks a b w))"
proof -
  let ?w1 = "barrier oks w"
  let ?w2 = "?w1\<lparr>w_durable := w_file ?w1\<rparr>"
  have w1: "winv content ?w1" by (rule barrier_winv [OF assms])
  have w2: "winv content ?w2" by (rule winv_synced [OF w1])
  have "winv content (?w2\<lparr>w_ctrl := Some (serialize_ctrl ?w2), w_last_save := now\<rparr>)"
    by (rule winv_saved [OF w2]) simp
  with w1 w2 show ?thesis by (simp add: save_ctrl_forced_def Let_def)
qed

lemma save_ctrl_periodic_winv:
  assumes "winv content w"
  shows "winv content (save_ctrl_periodic now w)"
proof -
  have "winv content (w\<lparr>w_slot := Some (serialize_ctrl w), w_last_save := now\<rparr>)"
    using assms serialize_backed [OF assms] by (simp add: winv_def counts_ok_def disk_ok_def)
  with assms show ?thesis by (simp add: save_ctrl_periodic_def submit_def)
qed

end
