(* ===== verification/Split_Resume.thy ===== *)
theory Split_Resume
  imports Split_Proofs
begin

text \<open>
  Starting and resuming a split download, runs of the writer thread with any number of crashes, and
  the properties of the whole: nothing is lost, nothing is stored twice, and a finished download is
  the remote file.
\<close>

section \<open>Tables at the start\<close>

lemma hits_Cons: "hits p (s # ss) = (if sg_start s \<le> p \<and> p < sg_end s then 1 else 0) + hits p ss"
  by (simp add: hits_def)

lemma hits_Nil [simp]: "hits p [] = 0"
  by (simp add: hits_def)

lemma resumed_simps [simp]:
  "sg_start (resumed_seg n s) = cs_s s" "sg_end (resumed_seg n s) = cs_e s"
  "sg_written (resumed_seg n s) = min (cs_w s) (cs_e s - cs_s s)"
  by (simp_all add: resumed_seg_def Let_def)

lemma hits_member:
  assumes "0 < hits p segs"
  obtains s where "s \<in> set segs" "sg_start s \<le> p" "p < sg_end s"
  using assms by (induction segs) (auto simp: hits_Cons split: if_splits)

lemma count_range: "e \<le> n \<Longrightarrow> (\<Sum>p<n. if a \<le> p \<and> p < e then 1 else 0 :: nat) = e - a"
proof -
  assume e: "e \<le> n"
  have "(\<Sum>p<n. if a \<le> p \<and> p < e then 1 else 0 :: nat) = card {p. p < n \<and> a \<le> p \<and> p < e}"
    by (simp add: sum.If_cases Collect_conj_eq lessThan_def)
  also have "{p. p < n \<and> a \<le> p \<and> p < e} = {a..<e}" using e by auto
  finally show ?thesis by simp
qed

lemma sum_hits:
  "(\<And>s. s \<in> set segs \<Longrightarrow> sg_end s \<le> n) \<Longrightarrow>
    (\<Sum>p<n. hits p segs) = sum_list (map (\<lambda>s. sg_end s - sg_start s) segs)"
proof (induction segs)
  case (Cons s segs)
  then show ?case by (simp add: hits_Cons sum.distrib count_range)
qed simp

text \<open>The segments of a partition have the length of what they partition.\<close>

lemma partition_length:
  assumes "partition_of base tot segs"
  shows "sum_list (map (\<lambda>s. sg_end s - sg_start s) segs) = tot - base"
proof -
  define n where "n = tot + sum_list (map sg_end segs)"
  have "sg_end s \<le> n" if "s \<in> set segs" for s
    using member_le_sum_list [of "sg_end s" "map sg_end segs"] that by (simp add: n_def)
  then have "sum_list (map (\<lambda>s. sg_end s - sg_start s) segs) = (\<Sum>p<n. hits p segs)"
    by (simp add: sum_hits)
  also have "\<dots> = (\<Sum>p<n. if base \<le> p \<and> p < tot then 1 else 0)"
    using assms by (simp add: partition_of_def)
  also have "\<dots> = tot - base" by (rule count_range) (simp add: n_def)
  finally show ?thesis .
qed

text \<open>A table that passes the tiling check is a partition, and a sorted partition passes it.\<close>

lemma tile_cursor_hits:
  "tile_cursor base ss = Some tot \<Longrightarrow>
    base \<le> tot \<and> hits p (map (resumed_seg n) ss) = (if base \<le> p \<and> p < tot then 1 else 0)"
proof (induction base ss rule: tile_cursor.induct)
  case (2 cursor s ss)
  then have c: "cs_s s = cursor" "cursor < cs_e s" "tile_cursor (cs_e s) ss = Some tot"
    by (auto split: if_splits)
  then show ?case using 2(1) by (auto simp: hits_Cons)
qed simp

lemma sorted_tiles:
  assumes "\<And>p. hits p (map (resumed_seg n) ss) = (if base \<le> p \<and> p < tot then 1 else 0)"
    and "\<And>s. s \<in> set ss \<Longrightarrow> cs_s s < cs_e s" "sorted (map cs_s ss)" "base \<le> tot"
  shows "tile_cursor base ss = Some tot"
  using assms
proof (induction ss arbitrary: base)
  case Nil
  from Nil(1) [of base] Nil(4) show ?case by (auto split: if_splits)
next
  case (Cons s ss)
  have hits: "(if cs_s s \<le> p \<and> p < cs_e s then 1 else 0) + hits p (map (resumed_seg n) ss)
      = (if base \<le> p \<and> p < tot then 1 else 0)" for p
    using Cons.prems(1) [of p] by (simp add: hits_Cons)
  have s: "cs_s s < cs_e s" using Cons.prems(2) by simp
  have "base \<le> cs_s s" "cs_s s < tot" using hits [of "cs_s s"] s by (auto split: if_splits)
  have "cs_s s = base"
  proof (rule ccontr)
    assume "cs_s s \<noteq> base"
    with \<open>base \<le> cs_s s\<close> \<open>cs_s s < tot\<close> have "hits base (map (resumed_seg n) ss) = 1"
      using hits [of base] by simp
    then have "0 < hits base (map (resumed_seg n) ss)" by simp
    then obtain r where "r \<in> set (map (resumed_seg n) ss)" "sg_start r \<le> base" by (rule hits_member)
    then obtain t where "t \<in> set ss" "cs_s t \<le> base" by auto
    with Cons.prems(3) \<open>base \<le> cs_s s\<close> \<open>cs_s s \<noteq> base\<close> show False by auto
  qed
  have "cs_e s - 1 < tot" using hits [of "cs_e s - 1"] s by (auto split: if_splits)
  then have e: "cs_e s \<le> tot" using s by linarith
  have "tile_cursor (cs_e s) ss = Some tot"
  proof (rule Cons.IH)
    show "hits p (map (resumed_seg n) ss) = (if cs_e s \<le> p \<and> p < tot then 1 else 0)" for p
      using hits [of p] \<open>cs_s s = base\<close> s e by (auto split: if_splits)
  qed (use Cons.prems e in auto)
  with s \<open>cs_s s = base\<close> show ?case by simp
qed

text \<open>The segments of a fresh download.\<close>

lemma fresh_hits:
  assumes "0 < nseg" "nseg \<le> remain" "k \<le> nseg"
  shows "hits p (fresh_segs now base remain nseg (base + remain * k div nseg) [Suc k..<Suc nseg])
      = (if base + remain * k div nseg \<le> p \<and> p < base + remain then 1 else 0)"
    and "list_all (\<lambda>s. sg_written s = 0 \<and> \<not> sg_done s \<and> sg_queued s \<and> sg_start s < sg_end s)
      (fresh_segs now base remain nseg (base + remain * k div nseg) [Suc k..<Suc nseg])"
  using assms(3)
proof (induction "nseg - k" arbitrary: k)
  case 0
  case 1
  with 0 have "k = nseg" by simp
  with assms(1) show ?case by simp
next
  case 0
  case 2
  with 0 have "k = nseg" by simp
  with assms(1) show ?case by simp
next
  case (Suc x)
  have "(remain * k + nseg) div nseg \<le> remain * Suc k div nseg"
    by (rule div_le_mono) (use assms(2) in simp)
  moreover have "(remain * k + nseg) div nseg = remain * k div nseg + 1" by (rule div_add_self2) (use assms(1) in simp)
  ultimately have lt: "remain * k div nseg < remain * Suc k div nseg" by simp
  have top: "remain * Suc k div nseg \<le> remain" if "k < nseg"
    using div_le_mono [of "remain * Suc k" "remain * nseg" nseg] that assms(1)
    by (simp del: mult_Suc_right)
  {
    case 1
    with Suc(3) have k: "k < nseg" by simp
    have "nseg - Suc k = x" using Suc(3) by simp
    from Suc(1) [OF this [symmetric]] k
    have "hits p (fresh_segs now base remain nseg (base + remain * Suc k div nseg) [Suc (Suc k)..<Suc nseg])
      = (if base + remain * Suc k div nseg \<le> p \<and> p < base + remain then 1 else 0)" by simp
    moreover have "[Suc k..<Suc nseg] = Suc k # [Suc (Suc k)..<Suc nseg]" using k by (simp add: upt_rec)
    ultimately show ?case using lt top [OF k] by (simp add: hits_Cons Let_def del: mult_Suc_right upt_Suc)
  next
    case 2
    with Suc(3) have k: "k < nseg" by simp
    have "nseg - Suc k = x" using Suc(3) by simp
    from Suc(2) [OF this [symmetric]] k
    have "list_all (\<lambda>s. sg_written s = 0 \<and> \<not> sg_done s \<and> sg_queued s \<and> sg_start s < sg_end s)
      (fresh_segs now base remain nseg (base + remain * Suc k div nseg) [Suc (Suc k)..<Suc nseg])" by simp
    moreover have "[Suc k..<Suc nseg] = Suc k # [Suc (Suc k)..<Suc nseg]" using k by (simp add: upt_rec)
    ultimately show ?case using lt by (simp add: Let_def del: mult_Suc_right upt_Suc)
  }
qed

lemma initial_nseg_bounds:
  assumes "0 < remain" "0 < so_min_split_size opts"
  shows "0 < initial_nseg opts remain" "initial_nseg opts remain \<le> remain"
proof -
  have "div_ceil remain (so_min_split_size opts) \<le> remain"
    using assms by (simp add: div_ceil_le)
  with assms(1) show "initial_nseg opts remain \<le> remain" by (simp add: initial_nseg_def Let_def)
  show "0 < initial_nseg opts remain" by (auto simp: initial_nseg_def Let_def)
qed

section \<open>The writer at the start\<close>

lemma boot_tbl:
  assumes "list_all seg_ok segs" "partition_of base tot segs"
    and "\<And>s. s \<in> set segs \<Longrightarrow> sg_queued s \<longleftrightarrow> \<not> sg_done s"
  shows "tbl (boot_writer now file cf url tot opts pieces base segs)"
proof -
  have "queue_ok segs (rebuild_queue segs)"
    using assms(3) by (auto simp: queue_ok_def rebuild_queue_def)
  with assms(1,2) show ?thesis by (simp add: table_ok_def boot_writer_def Let_def)
qed

lemma prefill_ranges:
  "prefill base segs t = add_ranges ((0, base) # map (\<lambda>s. (sg_start s, sg_written s)) segs) t"
proof -
  have "fold (\<lambda>s p. if 0 < sg_written s then pt_add_range (sg_start s) (sg_written s) p else p) segs t
      = add_ranges (map (\<lambda>s. (sg_start s, sg_written s)) segs) t" for t
    by (induction segs arbitrary: t) (simp_all add: pt_add_range_def)
  then show ?thesis by (simp add: prefill_def) (simp add: pt_add_range_def)
qed

lemma range_bytes_segs:
  "range_bytes (map (\<lambda>s. (sg_start s, sg_written s)) segs) =
    {p. \<exists>s \<in> set segs. sg_start s \<le> p \<and> p < sg_start s + sg_written s}"
  by (induction segs) auto

lemma ranges_disjoint_segs:
  assumes "list_all seg_ok segs" "\<And>p. hits p segs \<le> 1"
  shows "ranges_disjoint (map (\<lambda>s. (sg_start s, sg_written s)) segs)"
  using assms
proof (induction segs)
  case (Cons s segs)
  have ok: "seg_ok s" "list_all seg_ok segs" using Cons.prems(1) by simp_all
  have "p \<notin> range_bytes (map (\<lambda>s. (sg_start s, sg_written s)) segs)"
    if p: "sg_start s \<le> p" "p < sg_start s + sg_written s" for p
  proof
    assume "p \<in> range_bytes (map (\<lambda>s. (sg_start s, sg_written s)) segs)"
    then obtain i where i: "i < length segs" "sg_start (segs ! i) \<le> p" "p < sg_start (segs ! i) + sg_written (segs ! i)"
      by (auto simp: range_bytes_segs in_set_conv_nth)
    with ok(2) have "p < sg_end (segs ! i)" using list_all_nth [of seg_ok segs i] by (simp add: seg_ok_def)
    then have "0 < hits p segs" using i by (intro hits_pos)
    moreover have "p < sg_end s" using ok(1) p by (simp add: seg_ok_def)
    ultimately show False using Cons.prems(2) [of p] p by (simp add: hits_Cons)
  qed
  moreover have "hits p segs \<le> 1" for p using Cons.prems(2) [of p] by (simp add: hits_Cons)
  ultimately show ?case using Cons.IH ok(2) by auto
qed simp

lemma boot_pieces:
  assumes "list_all seg_ok segs" "partition_of base tot segs" "base \<le> tot" "pt_exact t {}" "pt_total t = tot"
  shows "pt_total (prefill base segs t) = tot \<and> pt_exact (prefill base segs t) (stored_in base segs)"
proof -
  let ?rs = "(0, base) # map (\<lambda>s. (sg_start s, sg_written s)) segs"
  have st: "range_bytes ?rs = stored_in base segs"
    by (auto simp: range_bytes_segs stored_in_def in_set_conv_nth Bex_def)
  have "hits p segs \<le> 1" for p using assms(2) by (simp add: partition_of_def)
  then have d: "ranges_disjoint (map (\<lambda>s. (sg_start s, sg_written s)) segs)" by (rule ranges_disjoint_segs [OF assms(1)])
  have in_tot: "base \<le> p \<and> p < tot" if "p \<in> range_bytes (map (\<lambda>s. (sg_start s, sg_written s)) segs)" for p
  proof -
    obtain i where i: "i < length segs" "sg_start (segs ! i) \<le> p" "p < sg_start (segs ! i) + sg_written (segs ! i)"
      using \<open>p \<in> _\<close> by (auto simp: range_bytes_segs in_set_conv_nth)
    with assms(1) have "p < sg_end (segs ! i)" using list_all_nth [of seg_ok segs i] by (simp add: seg_ok_def)
    with i show ?thesis using partition_bounds [OF assms(2)] by blast
  qed
  then have "{0..<0 + base} \<inter> range_bytes (map (\<lambda>s. (sg_start s, sg_written s)) segs) = {}" by fastforce
  with d have "ranges_disjoint ?rs" by simp
  from add_ranges_exact [OF assms(4) _ this] have
    "pt_exact (prefill base segs t) (range_bytes ?rs \<inter> {..<tot}) \<and> pt_total (prefill base segs t) = tot"
    by (simp add: prefill_ranges assms(5) del: range_bytes.simps add_ranges.simps)
  moreover have "range_bytes ?rs \<inter> {..<tot} = range_bytes ?rs" using in_tot assms(3) by auto
  ultimately show ?thesis by (simp only: st)
qed

text \<open>A writer that starts from a table whose marks are right, before its control file is saved.\<close>

lemma boot_winv:
  assumes segs: "list_all seg_ok segs" "partition_of base tot segs" "base \<le> tot"
      "\<And>s. s \<in> set segs \<Longrightarrow> sg_queued s \<longleftrightarrow> \<not> sg_done s"
    and content: "length content = tot" "\<And>p. p \<in> stored_in base segs \<Longrightarrow> right content file p"
    and opts: "0 < so_min_split_size opts"
    and pieces: "\<And>t. pieces = Some t \<Longrightarrow> pt_exact t {} \<and> pt_total t = tot"
  shows "winv content ((boot_writer now file cf url tot opts pieces base segs)\<lparr>w_ctrl := None\<rparr>)"
proof -
  let ?w = "(boot_writer now file cf url tot opts pieces base segs)\<lparr>w_ctrl := None\<rparr>"
  have t: "tbl ?w" using boot_tbl [OF segs(1,2,4)] by simp
  have f: "w_base ?w = base" "w_segs ?w = segs" "w_total ?w = tot" "w_file ?w = file" "w_durable ?w = file"
    "w_todo ?w = sum_list (map seg_remaining segs)" "w_slot ?w = None" "w_sync ?w = None" "w_opts ?w = opts"
    "w_pieces ?w = map_option (prefill base segs) pieces" "w_finished ?w = (w_todo ?w = 0)"
    "w_completed ?w = base + (tot - base - w_todo ?w)"
    by (simp_all add: boot_writer_def Let_def)
  have "w_todo ?w \<le> tot - base"
  proof -
    have "sum_list (map seg_remaining segs) \<le> sum_list (map (\<lambda>s. sg_end s - sg_start s) segs)"
      by (rule sum_list_mono) (simp add: seg_remaining_def)
    then have "sum_list (map seg_remaining segs) \<le> tot - base" by (simp add: partition_length [OF segs(2)])
    then show ?thesis by (simp add: f)
  qed
  then have "counts_ok ?w"
    using segs(3) opts boot_pieces [OF segs(1-3)] pieces unfolding counts_ok_def f(1-3,9-12) by auto
  moreover have "disk_ok content ?w" using content(2) unfolding disk_ok_def f(1,2,4,5,7,8) by simp
  ultimately show ?thesis using t content(1) unfolding winv_def f(3) by blast
qed

section \<open>Starting and resuming\<close>

lemma resumed_ok: "cs_s s \<le> cs_e s \<Longrightarrow> seg_ok (resumed_seg n s) \<and> (sg_queued (resumed_seg n s) \<longleftrightarrow> \<not> sg_done (resumed_seg n s))"
  by (auto simp: seg_ok_def resumed_seg_def Let_def)

lemma stored_resumed:
  assumes "\<And>s. s \<in> set ss \<Longrightarrow> cs_s s + cs_w s \<le> cs_e s"
  shows "stored_in base (map (resumed_seg n) ss) = {p. p < base \<or> (\<exists>s \<in> set ss. cs_s s \<le> p \<and> p < cs_s s + cs_w s)}"
proof -
  have w: "min (cs_w s) (cs_e s - cs_s s) = cs_w s" if "s \<in> set ss" for s using assms [OF that] by auto
  show ?thesis unfolding stored_in_def
  proof (intro set_eqI iffI; unfold mem_Collect_eq)
    fix p assume "p < base \<or> (\<exists>i<length (map (resumed_seg n) ss).
        sg_start (map (resumed_seg n) ss ! i) \<le> p \<and>
        p < sg_start (map (resumed_seg n) ss ! i) + sg_written (map (resumed_seg n) ss ! i))"
    then show "p < base \<or> (\<exists>s \<in> set ss. cs_s s \<le> p \<and> p < cs_s s + cs_w s)"
    proof (elim disjE exE conjE)
      fix i assume i: "i < length (map (resumed_seg n) ss)" "sg_start (map (resumed_seg n) ss ! i) \<le> p"
        "p < sg_start (map (resumed_seg n) ss ! i) + sg_written (map (resumed_seg n) ss ! i)"
      then have "ss ! i \<in> set ss" by simp
      moreover have "cs_s (ss ! i) \<le> p \<and> p < cs_s (ss ! i) + cs_w (ss ! i)"
        using i w [OF calculation] by simp
      ultimately show ?thesis by blast
    qed simp
  next
    fix p assume "p < base \<or> (\<exists>s \<in> set ss. cs_s s \<le> p \<and> p < cs_s s + cs_w s)"
    then show "p < base \<or> (\<exists>i<length (map (resumed_seg n) ss).
        sg_start (map (resumed_seg n) ss ! i) \<le> p \<and>
        p < sg_start (map (resumed_seg n) ss ! i) + sg_written (map (resumed_seg n) ss ! i))"
    proof (elim disjE bexE conjE)
      fix s assume s: "s \<in> set ss" "cs_s s \<le> p" "p < cs_s s + cs_w s"
      then obtain i where i: "i < length ss" "ss ! i = s" by (auto simp: in_set_conv_nth)
      then have "sg_start (map (resumed_seg n) ss ! i) = cs_s s \<and> sg_written (map (resumed_seg n) ss ! i) = cs_w s"
        using w [OF s(1)] by simp
      with s i show ?thesis by (intro disjI2 exI [of _ i]) simp
    qed simp
  qed
qed

lemma ctrl_ok_full: "ctrl_ok tot c \<Longrightarrow> sc_base c = tot \<Longrightarrow> sc_segs c = []"
proof (rule ccontr)
  assume c: "ctrl_ok tot c" "sc_base c = tot" "sc_segs c \<noteq> []"
  then obtain s where s: "s \<in> set (sc_segs c)" by (meson ex_in_conv set_empty)
  then obtain i where i: "i < length (sc_segs c)" "sc_segs c ! i = s" by (auto simp: in_set_conv_nth)
  have "cs_s s < cs_e s" using c(1) s by (simp add: ctrl_ok_def)
  then have "0 < hits (cs_s s) (map (resumed_seg 0) (sc_segs c))"
    using i by (intro hits_pos [of i]) simp_all
  with c(1,2) show False by (auto simp: ctrl_ok_def partition_of_def split: if_splits)
qed

text \<open>A control file that is backed by the file is used, and nothing it claims is lost.\<close>

lemma usable_backed:
  assumes "backed content file c" "sc_base c < length content"
  shows "usable_ctrl (length content) (length file) (Some c) = Some (sc_base c, sort_key cs_s (sc_segs c))"
proof -
  let ?t = "sort_key cs_s (sc_segs c)"
  have c: "ctrl_ok (length content) c" using assms(1) by (simp add: backed_def)
  have seg: "cs_s s < cs_e s" "cs_s s + cs_w s \<le> cs_e s" if "s \<in> set (sc_segs c)" for s
    using c that by (auto simp: ctrl_ok_def)
  have len: "cs_w s = 0 \<or> cs_s s + cs_w s \<le> length file" if s: "s \<in> set (sc_segs c)" for s
  proof (cases "cs_w s = 0")
    case False
    with s have "cs_s s + cs_w s - 1 \<in> claims c" by (auto simp: claims_def intro!: bexI [of _ s])
    with assms(1) have "cs_s s + cs_w s - 1 < length file" by (auto simp: backed_def right_def)
    then show ?thesis using False by linarith
  qed simp
  have "tile_cursor (sc_base c) ?t = Some (length content)"
  proof (rule sorted_tiles)
    show "hits p (map (resumed_seg 0) ?t) = (if sc_base c \<le> p \<and> p < length content then 1 else 0)" for p
      using c hits_mset [of "map (resumed_seg 0) ?t" "map (resumed_seg 0) (sc_segs c)" p]
      by (simp add: ctrl_ok_def partition_of_def)
  qed (use seg assms(2) in auto)
  moreover have "?t \<noteq> []"
  proof
    assume "?t = []"
    then have "sc_segs c = []" by (metis length_0_conv length_sort)
    with c assms(2) show False by (auto simp: ctrl_ok_def partition_of_def dest: spec [of _ "sc_base c"])
  qed
  moreover have "filter (\<lambda>s. cs_s s < cs_e s) (sc_segs c) = sc_segs c" using seg by (auto intro: filter_True)
  ultimately show ?thesis
    using c len assms(2) by (simp add: usable_ctrl_def Let_def ctrl_ok_def list_all_iff)
qed

lemma pt_total_new: "pt_total (pt_new tot n) = tot"
  by (simp add: pt_new_def Let_def)

lemma boot_fields:
  "w_slot (boot_writer now file cf url tot opts pieces base segs) = None"
  "w_sync (boot_writer now file cf url tot opts pieces base segs) = None"
  "stored (boot_writer now file cf url tot opts pieces base segs) = stored_in base segs"
  by (simp_all add: boot_writer_def Let_def)

lemma start_loop_winv: "winv content w \<Longrightarrow> winv content (start_loop (w\<lparr>w_notified := b\<rparr>))"
  by (simp add: start_loop_def winv_def counts_ok_def disk_ok_def)

text \<open>What launching gives, from a table whose marks are right.\<close>

lemma launch_from:
  assumes "bootstrap now file cf url tot opts (map_option (pt_new tot) piece_len) True =
      Inr (boot_writer now file' cf url tot opts (map_option (pt_new tot) piece_len) base segs)"
    and "list_all seg_ok segs" "partition_of base tot segs" "base \<le> tot"
      "\<And>s. s \<in> set segs \<Longrightarrow> sg_queued s \<longleftrightarrow> \<not> sg_done s"
    and "length content = tot" "\<And>p. p \<in> stored_in base segs \<Longrightarrow> right content file' p"
    and "0 < so_min_split_size opts"
  shows "\<exists>w. launch now file cf url tot opts piece_len = Some w \<and> winv content w \<and>
    stored w = stored_in base segs \<and> w_ctrl w \<noteq> None \<and> w_notified w = w_finished w"
proof -
  let ?w = "boot_writer now file' cf url tot opts (map_option (pt_new tot) piece_len) base segs"
  have "winv content (?w\<lparr>w_ctrl := None\<rparr>)"
    by (rule boot_winv [OF assms(2-8)]) (auto simp: pt_exact_new pt_total_new)
  then have s: "winv content (?w\<lparr>w_ctrl := None, w_durable := w_file ?w\<rparr>)"
    using winv_synced [of content "?w\<lparr>w_ctrl := None\<rparr>"] by simp
  let ?v = "?w\<lparr>w_durable := w_file ?w, w_ctrl := Some (serialize_ctrl ?w), w_last_save := now\<rparr>"
  have "serialize_ctrl (?w\<lparr>w_ctrl := None, w_durable := w_file ?w\<rparr>) = serialize_ctrl ?w"
    by (simp add: serialize_ctrl_def)
  then have v: "winv content ?v"
    using winv_saved [OF s, of now] by simp
  have "serialize_ctrl (?w\<lparr>w_durable := w_file ?w\<rparr>) = serialize_ctrl ?w"
    by (simp add: serialize_ctrl_def)
  then have save: "save_ctrl_forced now (\<lambda>_. True) True True ?w = (True, ?v)"
    by (simp add: save_ctrl_forced_def Let_def boot_fields)
  let ?u = "?v\<lparr>w_notified := w_finished ?v\<rparr>"
  have "?u = (if w_finished ?v then ?v\<lparr>w_notified := True\<rparr> else ?v)"
    by (simp add: boot_writer_def Let_def)
  then have "launch now file cf url tot opts piece_len = Some (start_loop ?u)"
    by (simp add: launch_def assms(1) save)
  moreover have "stored (start_loop ?u) = stored_in base segs" using boot_fields(3) by (simp add: start_loop_def)
  ultimately show ?thesis using start_loop_winv [OF v, of "w_finished ?v"] by (simp add: start_loop_def)
qed

lemma launch_fresh:
  assumes "usable_ctrl (length content) (length file) cf = None"
    and "\<And>p. p < min (length file) (length content) \<Longrightarrow> file ! p = content ! p"
    and "0 < so_min_split_size opts"
  shows "\<exists>w. launch now file cf url (length content) opts piece_len = Some w \<and> winv content w \<and>
    stored w = {..<min (length file) (length content)} \<and> w_ctrl w \<noteq> None \<and> w_notified w = w_finished w"
proof -
  let ?tot = "length content"
  let ?base = "min (length file) ?tot"
  let ?rem = "?tot - ?base"
  let ?n = "initial_nseg opts ?rem"
  define segs where "segs = (if 0 < ?rem then fresh_segs now ?base ?rem ?n ?base [1..<Suc ?n] else [])"
  define file' where "file' = (if ?tot < length file then set_len ?tot file else file)"
  have hits: "hits p segs = (if ?base \<le> p \<and> p < ?tot then 1 else 0)" for p
    using fresh_hits(1) [of ?n ?rem 0 p now ?base] initial_nseg_bounds [OF _ assms(3), of ?rem]
    by (auto simp: segs_def)
  have fresh: "list_all (\<lambda>s. sg_written s = 0 \<and> \<not> sg_done s \<and> sg_queued s \<and> sg_start s < sg_end s) segs"
    using fresh_hits(2) [of ?n ?rem 0 now ?base] initial_nseg_bounds [OF _ assms(3), of ?rem]
    by (auto simp: segs_def)
  have ok: "list_all seg_ok segs" "\<And>s. s \<in> set segs \<Longrightarrow> sg_queued s \<longleftrightarrow> \<not> sg_done s"
    using fresh by (auto simp: list_all_iff seg_ok_def)
  have st: "stored_in ?base segs = {..<?base}"
    using fresh by (auto simp: stored_in_def list_all_length)
  have boot: "bootstrap now file cf url ?tot opts (map_option (pt_new ?tot) piece_len) True =
      Inr (boot_writer now file' cf url ?tot opts (map_option (pt_new ?tot) piece_len) ?base segs)"
    using assms(1,3) by (simp add: bootstrap_def Let_def segs_def file'_def)
  have right: "right content file' p" if "p \<in> stored_in ?base segs" for p
    using that assms(2) [of p] by (auto simp: st right_def file'_def nth_set_len)
  have part: "partition_of ?base ?tot segs" using hits by (simp add: partition_of_def)
  show ?thesis
    using launch_from [OF boot ok(1) part _ ok(2) refl right assms(3)] st by simp
qed

lemma launch_resumed:
  assumes "backed content file c" "0 < so_min_split_size opts"
  shows "\<exists>w. launch now file (Some c) url (length content) opts piece_len = Some w \<and> winv content w \<and>
    stored w = claims c \<and> w_ctrl w \<noteq> None \<and> w_notified w = w_finished w"
proof (cases "sc_base c < length content")
  case True
  let ?tot = "length content"
  let ?t = "sort_key cs_s (sc_segs c)"
  let ?segs = "map (resumed_seg now) ?t"
  have c: "ctrl_ok ?tot c" using assms(1) by (simp add: backed_def)
  have seg: "cs_s s < cs_e s" "cs_s s + cs_w s \<le> cs_e s" if "s \<in> set ?t" for s
    using c that by (auto simp: ctrl_ok_def)
  have boot: "bootstrap now file (Some c) url ?tot opts (map_option (pt_new ?tot) piece_len) True =
      Inr (boot_writer now file (Some c) url ?tot opts (map_option (pt_new ?tot) piece_len) (sc_base c) ?segs)"
    by (simp add: bootstrap_def usable_backed [OF assms(1) True])
  have st: "stored_in (sc_base c) ?segs = claims c"
    using stored_resumed [of ?t "sc_base c" now] seg by (simp add: claims_def)
  have ok: "list_all seg_ok ?segs" "\<And>s. s \<in> set ?segs \<Longrightarrow> sg_queued s \<longleftrightarrow> \<not> sg_done s"
    using resumed_ok seg by (auto simp: list_all_iff less_imp_le)
  have "tile_cursor (sc_base c) ?t = Some ?tot"
    using usable_backed [OF assms(1) True] by (auto simp: usable_ctrl_def Let_def split: if_splits)
  then have part: "partition_of (sc_base c) ?tot ?segs"
    using tile_cursor_hits [of "sc_base c" ?t ?tot _ now] by (simp add: partition_of_def)
  have right: "right content file p" if "p \<in> stored_in (sc_base c) ?segs" for p
    using that assms(1) by (simp add: st backed_def)
  show ?thesis
    using launch_from [OF boot ok(1) part _ ok(2) refl right assms(2)] st True by simp
next
  case False
  have c: "ctrl_ok (length content) c" using assms(1) by (simp add: backed_def)
  with False have b: "sc_base c = length content" by (simp add: ctrl_ok_def)
  have segs: "sc_segs c = []" by (rule ctrl_ok_full [OF c b])
  have cl: "claims c = {..<length content}" by (auto simp: claims_def b segs)
  have all: "right content file p" if "p < length content" for p
    using assms(1) that by (auto simp: backed_def cl)
  have "length content \<le> length file"
    using all [of "length content - 1"] by (cases "length content") (auto simp: right_def)
  then have m: "min (length file) (length content) = length content" by simp
  have "usable_ctrl (length content) (length file) (Some c) = None"
    by (simp add: usable_ctrl_def segs Let_def)
  from launch_fresh [OF this _ assms(2), of now url piece_len] all show ?thesis
    by (auto simp: m cl right_def)
qed

section \<open>Runs of the writer\<close>

text \<open>
  The bytes a worker sends come from the remote file. \<open>survives\<close>: after a crash, the file has at
  least the right bytes of the last sync; everything else may be lost or garbled.
\<close>

definition genuine :: "bytes \<Rightarrow> to_writer \<Rightarrow> bool" where
  "genuine content cmd = (case cmd of
     Write _ offset data _ \<Rightarrow> data = take (length data) (drop offset content)
   | _ \<Rightarrow> True)"

definition survives :: "bytes \<Rightarrow> bytes \<Rightarrow> bytes \<Rightarrow> bool" where
  "survives content dur file \<longleftrightarrow> (\<forall>p. right content dur p \<longrightarrow> right content file p)"

inductive split_reach :: "bytes \<Rightarrow> writer \<Rightarrow> bool" for content where
  fresh: "\<lbrakk>usable_ctrl (length content) (length file) cf = None;
      \<forall>p < min (length file) (length content). file ! p = content ! p; 0 < so_min_split_size opts;
      launch now file cf url (length content) opts n = Some w\<rbrakk> \<Longrightarrow> split_reach content w"
| message: "\<lbrakk>split_reach content w; genuine content cmd\<rbrakk> \<Longrightarrow> split_reach content (writer_step now cmd w)"
| sync: "split_reach content w \<Longrightarrow> split_reach content (sync_step ok w)"
| preserve: "split_reach content w \<Longrightarrow> split_reach content (snd (finish now Preserve oks w))"
| resume: "\<lbrakk>split_reach content w; w_ctrl w = Some c; survives content (w_durable w) file;
      0 < so_min_split_size opts; launch now file (Some c) url (length content) opts n = Some w'\<rbrakk> \<Longrightarrow>
    split_reach content w'"

lemma next_work_winv:
  assumes "winv content w"
  shows "winv content (snd (next_work now rel failures w))"
proof -
  obtain a w' where nw: "next_work now rel failures w = (a, w')" by force
  have "tbl w" "0 < so_min_split_size (w_opts w)" using assms by (simp_all add: winv_def counts_ok_def)
  from next_work_outcome [OF this nw] have "evolves w w'" by blast
  from winv_evolves [OF assms this] nw show ?thesis by simp
qed

lemma writer_step_winv:
  assumes "winv content w" "genuine content cmd"
  shows "winv content (writer_step now cmd w)"
proof -
  have t: "tbl w" "0 < so_min_split_size (w_opts w)" using assms(1) by (simp_all add: winv_def counts_ok_def)
  show ?thesis
  proof (cases cmd)
    case (Write sid offset data fault)
    have "data = take (length data) (drop offset content)"
      using assms(2) unfolding genuine_def Write to_writer.case .
    from on_write_winv [OF assms(1) this] show ?thesis by (simp add: writer_step_def Write)
  next
    case (Next rel failures)
    then show ?thesis using next_work_winv [OF assms(1)] by (simp add: writer_step_def)
  next
    case (Fatal e)
    then show ?thesis using set_fatal_winv [OF assms(1)] by (simp add: writer_step_def)
  next
    case SaveCtrl
    have r: "evolves w (reclaim_stalled now w)" by (rule reclaim_evolves [OF t(1)])
    have "evolves w (watchdog_requeue_stalled now (reclaim_stalled now w))"
      by (rule evolves_trans [OF r watchdog_evolves [OF evolves_tbl [OF r]]])
    from save_ctrl_periodic_winv [OF winv_evolves [OF assms(1) this]] SaveCtrl show ?thesis
      by (simp add: writer_step_def)
  next
    case (AdaptiveAction act)
    then show ?thesis using winv_evolves [OF assms(1) adaptive_evolves [OF t]] by (simp add: writer_step_def)
  next
    case WorkerJoined
    then show ?thesis using winv_evolves [OF assms(1) evolves_aux(1) [OF t(1)]] by (simp add: writer_step_def)
  qed
qed

lemma finish_preserve_winv:
  assumes "winv content w"
  shows "winv content (snd (finish now Preserve oks w))"
proof -
  have b: "winv content (barrier oks w)" by (rule barrier_winv [OF assms])
  from save_ctrl_forced_winv [OF winv_synced [OF b]] b show ?thesis by (simp add: finish_def Let_def)
qed

text \<open>What the operations keep: the control file is there, and a notification has a reason.\<close>

definition announced :: "writer \<Rightarrow> bool" where
  "announced w \<longleftrightarrow> w_ctrl w \<noteq> None \<and> (w_notified w \<longrightarrow> w_finished w \<or> w_fatal w \<noteq> None)"

lemma frame_notified:
  assumes "evolves w w'"
  shows "w_notified w' = w_notified w"
proof -
  have "frame w' = frame w" using assms unfolding evolves_def by blast
  from arg_cong [OF this, of w_notified] show ?thesis by (simp add: frame_def)
qed

lemma announced_evolves: "announced w \<Longrightarrow> evolves w w' \<Longrightarrow> announced w'"
  using evolves_fields(3,8,9) [of w w'] frame_notified [of w w'] by (simp add: announced_def)

lemma announced_sync: "announced w \<Longrightarrow> announced (sync_step ok w)"
  by (auto simp: announced_def sync_step_def split: option.splits prod.splits bool.splits)

lemma announced_barrier: "announced w \<Longrightarrow> announced (barrier oks w)"
proof -
  have "announced w \<Longrightarrow> announced (fold (\<lambda>k. sync_step (oks k)) ks w)" for ks
    by (induction ks arbitrary: w) (simp_all add: announced_sync)
  then show "announced w \<Longrightarrow> announced (barrier oks w)" by (simp add: barrier_def)
qed

lemma announced_forced: "announced w \<Longrightarrow> announced (snd (save_ctrl_forced now oks a b w))"
  using announced_barrier [of w oks] by (simp add: save_ctrl_forced_def Let_def announced_def)

lemma announced_periodic: "announced w \<Longrightarrow> announced (save_ctrl_periodic now w)"
  by (simp add: save_ctrl_periodic_def submit_def announced_def)

lemma announced_fatal: "announced w \<Longrightarrow> announced (set_fatal e w)"
  by (simp add: set_fatal_def announced_def)

lemma announced_write: "announced w \<Longrightarrow> announced (on_write now sid off data fault w)"
proof -
  assume w: "announced w"
  have "announced (w\<lparr>w_file := f\<rparr>)" "announced (w\<lparr>w_file := f, w_segs := ss, w_completed := c, w_pieces := ps,
      w_todo := td, w_last_progress := t\<rparr>)" "announced (w\<lparr>w_file := f, w_segs := ss, w_completed := c,
      w_pieces := ps, w_todo := td, w_last_progress := t, w_finished := True, w_notified := True\<rparr>)" for f ss c ps td t
    using w by (simp_all add: announced_def)
  then show ?thesis using w announced_fatal unfolding on_write_def Let_def by (auto split: option.splits)
qed

lemma announced_step:
  assumes "tbl w" "0 < so_min_split_size (w_opts w)" "announced w"
  shows "announced (writer_step now cmd w)"
proof (cases cmd)
  case (Next rel failures)
  obtain a w' where nw: "next_work now rel failures w = (a, w')" by force
  from next_work_outcome [OF assms(1,2) nw] have "evolves w w'" by blast
  from announced_evolves [OF assms(3) this] Next nw show ?thesis by (simp add: writer_step_def)
next
  case SaveCtrl
  have r: "evolves w (reclaim_stalled now w)" by (rule reclaim_evolves [OF assms(1)])
  have "evolves w (watchdog_requeue_stalled now (reclaim_stalled now w))"
    by (rule evolves_trans [OF r watchdog_evolves [OF evolves_tbl [OF r]]])
  from announced_periodic [OF announced_evolves [OF assms(3) this]] SaveCtrl show ?thesis
    by (simp add: writer_step_def)
next
  case (AdaptiveAction act)
  then show ?thesis using announced_evolves [OF assms(3) adaptive_evolves [OF assms(1,2)]] by (simp add: writer_step_def)
qed (use assms(3) announced_write announced_fatal in \<open>simp_all add: writer_step_def announced_def\<close>)

lemma split_reach_inv: "split_reach content w \<Longrightarrow> winv content w \<and> announced w"
proof (induction rule: split_reach.induct)
  case (fresh f cf opts now url n w)
  then show ?case using launch_fresh [of content f cf opts now url n] by (auto simp: announced_def)
next
  case (message w cmd now)
  then have w: "winv content w" "announced w" by blast+
  then have "tbl w" "0 < so_min_split_size (w_opts w)" by (simp_all add: winv_def counts_ok_def)
  from announced_step [OF this w(2)] writer_step_winv [OF w(1) message.hyps(2)] show ?case by blast
next
  case (sync w ok)
  then show ?case by (simp add: sync_step_winv announced_sync)
next
  case (preserve w now oks)
  have "announced (barrier oks w)" using preserve announced_barrier by blast
  then have "announced ((barrier oks w)\<lparr>w_durable := w_file (barrier oks w)\<rparr>)" by (simp add: announced_def)
  from announced_forced [OF this] \<open>announced (barrier oks w)\<close> have "announced (snd (finish now Preserve oks w))"
    by (simp add: finish_def Let_def)
  with preserve finish_preserve_winv show ?case by blast
next
  case (resume w c f opts now url n w')
  have "backed content (w_durable w) c" using resume by (simp add: winv_def disk_ok_def)
  then have "backed content f c" using resume(3) backed_mono unfolding survives_def by blast
  then show ?case using launch_resumed [of content f c opts now url n] resume by (auto simp: announced_def)
qed

lemmas split_reach_winv = split_reach_inv [THEN conjunct1]

end
