(* ===== verification/Split_Claims.thy ===== *)
theory Split_Claims
  imports Split_Resume
begin

text \<open>
  What the split download guarantees: the invariant of its writer, the content of a finished and of
  a discarded file, resumption after crashes, the dispatch of work and the workers' budgets.
\<close>

section \<open>The prefix kept for the single connection\<close>

definition written_in :: "seg list \<Rightarrow> nat \<Rightarrow> bool" where
  "written_in segs p \<longleftrightarrow> (\<exists>s \<in> set segs. sg_start s \<le> p \<and> p < sg_start s + sg_written s)"

lemma written_in_stored: "p \<in> stored_in base segs \<longleftrightarrow> p < base \<or> written_in segs p"
  by (auto simp: stored_in_def written_in_def in_set_conv_nth Bex_def)

lemma hits_ge: "s \<in> set segs \<Longrightarrow> sg_start s \<le> p \<Longrightarrow> p < sg_end s \<Longrightarrow> 1 \<le> hits p segs"
  using hits_pos by (fastforce simp: in_set_conv_nth)

lemma prefix_loop_exact:
  assumes "sorted (map sg_start ss)" "list_all seg_ok ss" "\<And>p. hits p ss \<le> 1"
    and "\<And>s. s \<in> set ss \<Longrightarrow> sg_start s < sg_end s \<Longrightarrow> cur \<le> sg_start s"
  shows "cur \<le> prefix_loop cur ss \<and> (\<forall>p. cur \<le> p \<and> p < prefix_loop cur ss \<longrightarrow> written_in ss p) \<and>
    \<not> written_in ss (prefix_loop cur ss)"
  using assms
proof (induction ss arbitrary: cur)
  case Nil
  then show ?case by (simp add: written_in_def)
next
  case (Cons s ss)
  have ok: "seg_ok s" "list_all seg_ok ss" and srt: "sorted (map sg_start ss)"
    and above: "\<And>t. t \<in> set ss \<Longrightarrow> sg_start s \<le> sg_start t"
    using Cons.prems(1,2) by auto
  have h: "hits p ss \<le> 1" "sg_start s \<le> p \<Longrightarrow> p < sg_end s \<Longrightarrow> hits p ss = 0" for p
    using Cons.prems(3) [of p] by (simp_all add: hits_Cons split: if_splits)
  have sep: "sg_end s \<le> sg_start t" if t: "t \<in> set ss" "sg_start t < sg_end t" "sg_start s < sg_end s" for t
    using h(2) [of "sg_start t"] hits_ge [OF t(1), of "sg_start t"] above [OF t(1)] t(2) by fastforce
  have bounds: "sg_start t + sg_written t \<le> sg_end t" if "t \<in> set ss" for t
    using ok(2) that by (auto simp: list_all_iff seg_ok_def)
  have wr: "written_in (s # ss) p \<longleftrightarrow> (sg_start s \<le> p \<and> p < sg_start s + sg_written s) \<or> written_in ss p" for p
    by (auto simp: written_in_def)
  show ?case
  proof (cases "cur < sg_start s")
    case True
    then have "\<not> written_in (s # ss) cur" using above by (fastforce simp: written_in_def)
    with True show ?thesis by auto
  next
    case False
    let ?reach = "sg_start s + sg_written s"
    have le: "?reach \<le> sg_end s" using ok(1) by (simp add: seg_ok_def)
    define cur' where "cur' = (if cur < ?reach then ?reach else cur)"
    have cur: "cur' = cur + sg_written s"
      using Cons.prems(4) [of s] False le unfolding cur'_def by (cases "sg_start s < sg_end s") auto
    have start: "cur = sg_start s" if "sg_start s < sg_end s" using Cons.prems(4) [of s] False that by simp
    show ?thesis
    proof (cases "?reach < sg_end s")
      case True
      then have c: "cur = sg_start s" using start by simp
      have "\<not> written_in ss cur'"
      proof
        assume "written_in ss cur'"
        then obtain t where t: "t \<in> set ss" "sg_start t \<le> cur'" "cur' < sg_start t + sg_written t"
          by (auto simp: written_in_def)
        then have "sg_end s \<le> sg_start t" using bounds [OF t(1)] sep [OF t(1)] True by simp
        with t c cur True show False by simp
      qed
      then have "\<not> written_in (s # ss) cur'" "\<forall>p. cur \<le> p \<and> p < cur' \<longrightarrow> written_in (s # ss) p"
        using c by (auto simp: wr cur)
      then show ?thesis using True False cur by (simp add: Let_def cur'_def [symmetric])
    next
      case full: False
      have "cur' \<le> prefix_loop cur' ss \<and> (\<forall>p. cur' \<le> p \<and> p < prefix_loop cur' ss \<longrightarrow> written_in ss p) \<and>
          \<not> written_in ss (prefix_loop cur' ss)"
      proof (rule Cons.IH [OF srt ok(2) h(1)])
        fix t assume t: "t \<in> set ss" "sg_start t < sg_end t"
        show "cur' \<le> sg_start t"
        proof (cases "sg_start s < sg_end s")
          case True
          with sep [OF t True] start cur le show ?thesis by simp
        next
          case False
          with cur le Cons.prems(4) [of t] t show ?thesis by simp
        qed
      qed
      moreover have "written_in (s # ss) p" if "cur \<le> p" "p < cur'" for p
        using that cur start le by (cases "sg_start s < sg_end s") (auto simp: wr)
      moreover have "\<not> (sg_start s \<le> q \<and> q < ?reach)" if "cur' \<le> q" for q
        using that cur start le by (cases "sg_start s < sg_end s") auto
      ultimately show ?thesis using full False cur
        by (simp add: Let_def cur'_def [symmetric] wr) (metis leI le_trans le_add1)
    qed
  qed
qed

lemma contiguous_prefix_exact:
  assumes "tbl w"
  shows "(\<forall>p < contiguous_prefix w. p \<in> stored w) \<and> contiguous_prefix w \<notin> stored w"
proof -
  let ?ss = "sort_key sg_start (w_segs w)"
  have p: "partition_of (w_base w) (w_total w) (w_segs w)" and ok: "list_all seg_ok (w_segs w)"
    using assms by (simp_all add: table_ok_def)
  have h: "hits q ?ss = hits q (w_segs w)" for q by (rule hits_mset) simp
  have "w_base w \<le> prefix_loop (w_base w) ?ss \<and>
      (\<forall>p. w_base w \<le> p \<and> p < prefix_loop (w_base w) ?ss \<longrightarrow> written_in ?ss p) \<and>
      \<not> written_in ?ss (prefix_loop (w_base w) ?ss)"
  proof (rule prefix_loop_exact)
    show "list_all seg_ok ?ss" using ok by (simp add: list_all_iff)
    show "hits q ?ss \<le> 1" for q using p by (simp add: h partition_of_def)
    fix s assume "s \<in> set ?ss" "sg_start s < sg_end s"
    then have "1 \<le> hits (sg_start s) (w_segs w)" using hits_ge [of s "w_segs w"] by simp
    then show "w_base w \<le> sg_start s" using p by (auto simp: partition_of_def split: if_splits)
  qed simp
  moreover have "written_in ?ss q \<longleftrightarrow> written_in (w_segs w) q" for q by (simp add: written_in_def)
  ultimately show ?thesis unfolding contiguous_prefix_def written_in_stored by (meson leD leI)
qed

section \<open>Guarantees\<close>

lemma survives_refl: "survives content f f"
  by (simp add: survives_def)

text \<open>
  C4. The writer's invariant. In every reachable state, after any messages, syncs, pauses and
  crashes, each byte beyond the base belongs to exactly one segment and no segment leaves the
  file; an unfinished segment is queued or held by a worker; the segments' remainders sum to
  \<open>todo\<close>, which is zero exactly when the download counts as finished; every byte below a water mark
  is the remote file's byte on disk; and the control file claims only bytes that are durable.
\<close>

theorem split_writer_invariant:
  assumes "split_reach content w"
  shows "(\<forall>p. hits p (w_segs w) = (if w_base w \<le> p \<and> p < length content then 1 else 0)) \<and>
    queue_ok (w_segs w) (w_queue w) \<and>
    w_todo w = sum_list (map seg_remaining (w_segs w)) \<and> (w_finished w \<longleftrightarrow> w_todo w = 0) \<and>
    w_completed w + w_todo w = length content \<and>
    (\<forall>p \<in> stored w. p < length (w_file w) \<and> w_file w ! p = content ! p) \<and>
    (\<exists>c. w_ctrl w = Some c \<and> (\<forall>p \<in> claims c. p < length (w_durable w) \<and> w_durable w ! p = content ! p))"
proof -
  have inv: "length content = w_total w" "tbl w" "counts_ok w" "disk_ok content w"
    and ctrl: "w_ctrl w \<noteq> None"
    using split_reach_inv [OF assms] by (simp_all add: winv_def announced_def)
  have "hits p (w_segs w) = (if w_base w \<le> p \<and> p < length content then 1 else 0)" for p
    using inv(1,2) by (simp add: table_ok_def partition_of_def)
  moreover have "queue_ok (w_segs w) (w_queue w)" "w_todo w = sum_list (map seg_remaining (w_segs w))"
    using inv(2) by (simp_all add: table_ok_def)
  moreover have "w_finished w \<longleftrightarrow> w_todo w = 0" "w_completed w + w_todo w = length content"
    using inv(1,3) by (simp_all add: counts_ok_def)
  moreover have "right content (w_file w) p" if "p \<in> stored w" for p using inv(4) that by (simp add: disk_ok_def)
  moreover have "\<exists>c. w_ctrl w = Some c \<and> (\<forall>p \<in> claims c. right content (w_durable w) p)"
    using inv(4) ctrl by (auto simp: disk_ok_def backed_def)
  ultimately show ?thesis unfolding right_def by blast
qed

text \<open>A small download: four bytes, two segments of two.\<close>

definition demo_opts :: split_options where
  "demo_opts = \<lparr>so_connections = 1, so_min_split_size = 2, so_adaptive = None\<rparr>"

definition demo_start :: writer where
  "demo_start = the (launch 0 [] None ''u'' 4 demo_opts None)"

definition demo_half :: writer where
  "demo_half = writer_step 2 (Write 0 0 [10, 20] None) (writer_step 1 (Next None 0) demo_start)"

definition demo_done :: writer where
  "demo_done = writer_step 4 (Write 1 2 [30, 40] None) (writer_step 3 (Next (Some (0, False)) 0) demo_half)"

lemma demo_launch: "launch 0 [] None ''u'' 4 demo_opts None = Some demo_start"
proof -
  have "launch 0 [] None ''u'' 4 demo_opts None \<noteq> None" by code_simp
  then show ?thesis by (simp add: demo_start_def)
qed

lemma demo_length: "length [10, 20, 30, 40 :: byte] = 4"
  by simp

lemma demo_reach: "split_reach [10, 20, 30, 40] demo_start"
proof (rule split_reach.fresh [of _ "[]" None demo_opts 0 "''u''" None])
  show "launch 0 [] None ''u'' (length [10, 20, 30, 40 :: byte]) demo_opts None = Some demo_start"
    by (simp only: demo_length demo_launch)
qed (simp_all add: usable_ctrl_def demo_opts_def)

lemma demo_half_reach: "split_reach [10, 20, 30, 40] demo_half"
  unfolding demo_half_def by (intro split_reach.message demo_reach) (simp_all add: genuine_def)

lemma demo_done_reach: "split_reach [10, 20, 30, 40] demo_done"
  unfolding demo_done_def by (intro split_reach.message demo_half_reach) (simp_all add: genuine_def)

theorem split_writer_invariant_witness:
  "w_todo demo_half = 2 \<and> w_completed demo_half + w_todo demo_half = 4"
proof -
  have "w_todo demo_half = 2" by code_simp
  with split_writer_invariant [OF demo_half_reach] show ?thesis by simp
qed

definition deliver :: "(nat \<times> to_writer) list \<Rightarrow> writer \<Rightarrow> writer" where
  "deliver cmds w = fold (\<lambda>(now, cmd). writer_step now cmd) cmds w"

lemma deliver_reach:
  "split_reach content w \<Longrightarrow> list_all (\<lambda>(_, cmd). genuine content cmd) cmds \<Longrightarrow> split_reach content (deliver cmds w)"
  unfolding deliver_def by (induction cmds arbitrary: w) (auto intro: split_reach.message)

lemma finished_step:
  assumes "winv content w" "w_finished w"
  shows "w_finished (writer_step now cmd w)"
proof -
  have t: "tbl w" "0 < so_min_split_size (w_opts w)" using assms(1) by (simp_all add: winv_def counts_ok_def)
  show ?thesis
  proof (cases cmd)
    case (Write sid off data fault)
    then show ?thesis using assms(2)
      by (auto simp: writer_step_def on_write_def set_fatal_def Let_def split: option.splits)
  next
    case (Next rel failures)
    obtain a w' where nw: "next_work now rel failures w = (a, w')" by force
    from next_work_outcome [OF t nw] have "evolves w w'" by blast
    from evolves_fields(9) [OF this] assms(2) nw Next show ?thesis by (simp add: writer_step_def)
  next
    case (AdaptiveAction act)
    then show ?thesis using evolves_fields(9) [OF adaptive_evolves [OF t]] assms(2) by (simp add: writer_step_def)
  qed (use assms(2) in \<open>simp_all add: writer_step_def set_fatal_def reclaim_stalled_def
    watchdog_requeue_stalled_def save_ctrl_periodic_def submit_def\<close>)
qed

lemma deliver_finished:
  "split_reach content w \<Longrightarrow> list_all (\<lambda>(_, cmd). genuine content cmd) cmds \<Longrightarrow> w_finished w \<Longrightarrow>
    w_finished (deliver cmds w)"
proof (induction cmds arbitrary: w)
  case (Cons c cs)
  obtain now cmd where c: "c = (now, cmd)" by force
  have "split_reach content (writer_step now cmd w)" using Cons.prems c by (auto intro: split_reach.message)
  moreover have "w_finished (writer_step now cmd w)"
    by (rule finished_step [OF split_reach_winv [OF Cons.prems(1)] Cons.prems(3)])
  ultimately show ?case using Cons.IH [of "writer_step now cmd w"] Cons.prems(2) by (simp add: deliver_def c)
qed (simp add: deliver_def)

lemma right_take: "(\<And>p. p < n \<Longrightarrow> right content f p) \<Longrightarrow> n \<le> length content \<Longrightarrow> take n f = take n content"
proof -
  assume r: "\<And>p. p < n \<Longrightarrow> right content f p" and n: "n \<le> length content"
  have "n \<le> length f" using r [of "n - 1"] by (cases n) (auto simp: right_def)
  with r n show ?thesis by (intro nth_equalityI) (auto simp: right_def)
qed

lemma set_len_take: "n \<le> length f \<Longrightarrow> set_len n f = take n f"
  by (simp add: set_len_def)

lemma finish_success_content:
  assumes "winv content w" "w_finished w" "finish now Success oks w = (True, w')"
  shows "w_file w' = content" "take (length content) (w_durable w') = content"
proof -
  let ?b = "barrier oks w"
  have b: "winv content ?b" by (rule barrier_winv [OF assms(1)])
  have fin: "w_finished ?b"
  proof -
    have "w_finished (fold (\<lambda>k. sync_step (oks k)) ks w) = w_finished w" for ks
      by (induction ks arbitrary: w)
        (simp_all add: sync_step_def split: option.splits prod.splits bool.splits)
    then show ?thesis using assms(2) by (simp add: barrier_def)
  qed
  have all: "right content (w_file ?b) p" if "p < length content" for p
  proof -
    have "tbl ?b" using b by (simp add: winv_def)
    moreover have "w_todo ?b = 0" "p < w_total ?b" using b fin that by (simp_all add: winv_def counts_ok_def)
    ultimately have "p \<in> stored ?b" by (rule todo_zero)
    with b show ?thesis by (simp add: winv_def disk_ok_def)
  qed
  have take: "take (length content) (w_file ?b) = content"
    using right_take [of "length content" content "w_file ?b"] all by simp
  then have "length content \<le> length (w_file ?b)" by (metis length_take min.cobounded2 min.commute)
  then have "set_len (w_total ?b) (w_file ?b) = content"
    using take b by (simp add: set_len_take winv_def)
  moreover have "w' = ?b\<lparr>w_durable := w_file ?b, w_file := set_len (w_total ?b) (w_file ?b),
      w_ctrl := (if oks 7 then None else w_ctrl ?b)\<rparr>"
    using assms(3) by (auto simp: finish_def Let_def split: if_splits)
  ultimately show "w_file w' = content" "take (length content) (w_durable w') = content" using take by simp_all
qed

text \<open>
  C5. Success means the right file. When the main loop was woken (the writer announced something), it
  was not cancelled and no fatal error was raised, then after whatever messages were still in
  flight, ending the writer in the mode the main loop chooses leaves exactly the remote file, with
  its bytes synced to the disk.
\<close>

theorem split_success_content:
  assumes "split_reach content w" "w_notified w" "w_fatal w = None"
    and "list_all (\<lambda>(_, cmd). genuine content cmd) cmds"
    and "finish now (final_mode False (w_fatal w)) oks (deliver cmds w) = (True, w')"
  shows "w_file w' = content \<and> take (length content) (w_durable w') = content"
proof -
  have "w_finished w" using split_reach_inv [OF assms(1)] assms(2,3) by (simp add: announced_def)
  then have "w_finished (deliver cmds w)" by (rule deliver_finished [OF assms(1,4)])
  moreover have "winv content (deliver cmds w)" by (rule split_reach_winv [OF deliver_reach [OF assms(1,4)]])
  moreover have "final_mode False (w_fatal w) = Success" by (simp add: final_mode_def assms(3))
  ultimately show ?thesis using finish_success_content assms(5) by simp
qed

theorem split_success_content_witness:
  "w_file (snd (finish 9 (final_mode False None) (\<lambda>_. True) (deliver [(5, WorkerJoined)] demo_done))) = [10, 20, 30, 40]"
proof -
  have f: "fst (finish 9 (final_mode False None) (\<lambda>_. True) (deliver [(5, WorkerJoined)] demo_done))"
    by code_simp
  have n: "w_notified demo_done" "w_fatal demo_done = None" by code_simp+
  show ?thesis
    using split_success_content [OF demo_done_reach n, of "[(5, WorkerJoined)]" 9 "\<lambda>_. True"
        "snd (finish 9 (final_mode False None) (\<lambda>_. True) (deliver [(5, WorkerJoined)] demo_done))"] f n
    by (simp add: genuine_def prod_eq_iff)
qed

text \<open>
  The fallback to one connection starts from the right place. When the server turns out not to
  support ranges, ending the writer leaves exactly the first \<open>k\<close> bytes of the remote file, where \<open>k\<close>
  is the first byte that was never stored, and no control file if its removal succeeds.
\<close>

theorem split_discard_prefix:
  assumes "split_reach content w" "finish now (final_mode cancelled (Some NotSplittable)) oks w = (True, w')"
  shows "w_file w' = take (contiguous_prefix w) content \<and>
    (\<forall>p < contiguous_prefix w. p \<in> stored w) \<and> contiguous_prefix w \<notin> stored w \<and>
    (oks 7 \<longrightarrow> w_ctrl w' = None)"
proof -
  have w: "winv content w" by (rule split_reach_winv [OF assms(1)])
  have same: "w_segs (barrier oks w) = w_segs w" "w_base (barrier oks w) = w_base w" "w_file (barrier oks w) = w_file w"
  proof -
    have "w_segs (fold (\<lambda>k. sync_step (oks k)) ks w) = w_segs w \<and> w_base (fold (\<lambda>k. sync_step (oks k)) ks w) = w_base w \<and>
        w_file (fold (\<lambda>k. sync_step (oks k)) ks w) = w_file w" for ks
      by (induction ks arbitrary: w)
        (simp_all add: sync_step_def split: option.splits prod.splits bool.splits)
    then show "w_segs (barrier oks w) = w_segs w" "w_base (barrier oks w) = w_base w" "w_file (barrier oks w) = w_file w"
      by (simp_all add: barrier_def)
  qed
  let ?k = "contiguous_prefix w"
  have tbl: "tbl w" and base: "w_base w \<le> w_total w" using w by (simp_all add: winv_def counts_ok_def)
  note k = contiguous_prefix_exact [OF tbl]
  have "right content (w_file w) p" if "p < ?k" for p using k that w by (simp add: winv_def disk_ok_def)
  moreover have le: "?k \<le> length content"
    using k stored_less [OF tbl base, of "?k - 1"] w by (cases ?k) (auto simp: winv_def)
  ultimately have take: "take ?k (w_file w) = take ?k content" by (intro right_take)
  then have "?k \<le> length (w_file w)" using le by (metis length_take min.absorb2 min.cobounded1)
  moreover have "w_file w' = set_len ?k (w_file w) \<and> (oks 7 \<longrightarrow> w_ctrl w' = None)"
    using assms(2) by (auto simp: final_mode_def finish_def Let_def contiguous_prefix_def same split: if_splits)
  ultimately show ?thesis using k take by (simp add: set_len_take)
qed

theorem split_discard_prefix_witness:
  "w_file (snd (finish 9 (final_mode False (Some NotSplittable)) (\<lambda>_. True) demo_half)) = [10, 20]"
proof -
  have f: "fst (finish 9 (final_mode False (Some NotSplittable)) (\<lambda>_. True) demo_half)" by code_simp
  have "contiguous_prefix demo_half = 2" by code_simp
  then show ?thesis
    using split_discard_prefix [OF demo_half_reach, of 9 False "\<lambda>_. True"
        "snd (finish 9 (final_mode False (Some NotSplittable)) (\<lambda>_. True) demo_half)"] f
    by (simp add: prod_eq_iff)
qed

text \<open>
  C6. Crashes lose only what was not yet saved. In any reachable state there is a control file, and
  after a crash that keeps at least the synced bytes of the data file (the rest may be lost or
  garbled), the download starts again from it: the launch succeeds, exactly the bytes the control file
  claims count as stored, and the new state is again a reachable one.
\<close>

theorem split_crash_resume:
  assumes "split_reach content w" "survives content (w_durable w) file" "0 < so_min_split_size opts"
  shows "\<exists>c w'. w_ctrl w = Some c \<and> launch now file (Some c) url (length content) opts n = Some w' \<and>
    stored w' = claims c \<and> split_reach content w'"
proof -
  obtain c where c: "w_ctrl w = Some c" using split_reach_inv [OF assms(1)] by (auto simp: announced_def)
  have "backed content (w_durable w) c" using split_reach_winv [OF assms(1)] c by (simp add: winv_def disk_ok_def)
  then have "backed content file c" using assms(2) backed_mono unfolding survives_def by blast
  from launch_resumed [OF this assms(3)] obtain w' where
    w': "launch now file (Some c) url (length content) opts n = Some w'" "stored w' = claims c" by blast
  with split_reach.resume [OF assms(1) c assms(2,3)] c show ?thesis by blast
qed

theorem split_crash_resume_witness:
  "\<exists>w'. launch 9 (w_durable demo_half @ [7]) (w_ctrl demo_half) ''u'' 4 demo_opts None = Some w' \<and>
    split_reach [10, 20, 30, 40] w'"
proof -
  have "survives [10, 20, 30, 40] (w_durable demo_half) (w_durable demo_half @ [7])"
    by (simp add: survives_def right_def nth_append)
  moreover have "0 < so_min_split_size demo_opts" by (simp add: demo_opts_def)
  ultimately show ?thesis
    using split_crash_resume [OF demo_half_reach, of "w_durable demo_half @ [7]" demo_opts 9 "''u''" None]
    unfolding demo_length by metis
qed

section \<open>Dispatch\<close>

lemma pop_queue_work: "pop_queue now q v = (Some a, v') \<Longrightarrow> \<exists>s f. a = Work s f"
  by (induction q) (auto split: if_splits)

text \<open>
  No worker is left without work while there is some. In any reachable state, asking for work
  gives an unfinished segment from its water mark with the asker as a holder; or the end, exactly when
  the download has finished or failed; or, only when every unfinished segment is held by somebody and
  is too small to be split, a pause or the worker's retirement, and never the last worker's.
\<close>

theorem next_work_never_idle:
  assumes "split_reach content w" "next_work now rel failures w = (a, w')"
  shows "case a of
       Work sid from \<Rightarrow> w_fatal w = None \<and> \<not> w_finished w \<and> handed_out sid from w'
     | Finished \<Rightarrow> w_fatal w \<noteq> None \<or> w_finished w
     | Park ms \<Rightarrow> ms = PARK_MS \<and> all_held w'
     | Retire \<Rightarrow> all_held w' \<and> 0 < w_alive w'"
proof -
  have "tbl w" "0 < so_min_split_size (w_opts w)"
    using split_reach_winv [OF assms(1)] by (simp_all add: winv_def counts_ok_def)
  note out = next_work_outcome [OF this assms(2)]
  moreover have "ms = PARK_MS" if "a = Park ms" for ms
    using assms(2) that by (auto simp: next_work_def Let_def split: if_splits prod.splits option.splits dest: pop_queue_work)
  ultimately show ?thesis by (cases a) auto
qed

theorem next_work_never_idle_witness:
  "fst (next_work 3 (Some (0, False)) 0 demo_half) = Work 1 2 \<and>
    handed_out 1 2 (snd (next_work 3 (Some (0, False)) 0 demo_half))"
proof -
  have n: "next_work 3 (Some (0, False)) 0 demo_half = (Work 1 2, snd (next_work 3 (Some (0, False)) 0 demo_half))"
  proof -
    have "fst (next_work 3 (Some (0, False)) 0 demo_half) = Work 1 2" by code_simp
    then show ?thesis by (metis prod.collapse)
  qed
  show ?thesis using next_work_never_idle [OF demo_half_reach n] arg_cong [OF n, of fst] by simp
qed

lemma reclaim_idle:
  assumes "\<And>s. s \<in> set (w_segs w) \<Longrightarrow> now - sg_last_progress s < SEG_LEASE"
  shows "reclaim_stalled now w = w"
proof -
  have "handoff_loop (lease_expired now) b c now is (0, w) = (0, w)"
    if "\<forall>i \<in> set is. i < length (w_segs w)" for b c "is"
    using that
  proof (induction "is")
    case (Cons i "is")
    then have "\<not> lease_expired now (w_segs w ! i)" using assms [of "w_segs w ! i"] by (auto simp: lease_expired_def)
    with Cons show ?case by simp
  qed simp
  then have "handoff_loop (lease_expired now) False False now [0..<length (w_segs w)] (0, w) = (0, w)" by simp
  then show ?thesis by (simp add: reclaim_stalled_def)
qed

text \<open>
  A stolen segment is handed out twice. When the queue is empty and an idle worker is given the
  second half of a slow segment, that half also stays in the queue, so the next worker that asks is
  given the same bytes again, from the same position, and both hold the segment.
\<close>

theorem steal_dispatches_twice:
  assumes "w_fatal w = None" "\<not> w_finished w" "w_queue w = []"
    and "\<And>s. s \<in> set (w_segs w) \<Longrightarrow> now - sg_last_progress s < SEG_LEASE"
    and "try_steal now w = Some (sid, w4)"
  shows "\<exists>from w1 w2. next_work now None f w = (Work sid from, w1) \<and>
    next_work now None g w1 = (Work sid from, w2) \<and> sg_holders (w_segs w2 ! sid) = 2"
proof -
  let ?P = "\<lambda>s. \<not> sg_done s \<and> \<not> sg_queued s \<and> effective_min_split w * 2 \<le> seg_remaining s"
  obtain r i where sc: "scan_best ?P 0 (w_segs w) None = Some (r, i)"
    using assms(5) by (auto simp: try_steal_def Let_def split: option.splits)
  have i: "i < length (w_segs w)" using scan_best_sound [OF sc] by simp
  let ?s = "w_segs w ! i"
  let ?c = "sg_start ?s + sg_written ?s + (sg_end ?s - (sg_start ?s + sg_written ?s)) div 2"
  have w4: "(sid, w4) = split_off now i ?c w" using assms(5) sc by (simp add: try_steal_def Let_def)
  then have sid: "sid = length (w_segs w)" and q4: "w_queue w4 = [sid]"
    and segs4: "w_segs w4 = (w_segs w)[i := ?s\<lparr>sg_end := ?c\<rparr>] @ [\<lparr>sg_start = ?c, sg_end = sg_end ?s,
      sg_written = 0, sg_done = False, sg_queued = True, sg_holders = 0, sg_last_progress = now\<rparr>]"
    and same4: "w_fatal w4 = None" "\<not> w_finished w4"
    using assms(1-3) by (simp_all add: split_off_def Let_def)
  let ?w1 = "take_seg now sid w4"
  have n1: "next_work now None f w = (Work sid ?c, ?w1)"
  proof -
    have e: "w\<lparr>w_queue := []\<rparr> = w" by (rule writer.equality) (simp_all add: assms(3))
    have "try_steal now w = Some (length (w_segs w), w4)" using assms(5) sid by simp
    then show ?thesis
      using assms(1-3) reclaim_idle [OF assms(4)]
      by (simp add: next_work_def Let_def release_seg_def segs4 sid e nth_append)
  qed
  have recent: "now - sg_last_progress s < SEG_LEASE" if "s \<in> set (w_segs ?w1)" for s
  proof -
    obtain j where "j < length (w_segs ?w1)" "s = w_segs ?w1 ! j" using \<open>s \<in> set (w_segs ?w1)\<close> by (auto simp: in_set_conv_nth)
    then show ?thesis using assms(4) [of "w_segs w ! j"] i
      by (auto simp: take_seg_def Let_def segs4 sid nth_append nth_list_update SEG_LEASE_def split: if_splits)
  qed
  have f1: "w_fatal ?w1 = None" "\<not> w_finished ?w1" "w_queue ?w1 = [sid]"
    using same4 q4 by (simp_all add: take_seg_def Let_def)
  have s1: "sid < length (w_segs ?w1)" "w_segs ?w1 ! sid = \<lparr>sg_start = ?c, sg_end = sg_end ?s, sg_written = 0,
      sg_done = False, sg_queued = False, sg_holders = 1, sg_last_progress = now\<rparr>"
    by (simp_all add: take_seg_def Let_def segs4 sid nth_append)
  have "next_work now None g ?w1 = (Work sid ?c, take_seg now sid (?w1\<lparr>w_queue := []\<rparr>))"
    using f1 s1 reclaim_idle [OF recent] by (simp add: next_work_def release_seg_def)
  moreover have "sg_holders (w_segs (take_seg now sid (?w1\<lparr>w_queue := []\<rparr>)) ! sid) = 2"
    using s1 by (simp add: take_seg_def [of now sid "?w1\<lparr>w_queue := []\<rparr>"] Let_def)
  ultimately show ?thesis using n1 by blast
qed

text \<open>Eight bytes in one segment: the second worker steals half of it, and so does the third.\<close>

definition demo_slow :: writer where
  "demo_slow = demo_start\<lparr>w_segs := [\<lparr>sg_start = 0, sg_end = 8, sg_written = 0, sg_done = False,
     sg_queued = False, sg_holders = 1, sg_last_progress = 1\<rparr>], w_queue := [], w_todo := 8\<rparr>"

lemma demo_slow_steal: "map_option fst (try_steal 2 demo_slow) = Some 1"
proof -
  have "w_opts demo_start = demo_opts" by code_simp
  then show ?thesis
    by (simp add: try_steal_def demo_slow_def Let_def effective_min_split_def ENDGAME_THRESHOLD_def
        ENDGAME_MIN_SPLIT_def demo_opts_def seg_remaining_def split_off_def)
qed

theorem steal_dispatches_twice_witness:
  "\<exists>from w1 w2. next_work 2 None 0 demo_slow = (Work 1 from, w1) \<and>
    next_work 2 None 0 w1 = (Work 1 from, w2) \<and> sg_holders (w_segs w2 ! 1) = 2"
proof -
  have "w_fatal demo_start = None" "\<not> w_finished demo_start" by code_simp+
  then have 1: "w_fatal demo_slow = None" "\<not> w_finished demo_slow" "w_queue demo_slow = []"
    by (simp_all add: demo_slow_def)
  have 2: "2 - sg_last_progress s < SEG_LEASE" if "s \<in> set (w_segs demo_slow)" for s
    using that by (simp add: demo_slow_def SEG_LEASE_def)
  obtain w4 where "try_steal 2 demo_slow = Some (1, w4)" using demo_slow_steal by auto
  from steal_dispatches_twice [OF 1 2 this] show ?thesis .
qed

end
