(* ===== verification/Split_Worker.thy ===== *)
theory Split_Worker
  imports Split_Claims
begin

text \<open>
  The workers of the split download together with the writer: what a received body becomes, how long
  a worker keeps trying, and a control file that survives the loss of its data file.
\<close>

section \<open>From the body to the segment\<close>

definition pumped :: "nat \<Rightarrow> nat \<Rightarrow> (nat \<times> bytes) list \<Rightarrow> writer \<Rightarrow> writer" where
  "pumped now sid ws w = deliver (map (\<lambda>(off, d). (now, Write sid off d None)) ws) w"

lemma pumped_simps [simp]:
  "pumped now sid [] w = w"
  "pumped now sid ((off, d) # ws) w = pumped now sid ws (on_write now sid off d None w)"
  by (simp_all add: pumped_def deliver_def writer_step_def)

text \<open>A segment whose water mark is at \<open>pos\<close>, in a writer that still accepts writes.\<close>

definition at_mark :: "nat \<Rightarrow> nat \<Rightarrow> nat \<Rightarrow> writer \<Rightarrow> bool" where
  "at_mark sid pos e w \<longleftrightarrow> w_fatal w = None \<and> sid < length (w_segs w) \<and>
     sg_start (w_segs w ! sid) + sg_written (w_segs w ! sid) = pos \<and> sg_end (w_segs w ! sid) = e \<and>
     pos \<le> e \<and> (sg_done (w_segs w ! sid) \<longleftrightarrow> pos = e)"

lemma on_write_mark:
  assumes "at_mark sid pos e w" "d \<noteq> []" "pos + length d \<le> e"
  shows "at_mark sid (pos + length d) e (on_write now sid pos d None w)"
proof -
  have "min (e - pos) (length d) = length d" "pos < e" using assms(2,3) by (simp_all add: min_absorb2) (cases d; simp)+
  then show ?thesis using assms
    by (auto simp: at_mark_def on_write_def Let_def)
qed

lemma pump_mark:
  assumes "at_mark sid (from + sent) e w" "list_all (\<lambda>c. fst c = e) cs"
  shows "at_mark sid (min e (from + sent + length (concat (map snd cs)))) e
    (pumped now sid (fst (pump from sent cs)) w)"
  using assms
proof (induction cs arbitrary: sent w)
  case Nil
  then show ?case by (simp add: at_mark_def min_absorb2)
next
  case (Cons c cs)
  obtain chunk where c: "c = (e, chunk)" using Cons.prems(2) by (cases c) simp
  have cs: "list_all (\<lambda>c. fst c = e) cs" using Cons.prems(2) by simp
  have le: "from + sent \<le> e" using Cons.prems(1) by (simp add: at_mark_def)
  show ?case
  proof (cases "chunk = []")
    case True
    with Cons.IH [OF Cons.prems(1) cs] show ?thesis by (simp add: c)
  next
    case chunk: False
    show ?thesis
    proof (cases "e \<le> from + sent")
      case True
      with le Cons.prems(1) chunk show ?thesis by (simp add: c min_def)
    next
      case below: False
      show ?thesis
      proof (cases "length chunk \<le> e - (from + sent)")
        case True
        have mark: "at_mark sid (from + (sent + length chunk)) e (on_write now sid (from + sent) chunk None w)"
          using on_write_mark [OF Cons.prems(1) chunk, of now] True below by (simp add: add.assoc)
        obtain ws b n where p: "pump from (sent + length chunk) cs = (ws, b, n)" by (cases "pump from (sent + length chunk) cs") simp
        from Cons.IH [OF mark cs] show ?thesis
          using True below chunk by (simp add: c p add.assoc)
      next
        case False
        let ?d = "take (e - (from + sent)) chunk"
        have "at_mark sid (from + sent + length ?d) e (on_write now sid (from + sent) ?d None w)"
          using on_write_mark [OF Cons.prems(1), of ?d now] False below chunk by simp
        moreover have "min e (from + sent + length (concat (map snd (c # cs)))) = e" using False by (simp add: c)
        ultimately show ?thesis using False below chunk by (simp add: c Let_def)
      qed
    qed
  qed
qed

definition slice_of :: "bytes \<Rightarrow> nat \<Rightarrow> bytes \<Rightarrow> bool" where
  "slice_of content off d \<longleftrightarrow> d = take (length d) (drop off content)"

lemma slice_of_append:
  assumes "slice_of content off (xs @ ys)"
  shows "slice_of content off (take n xs)" "slice_of content off xs" "slice_of content (off + length xs) ys"
proof -
  have all: "xs @ ys = take (length xs + length ys) (drop off content)" using assms by (simp add: slice_of_def)
  have xs: "xs = take (length xs) (drop off content)"
    using arg_cong [OF all, of "take (length xs)"] arg_cong [OF all, of length] by simp
  then show "slice_of content off xs" by (simp add: slice_of_def)
  show "slice_of content off (take n xs)" unfolding slice_of_def by (rule take_is_prefix [OF xs])
  show "slice_of content (off + length xs) ys"
    using arg_cong [OF all, of "drop (length xs)"] by (simp add: slice_of_def drop_take ac_simps)
qed

lemma pump_genuine:
  "slice_of content (from + sent) (concat (map snd cs)) \<Longrightarrow>
    list_all (\<lambda>(off, d). slice_of content off d) (fst (pump from sent cs))"
proof (induction cs arbitrary: sent)
  case (Cons c cs)
  obtain e chunk where c: "c = (e, chunk)" by force
  obtain ws b n where p: "pump from (sent + length chunk) cs = (ws, b, n)"
    by (cases "pump from (sent + length chunk) cs") simp
  have all: "slice_of content (from + sent) (chunk @ concat (map snd cs))" using Cons.prems by (simp add: c)
  note sl = slice_of_append [OF all]
  have ws: "list_all (\<lambda>(off, d). slice_of content off d) ws"
    using Cons.IH [of "sent + length chunk"] sl(3) p by (simp add: add.assoc)
  show ?case
  proof (cases "length chunk \<le> e - (from + sent)")
    case True
    then have "min (e - (from + sent)) (length chunk) = length chunk" by simp
    with sl(2) ws p Cons.IH [of sent] Cons.prems show ?thesis by (auto simp: c Let_def)
  next
    case False
    then have "min (e - (from + sent)) (length chunk) = e - (from + sent)" "chunk \<noteq> []" by auto
    with sl(1) [of "e - (from + sent)"] False show ?thesis by (simp add: c Let_def)
  qed
qed simp

text \<open>
  C30. A worker alone completes its segment. A worker that was handed a segment and receives the remote
  bytes from its water mark on, in chunks of any sizes and possibly more than it asked for, while
  nobody moves the segment's end, sends the writer only genuine bytes, and once they are written
  the water mark has advanced by all of them, cut at the segment's end, and the segment is done
  exactly when the body reached that end.
\<close>

theorem worker_fills_segment:
  assumes "split_reach content w" "w_fatal w = None" "handed_out sid from w"
    and "list_all (\<lambda>c. fst c = sg_end (w_segs w ! sid)) cs"
    and "slice_of content from (concat (map snd cs))"
  shows "split_reach content (pumped now sid (fst (pump from 0 cs)) w) \<and>
    (let s = w_segs w ! sid; s' = w_segs (pumped now sid (fst (pump from 0 cs)) w) ! sid
     in sg_start s' + sg_written s' = min (sg_end s) (from + length (concat (map snd cs))) \<and>
        sg_end s' = sg_end s \<and>
        (sg_done s' \<longleftrightarrow> sg_end s \<le> from + length (concat (map snd cs))))"
proof -
  have "tbl w" using split_reach_winv [OF assms(1)] by (simp add: winv_def)
  then have "at_mark sid (from + 0) (sg_end (w_segs w ! sid)) w"
    using assms(2,3) by (auto simp: at_mark_def handed_out_def Let_def)
  note mark = pump_mark [OF this assms(4), of now]
  have "list_all (\<lambda>(off, d). slice_of content off d) (fst (pump from 0 cs))"
    by (rule pump_genuine) (use assms(5) in simp)
  then have "list_all (\<lambda>(_, cmd). genuine content cmd) (map (\<lambda>(off, d). (now, Write sid off d None)) (fst (pump from 0 cs)))"
    by (auto simp: list_all_iff genuine_def slice_of_def)
  then have "split_reach content (pumped now sid (fst (pump from 0 cs)) w)"
    unfolding pumped_def by (rule deliver_reach [OF assms(1)])
  with mark show ?thesis by (auto simp: at_mark_def Let_def min_def)
qed

theorem worker_fills_segment_witness:
  "sg_done (w_segs (pumped 2 0 (fst (pump 0 0 [(2, [10]), (2, []), (2, [20, 30])])) (writer_step 1 (Next None 0) demo_start)) ! 0)"
proof -
  let ?w = "writer_step 1 (Next None 0) demo_start"
  have r: "split_reach [10, 20, 30, 40] ?w" by (rule split_reach.message [OF demo_reach]) (simp add: genuine_def)
  have f: "w_fatal ?w = None" "handed_out 0 0 ?w" "sg_end (w_segs ?w ! 0) = 2" by code_simp+
  from worker_fills_segment [OF r f(1,2), of "[(2, [10]), (2, []), (2, [20, 30])]" 2] f(3) show ?thesis
    by (simp add: Let_def slice_of_def)
qed

section \<open>The worker's budget\<close>

text \<open>\<open>run_worker\<close>'s budgets over the results of its segments, until it gives up.\<close>

fun worker_run :: "worker_budget \<Rightarrow> (http_error + unit) list \<Rightarrow> http_error + worker_budget" where
  "worker_run b [] = Inr b"
| "worker_run b (r # rs) = (case after_segment b r of Abort e \<Rightarrow> Inl e | Continue b' _ _ \<Rightarrow> worker_run b' rs)"

definition spent :: "worker_budget \<Rightarrow> nat" where
  "spent b = wb_failures b * MAX_SHORT_READS + wb_short_reads b"

lemma after_segment_failures:
  assumes "after_segment b (Inl e) = Continue b' f ms"
  shows "wb_failures b' < MAX_FAILURES \<and> wb_failures b' \<le> wb_failures b + 1 \<and> f \<and> 0 < ms \<and> ms \<le> 2000"
  using assms
  by (auto simp: after_segment_def Let_def backoff_ms_def short_read_backoff_ms_def split: if_splits)

lemma after_segment_spends:
  assumes "after_segment b (Inl e) = Continue b' f ms" "wb_short_reads b < MAX_SHORT_READS"
  shows "spent b < spent b' \<and> wb_short_reads b' < MAX_SHORT_READS"
  using assms
  by (auto simp: after_segment_def Let_def spent_def MAX_SHORT_READS_def split: if_splits)

lemma after_segment_continues:
  assumes "wb_failures b + 1 < MAX_FAILURES" "e \<noteq> NotSplittable"
  shows "\<exists>b' f ms. after_segment b (Inl e) = Continue b' f ms"
proof (cases "after_segment b (Inl e)")
  case (Abort e')
  with assms show ?thesis by (auto simp: after_segment_def Let_def split: if_splits)
qed simp

lemma worker_run_errors:
  assumes "wb_short_reads b < MAX_SHORT_READS" "wb_failures b < MAX_FAILURES"
    and "worker_run b (map Inl es) = Inr b'"
  shows "spent b + length es \<le> spent b' \<and> spent b' < MAX_FAILURES * MAX_SHORT_READS"
  using assms
proof (induction es arbitrary: b)
  case Nil
  then show ?case by (auto simp: spent_def MAX_SHORT_READS_def MAX_FAILURES_def)
next
  case (Cons e es)
  then obtain b1 f ms where b1: "after_segment b (Inl e) = Continue b1 f ms" "worker_run b1 (map Inl es) = Inr b'"
    by (auto split: worker_turn.splits)
  note s = after_segment_spends [OF b1(1) Cons.prems(1)]
  have "spent b1 + length es \<le> spent b' \<and> spent b' < MAX_FAILURES * MAX_SHORT_READS"
    using Cons.IH [OF _ _ b1(2)] s after_segment_failures [OF b1(1)] by blast
  with s show ?case by simp
qed

lemma worker_run_patient:
  assumes "wb_failures b + length es < MAX_FAILURES" "NotSplittable \<notin> set es"
  shows "\<exists>b'. worker_run b (map Inl es) = Inr b'"
  using assms
proof (induction es arbitrary: b)
  case (Cons e es)
  obtain b1 f ms where b1: "after_segment b (Inl e) = Continue b1 f ms"
    using after_segment_continues [of b e] Cons.prems by auto
  have "wb_failures b1 + length es < MAX_FAILURES" using after_segment_failures [OF b1] Cons.prems(1) by simp
  with Cons b1 show ?case by simp
qed simp

text \<open>
  A worker neither gives up early nor tries forever. From fresh budgets, fewer than four
  consecutive failures of any kinds other than a refusal to split never end it, and 32 consecutive
  failures always do, even if every one of them is a short read; a success resets both budgets.
\<close>

theorem worker_budget_bounds:
  assumes "NotSplittable \<notin> set few" "length few < MAX_FAILURES"
    and "MAX_FAILURES * MAX_SHORT_READS \<le> length many"
  shows "(\<exists>b. worker_run \<lparr>wb_failures = 0, wb_short_reads = 0\<rparr> (map Inl few) = Inr b \<and>
      worker_run b [Inr ()] = Inr \<lparr>wb_failures = 0, wb_short_reads = 0\<rparr>) \<and>
    (\<exists>e. worker_run \<lparr>wb_failures = 0, wb_short_reads = 0\<rparr> (map Inl many) = Inl e)"
proof -
  let ?b = "\<lparr>wb_failures = 0, wb_short_reads = 0\<rparr>"
  have "worker_run b [Inr ()] = Inr ?b" for b by (simp add: after_segment_def)
  moreover have "\<exists>b. worker_run ?b (map Inl few) = Inr b"
    using worker_run_patient [of ?b few] assms(1,2) by simp
  moreover have "\<exists>e. worker_run ?b (map Inl many) = Inl e"
  proof (cases "worker_run ?b (map Inl many)")
    case (Inr b')
    have "wb_short_reads ?b < MAX_SHORT_READS" "wb_failures ?b < MAX_FAILURES"
      by (simp_all add: MAX_SHORT_READS_def MAX_FAILURES_def)
    from worker_run_errors [OF this Inr] assms(3) show ?thesis by simp
  qed simp
  ultimately show ?thesis by blast
qed

theorem worker_budget_bounds_witness:
  "\<exists>e. worker_run \<lparr>wb_failures = 0, wb_short_reads = 0\<rparr> (map Inl (replicate 32 ShortRead)) = Inl e"
  using worker_budget_bounds [of "[ShortRead, HttpIo, HttpStatus 503]" "replicate 32 ShortRead"]
  by (simp add: MAX_FAILURES_def MAX_SHORT_READS_def)

section \<open>A control file without its data file\<close>

text \<open>
  The check against an externally truncated file forgets the base. A control file of a download that
  continued an older file of \<open>base\<close> bytes and has no progress of its own yet is accepted even when the
  data file is empty or gone: the first \<open>base\<close> bytes then count as stored although none is there.
\<close>

theorem truncated_base_accepted:
  assumes "ctrl_ok tot c" "0 < sc_base c" "sc_base c < tot" "list_all (\<lambda>s. cs_w s = 0) (sc_segs c)"
  shows "\<exists>w. bootstrap now [] (Some c) url tot opts pieces True = Inr w \<and> w_file w = [] \<and>
    stored w = {..<sc_base c} \<and> w_completed w = sc_base c"
proof -
  let ?t = "sort_key cs_s (sc_segs c)"
  have seg: "cs_s s < cs_e s" "cs_w s = 0" if "s \<in> set ?t" for s
    using assms(1,4) that by (auto simp: ctrl_ok_def list_all_iff)
  have tile: "tile_cursor (sc_base c) ?t = Some tot"
  proof (rule sorted_tiles)
    show "hits p (map (resumed_seg 0) ?t) = (if sc_base c \<le> p \<and> p < tot then 1 else 0)" for p
      using assms(1) hits_mset [of "map (resumed_seg 0) ?t" "map (resumed_seg 0) (sc_segs c)" p]
      by (simp add: ctrl_ok_def partition_of_def)
  qed (use seg assms(3) in auto)
  moreover have "?t \<noteq> []" using tile assms(3) by auto
  moreover have "filter (\<lambda>s. cs_s s < cs_e s) (sc_segs c) = sc_segs c"
    using assms(1) by (auto simp: ctrl_ok_def intro: filter_True)
  ultimately have u: "usable_ctrl tot 0 (Some c) = Some (sc_base c, ?t)"
    using assms seg by (simp add: usable_ctrl_def Let_def ctrl_ok_def list_all_iff)
  let ?w = "boot_writer now [] (Some c) url tot opts pieces (sc_base c) (map (resumed_seg now) ?t)"
  have part: "partition_of (sc_base c) tot (map (resumed_seg now) ?t)"
    using tile_cursor_hits [OF tile, of _ now] by (simp add: partition_of_def)
  have "sum_list (map seg_remaining (map (resumed_seg now) ?t)) =
      sum_list (map (\<lambda>s. sg_end s - sg_start s) (map (resumed_seg now) ?t))"
    using seg by (intro arg_cong [of _ _ sum_list] map_cong) (auto simp: seg_remaining_def)
  also have "\<dots> = tot - sc_base c" by (rule partition_length [OF part])
  finally have "w_completed ?w = sc_base c" by (simp add: boot_writer_def Let_def)
  moreover have "stored ?w = {..<sc_base c}"
    using stored_resumed [of ?t "sc_base c" now] seg
    by (auto simp: boot_fields less_imp_le)
  moreover have "bootstrap now [] (Some c) url tot opts pieces True = Inr ?w" by (simp add: bootstrap_def u)
  moreover have "w_file ?w = []" by (simp add: boot_writer_def Let_def)
  ultimately show ?thesis by blast
qed

theorem truncated_base_accepted_witness:
  "\<exists>w. bootstrap 0 [] (Some \<lparr>sc_v = 1, sc_total = 4, sc_base = 2, sc_url = [], sc_segs =
      [\<lparr>cs_s = 2, cs_w = 0, cs_e = 4\<rparr>]\<rparr>) [] 4 demo_opts None True = Inr w \<and> w_file w = [] \<and> w_completed w = 2"
proof -
  let ?c = "\<lparr>sc_v = 1, sc_total = 4, sc_base = 2, sc_url = [], sc_segs = [\<lparr>cs_s = 2, cs_w = 0, cs_e = 4\<rparr>]\<rparr>"
  have "ctrl_ok 4 ?c" by (auto simp: ctrl_ok_def partition_of_def hits_def)
  from truncated_base_accepted [OF this, of 0 "[]" demo_opts None] show ?thesis by auto
qed

end
