(* ===== verification/Utp_Packet.thy ===== *)
theory Utp_Packet
  imports Xfer_Prelude
begin

unbundle bit_operations_syntax

text \<open>
  uTP packets, \<open>crates/xfer-transport/src/utp_packet.rs\<close>: the 20-byte header, the chain of extensions,
  the selective acknowledgement bitmap and the comparison of sequence numbers that wrap around.
\<close>

section \<open>Definitions\<close>

definition PROTOCOL_VERSION :: u8 where "PROTOCOL_VERSION = 1"
definition HEADER_LEN :: nat where "HEADER_LEN = 20"
definition ST_DATA :: u8 where "ST_DATA = 0"
definition ST_FIN :: u8 where "ST_FIN = 1"
definition ST_STATE :: u8 where "ST_STATE = 2"
definition ST_RESET :: u8 where "ST_RESET = 3"
definition ST_SYN :: u8 where "ST_SYN = 4"
definition EXT_NONE :: u8 where "EXT_NONE = 0"
definition EXT_SACK :: u8 where "EXT_SACK = 1"

record packet_header =
  ph_type :: u8
  ph_version :: u8
  ph_extension :: u8
  ph_connection_id :: u16
  ph_timestamp :: u32
  ph_timestamp_diff :: u32
  ph_wnd_size :: u32
  ph_seq_nr :: u16
  ph_ack_nr :: u16

type_synonym extension = "u8 \<times> bytes"

text \<open>The walk over the extension chain, from offset \<open>off\<close> with the type of the next extension.\<close>

function parse_exts :: "bytes \<Rightarrow> nat \<Rightarrow> u8 \<Rightarrow> (extension list \<times> nat) option" where
  "parse_exts data off ext_type =
     (if ext_type = EXT_NONE then Some ([], off)
      else if length data < off + 2 then None
      else
        let next_type = data ! off; ext_len = unat (data ! (off + 1)); start = off + 2
        in if length data < start + ext_len then None
           else
             (case parse_exts data (start + ext_len) next_type of
                None \<Rightarrow> None
              | Some (exts, end) \<Rightarrow> Some ((ext_type, take ext_len (drop start data)) # exts, end)))"
  by pat_completeness auto

termination
  by (relation "measure (\<lambda>(data, off, _). length data - off)") auto

declare parse_exts.simps [simp del]

definition parse_packet :: "bytes \<Rightarrow> (packet_header \<times> extension list \<times> nat) option" where
  "parse_packet data =
     (if length data < HEADER_LEN then None
      else
        let type_ver = data ! 0; type = drop_bit 4 type_ver AND 0x0F; version = type_ver AND 0x0F
        in if version \<noteq> PROTOCOL_VERSION then None
           else
             let header = \<lparr>ph_type = type, ph_version = version, ph_extension = data ! 1,
                   ph_connection_id = u16_from_be (data ! 2) (data ! 3),
                   ph_timestamp = u32_from_be (data ! 4) (data ! 5) (data ! 6) (data ! 7),
                   ph_timestamp_diff = u32_from_be (data ! 8) (data ! 9) (data ! 10) (data ! 11),
                   ph_wnd_size = u32_from_be (data ! 12) (data ! 13) (data ! 14) (data ! 15),
                   ph_seq_nr = u16_from_be (data ! 16) (data ! 17),
                   ph_ack_nr = u16_from_be (data ! 18) (data ! 19)\<rparr>
             in case parse_exts data HEADER_LEN (ph_extension header) of
                  None \<Rightarrow> None
                | Some (exts, off) \<Rightarrow> Some (header, exts, off))"

text \<open>The twenty bytes \<open>encode_header\<close> writes.\<close>

definition encode_header :: "packet_header \<Rightarrow> bytes" where
  "encode_header h =
     [push_bit 4 (ph_type h AND 0x0F) OR (ph_version h AND 0x0F), ph_extension h]
     @ u16_to_be (ph_connection_id h) @ u32_to_be (ph_timestamp h) @ u32_to_be (ph_timestamp_diff h)
     @ u32_to_be (ph_wnd_size h) @ u16_to_be (ph_seq_nr h) @ u16_to_be (ph_ack_nr h)"

definition decode_sack_bits :: "bytes \<Rightarrow> u32" where
  "decode_sack_bits payload =
     (if length payload < 4 then 0
      else fold (\<lambda>(i, b) bits. bits OR push_bit (8 * i) (ucast b)) (enumerate 0 (take 4 payload)) 0)"

definition append_sack_extension :: "bytes \<Rightarrow> nat \<Rightarrow> u32 \<Rightarrow> bytes \<times> nat" where
  "append_sack_extension out off sack_bits =
     (out @ [0, 4] @ map (\<lambda>i. ucast (drop_bit (8 * i) sack_bits AND 0xFF)) [0..<4], off + 6)"

text \<open>\<open>(a - b) as i16\<close> is positive, or not.\<close>

definition seq_after :: "u16 \<Rightarrow> u16 \<Rightarrow> bool" where
  "seq_after a b \<longleftrightarrow> 0 < sint (a - b)"

definition seq_leq :: "u16 \<Rightarrow> u16 \<Rightarrow> bool" where
  "seq_leq a b \<longleftrightarrow> sint (a - b) \<le> 0"

section \<open>Round trip\<close>

text \<open>The wire form of a chain of extensions; each length fits its byte and no type is \<open>EXT_NONE\<close>.\<close>

fun exts_wire :: "extension list \<Rightarrow> bytes" where
  "exts_wire [] = []"
| "exts_wire ((t, d) # es) =
     (case es of [] \<Rightarrow> EXT_NONE | (t', _) # _ \<Rightarrow> t') # of_nat (length d) # d @ exts_wire es"

definition first_ext :: "extension list \<Rightarrow> u8" where
  "first_ext es = (case es of [] \<Rightarrow> EXT_NONE | (t, _) # _ \<Rightarrow> t)"

definition ext_ok :: "extension \<Rightarrow> bool" where
  "ext_ok e \<longleftrightarrow> fst e \<noteq> EXT_NONE \<and> length (snd e) < 256"

lemma parse_exts_wire:
  "list_all ext_ok es \<Longrightarrow>
    parse_exts (pre @ exts_wire es @ payload) (length pre) (first_ext es) = Some (es, length pre + length (exts_wire es))"
proof (induction es arbitrary: pre)
  case Nil
  then show ?case by (subst parse_exts.simps) (simp add: first_ext_def)
next
  case (Cons e es)
  obtain t d where e: "e = (t, d)" by force
  have t: "t \<noteq> EXT_NONE" and d: "length d < 256" using Cons.prems by (simp_all add: e ext_ok_def)
  let ?hd = "[first_ext es, of_nat (length d)] :: bytes"
  have w: "exts_wire ((t, d) # es) = ?hd @ d @ exts_wire es" by (simp add: e first_ext_def)
  have len: "unat (of_nat (length d) :: u8) = length d" using d by (simp add: unat_of_nat)
  have rest: "parse_exts ((pre @ ?hd @ d) @ exts_wire es @ payload) (length (pre @ ?hd @ d)) (first_ext es) =
      Some (es, length (pre @ ?hd @ d) + length (exts_wire es))"
    by (rule Cons.IH) (use Cons.prems in simp)
  have "first_ext (e # es) = t" by (simp add: e first_ext_def)
  then show ?case
    using t len rest by (subst parse_exts.simps) (simp add: w nth_append Let_def e del: exts_wire.simps)
qed

definition header_ok :: "packet_header \<Rightarrow> bool" where
  "header_ok h \<longleftrightarrow> ph_version h = PROTOCOL_VERSION \<and> ph_type h < 16"

lemma length_encode_header [simp]: "length (encode_header h) = HEADER_LEN"
  by (simp add: encode_header_def HEADER_LEN_def)

lemma nibble_take: "t < 16 \<Longrightarrow> take_bit 4 t = t" for t :: u8
  by (simp add: take_bit_eq_mod word_unat_eq_iff word_less_nat_alt unat_mod_distrib)

lemma nibble_and: "t < 16 \<Longrightarrow> t AND 0x0F = t" for t :: u8
  using nibble_take [of t] by (simp add: take_bit_eq_mask mask_eq_exp_minus_1)

lemma nibbles:
  fixes t :: u8
  assumes "t < 16"
  shows "drop_bit 4 (push_bit 4 t OR 1) AND 0x0F = t" and "(push_bit 4 t OR 1) AND 0x0F = 1"
proof -
  have t: "take_bit 4 t = t" by (rule nibble_take [OF assms])
  have m: "(0x0F :: u8) = mask 4" by (simp add: mask_eq_exp_minus_1)
  show "drop_bit 4 (push_bit 4 t OR 1) AND 0x0F = t"
    unfolding m take_bit_eq_mask [symmetric]
  proof (rule bit_word_eqI)
    fix n assume "n < LENGTH(8)"
    moreover have "bit t n \<Longrightarrow> n < 4" using t by (metis bit_take_bit_iff)
    ultimately show "bit (take_bit 4 (drop_bit 4 (push_bit 4 t OR 1))) n = bit t n"
      by (auto simp: bit_simps)
  qed
  show "(push_bit 4 t OR 1) AND 0x0F = 1"
    unfolding m take_bit_eq_mask [symmetric]
    by (rule bit_word_eqI) (auto simp: bit_simps)
qed

lemma list16_split: "length w = 2 \<Longrightarrow> w = [w ! 0, w ! 1]"
  by (cases w; cases "tl w") (auto simp: numeral_2_eq_2)

lemma header_fields:
  assumes "header_ok h"
  shows "(let data = encode_header h @ rest in
     \<lparr>ph_type = drop_bit 4 (data ! 0) AND 0x0F, ph_version = data ! 0 AND 0x0F, ph_extension = data ! 1,
       ph_connection_id = u16_from_be (data ! 2) (data ! 3),
       ph_timestamp = u32_from_be (data ! 4) (data ! 5) (data ! 6) (data ! 7),
       ph_timestamp_diff = u32_from_be (data ! 8) (data ! 9) (data ! 10) (data ! 11),
       ph_wnd_size = u32_from_be (data ! 12) (data ! 13) (data ! 14) (data ! 15),
       ph_seq_nr = u16_from_be (data ! 16) (data ! 17),
       ph_ack_nr = u16_from_be (data ! 18) (data ! 19)\<rparr>) = h"
  using assms nibbles [of "ph_type h"] nibble_and [of "ph_type h"] u16_from_to_be u32_from_to_be
  unfolding header_ok_def PROTOCOL_VERSION_def encode_header_def Let_def
  by (cases h) (simp add: nth_append nth_Cons' u16_to_be_def u32_to_be_def)

lemma parse_encode:
  assumes "header_ok h" "list_all ext_ok es" "ph_extension h = first_ext es"
  shows "parse_packet (encode_header h @ exts_wire es @ payload) =
    Some (h, es, HEADER_LEN + length (exts_wire es))"
proof -
  let ?data = "encode_header h @ exts_wire es @ payload"
  note f = header_fields [OF assms(1), of "exts_wire es @ payload", unfolded Let_def]
  have v: "?data ! 0 AND 0x0F = PROTOCOL_VERSION"
    using arg_cong [OF f, of ph_version] assms(1) by (simp add: header_ok_def)
  have x: "parse_exts ?data HEADER_LEN (ph_extension h) = Some (es, HEADER_LEN + length (exts_wire es))"
    using parse_exts_wire [OF assms(2), of "encode_header h" payload] assms(3) by simp
  show ?thesis
    unfolding parse_packet_def Let_def f using v x by simp
qed

end
