(* ===== verification/Utp_Connection.thy ===== *)
theory Utp_Connection
  imports Utp_Packet "HOL-Library.Signed_Division"
begin

text \<open>
  The uTP connection, \<open>crates/xfer-transport/src/utp_connection.rs\<close>: handshake, sending under the
  congestion window, reception with a reorder buffer, acknowledgements, retransmission and closing.

  Durations and instants are nanoseconds. \<open>us\<close> is the microsecond clock read by an operation, and
  \<open>incr\<close> the congestion increment, which the code computes in floating point from the remaining
  delay, the packet size, the acknowledged bytes and the window. Random numbers are arguments. Byte
  counts (\<open>u32\<close>, \<open>usize\<close>) are naturals; sequence numbers, ids and header fields are words. The peer's
  address and the fields nothing reads are left out.
\<close>

section \<open>Constants and state\<close>

definition DEFAULT_PACKET_SIZE :: nat where "DEFAULT_PACKET_SIZE = 1400"
definition MIN_PACKET_SIZE :: nat where "MIN_PACKET_SIZE = 150"
definition INITIAL_CWND_PACKETS :: nat where "INITIAL_CWND_PACKETS = 10"
definition RECV_WINDOW :: nat where "RECV_WINDOW = 8 * 1024 * 1024"
definition REORDER_WINDOW :: nat where "REORDER_WINDOW = 1024 * 1024"
definition CC_TARGET_US :: nat where "CC_TARGET_US = 100000"
definition BASE_DELAY_WINDOW :: nat where "BASE_DELAY_WINDOW = 120 * 1000000000"
definition RTO_MIN :: nat where "RTO_MIN = 500 * 1000000"
definition RTO_MAX :: nat where "RTO_MAX = 60 * 1000000000"
definition MAX_PENDING_SEND :: nat where "MAX_PENDING_SEND = 1024 * 1024"

datatype utp_state = SynSent | SynRecv | Connected | FinSent | Closed

record out_packet =
  op_payload :: bytes
  op_seq :: u16
  op_send_time :: nat
  op_size :: nat
  op_retransmits :: nat

record utp =
  u_recv_id :: u16
  u_send_id :: u16
  u_state :: utp_state
  u_error :: bool
  u_seq :: u16
  u_syn_seq :: u16
  u_ack :: u16
  u_syn_acked :: bool
  u_pending :: bytes
  u_queue :: "out_packet list"
  u_cur_window :: nat
  u_max_window :: nat
  u_packet_size :: nat
  u_peer_wnd :: nat
  u_want_write :: bool
  u_ack_pending :: bool
  u_fin_sent :: bool
  u_fin_pending :: bool
  u_fin_acked :: bool
  u_fin_seq :: u16
  u_syn_attempts :: nat
  u_recv_out :: bytes
  u_reorder :: "(u16, bytes) btree_map"
  u_buffered :: nat
  u_eof :: bool
  u_want_read :: bool
  u_rtt :: nat
  u_rtt_var :: nat
  u_timeout :: nat
  u_last_recv :: "nat option"
  u_last_send :: "nat option"
  u_timeouts :: nat
  u_base_delay :: "nat option"
  u_base_delay_set :: "nat option"
  u_last_delay :: nat
  u_last_ack :: u16
  u_dup_acks :: nat
  u_recovery_seq :: u16
  u_recovery_valid :: bool
  u_ts_echo :: u32
  u_outbox :: "bytes list"

section \<open>Packets\<close>

definition advertised_wnd :: "utp \<Rightarrow> nat" where
  "advertised_wnd u = RECV_WINDOW - (u_buffered u + length (u_recv_out u))"

definition data_packet :: "u32 \<Rightarrow> u16 \<Rightarrow> bytes \<Rightarrow> utp \<Rightarrow> bytes" where
  "data_packet us seq payload u =
     encode_header \<lparr>ph_type = ST_DATA, ph_version = PROTOCOL_VERSION, ph_extension = EXT_NONE,
       ph_connection_id = u_send_id u, ph_timestamp = us, ph_timestamp_diff = u_ts_echo u,
       ph_wnd_size = of_nat (advertised_wnd u), ph_seq_nr = seq, ph_ack_nr = u_ack u\<rparr> @ payload"

definition sack_bits_of :: "u16 \<Rightarrow> u16 list \<Rightarrow> u32" where
  "sack_bits_of ack keys =
     fold (\<lambda>s bits. let off = unat (s - (ack + 2)) in if off < 32 then bits OR push_bit off 1 else bits) keys 0"

definition queue_control :: "nat \<Rightarrow> u32 \<Rightarrow> u8 \<Rightarrow> u16 \<Rightarrow> utp \<Rightarrow> utp" where
  "queue_control now us type seq_for_ack u =
     (let conn_id = (if type = ST_SYN then u_recv_id u else u_send_id u);
          seq_field = (if type = ST_SYN then u_syn_seq u else if type = ST_FIN then u_fin_seq u else u_seq u);
          have_gaps = (u_reorder u \<noteq> []);
          h = \<lparr>ph_type = type, ph_version = PROTOCOL_VERSION,
               ph_extension = (if have_gaps then EXT_SACK else EXT_NONE), ph_connection_id = conn_id,
               ph_timestamp = us, ph_timestamp_diff = u_ts_echo u,
               ph_wnd_size = (if type = ST_SYN then 0 else of_nat (advertised_wnd u)),
               ph_seq_nr = seq_field, ph_ack_nr = (if seq_for_ack = 0 then u_ack u else seq_for_ack)\<rparr>;
          bits = sack_bits_of (u_ack u) (map fst (u_reorder u));
          sack = [EXT_NONE, 4] @ map (\<lambda>i. ucast (drop_bit (8 * i) bits AND 0xFF)) [0..<4]
      in u\<lparr>u_outbox := u_outbox u @ [encode_header h @ (if have_gaps then sack else [])],
           u_last_send := Some now\<rparr>)"

definition send_ack :: "nat \<Rightarrow> u32 \<Rightarrow> utp \<Rightarrow> utp" where
  "send_ack now us u = (queue_control now us ST_STATE 0 u)\<lparr>u_ack_pending := False\<rparr>"

definition queue_data_packet :: "nat \<Rightarrow> u32 \<Rightarrow> out_packet \<Rightarrow> utp \<Rightarrow> utp" where
  "queue_data_packet now us p u =
     (let u1 = u\<lparr>u_cur_window := u_cur_window u + op_size p\<rparr>
      in u1\<lparr>u_outbox := u_outbox u1 @ [data_packet us (op_seq p) (op_payload p) u1],
            u_last_send := Some now, u_queue := u_queue u1 @ [p]\<rparr>)"

definition retransmit_packet_clone :: "nat \<Rightarrow> u32 \<Rightarrow> out_packet \<Rightarrow> utp \<Rightarrow> utp" where
  "retransmit_packet_clone now us p u =
     u\<lparr>u_outbox := u_outbox u @ [data_packet us (op_seq p) (op_payload p) u], u_last_send := Some now\<rparr>"

definition retransmit_unacked :: "nat \<Rightarrow> u32 \<Rightarrow> utp \<Rightarrow> utp" where
  "retransmit_unacked now us u =
     u\<lparr>u_queue := map (\<lambda>p. p\<lparr>op_send_time := now, op_retransmits := op_retransmits p + 1\<rparr>) (u_queue u),
       u_outbox := u_outbox u @ map (\<lambda>p. data_packet us (op_seq p) (op_payload p) u) (u_queue u)\<rparr>"

section \<open>Opening\<close>

definition utp_blank :: utp where
  "utp_blank = \<lparr>u_recv_id = 0, u_send_id = 0, u_state = SynSent, u_error = False, u_seq = 0, u_syn_seq = 0,
     u_ack = 0, u_syn_acked = False, u_pending = [], u_queue = [], u_cur_window = 0,
     u_max_window = DEFAULT_PACKET_SIZE * INITIAL_CWND_PACKETS, u_packet_size = DEFAULT_PACKET_SIZE,
     u_peer_wnd = 0x7FFFFFFF, u_want_write = False, u_ack_pending = False, u_fin_sent = False,
     u_fin_pending = False, u_fin_acked = False, u_fin_seq = 0, u_syn_attempts = 0, u_recv_out = [],
     u_reorder = [], u_buffered = 0, u_eof = False, u_want_read = False, u_rtt = 0, u_rtt_var = 0,
     u_timeout = 1000000000, u_last_recv = None, u_last_send = None, u_timeouts = 0, u_base_delay = None,
     u_base_delay_set = None, u_last_delay = 0, u_last_ack = 0, u_dup_acks = 0, u_recovery_seq = 0,
     u_recovery_valid = False, u_ts_echo = 0, u_outbox = []\<rparr>"

definition new_outbound :: "u16 \<Rightarrow> nat \<Rightarrow> u32 \<Rightarrow> utp" where
  "new_outbound random now us =
     (let recv_id = random AND 0xFFFE
      in queue_control now us ST_SYN 0
           (utp_blank\<lparr>u_recv_id := recv_id, u_send_id := recv_id + 1, u_state := SynSent, u_seq := 2,
              u_syn_seq := 1, u_last_send := Some now\<rparr>))"

definition new_inbound :: "u16 \<Rightarrow> u16 \<Rightarrow> u16 \<Rightarrow> nat \<Rightarrow> u32 \<Rightarrow> utp" where
  "new_inbound peer_recv_id ack_nr random now us =
     queue_control now us ST_STATE 0
       (utp_blank\<lparr>u_recv_id := peer_recv_id + 1, u_send_id := peer_recv_id, u_state := SynRecv, u_seq := random,
          u_ack := ack_nr, u_last_recv := Some now, u_last_send := Some now\<rparr>)"

section \<open>The stream\<close>

definition eof_received :: "utp \<Rightarrow> bool" where
  "eof_received u \<longleftrightarrow> u_eof u \<and> u_recv_out u = [] \<and> u_reorder u = []"

definition is_connected :: "utp \<Rightarrow> bool" where
  "is_connected u \<longleftrightarrow> u_state u = Connected \<or> u_state u = FinSent"

definition utp_write :: "bytes \<Rightarrow> utp \<Rightarrow> nat \<times> utp" where
  "utp_write data u =
     (let u1 = u\<lparr>u_want_write := False\<rparr>
      in if u_state u1 = Closed \<or> u_error u1 then (0, u1)
         else
           let room = MAX_PENDING_SEND - length (u_pending u1); accepted = min room (length data)
           in (accepted, u1\<lparr>u_pending := u_pending u1 @ take accepted data,
                            u_want_write := (accepted < length data)\<rparr>))"

definition utp_read :: "nat \<Rightarrow> utp \<Rightarrow> bytes \<times> utp" where
  "utp_read buf_len u =
     (let n = min buf_len (length (u_recv_out u));
          u1 = u\<lparr>u_want_read := False, u_recv_out := drop n (u_recv_out u)\<rparr>
      in (take n (u_recv_out u),
          if n = 0 \<and> u_recv_out u1 = [] \<and> \<not> eof_received u1 \<and> u_state u1 \<noteq> Closed \<and> \<not> u_error u1
          then u1\<lparr>u_want_read := True\<rparr> else u1))"

definition utp_close :: "utp \<Rightarrow> utp" where
  "utp_close u =
     (if u_fin_pending u \<or> u_fin_sent u \<or> u_state u = Closed then u
      else if u_state u = SynSent then u\<lparr>u_state := Closed\<rparr>
      else u\<lparr>u_fin_pending := True\<rparr>)"

definition drain_outbox :: "utp \<Rightarrow> bytes list \<times> utp" where
  "drain_outbox u = (u_outbox u, u\<lparr>u_outbox := []\<rparr>)"

section \<open>Timing\<close>

definition update_delay :: "u32 \<Rightarrow> nat \<Rightarrow> utp \<Rightarrow> utp" where
  "update_delay sample_us now u =
     (let sample = unat sample_us * 1000;
          need_reset = (case u_base_delay u of None \<Rightarrow> True | Some b \<Rightarrow> sample < b) \<or>
            (case u_base_delay_set u of None \<Rightarrow> False | Some s \<Rightarrow> BASE_DELAY_WINDOW < now - s)
      in if need_reset
         then u\<lparr>u_last_delay := sample, u_base_delay := Some sample, u_base_delay_set := Some now\<rparr>
         else u\<lparr>u_last_delay := sample\<rparr>)"

definition update_rtt :: "nat \<Rightarrow> utp \<Rightarrow> utp" where
  "update_rtt packet_rtt u =
     (if packet_rtt = 0 \<or> RTO_MAX < packet_rtt then u
      else
        let u1 =
          (if u_rtt u = 0 then u\<lparr>u_rtt := packet_rtt, u_rtt_var := packet_rtt div 2\<rparr>
           else
             let delta = (if u_rtt u < packet_rtt then packet_rtt - u_rtt u else u_rtt u - packet_rtt);
                 var_diff = int delta - int (u_rtt_var u);
                 new_var = int (u_rtt_var u) + var_diff sdiv 4;
                 diff = int packet_rtt - int (u_rtt u);
                 new_rtt = int (u_rtt u) + diff sdiv 8
             in u\<lparr>u_rtt_var := nat (max new_var 0), u_rtt := nat (max new_rtt 0)\<rparr>)
        in u1\<lparr>u_timeout := min (max (u_rtt u1 + u_rtt_var u1 * 4) RTO_MIN) RTO_MAX\<rparr>)"

type_synonym increment = "nat \<Rightarrow> nat \<Rightarrow> nat \<Rightarrow> nat \<Rightarrow> int"

definition update_window :: "increment \<Rightarrow> nat \<Rightarrow> utp \<Rightarrow> utp" where
  "update_window incr newly_acked u =
     (let our_delay = (case u_base_delay u of
            Some b \<Rightarrow> if b < u_last_delay u then u_last_delay u - b else 0
          | None \<Rightarrow> 0);
          off_target = CC_TARGET_US - (our_delay div 1000) mod 2 ^ 32;
          cwnd = max (u_max_window u) (u_packet_size u);
          delta0 = incr off_target (u_packet_size u) newly_acked cwnd;
          delta = (if u_base_delay u = None then delta0 + int (u_packet_size u) else delta0);
          new_window = int (u_max_window u) + delta
      in u\<lparr>u_max_window := nat (max new_window (int (u_packet_size u))) mod 2 ^ 32\<rparr>)"

definition can_send_data :: "utp \<Rightarrow> bool" where
  "can_send_data u \<longleftrightarrow> u_cur_window u + u_packet_size u \<le> min (u_max_window u) (u_peer_wnd u)"

section \<open>Acknowledgements\<close>

text \<open>The loop over the acknowledged packets: what is left, bytes freed, RTT sample, whether one was the FIN.\<close>

fun pop_acked :: "nat \<Rightarrow> u16 \<Rightarrow> u16 option \<Rightarrow> out_packet list \<Rightarrow> nat \<Rightarrow> nat option \<Rightarrow> bool \<Rightarrow>
    out_packet list \<times> nat \<times> nat option \<times> bool" where
  "pop_acked now ack_nr fin [] freed sample fin_acked = ([], freed, sample, fin_acked)"
| "pop_acked now ack_nr fin (p # q) freed sample fin_acked =
     (if \<not> seq_leq (op_seq p) ack_nr then (p # q, freed, sample, fin_acked)
      else pop_acked now ack_nr fin q (freed + op_size p)
             (if sample = None \<and> op_retransmits p = 0 then Some (now - op_send_time p) else sample)
             (fin_acked \<or> fin = Some (op_seq p)))"

definition halve_window :: "u16 \<Rightarrow> utp \<Rightarrow> utp" where
  "halve_window seq u = u\<lparr>u_max_window := max (u_max_window u div 2) (u_packet_size u),
     u_recovery_seq := seq, u_recovery_valid := True\<rparr>"

definition sack_recovery :: "nat \<Rightarrow> u32 \<Rightarrow> u16 \<Rightarrow> u32 \<Rightarrow> utp \<Rightarrow> utp" where
  "sack_recovery now us ack_nr sack_bits u =
     (case u_queue u of
        [] \<Rightarrow> u
      | front # _ \<Rightarrow>
          let oldest = op_seq front;
              sacks_after = length (filter (\<lambda>i. bit sack_bits i \<and> seq_after (ack_nr + (2 + of_nat i)) oldest) [0..<32])
          in if seq_after oldest ack_nr \<and> 3 \<le> sacks_after \<and> \<not> (u_recovery_valid u \<and> u_recovery_seq u = oldest)
             then halve_window oldest (retransmit_packet_clone now us front u) else u)"

text \<open>Updating the first packet with a sequence number.\<close>

fun mark_retransmitted :: "nat \<Rightarrow> u16 \<Rightarrow> out_packet list \<Rightarrow> out_packet list" where
  "mark_retransmitted now target [] = []"
| "mark_retransmitted now target (p # q) =
     (if op_seq p = target then p\<lparr>op_retransmits := op_retransmits p + 1, op_send_time := now\<rparr> # q
      else p # mark_retransmitted now target q)"

definition dup_recovery :: "nat \<Rightarrow> u32 \<Rightarrow> u16 \<Rightarrow> utp \<Rightarrow> utp" where
  "dup_recovery now us ack_nr u =
     (if u_dup_acks u < 3 then u
      else
        let target = ack_nr + 1;
            u1 = (case find (\<lambda>p. op_seq p = target) (u_queue u) of
                    None \<Rightarrow> u
                  | Some p \<Rightarrow>
                      if u_recovery_valid u \<and> u_recovery_seq u = target then u
                      else
                        let v = retransmit_packet_clone now us p u
                        in halve_window target (v\<lparr>u_queue := mark_retransmitted now target (u_queue v)\<rparr>))
        in u1\<lparr>u_dup_acks := 0\<rparr>)"

definition finish_close_if_idle :: "utp \<Rightarrow> utp" where
  "finish_close_if_idle u =
     (if u_fin_sent u \<and> u_fin_acked u \<and> eof_received u then u\<lparr>u_state := Closed\<rparr> else u)"

definition count_dup_ack :: "u16 \<Rightarrow> utp \<Rightarrow> utp" where
  "count_dup_ack ack_nr u =
     (if ack_nr = u_last_ack u then u\<lparr>u_dup_acks := u_dup_acks u + 1\<rparr>
      else u\<lparr>u_last_ack := ack_nr, u_dup_acks := 0\<rparr>)"

definition ack_queue :: "increment \<Rightarrow> nat \<Rightarrow> u16 \<Rightarrow> utp \<Rightarrow> utp" where
  "ack_queue incr now ack_nr u =
     (case pop_acked now ack_nr (if u_fin_sent u then Some (u_fin_seq u) else None) (u_queue u) 0 None (u_fin_acked u) of
        (q, freed, sample, fin_acked) \<Rightarrow>
          let u1 = u\<lparr>u_queue := q, u_fin_acked := fin_acked\<rparr>
          in if freed = 0 then u1
             else
               let u2 = u1\<lparr>u_cur_window := u_cur_window u1 - freed,
                           u_packet_size := (if u_packet_size u1 < DEFAULT_PACKET_SIZE
                                             then DEFAULT_PACKET_SIZE else u_packet_size u1)\<rparr>;
                   u3 = (case sample of None \<Rightarrow> u2 | Some rtt \<Rightarrow> update_rtt rtt u2)
               in (update_window incr freed u3)\<lparr>u_want_write := True\<rparr>)"

definition on_ack :: "increment \<Rightarrow> nat \<Rightarrow> u32 \<Rightarrow> u16 \<Rightarrow> u32 \<Rightarrow> utp \<Rightarrow> utp" where
  "on_ack incr now us ack_nr sack_bits u =
     (if u_state u = SynSent \<and> \<not> u_syn_acked u then u
      else
        let u1 = ack_queue incr now ack_nr (count_dup_ack ack_nr u);
            u2 = (if u_fin_sent u1 \<and> \<not> u_fin_acked u1 \<and> seq_leq (u_fin_seq u1) ack_nr
                  then u1\<lparr>u_fin_acked := True\<rparr> else u1);
            u3 = sack_recovery now us ack_nr sack_bits u2;
            u4 = dup_recovery now us ack_nr u3
        in if u_fin_sent u4 \<and> u_fin_acked u4 then finish_close_if_idle u4 else u4)"

section \<open>Reception\<close>

text \<open>Emptying the reorder buffer from its first entry on.\<close>

fun drain_reorder :: "(u16, bytes) btree_map \<Rightarrow> utp \<Rightarrow> utp" where
  "drain_reorder [] u = u\<lparr>u_reorder := []\<rparr>"
| "drain_reorder ((next_seq, p) # m) u =
     (if next_seq \<noteq> u_ack u + 1 then u\<lparr>u_reorder := (next_seq, p) # m\<rparr>
      else drain_reorder m (u\<lparr>u_buffered := u_buffered u - length p, u_recv_out := u_recv_out u @ p,
                              u_ack := next_seq\<rparr>))"

definition bt_remove :: "'k \<Rightarrow> ('k, 'v) btree_map \<Rightarrow> ('k, 'v) btree_map" where
  "bt_remove k m = filter (\<lambda>(a, _). a \<noteq> k) m"

definition buffer_packet :: "u16 \<Rightarrow> bytes \<Rightarrow> utp \<Rightarrow> utp" where
  "buffer_packet s payload u =
     (if u_buffered u + length payload \<le> REORDER_WINDOW
      then
        let u1 = (case map_of (u_reorder u) s of
                    None \<Rightarrow> u
                  | Some dup \<Rightarrow> u\<lparr>u_reorder := bt_remove s (u_reorder u), u_buffered := u_buffered u - length dup\<rparr>)
        in u1\<lparr>u_reorder := bt_insert s payload (u_reorder u1), u_buffered := u_buffered u1 + length payload\<rparr>
      else u)"

definition on_data :: "u16 \<Rightarrow> bytes \<Rightarrow> utp \<Rightarrow> utp" where
  "on_data s payload u =
     (let u1 = u\<lparr>u_ack_pending := True\<rparr>
      in if payload = [] then u1
         else if seq_leq s (u_ack u1) then u1
         else
           let u2 = (if s = u_ack u1 + 1
                     then drain_reorder (u_reorder u1) (u1\<lparr>u_recv_out := u_recv_out u1 @ payload, u_ack := s\<rparr>)
                     else buffer_packet s payload u1)
           in u2\<lparr>u_want_read := True\<rparr>)"

definition sack_of :: "extension list \<Rightarrow> u32" where
  "sack_of exts = fold (\<lambda>(t, p) bits. if t = EXT_SACK then decode_sack_bits p else bits) exts 0"

text \<open>The packet by its type; the flag tells whether \<open>handle_packet\<close> returns at once.\<close>

definition on_type :: "increment \<Rightarrow> nat \<Rightarrow> u32 \<Rightarrow> packet_header \<Rightarrow> bytes \<Rightarrow> u32 \<Rightarrow> utp \<Rightarrow> bool \<times> utp" where
  "on_type incr now us hdr payload sack_bits u =
     (if ph_type hdr = ST_SYN then
        (False, if u_state u = SynRecv \<or> u_state u = Connected then queue_control now us ST_STATE 0 u else u)
      else if ph_type hdr = ST_RESET then (True, u\<lparr>u_error := True, u_state := Closed\<rparr>)
      else if ph_type hdr = ST_STATE then
        (let u1 = (if u_state u = SynSent
                   then u\<lparr>u_ack := ph_seq_nr hdr - 1, u_syn_acked := True, u_state := Connected\<rparr> else u)
         in (False, on_ack incr now us (ph_ack_nr hdr) sack_bits u1))
      else if ph_type hdr = ST_DATA \<or> ph_type hdr = ST_FIN then
        (let u1 = (if u_state u = SynRecv then u\<lparr>u_state := Connected\<rparr>
                   else if u_state u = SynSent
                   then u\<lparr>u_ack := ph_seq_nr hdr, u_syn_acked := True, u_state := Connected\<rparr> else u);
             u2 = (if ph_type hdr = ST_DATA then on_data (ph_seq_nr hdr) payload u1
                   else ((if ph_seq_nr hdr = u_ack u1 + 1 \<and> \<not> u_eof u1
                          then u1\<lparr>u_ack := ph_seq_nr hdr, u_eof := True\<rparr> else u1)\<lparr>u_ack_pending := True\<rparr>))
         in (False, on_ack incr now us (ph_ack_nr hdr) sack_bits u2))
      else (False, u))"

definition handle_packet :: "increment \<Rightarrow> nat \<Rightarrow> u32 \<Rightarrow> bytes \<Rightarrow> utp \<Rightarrow> utp" where
  "handle_packet incr now us data u =
     (case parse_packet data of
        None \<Rightarrow> u
      | Some (hdr, exts, payload_off) \<Rightarrow>
          let ts_diff = us - ph_timestamp hdr;
              u1 = u\<lparr>u_last_recv := Some now, u_timeouts := 0, u_ts_echo := ts_diff,
                     u_peer_wnd := unat (ph_wnd_size hdr)\<rparr>;
              u2 = (if ph_type hdr \<noteq> ST_SYN then update_delay ts_diff now u1 else u1)
          in case on_type incr now us hdr (drop payload_off data) (sack_of exts) u2 of
               (True, u3) \<Rightarrow> u3
             | (False, u3) \<Rightarrow> if u_ack_pending u3 then send_ack now us u3 else u3)"

section \<open>Timers\<close>

definition handle_timeout :: "nat \<Rightarrow> u32 \<Rightarrow> utp \<Rightarrow> utp" where
  "handle_timeout now us u =
     (if u_state u = SynSent then
        (let u1 = u\<lparr>u_syn_attempts := u_syn_attempts u + 1, u_timeout := min (u_timeout u * 2) RTO_MAX\<rparr>
         in if 4 \<le> u_syn_attempts u1 then u1\<lparr>u_error := True, u_state := Closed\<rparr>
            else (queue_control now us ST_SYN 0 u1)\<lparr>u_last_send := Some now\<rparr>)
      else
        let u1 = u\<lparr>u_timeouts := u_timeouts u + 1, u_timeout := min (u_timeout u * 2) RTO_MAX\<rparr>
        in if 5 \<le> u_timeouts u1 then u1\<lparr>u_error := True, u_state := Closed\<rparr>
           else
             let u2 = retransmit_unacked now us
                   (u1\<lparr>u_packet_size := MIN_PACKET_SIZE, u_max_window := MIN_PACKET_SIZE, u_last_recv := Some now\<rparr>)
             in if u_fin_sent u2 \<and> \<not> u_fin_acked u2 \<and> u_state u2 = FinSent
                then queue_control now us ST_FIN 0 u2 else u2)"

text \<open>The loop that sends the pending data; its fuel is the number of pending bytes.\<close>

fun flush_pending :: "nat \<Rightarrow> nat \<Rightarrow> u32 \<Rightarrow> utp \<Rightarrow> utp" where
  "flush_pending 0 now us u = u"
| "flush_pending (Suc n) now us u =
     (if u_pending u = [] then u
      else if \<not> can_send_data u then u\<lparr>u_want_write := True\<rparr>
      else
        let chunk = min (length (u_pending u)) (u_packet_size u);
            payload = take chunk (u_pending u);
            p = \<lparr>op_payload = payload, op_seq = u_seq u, op_send_time = now, op_size = length payload,
                 op_retransmits = 0\<rparr>
        in flush_pending n now us
             (queue_data_packet now us p (u\<lparr>u_pending := drop chunk (u_pending u), u_seq := u_seq u + 1\<rparr>)))"

text \<open>The FIN part of a tick; the flag tells whether the tick ends there.\<close>

definition flush_fin :: "nat \<Rightarrow> u32 \<Rightarrow> utp \<Rightarrow> bool \<times> utp" where
  "flush_fin now us u =
     (if \<not> u_fin_pending u then (False, u)
      else
        let u1 = u\<lparr>u_fin_pending := False, u_fin_sent := True, u_fin_seq := u_seq u\<rparr>
        in if u_state u1 = SynSent then (True, u1\<lparr>u_state := Closed\<rparr>)
           else (False, queue_control now us ST_FIN 0 (u1\<lparr>u_state := FinSent\<rparr>)))"

definition rto_expired :: "nat \<Rightarrow> utp \<Rightarrow> bool" where
  "rto_expired now u \<longleftrightarrow>
     (let fin_in_flight = (u_fin_sent u \<and> \<not> u_fin_acked u \<and> u_state u = FinSent);
          need_rto = (u_state u = SynSent \<or> (u_last_recv u \<noteq> None \<and> (u_queue u \<noteq> [] \<or> fin_in_flight)));
          since = (case (if u_state u = SynSent then u_last_send u else u_last_recv u) of None \<Rightarrow> 0 | Some t \<Rightarrow> now - t)
      in need_rto \<and> u_timeout u < since)"

definition process_tick :: "nat \<Rightarrow> u32 \<Rightarrow> utp \<Rightarrow> utp" where
  "process_tick now us u =
     (if u_state u = Closed then u
      else case flush_fin now us u of
             (True, u1) \<Rightarrow> u1
           | (False, u1) \<Rightarrow>
               if rto_expired now u1 then handle_timeout now us u1
               else
                 let u2 = (if is_connected u1 then flush_pending (length (u_pending u1)) now us u1 else u1);
                     u3 = (if u_ack_pending u2 then send_ack now us u2 else u2)
                 in u3\<lparr>u_want_read := (u_want_read u3 \<or> u_recv_out u3 \<noteq> [] \<or> eof_received u3)\<rparr>)"

end
