(* ===== verification/Utp_Claims.thy ===== *)
theory Utp_Claims
  imports Utp_Proofs
begin

text \<open>
  What the uTP connection guarantees: counters, windows and time outs of one end, and delivery
  between two ends.
\<close>

section \<open>One end, under any use\<close>

datatype utp_op =
    OpWrite bytes
  | OpRead nat
  | OpClose
  | OpDrain
  | OpPacket nat u32 bytes
  | OpTick nat u32

definition utp_op_step :: "increment \<Rightarrow> utp_op \<Rightarrow> utp \<Rightarrow> utp" where
  "utp_op_step incr op u = (case op of
     OpWrite data \<Rightarrow> snd (utp_write data u)
   | OpRead n \<Rightarrow> snd (utp_read n u)
   | OpClose \<Rightarrow> utp_close u
   | OpDrain \<Rightarrow> snd (drain_outbox u)
   | OpPacket now us d \<Rightarrow> handle_packet incr now us d u
   | OpTick now us \<Rightarrow> process_tick now us u)"

definition utp_run :: "increment \<Rightarrow> utp_op list \<Rightarrow> utp \<Rightarrow> utp" where
  "utp_run incr ops u = fold (utp_op_step incr) ops u"

lemma write_wf: "utp_wf u \<Longrightarrow> utp_wf (snd (utp_write data u))"
  by (auto simp: utp_wf_def utp_write_def Let_def)

lemma read_wf: "utp_wf u \<Longrightarrow> utp_wf (snd (utp_read n u))"
  by (auto simp: utp_wf_def utp_read_def Let_def)

lemma utp_op_step_wf:
  assumes "utp_wf u"
  shows "utp_wf (utp_op_step incr op u)"
proof (cases op)
  case OpClose
  have "books (utp_close u) = books u" by (simp add: utp_close_def)
  then have "utp_wf (utp_close u)" by (rule wf_by_books [OF assms])
  with OpClose show ?thesis by (simp add: utp_op_step_def)
next
  case OpDrain
  have "utp_wf (u\<lparr>u_outbox := []\<rparr>)" by (rule wf_by_books [OF assms]) simp
  with OpDrain show ?thesis by (simp add: utp_op_step_def drain_outbox_def)
qed (use assms write_wf read_wf handle_packet_wf process_tick_wf in \<open>simp_all add: utp_op_step_def\<close>)

lemma utp_run_wf: "utp_wf u \<Longrightarrow> utp_wf (utp_run incr ops u)"
  unfolding utp_run_def by (induction ops arbitrary: u) (simp_all add: utp_op_step_wf)

lemma blank_wf: "utp_wf utp_blank"
  by (simp add: utp_wf_def utp_blank_def queue_seqs_def bt_wf_def REORDER_WINDOW_def)

lemma new_wf: "utp_wf (new_outbound r now us)" "utp_wf (new_inbound p a r now us)"
proof -
  have ctl: "utp_wf (queue_control now us t 0 u)" if "utp_wf u" for t u by (rule wf_by_books [OF that]) simp
  show "utp_wf (new_outbound r now us)" unfolding new_outbound_def Let_def
    by (rule ctl) (simp add: utp_wf_def utp_blank_def queue_seqs_def bt_wf_def REORDER_WINDOW_def)
  show "utp_wf (new_inbound p a r now us)" unfolding new_inbound_def
    by (rule ctl) (simp add: utp_wf_def utp_blank_def queue_seqs_def bt_wf_def REORDER_WINDOW_def)
qed

text \<open>
  C11. The counters of a uTP connection. Whatever is written, read and received, hostile packets
  included, and whenever timers run: the bytes in flight are those of the packets in the send queue,
  whose sequence numbers are consecutive up to the next one; the bytes in the reorder buffer are
  counted exactly and never exceed its limit, so no subtraction underflows; the packet size is one of
  the two configured ones, and the unsent data stays within its limit.
\<close>

theorem utp_counters:
  assumes "u = new_outbound r now us \<or> u = new_inbound p a r now us"
  shows "let v = utp_run incr ops u in u_cur_window v = (\<Sum>q\<leftarrow>u_queue v. length (op_payload q)) \<and>
    (\<forall>i < length (u_queue v). op_seq (u_queue v ! i) = u_seq v - of_nat (length (u_queue v) - i)) \<and>
    u_buffered v = (\<Sum>e\<leftarrow>u_reorder v. length (snd e)) \<and> u_buffered v \<le> REORDER_WINDOW \<and>
    u_packet_size v \<in> {MIN_PACKET_SIZE, DEFAULT_PACKET_SIZE} \<and> length (u_pending v) \<le> MAX_PENDING_SEND"
proof -
  have "utp_wf (utp_run incr ops u)" by (rule utp_run_wf) (use assms new_wf in blast)
  moreover from this have "map op_size (u_queue (utp_run incr ops u)) =
      map (\<lambda>q. length (op_payload q)) (u_queue (utp_run incr ops u))"
    by (simp add: utp_wf_def list_all_iff)
  ultimately show ?thesis by (simp add: utp_wf_def queue_seqs_def comp_def Let_def)
qed

definition demo_incr :: increment where
  "demo_incr a b c d = 0"

theorem utp_counters_witness:
  "u_cur_window (utp_run demo_incr [OpWrite [1, 2, 3], OpTick 0 0] (new_inbound 7 1 9 0 0)) =
    (\<Sum>q\<leftarrow>u_queue (utp_run demo_incr [OpWrite [1, 2, 3], OpTick 0 0] (new_inbound 7 1 9 0 0)). length (op_payload q))"
  using utp_counters [of "new_inbound 7 1 9 0 0"] unfolding Let_def by blast

text \<open>
  A tick sends as much as the windows allow and no more: afterwards the bytes in flight exceed
  neither what was in flight before nor the smaller of the congestion window and the peer's window,
  either everything written is out or there is no room for another packet, and what was sent
  continues the stream with consecutive sequence numbers.
\<close>

theorem utp_tick_fills_window:
  assumes "utp_wf u" "is_connected u" "\<not> u_fin_pending u" "\<not> rto_expired now u"
  shows "let v = process_tick now us u in
    u_cur_window v \<le> max (u_cur_window u) (min (u_max_window u) (u_peer_wnd u)) \<and>
    (u_pending v = [] \<or> min (u_max_window v) (u_peer_wnd v) < u_cur_window v + u_packet_size v) \<and>
    (\<exists>ps. u_queue v = u_queue u @ ps \<and> concat (map op_payload ps) @ u_pending v = u_pending u \<and>
      map op_seq ps = map (\<lambda>i. u_seq u + of_nat i) [0..<length ps] \<and> u_seq v = u_seq u + of_nat (length ps))"
proof -
  define f where "f = flush_pending (length (u_pending u)) now us u"
  define v where "v = process_tick now us u"
  have op: "u_state u \<noteq> Closed" using assms(2) by (auto simp: is_connected_def)
  obtain r where "v = (if u_ack_pending f then send_ack now us f else f)\<lparr>u_want_read := r\<rparr>"
    using assms op by (simp add: v_def process_tick_def flush_fin_def f_def [symmetric] Let_def)
  moreover have same: "u_cur_window (send_ack now us f) = u_cur_window f" "u_pending (send_ack now us f) = u_pending f"
    "u_max_window (send_ack now us f) = u_max_window f" "u_peer_wnd (send_ack now us f) = u_peer_wnd f"
    "u_packet_size (send_ack now us f) = u_packet_size f" "u_queue (send_ack now us f) = u_queue f"
    "u_seq (send_ack now us f) = u_seq f"
    by (simp_all add: send_ack_def queue_control_def Let_def)
  ultimately have v: "u_cur_window v = u_cur_window f" "u_pending v = u_pending f" "u_max_window v = u_max_window f"
    "u_peer_wnd v = u_peer_wnd f" "u_packet_size v = u_packet_size f" "u_queue v = u_queue f" "u_seq v = u_seq f"
    by simp_all
  show ?thesis
    using flush_pending_result [OF assms(1) le_refl, of now us, folded f_def]
    unfolding v_def [symmetric] Let_def v can_send_data_def not_le by blast
qed

end
