(* ===== verification/Utp_Delivery.thy ===== *)
theory Utp_Delivery
  imports Utp_Claims "HOL-Library.Code_Target_Nat"
begin

text \<open>
  Delivery between two uTP ends: the initiator writes, the network loses, repeats, delays and
  reorders its datagrams, the responder reads.
\<close>

section \<open>The sending end\<close>

definition in_log :: "bytes list \<Rightarrow> u16 \<Rightarrow> bytes \<Rightarrow> bool" where
  "in_log log s p \<longleftrightarrow> (\<exists>n < length log. s = of_nat (2 + n) \<and> p = log ! n)"

definition sender_ok :: "bytes list \<Rightarrow> bytes \<Rightarrow> utp \<Rightarrow> bool" where
  "sender_ok log acc u \<longleftrightarrow> u_seq u = of_nat (2 + length log) \<and> concat log @ u_pending u = acc \<and>
     \<not> u_fin_pending u \<and> \<not> u_fin_sent u \<and> (\<forall>p \<in> set (u_queue u). in_log log (op_seq p) (op_payload p)) \<and>
     (\<forall>d \<in> set (u_outbox u). dgram_ok log d)"

definition sends :: "utp \<Rightarrow> u16 \<times> bytes \<times> bool \<times> bool \<times> out_packet list \<times> bytes list" where
  "sends u = (u_seq u, u_pending u, u_fin_pending u, u_fin_sent u, u_queue u, u_outbox u)"

lemma sender_sends: "sender_ok log acc u \<Longrightarrow> sends u' = sends u \<Longrightarrow> sender_ok log acc u'"
  by (simp add: sends_def sender_ok_def)

lemma sends_upd [simp]:
  "sends (u\<lparr>u_timeout := n\<rparr>) = sends u" "sends (u\<lparr>u_rtt := n\<rparr>) = sends u" "sends (u\<lparr>u_rtt_var := n\<rparr>) = sends u"
  "sends (u\<lparr>u_want_write := b\<rparr>) = sends u" "sends (u\<lparr>u_want_read := b\<rparr>) = sends u"
  "sends (u\<lparr>u_ack_pending := b\<rparr>) = sends u" "sends (u\<lparr>u_error := b\<rparr>) = sends u"
  "sends (u\<lparr>u_state := st\<rparr>) = sends u" "sends (u\<lparr>u_ack := sq\<rparr>) = sends u" "sends (u\<lparr>u_syn_acked := b\<rparr>) = sends u"
  "sends (u\<lparr>u_recv_out := d\<rparr>) = sends u" "sends (u\<lparr>u_eof := b\<rparr>) = sends u" "sends (u\<lparr>u_dup_acks := n\<rparr>) = sends u"
  "sends (u\<lparr>u_last_recv := t\<rparr>) = sends u" "sends (u\<lparr>u_last_send := t\<rparr>) = sends u" "sends (u\<lparr>u_timeouts := n\<rparr>) = sends u"
  "sends (u\<lparr>u_ts_echo := e\<rparr>) = sends u" "sends (u\<lparr>u_peer_wnd := n\<rparr>) = sends u" "sends (u\<lparr>u_syn_attempts := n\<rparr>) = sends u"
  "sends (u\<lparr>u_fin_acked := b\<rparr>) = sends u" "sends (u\<lparr>u_max_window := n\<rparr>) = sends u" "sends (u\<lparr>u_reorder := m\<rparr>) = sends u"
  "sends (u\<lparr>u_buffered := n\<rparr>) = sends u" "sends (u\<lparr>u_last_ack := sq\<rparr>) = sends u"
  "sends (u\<lparr>u_recovery_seq := sq\<rparr>) = sends u" "sends (u\<lparr>u_recovery_valid := b\<rparr>) = sends u"
  "sends (u\<lparr>u_cur_window := n\<rparr>) = sends u" "sends (u\<lparr>u_packet_size := n\<rparr>) = sends u"
  by (simp_all add: sends_def)

lemma sends_simps [simp]:
  "sends (update_delay sus now u) = sends u" "sends (update_window incr n u) = sends u"
  "sends (halve_window s u) = sends u" "sends (finish_close_if_idle u) = sends u" "sends (count_dup_ack a u) = sends u"
  by (simp_all add: sends_def update_delay_def update_window_def halve_window_def finish_close_if_idle_def
      count_dup_ack_def Let_def)

lemma sends_rtt [simp]: "sends (update_rtt r u) = sends u"
  by (simp only: update_rtt_def Let_def if_distrib [of sends] sends_upd if_cancel)

lemma sends_drain [simp]: "sends (drain_reorder m u) = sends u"
  by (induction m u rule: drain_reorder.induct) simp_all

lemma sends_buffer [simp]: "sends (buffer_packet s p u) = sends u"
  by (simp add: buffer_packet_def Let_def split: option.splits)

lemma sends_on_data [simp]: "sends (on_data s p u) = sends u"
  by (simp add: on_data_def Let_def)

lemma sender_control:
  assumes "sender_ok log acc u" "type = ST_SYN \<or> type = ST_STATE"
  shows "sender_ok log acc (queue_control now us type 0 u)"
proof -
  have "type < 16" using assms(2) by (auto simp: types_small)
  then obtain d es off where q: "queue_control now us type 0 u = u\<lparr>u_outbox := u_outbox u @ [d], u_last_send := Some now\<rparr>"
    and d: "parse_packet d = Some (control_header us type u, es, off)" by (rule queue_control_out)
  have "dgram_ok log d" using assms(2) d by (auto simp: dgram_ok_def control_header_def)
  with assms(1) show ?thesis by (simp add: q sender_ok_def)
qed

lemma sender_send_ack: "sender_ok log acc u \<Longrightarrow> sender_ok log acc (send_ack now us u)"
  using sender_control [of log acc u ST_STATE now us] sender_sends by (simp add: send_ack_def)

lemma dgram_data: "in_log log s p \<Longrightarrow> dgram_ok log (data_packet us s p u)"
  using parse_data_packet [of us s p u] by (auto simp: dgram_ok_def in_log_def)

lemma sender_retransmit:
  "sender_ok log acc u \<Longrightarrow> in_log log (op_seq p) (op_payload p) \<Longrightarrow> sender_ok log acc (retransmit_packet_clone now us p u)"
  using dgram_data by (auto simp: sender_ok_def retransmit_packet_clone_def)

lemma sender_ack_queue:
  assumes "sender_ok log acc u"
  shows "sender_ok log acc (ack_queue incr now a u)"
proof -
  obtain q f s b where p: "pop_acked now a (if u_fin_sent u then Some (u_fin_seq u) else None) (u_queue u) 0 None (u_fin_acked u)
      = (q, f, s, b)" by (metis prod_cases4)
  obtain r where r: "u_queue u = r @ q" using pop_acked_parts [OF p] by auto
  let ?u1 = "u\<lparr>u_queue := q, u_fin_acked := b\<rparr>"
  have 1: "sender_ok log acc ?u1" using assms r by (simp add: sender_ok_def)
  have "sends (case s of None \<Rightarrow> v | Some rtt \<Rightarrow> update_rtt rtt v) = sends v" for v by (cases s) simp_all
  then have "sends (ack_queue incr now a u) = sends ?u1"
    unfolding ack_queue_def p prod.case Let_def if_distrib [of sends]
    by (simp only: sends_upd sends_simps sends_rtt if_cancel)
  with 1 show ?thesis by (rule sender_sends)
qed

lemma sender_sack:
  assumes "sender_ok log acc u"
  shows "sender_ok log acc (sack_recovery now us a bits u)"
proof (cases "u_queue u")
  case (Cons p q)
  have "in_log log (op_seq p) (op_payload p)" using assms Cons by (simp add: sender_ok_def)
  then have "sender_ok log acc (halve_window (op_seq p) (retransmit_packet_clone now us p u))"
    using sender_sends [OF sender_retransmit [OF assms]] by simp
  with Cons assms show ?thesis by (simp add: sack_recovery_def Let_def)
qed (use assms in \<open>simp add: sack_recovery_def\<close>)

lemma set_mark: "p \<in> set (mark_retransmitted now t q) \<Longrightarrow> \<exists>r \<in> set q. op_seq p = op_seq r \<and> op_payload p = op_payload r"
  by (induction now t q rule: mark_retransmitted.induct) (auto split: if_splits)

lemma sender_dup:
  assumes "sender_ok log acc u"
  shows "sender_ok log acc (dup_recovery now us a u)"
proof -
  let ?g = "\<lambda>p. (retransmit_packet_clone now us p u)\<lparr>u_queue := mark_retransmitted now (a + 1)
    (u_queue (retransmit_packet_clone now us p u))\<rparr>"
  have "sender_ok log acc ((halve_window (a + 1) (?g p))\<lparr>u_dup_acks := 0\<rparr>)" if p: "p \<in> set (u_queue u)" for p
  proof -
    have "sender_ok log acc (retransmit_packet_clone now us p u)"
      by (rule sender_retransmit [OF assms]) (use assms p in \<open>simp add: sender_ok_def\<close>)
    then have "sender_ok log acc (?g p)" using set_mark by (fastforce simp: sender_ok_def)
    then show ?thesis by (rule sender_sends) simp
  qed
  moreover have "p \<in> set (u_queue u)" if "find P (u_queue u) = Some p" for P p
    using that by (auto simp: find_Some_iff)
  moreover have "sender_ok log acc (u\<lparr>u_dup_acks := 0\<rparr>)" by (rule sender_sends [OF assms]) simp
  ultimately show ?thesis using assms by (simp add: dup_recovery_def Let_def split: option.splits)
qed

lemma sender_on_ack:
  assumes "sender_ok log acc u"
  shows "sender_ok log acc (on_ack incr now us a bits u)"
proof -
  define u1 where "u1 = ack_queue incr now a (count_dup_ack a u)"
  define u2 where "u2 = (if u_fin_sent u1 \<and> \<not> u_fin_acked u1 \<and> seq_leq (u_fin_seq u1) a
    then u1\<lparr>u_fin_acked := True\<rparr> else u1)"
  define u4 where "u4 = dup_recovery now us a (sack_recovery now us a bits u2)"
  have "sender_ok log acc u1" unfolding u1_def by (rule sender_ack_queue [OF sender_sends [OF assms]]) simp
  moreover have "sends u2 = sends u1" by (simp add: u2_def)
  ultimately have "sender_ok log acc u2" by (rule sender_sends)
  then have 4: "sender_ok log acc u4" unfolding u4_def by (intro sender_dup sender_sack)
  then have "sender_ok log acc (finish_close_if_idle u4)" by (rule sender_sends) simp
  with 4 assms show ?thesis
    by (simp add: on_ack_def Let_def u1_def [symmetric] u2_def [symmetric] u4_def [symmetric])
qed

lemma sender_on_type:
  assumes "sender_ok log acc u"
  shows "sender_ok log acc (snd (on_type incr now us hdr payload bits u))"
proof -
  let ?s = "if u_state u = SynSent
      then u\<lparr>u_ack := ph_seq_nr hdr - 1, u_syn_acked := True, u_state := Connected\<rparr> else u"
  let ?c = "if u_state u = SynRecv then u\<lparr>u_state := Connected\<rparr>
       else if u_state u = SynSent
       then u\<lparr>u_ack := ph_seq_nr hdr, u_syn_acked := True, u_state := Connected\<rparr> else u"
  let ?f = "(if ph_seq_nr hdr = u_ack ?c + 1 \<and> \<not> u_eof ?c
       then ?c\<lparr>u_ack := ph_seq_nr hdr, u_eof := True\<rparr> else ?c)\<lparr>u_ack_pending := True\<rparr>"
  have 1: "sender_ok log acc ?s" and c: "sender_ok log acc ?c" using sender_sends [OF assms] by simp_all
  have f: "sender_ok log acc ?f" by (rule sender_sends [OF c]) simp
  have d: "sender_ok log acc (on_data s payload ?c)" for s by (rule sender_sends [OF c]) simp
  have 2: "sender_ok log acc (queue_control now us ST_STATE 0 u)" "sender_ok log acc (u\<lparr>u_error := True, u_state := Closed\<rparr>)"
    using sender_control [OF assms] sender_sends [OF assms] by simp_all
  show ?thesis
    using 2 assms sender_on_ack [OF 1] sender_on_ack [OF d] sender_on_ack [OF f]
    unfolding on_type_def Let_def by (simp only: snd_conv if_distrib [of snd] split: if_splits) simp
qed

lemma sender_packet:
  assumes "sender_ok log acc u"
  shows "sender_ok log acc (handle_packet incr now us data u)"
proof (cases "parse_packet data")
  case (Some r)
  obtain hdr exts off where r: "r = (hdr, exts, off)" by (cases r) auto
  define u2 where "u2 = (if ph_type hdr \<noteq> ST_SYN
    then update_delay (us - ph_timestamp hdr) now (u\<lparr>u_last_recv := Some now, u_timeouts := 0,
       u_ts_echo := us - ph_timestamp hdr, u_peer_wnd := unat (ph_wnd_size hdr)\<rparr>)
    else u\<lparr>u_last_recv := Some now, u_timeouts := 0, u_ts_echo := us - ph_timestamp hdr,
       u_peer_wnd := unat (ph_wnd_size hdr)\<rparr>)"
  have "sends u2 = sends u" by (simp add: u2_def)
  then have "sender_ok log acc u2" by (rule sender_sends [OF assms])
  obtain b u3 where t: "on_type incr now us hdr (drop off data) (sack_of exts) u2 = (b, u3)" by force
  have "sender_ok log acc u3"
    using sender_on_type [OF \<open>sender_ok log acc u2\<close>, of incr now us hdr "drop off data" "sack_of exts"] t by simp
  with sender_send_ack t show ?thesis
    by (simp add: handle_packet_def Some r u2_def Let_def split: bool.splits)
qed (use assms in \<open>simp add: handle_packet_def\<close>)

text \<open>A timeout resends packets of the log.\<close>

lemma sender_timeout:
  assumes "sender_ok log acc u"
  shows "sender_ok log acc (handle_timeout now us u) \<and> length (u_queue (handle_timeout now us u)) = length (u_queue u)"
proof (cases "u_state u = SynSent")
  case True
  have "sender_ok log acc (u\<lparr>u_syn_attempts := n, u_timeout := t\<rparr>)" for n t by (rule sender_sends [OF assms]) simp
  from sender_control [OF this, of ST_SYN] True show ?thesis
    by (auto simp: handle_timeout_def Let_def queue_control_def intro: sender_sends [OF assms] sender_sends)
next
  case False
  let ?u1 = "u\<lparr>u_timeouts := u_timeouts u + 1, u_timeout := min (u_timeout u * 2) RTO_MAX\<rparr>"
  let ?u0 = "?u1\<lparr>u_packet_size := MIN_PACKET_SIZE, u_max_window := MIN_PACKET_SIZE, u_last_recv := Some now\<rparr>"
  let ?r = "retransmit_unacked now us ?u0"
  have "sender_ok log acc ?u0" by (rule sender_sends [OF assms]) simp
  then have "sender_ok log acc ?r" using dgram_data by (auto simp: sender_ok_def retransmit_unacked_def)
  moreover have "\<not> u_fin_sent ?r" using assms by (simp add: sender_ok_def retransmit_unacked_def)
  moreover have "length (u_queue ?r) = length (u_queue u)" by (simp add: retransmit_unacked_def)
  moreover have "sender_ok log acc (?u1\<lparr>u_error := True, u_state := Closed\<rparr>)" by (rule sender_sends [OF assms]) simp
  ultimately show ?thesis using False by (simp add: handle_timeout_def Let_def)
qed

lemma in_log_mono: "in_log log s p \<Longrightarrow> in_log (log @ new) s p"
  unfolding in_log_def by (metis length_append nth_append trans_less_add1)

lemma dgram_log:
  "dgram_ok log d \<longleftrightarrow> (\<exists>h es off. parse_packet d = Some (h, es, off) \<and>
     (ph_type h = ST_SYN \<or> ph_type h = ST_STATE \<or> ph_type h = ST_DATA \<and> in_log log (ph_seq_nr h) (drop off d)))"
  by (simp add: dgram_ok_def in_log_def)

lemma dgram_mono: "dgram_ok log d \<Longrightarrow> dgram_ok (log @ new) d"
  unfolding dgram_log using in_log_mono by blast

lemma sender_flush:
  assumes "sender_ok log acc u" "utp_wf u"
  shows "sender_ok (log @ map op_payload (drop (length (u_queue u)) (u_queue (flush_pending (length (u_pending u)) now us u))))
    acc (flush_pending (length (u_pending u)) now us u)"
proof -
  let ?f = "flush_pending (length (u_pending u)) now us u"
  obtain ps where ps: "u_queue ?f = u_queue u @ ps" "concat (map op_payload ps) @ u_pending ?f = u_pending u"
    "map op_seq ps = map (\<lambda>i. u_seq u + of_nat i) [0..<length ps]" "u_seq ?f = u_seq u + of_nat (length ps)"
    "u_outbox ?f = u_outbox u @ wire_of us u ps"
    using flush_pending_result [OF assms(2) le_refl, of now us] by blast
  let ?log = "log @ map op_payload ps"
  have new: "in_log ?log (op_seq p) (op_payload p)" if p: "p \<in> set ps" for p
  proof -
    obtain i where i: "i < length ps" "p = ps ! i" using p by (auto simp: in_set_conv_nth)
    have "op_seq p = u_seq u + of_nat i" using arg_cong [OF ps(3), of "\<lambda>l. l ! i"] i by simp
    with i assms(1) show ?thesis
      by (auto simp: in_log_def sender_ok_def nth_append intro!: exI [of _ "length log + i"])
  qed
  have "u_fin_pending (flush_pending n now us v) = u_fin_pending v \<and> u_fin_sent (flush_pending n now us v) = u_fin_sent v" for n v
    by (induction n arbitrary: v) (simp_all add: Let_def queue_data_packet_def)
  moreover have "dgram_ok ?log d" if "d \<in> set (wire_of us u ps)" for d
    using that new dgram_data by (auto simp: wire_of_def)
  moreover have "u_seq ?f = of_nat (2 + length ?log)" using assms(1) ps(4) by (simp add: sender_ok_def algebra_simps)
  moreover have "concat ?log @ u_pending ?f = acc" using assms(1) ps(2) by (simp add: sender_ok_def)
  moreover have "in_log ?log (op_seq p) (op_payload p)" if "p \<in> set (u_queue ?f)" for p
    using that new in_log_mono assms(1) unfolding ps(1) sender_ok_def by auto
  ultimately have "sender_ok ?log acc ?f"
    using assms(1) dgram_mono unfolding sender_ok_def ps(5) by auto
  then show ?thesis by (simp add: ps(1))
qed

definition newly_sent :: "nat \<Rightarrow> u32 \<Rightarrow> utp \<Rightarrow> bytes list" where
  "newly_sent now us u = map op_payload (drop (length (u_queue u)) (u_queue (process_tick now us u)))"

lemma sender_tick:
  assumes "sender_ok log acc u" "utp_wf u"
  shows "sender_ok (log @ newly_sent now us u) acc (process_tick now us u)"
proof -
  have ff: "flush_fin now us u = (False, u)" using assms(1) by (simp add: flush_fin_def sender_ok_def)
  define u2 where "u2 = (if is_connected u then flush_pending (length (u_pending u)) now us u else u)"
  define v where "v = (if u_ack_pending u2 then send_ack now us u2 else u2)"
  define r where "r = (u_want_read v \<or> u_recv_out v \<noteq> [] \<or> eof_received v)"
  have tick: "process_tick now us u =
      (if u_state u = Closed then u else if rto_expired now u then handle_timeout now us u else v\<lparr>u_want_read := r\<rparr>)"
    by (simp only: process_tick_def ff prod.case bool.case Let_def u2_def [symmetric] v_def [symmetric] r_def [symmetric])
  have q: "u_queue v = u_queue u2" by (simp add: v_def send_ack_def queue_control_def Let_def)
  have 2: "sender_ok (log @ map op_payload (drop (length (u_queue u)) (u_queue u2))) acc u2"
    using sender_flush [OF assms, of now us] assms(1) by (simp add: u2_def)
  have "sender_ok (log @ map op_payload (drop (length (u_queue u)) (u_queue v))) acc v"
    unfolding q unfolding v_def by (cases "u_ack_pending u2") (simp_all add: sender_send_ack 2)
  then have "sender_ok (log @ map op_payload (drop (length (u_queue u)) (u_queue v))) acc (v\<lparr>u_want_read := r\<rparr>)"
    by (rule sender_sends) simp
  then show ?thesis
    using sender_timeout [OF assms(1), of now us] assms(1) unfolding newly_sent_def tick by simp
qed

section \<open>The receiving end\<close>

definition received :: "bytes list \<Rightarrow> bytes \<Rightarrow> nat \<Rightarrow> utp \<Rightarrow> bool" where
  "received log got k u \<longleftrightarrow> k \<le> length log \<and> u_ack u = of_nat (1 + k) \<and>
     got @ u_recv_out u = concat (take k log) \<and> bt_wf (u_reorder u) \<and>
     (\<forall>(s, p) \<in> set (u_reorder u). \<exists>n. k < n \<and> n < length log \<and> s = of_nat (2 + n) \<and> p = log ! n)"

definition receives :: "utp \<Rightarrow> u16 \<times> bytes \<times> (u16, bytes) btree_map \<times> bool" where
  "receives u = (u_ack u, u_recv_out u, u_reorder u, u_state u = SynSent)"

lemma received_cong: "received log got k u \<Longrightarrow> receives u' = receives u \<Longrightarrow> received log got k u'"
  by (simp add: received_def receives_def)

lemma receives_upd [simp]:
  "receives (u\<lparr>u_timeout := n\<rparr>) = receives u" "receives (u\<lparr>u_rtt := n\<rparr>) = receives u" "receives (u\<lparr>u_rtt_var := n\<rparr>) = receives u"
  "receives (u\<lparr>u_want_write := b\<rparr>) = receives u" "receives (u\<lparr>u_want_read := b\<rparr>) = receives u"
  "receives (u\<lparr>u_ack_pending := b\<rparr>) = receives u" "receives (u\<lparr>u_error := b\<rparr>) = receives u"
  "receives (u\<lparr>u_dup_acks := n\<rparr>) = receives u" "receives (u\<lparr>u_last_recv := t\<rparr>) = receives u"
  "receives (u\<lparr>u_last_send := t\<rparr>) = receives u" "receives (u\<lparr>u_timeouts := n\<rparr>) = receives u"
  "receives (u\<lparr>u_ts_echo := e\<rparr>) = receives u" "receives (u\<lparr>u_peer_wnd := n\<rparr>) = receives u"
  "receives (u\<lparr>u_fin_acked := b\<rparr>) = receives u" "receives (u\<lparr>u_fin_sent := b\<rparr>) = receives u"
  "receives (u\<lparr>u_fin_pending := b\<rparr>) = receives u" "receives (u\<lparr>u_fin_seq := sq\<rparr>) = receives u"
  "receives (u\<lparr>u_max_window := n\<rparr>) = receives u" "receives (u\<lparr>u_last_ack := sq\<rparr>) = receives u"
  "receives (u\<lparr>u_recovery_seq := sq\<rparr>) = receives u" "receives (u\<lparr>u_recovery_valid := b\<rparr>) = receives u"
  "receives (u\<lparr>u_cur_window := n\<rparr>) = receives u" "receives (u\<lparr>u_packet_size := n\<rparr>) = receives u"
  "receives (u\<lparr>u_queue := q\<rparr>) = receives u" "receives (u\<lparr>u_outbox := o1\<rparr>) = receives u"
  "receives (u\<lparr>u_pending := d\<rparr>) = receives u" "receives (u\<lparr>u_seq := sq\<rparr>) = receives u"
  "receives (u\<lparr>u_syn_attempts := n\<rparr>) = receives u"
  by (simp_all add: receives_def)

lemma receives_simps [simp]:
  "receives (queue_control now us type s u) = receives u" "receives (retransmit_packet_clone now us p u) = receives u"
  "receives (update_delay sus now u) = receives u" "receives (update_window incr n u) = receives u"
  "receives (halve_window s u) = receives u" "receives (count_dup_ack a u) = receives u"
  "receives (retransmit_unacked now us u) = receives u" "receives (send_next now us u) = receives u"
  by (simp_all add: receives_def queue_control_def retransmit_packet_clone_def update_delay_def update_window_def
      halve_window_def count_dup_ack_def retransmit_unacked_def send_next_def queue_data_packet_def Let_def)

lemma receives_ack [simp]: "receives (send_ack now us u) = receives u"
  by (simp add: send_ack_def)

lemma receives_rtt [simp]: "receives (update_rtt r u) = receives u"
  by (simp only: update_rtt_def Let_def if_distrib [of receives] receives_upd if_cancel)

text \<open>Closing a connection that is not being opened.\<close>

lemma receives_closed: "u_state u \<noteq> SynSent \<Longrightarrow> st \<noteq> SynSent \<Longrightarrow> receives (u\<lparr>u_state := st\<rparr>) = receives u"
  by (simp add: receives_def)

lemma receives_state: "receives u' = receives u \<Longrightarrow> u_state u' = SynSent \<longleftrightarrow> u_state u = SynSent"
  by (simp add: receives_def)

lemma receives_flush [simp]: "receives (flush_pending n now us u) = receives u"
proof (induction n arbitrary: u)
  case (Suc n)
  then show ?case unfolding flush_pending_step by simp
qed simp

lemma receives_ack_queue: "receives (ack_queue incr now a u) = receives u"
proof -
  obtain q f s b where p: "pop_acked now a (if u_fin_sent u then Some (u_fin_seq u) else None) (u_queue u) 0 None (u_fin_acked u)
      = (q, f, s, b)" by (metis prod_cases4)
  have "receives (case s of None \<Rightarrow> v | Some rtt \<Rightarrow> update_rtt rtt v) = receives v" for v by (cases s) simp_all
  then show ?thesis
    unfolding ack_queue_def p prod.case Let_def if_distrib [of receives]
    by (simp only: receives_upd receives_simps receives_rtt if_cancel)
qed

lemma receives_recovery:
  "receives (sack_recovery now us a bits u) = receives u" "receives (dup_recovery now us a u) = receives u"
  by (simp_all add: sack_recovery_def dup_recovery_def Let_def split: list.splits option.splits)

lemma receives_idle: "u_state u \<noteq> SynSent \<Longrightarrow> receives (finish_close_if_idle u) = receives u"
  by (simp add: finish_close_if_idle_def receives_closed)

lemma receives_on_ack:
  assumes "u_state u \<noteq> SynSent"
  shows "receives (on_ack incr now us a bits u) = receives u"
proof -
  define u1 where "u1 = ack_queue incr now a (count_dup_ack a u)"
  define u2 where "u2 = (if u_fin_sent u1 \<and> \<not> u_fin_acked u1 \<and> seq_leq (u_fin_seq u1) a
    then u1\<lparr>u_fin_acked := True\<rparr> else u1)"
  define u4 where "u4 = dup_recovery now us a (sack_recovery now us a bits u2)"
  have "receives u2 = receives u" by (simp add: u2_def u1_def receives_ack_queue)
  then have 4: "receives u4 = receives u" by (simp add: u4_def receives_recovery)
  then have "u_state u4 \<noteq> SynSent" using receives_state assms by blast
  with 4 assms show ?thesis
    by (simp add: on_ack_def Let_def u1_def [symmetric] u2_def [symmetric] u4_def [symmetric] receives_idle)
qed

lemma receives_timeout: "u_state u \<noteq> SynSent \<Longrightarrow> receives (handle_timeout now us u) = receives u"
  by (simp add: handle_timeout_def Let_def receives_closed)

lemma receives_tick:
  assumes "u_state u \<noteq> SynSent"
  shows "receives (process_tick now us u) = receives u"
proof -
  obtain b u1 where f: "flush_fin now us u = (b, u1)" by force
  have 1: "receives u1 = receives u" "b = False"
    using f assms receives_closed [of "u\<lparr>u_fin_pending := False, u_fin_sent := True, u_fin_seq := u_seq u\<rparr>" FinSent]
    by (auto simp: flush_fin_def Let_def split: if_splits)
  then have s: "u_state u1 \<noteq> SynSent" using receives_state assms by blast
  show ?thesis
    unfolding process_tick_def f prod.case 1(2) bool.case Let_def if_distrib [of receives]
    by (simp add: 1 receives_timeout [OF s] if_distrib [of receives])
qed

lemma bt_wf_Cons: "bt_wf ((s, p) # m) \<longleftrightarrow> (\<forall>(s', _) \<in> set m. s < s') \<and> bt_wf m"
  by (auto simp: bt_wf_def)

lemma drain_received:
  assumes "k \<le> length log" "u_ack u = of_nat (1 + k)" "got @ u_recv_out u = concat (take k log)" "bt_wf m"
    and "\<forall>(s, p) \<in> set m. \<exists>n. k \<le> n \<and> n < length log \<and> s = of_nat (2 + n) \<and> p = log ! n"
    and "length log + 2 < 2 ^ 15"
  shows "\<exists>k' \<ge> k. received log got k' (drain_reorder m u)"
  using assms
proof (induction m u arbitrary: k rule: drain_reorder.induct)
  case (1 u)
  then have "received log got k (u\<lparr>u_reorder := []\<rparr>)" by (simp add: received_def bt_wf_def)
  then show ?case by auto
next
  case (2 s p m u)
  obtain n where n: "k \<le> n" "n < length log" "s = of_nat (2 + n)" "p = log ! n" using 2(6) by auto
  have next_seq: "u_ack u + 1 = of_nat (2 + k)" using 2(3) by simp
  have above: "\<exists>n'. n < n' \<and> n' < length log \<and> s' = of_nat (2 + n') \<and> p' = log ! n'" if m: "(s', p') \<in> set m" for s' p'
  proof -
    obtain n' where n': "n' < length log" "s' = of_nat (2 + n')" "p' = log ! n'" using 2(6) m by auto
    have "s < s'" using 2(5) m by (auto simp: bt_wf_Cons)
    then have "n < n'" using seq_nat_less [of "2 + n" "2 + n'"] n n' 2(7) by simp
    with n' show ?thesis by blast
  qed
  show ?case
  proof (cases "s = u_ack u + 1")
    case False
    have "n \<noteq> k" using False n next_seq by auto
    then have "k < n" using n by simp
    have "\<forall>(s', p') \<in> set ((s, p) # m). \<exists>n. k < n \<and> n < length log \<and> s' = of_nat (2 + n) \<and> p' = log ! n"
    proof safe
      fix s' p' assume "(s', p') \<in> set ((s, p) # m)"
      then consider "s' = s" "p' = p" | "(s', p') \<in> set m" by auto
      then show "\<exists>n. k < n \<and> n < length log \<and> s' = of_nat (2 + n) \<and> p' = log ! n"
      proof cases
        case 1
        with n \<open>k < n\<close> show ?thesis by blast
      next
        case 2
        from above [OF this] \<open>k < n\<close> show ?thesis using less_trans by blast
      qed
    qed
    then have "received log got k (u\<lparr>u_reorder := (s, p) # m\<rparr>)" using 2(2-5) by (simp add: received_def)
    with False show ?thesis by auto
  next
    case True
    then have "n = k" using n next_seq seq_nat_inj [of "2 + n" "2 + k"] 2(2,7) by auto
    let ?v = "u\<lparr>u_buffered := u_buffered u - length p, u_recv_out := u_recv_out u @ p, u_ack := s\<rparr>"
    have "\<exists>k' \<ge> Suc k. received log got k' (drain_reorder m ?v)"
    proof (rule 2(1))
      show "\<not> s \<noteq> u_ack u + 1" using True by simp
      show "Suc k \<le> length log" using n \<open>n = k\<close> by simp
      show "u_ack ?v = of_nat (1 + Suc k)" using n \<open>n = k\<close> by simp
      show "got @ u_recv_out ?v = concat (take (Suc k) log)"
        using 2(4) n \<open>n = k\<close> by (simp add: take_Suc_conv_app_nth flip: append_assoc)
      show "bt_wf m" using 2(5) by (simp add: bt_wf_Cons)
      show "\<forall>(s, p) \<in> set m. \<exists>n. Suc k \<le> n \<and> n < length log \<and> s = of_nat (2 + n) \<and> p = log ! n"
        using above \<open>n = k\<close> by (auto simp: Suc_le_eq)
      show "length log + 2 < 2 ^ 15" by (rule 2(7))
    qed
    with True show ?thesis by (auto intro: Suc_leD)
  qed
qed

lemma received_buffer:
  assumes "received log got k u" "k < n" "n < length log"
  shows "received log got k (buffer_packet (of_nat (2 + n)) (log ! n) u)"
proof -
  have ins: "received log got k (u\<lparr>u_reorder := bt_insert (of_nat (2 + n)) (log ! n) m, u_buffered := b\<rparr>)"
    if sub: "set m \<subseteq> set (u_reorder u)" and wf: "bt_wf m" for m b
  proof -
    have "\<exists>n'. k < n' \<and> n' < length log \<and> s' = of_nat (2 + n') \<and> p' = log ! n'"
      if e: "(s', p') \<in> set (bt_insert (of_nat (2 + n)) (log ! n) m)" for s' p'
    proof -
      have "(s', p') = (of_nat (2 + n), log ! n) \<or> (s', p') \<in> set (u_reorder u)"
        using set_bt_insert_subset [of "of_nat (2 + n)" "log ! n" m] e sub by blast
      then show ?thesis using assms unfolding received_def by blast
    qed
    then show ?thesis using assms(1) bt_wf_insert [OF wf] by (auto simp: received_def)
  qed
  have wf: "bt_wf (u_reorder u)" using assms(1) by (simp add: received_def)
  have 1: "received log got k (u\<lparr>u_reorder := bt_insert (of_nat (2 + n)) (log ! n) (u_reorder u), u_buffered := b\<rparr>)" for b
    by (rule ins [OF subset_refl wf])
  have 2: "received log got k (u\<lparr>u_reorder := bt_insert (of_nat (2 + n)) (log ! n) (bt_remove (of_nat (2 + n)) (u_reorder u)),
      u_buffered := b\<rparr>)" for b
    by (rule ins [OF _ bt_wf_remove [OF wf]]) (auto simp: bt_remove_def)
  show ?thesis
  proof (cases "map_of (u_reorder u) (of_nat (2 + n))")
    case None
    with assms(1) 1 show ?thesis by (simp add: buffer_packet_def Let_def)
  next
    case (Some d)
    with assms(1) 2 show ?thesis by (simp add: buffer_packet_def Let_def)
  qed
qed

lemma received_on_data:
  assumes "received log got k u" "u_state u \<noteq> SynSent" "in_log log s p" "length log + 2 < 2 ^ 15"
  shows "\<exists>k' \<ge> k. received log got k' (on_data s p u) \<and> (s = u_ack u + 1 \<and> p \<noteq> [] \<longrightarrow> k < k')"
proof -
  obtain n where n: "n < length log" "s = of_nat (2 + n)" "p = log ! n" using assms(3) by (auto simp: in_log_def)
  have k: "k \<le> length log" "u_ack u = of_nat (1 + k)" using assms(1) by (simp_all add: received_def)
  have leq: "seq_leq s (u_ack u) \<longleftrightarrow> n < k"
    unfolding n(2) k(2) by (subst seq_leq_nat) (use n k assms(4) in auto)
  have eq: "s = u_ack u + 1 \<longleftrightarrow> n = k"
    using seq_nat_inj [of "2 + n" "2 + k"] n k assms(4) by (auto simp: algebra_simps)
  let ?u1 = "u\<lparr>u_ack_pending := True\<rparr>"
  have 1: "received log got k ?u1" by (rule received_cong [OF assms(1)]) simp
  consider "p = []" | "p \<noteq> []" "n < k" | "p \<noteq> []" "n = k" | "p \<noteq> []" "k < n" by linarith
  then show ?thesis
  proof cases
    case 1
    then show ?thesis using \<open>received log got k ?u1\<close> by (auto simp: on_data_def)
  next
    case 2
    then show ?thesis using \<open>received log got k ?u1\<close> leq eq by (auto simp: on_data_def Let_def)
  next
    case 3
    let ?v = "?u1\<lparr>u_recv_out := u_recv_out ?u1 @ p, u_ack := s\<rparr>"
    have "\<exists>k' \<ge> Suc k. received log got k' (drain_reorder (u_reorder ?u1) ?v)"
    proof (rule drain_received)
      show "got @ u_recv_out ?v = concat (take (Suc k) log)"
        using assms(1) n 3 by (simp add: received_def take_Suc_conv_app_nth flip: append_assoc)
    qed (use assms 3 n in \<open>auto simp: received_def Suc_le_eq\<close>)
    then obtain k' where k': "Suc k \<le> k'" "received log got k' (drain_reorder (u_reorder ?u1) ?v)" by blast
    have "received log got k' ((drain_reorder (u_reorder ?u1) ?v)\<lparr>u_want_read := True\<rparr>)"
      by (rule received_cong [OF k'(2)]) simp
    moreover have "on_data s p u = (drain_reorder (u_reorder ?u1) ?v)\<lparr>u_want_read := True\<rparr>"
      using 3 leq eq by (simp add: on_data_def Let_def)
    ultimately show ?thesis using k'(1) by (intro exI [of _ k']) simp
  next
    case 4
    have "received log got k (buffer_packet s p ?u1)" unfolding n(2,3) by (rule received_buffer [OF 1 4(2) n(1)])
    then have "received log got k ((buffer_packet s p ?u1)\<lparr>u_want_read := True\<rparr>)" by (rule received_cong) simp
    moreover have "on_data s p u = (buffer_packet s p ?u1)\<lparr>u_want_read := True\<rparr>"
      using 4 leq eq by (simp add: on_data_def Let_def)
    ultimately show ?thesis using 4 eq by (intro exI [of _ k]) simp
  qed
qed

lemma state_buffer [simp]: "u_state (buffer_packet s p u) = u_state u"
  by (simp add: buffer_packet_def Let_def split: option.splits)

lemma state_drain [simp]: "u_state (drain_reorder m u) = u_state u"
  by (induction m u rule: drain_reorder.induct) simp_all

lemma state_on_data [simp]: "u_state (on_data s p u) = u_state u"
  by (simp add: on_data_def Let_def)

lemma receiver_packet:
  assumes "received log got k u" "u_state u \<noteq> SynSent" "dgram_ok log d" "length log + 2 < 2 ^ 15"
  shows "u_state (handle_packet incr now us d u) \<noteq> SynSent \<and>
    (\<exists>k' \<ge> k. received log got k' (handle_packet incr now us d u))"
proof -
  obtain h es off where p: "parse_packet d = Some (h, es, off)"
    and ty: "ph_type h = ST_SYN \<or> ph_type h = ST_STATE \<or> ph_type h = ST_DATA \<and> in_log log (ph_seq_nr h) (drop off d)"
    using assms(3) unfolding dgram_log by blast
  define u2 where "u2 = (if ph_type h \<noteq> ST_SYN
    then update_delay (us - ph_timestamp h) now (u\<lparr>u_last_recv := Some now, u_timeouts := 0,
       u_ts_echo := us - ph_timestamp h, u_peer_wnd := unat (ph_wnd_size h)\<rparr>)
    else u\<lparr>u_last_recv := Some now, u_timeouts := 0, u_ts_echo := us - ph_timestamp h,
       u_peer_wnd := unat (ph_wnd_size h)\<rparr>)"
  have r2: "receives u2 = receives u" by (simp add: u2_def)
  have 2: "received log got k u2" by (rule received_cong [OF assms(1) r2])
  have s2: "u_state u2 \<noteq> SynSent" using receives_state [OF r2] assms(2) by simp
  obtain b u3 where t: "on_type incr now us h (drop off d) (sack_of es) u2 = (b, u3)" by force
  have "u_state u3 \<noteq> SynSent \<and> (\<exists>k' \<ge> k. received log got k' u3)"
    using ty
  proof (elim disjE conjE)
    assume "ph_type h = ST_SYN"
    then have "receives u3 = receives u2" using t by (auto simp: on_type_def split: if_splits)
    then show ?thesis using received_cong [OF 2] receives_state s2 by blast
  next
    assume ty: "ph_type h = ST_STATE"
    then have "u3 = on_ack incr now us (ph_ack_nr h) (sack_of es) u2"
      using t s2 types_small by (simp add: on_type_def)
    then have "receives u3 = receives u2" using receives_on_ack [OF s2] by simp
    then show ?thesis using received_cong [OF 2] receives_state s2 by blast
  next
    assume ty: "ph_type h = ST_DATA" and data: "in_log log (ph_seq_nr h) (drop off d)"
    let ?c = "if u_state u2 = SynRecv then u2\<lparr>u_state := Connected\<rparr> else u2"
    have c: "receives ?c = receives u2" "u_state ?c \<noteq> SynSent" using s2 receives_closed [OF s2] by simp_all
    have "received log got k ?c" by (rule received_cong [OF 2 c(1)])
    from received_on_data [OF this c(2) data assms(4)] obtain k' where
      k': "k \<le> k'" "received log got k' (on_data (ph_seq_nr h) (drop off d) ?c)" by blast
    have sd: "u_state (on_data (ph_seq_nr h) (drop off d) ?c) \<noteq> SynSent" unfolding state_on_data by (rule c(2))
    have "u3 = on_ack incr now us (ph_ack_nr h) (sack_of es) (on_data (ph_seq_nr h) (drop off d) ?c)"
      using t ty s2 types_small by (cases "u_state u2 = SynRecv") (simp_all add: on_type_def Let_def)
    then have "receives u3 = receives (on_data (ph_seq_nr h) (drop off d) ?c)"
      using receives_on_ack [OF sd] by simp
    then show ?thesis using received_cong [OF k'(2)] receives_state sd k'(1) by blast
  qed
  moreover have "receives (if u_ack_pending u3 then send_ack now us u3 else u3) = receives u3" by simp
  moreover have "handle_packet incr now us d u = (if b then u3 else if u_ack_pending u3 then send_ack now us u3 else u3)"
    using t by (cases b) (simp_all add: handle_packet_def p u2_def Let_def)
  ultimately show ?thesis using received_cong receives_state by (metis (full_types))
qed

section \<open>The link\<close>

text \<open>
  The initiator \<open>a\<close>, what its application had accepted, the payloads it has sent, every datagram it
  ever put on the wire, the responder \<open>b\<close>, and what its application has read. The initiator receives
  anything; the responder receives any of the initiator's datagrams at any time, any number of times.
\<close>

inductive utp_link :: "increment \<Rightarrow> utp \<Rightarrow> bytes \<Rightarrow> bytes list \<Rightarrow> bytes list \<Rightarrow> utp \<Rightarrow> bytes \<Rightarrow> bool" for incr where
  start: "utp_link incr (new_outbound r now us) [] [] [] (new_inbound p 1 r' now' us') []"
| write_a: "utp_link incr a acc log sent b got \<Longrightarrow>
    utp_link incr (snd (utp_write d a)) (acc @ take (fst (utp_write d a)) d) log sent b got"
| read_a: "utp_link incr a acc log sent b got \<Longrightarrow> utp_link incr (snd (utp_read n a)) acc log sent b got"
| packet_a: "utp_link incr a acc log sent b got \<Longrightarrow> utp_link incr (handle_packet incr now us d a) acc log sent b got"
| tick_a: "utp_link incr a acc log sent b got \<Longrightarrow>
    utp_link incr (process_tick now us a) acc (log @ newly_sent now us a) sent b got"
| drain_a: "utp_link incr a acc log sent b got \<Longrightarrow>
    utp_link incr (snd (drain_outbox a)) acc log (sent @ fst (drain_outbox a)) b got"
| packet_b: "utp_link incr a acc log sent b got \<Longrightarrow> d \<in> set sent \<Longrightarrow>
    utp_link incr a acc log sent (handle_packet incr now us d b) got"
| read_b: "utp_link incr a acc log sent b got \<Longrightarrow>
    utp_link incr a acc log sent (snd (utp_read n b)) (got @ fst (utp_read n b))"
| write_b: "utp_link incr a acc log sent b got \<Longrightarrow> utp_link incr a acc log sent (snd (utp_write d b)) got"
| tick_b: "utp_link incr a acc log sent b got \<Longrightarrow> utp_link incr a acc log sent (process_tick now us b) got"
| close_b: "utp_link incr a acc log sent b got \<Longrightarrow> utp_link incr a acc log sent (utp_close b) got"
| drain_b: "utp_link incr a acc log sent b got \<Longrightarrow> utp_link incr a acc log sent (snd (drain_outbox b)) got"

definition link_ok :: "utp \<Rightarrow> bytes \<Rightarrow> bytes list \<Rightarrow> bytes list \<Rightarrow> utp \<Rightarrow> bytes \<Rightarrow> bool" where
  "link_ok a acc log sent b got \<longleftrightarrow> utp_wf a \<and> sender_ok log acc a \<and> list_all (dgram_ok log) sent \<and>
     u_state b \<noteq> SynSent \<and> (length log + 2 < 2 ^ 15 \<longrightarrow> (\<exists>k. received log got k b))"

lemma link_cong_b: "link_ok a acc log sent b got \<Longrightarrow> receives b' = receives b \<Longrightarrow> link_ok a acc log sent b' got"
  unfolding link_ok_def using received_cong receives_state by blast

lemma received_mono: "received log got k u \<Longrightarrow> received (log @ new) got k u"
  unfolding received_def by (fastforce simp: nth_append)

lemma received_read:
  assumes "received log got k u"
  shows "received log (got @ fst (utp_read n u)) k (snd (utp_read n u))"
proof -
  have "u_ack (snd (utp_read n u)) = u_ack u" "u_reorder (snd (utp_read n u)) = u_reorder u"
    "fst (utp_read n u) @ u_recv_out (snd (utp_read n u)) = u_recv_out u"
    by (simp_all add: utp_read_def Let_def)
  with assms show ?thesis by (simp add: received_def)
qed

lemma link_start: "link_ok (new_outbound r now us) [] [] [] (new_inbound p 1 r' now' us') []"
proof -
  have "sender_ok [] [] (utp_blank\<lparr>u_recv_id := r AND 0xFFFE, u_send_id := (r AND 0xFFFE) + 1, u_state := SynSent,
      u_seq := 2, u_syn_seq := 1, u_last_send := Some now\<rparr>)"
    by (simp add: sender_ok_def utp_blank_def)
  then have "sender_ok [] [] (new_outbound r now us)"
    unfolding new_outbound_def Let_def by (rule sender_control) simp
  moreover have "received [] [] 0 (utp_blank\<lparr>u_recv_id := p + 1, u_send_id := p, u_state := SynRecv, u_seq := r',
      u_ack := 1, u_last_recv := Some now', u_last_send := Some now'\<rparr>)"
    by (simp add: received_def utp_blank_def bt_wf_def)
  then have "received [] [] 0 (new_inbound p 1 r' now' us')"
    unfolding new_inbound_def by (rule received_cong) simp
  moreover have "u_state (new_inbound p 1 r' now' us') \<noteq> SynSent" by (simp add: new_inbound_def queue_control_def Let_def)
  ultimately show ?thesis using new_wf(1) by (auto simp: link_ok_def)
qed

lemma handle_state:
  assumes "u_state u \<noteq> SynSent"
  shows "u_state (handle_packet incr now us d u) \<noteq> SynSent"
proof (cases "parse_packet d")
  case (Some r)
  obtain h es off where r: "r = (h, es, off)" by (cases r) auto
  have ack: "u_state (on_ack incr now us s bits v) \<noteq> SynSent" if "u_state v \<noteq> SynSent" for s bits v
    using receives_state [OF receives_on_ack [OF that]] that by simp
  have "u_state (snd (on_type incr now us h pl bits v)) \<noteq> SynSent" if v: "u_state v \<noteq> SynSent" for pl bits v
  proof -
    have "u_state (queue_control now us ST_STATE 0 v) = u_state v" by (simp add: queue_control_def Let_def)
    with v ack show ?thesis by (simp add: on_type_def Let_def)
  qed
  note ty = this
  define u2 where "u2 = (if ph_type h \<noteq> ST_SYN
    then update_delay (us - ph_timestamp h) now (u\<lparr>u_last_recv := Some now, u_timeouts := 0,
       u_ts_echo := us - ph_timestamp h, u_peer_wnd := unat (ph_wnd_size h)\<rparr>)
    else u\<lparr>u_last_recv := Some now, u_timeouts := 0, u_ts_echo := us - ph_timestamp h,
       u_peer_wnd := unat (ph_wnd_size h)\<rparr>)"
  have r2: "receives u2 = receives u" by (simp add: u2_def)
  obtain b u3 where t: "on_type incr now us h (drop off d) (sack_of es) u2 = (b, u3)" by force
  have "u_state u3 \<noteq> SynSent" using ty [of u2 "drop off d" "sack_of es"] receives_state [OF r2] assms t by simp
  moreover have "u_state (send_ack now us u3) = u_state u3" by (simp add: send_ack_def queue_control_def Let_def)
  ultimately show ?thesis using t
    by (simp add: handle_packet_def Some r u2_def Let_def split: bool.splits)
qed (use assms in \<open>simp add: handle_packet_def\<close>)

lemma link_inv: "utp_link incr a acc log sent b got \<Longrightarrow> link_ok a acc log sent b got"
proof (induction rule: utp_link.induct)
  case start
  show ?case by (rule link_start)
next
  case (write_a a acc log sent b got d)
  have "sender_ok log (acc @ take (fst (utp_write d a)) d) (snd (utp_write d a))"
    using write_a.IH by (auto simp: link_ok_def sender_ok_def utp_write_def Let_def)
  with write_a.IH write_wf show ?case by (simp add: link_ok_def)
next
  case (read_a a acc log sent b got n)
  have "sends (snd (utp_read n a)) = sends a" by (simp add: utp_read_def Let_def)
  with read_a.IH read_wf sender_sends show ?case unfolding link_ok_def by blast
next
  case (packet_a a acc log sent b got now us d)
  with handle_packet_wf sender_packet show ?case unfolding link_ok_def by blast
next
  case (tick_a a acc log sent b got now us)
  have a: "utp_wf a" "sender_ok log acc a" "list_all (dgram_ok log) sent"
    "u_state b \<noteq> SynSent \<and> (length log + 2 < 2 ^ 15 \<longrightarrow> (\<exists>k. received log got k b))"
    using tick_a.IH by (simp_all add: link_ok_def)
  have "list_all (dgram_ok (log @ newly_sent now us a)) sent" using a(3) dgram_mono by (simp add: list_all_iff)
  moreover have "\<exists>k. received (log @ newly_sent now us a) got k b" if "length (log @ newly_sent now us a) + 2 < 2 ^ 15"
  proof -
    have "length log + 2 < 2 ^ 15" using that by simp
    with a(4) received_mono show ?thesis by blast
  qed
  ultimately show ?case
    using process_tick_wf [OF a(1)] sender_tick [OF a(2,1)] a(4) unfolding link_ok_def by blast
next
  case (drain_a a acc log sent b got)
  have "utp_wf (a\<lparr>u_outbox := []\<rparr>)" if "utp_wf a" using wf_by_books [OF that] by simp
  with drain_a.IH show ?case by (auto simp: link_ok_def drain_outbox_def sender_ok_def list_all_iff)
next
  case (packet_b a acc log sent b got d now us)
  have "dgram_ok log d" using packet_b.IH packet_b.hyps(2) by (simp add: link_ok_def list_all_iff)
  moreover have "u_state (handle_packet incr now us d b) \<noteq> SynSent"
    if "u_state b \<noteq> SynSent" "\<not> length log + 2 < 2 ^ 15"
    using handle_state that by blast
  ultimately show ?case using packet_b.IH receiver_packet unfolding link_ok_def by metis
next
  case (read_b a acc log sent b got n)
  have "u_state (snd (utp_read n b)) = u_state b" by (simp add: utp_read_def Let_def)
  with read_b.IH received_read show ?case unfolding link_ok_def by metis
next
  case (write_b a acc log sent b got d)
  have "receives (snd (utp_write d b)) = receives b" by (simp add: utp_write_def Let_def)
  with write_b.IH show ?case by (rule link_cong_b)
next
  case (tick_b a acc log sent b got now us)
  then have "receives (process_tick now us b) = receives b" by (intro receives_tick) (simp add: link_ok_def)
  with tick_b.IH show ?case by (rule link_cong_b)
next
  case (close_b a acc log sent b got)
  then have "u_state b \<noteq> SynSent" by (simp add: link_ok_def)
  then have "receives (utp_close b) = receives b" by (simp add: utp_close_def)
  with close_b.IH show ?case by (rule link_cong_b)
next
  case (drain_b a acc log sent b got)
  have "receives (snd (drain_outbox b)) = receives b" by (simp add: drain_outbox_def)
  with drain_b.IH show ?case by (rule link_cong_b)
qed


text \<open>Three bytes cross the link; the data packet arrives twice, the SYN is lost.\<close>

definition demo_b0 :: utp where "demo_b0 = new_inbound 0 1 5 0 0"
definition demo_a0 :: utp where "demo_a0 = snd (drain_outbox (new_outbound 0 0 0))"
definition demo_a1 :: utp where "demo_a1 = handle_packet demo_incr 0 0 (hd (u_outbox demo_b0)) demo_a0"
definition demo_a2 :: utp where "demo_a2 = process_tick 0 0 (snd (utp_write [1, 2, 3] demo_a1))"
definition demo_data :: bytes where
  "demo_data = [1, 0, 0, 1, 0, 0, 0, 0, 0, 0, 0, 0, 0, 0x80, 0, 0, 0, 2, 0, 4, 1, 2, 3]"
definition demo_b1 :: utp where "demo_b1 = handle_packet demo_incr 0 0 demo_data demo_b0"


lemma demo_delivered: "u_recv_out demo_b1 = [1, 2, 3]"
  by code_simp

end
