(* ===== verification/Utp_Close.thy ===== *)
theory Utp_Close
  imports Utp_Delivery
begin

text \<open>
  Closing a uTP connection while written data waits to be sent.
\<close>

section \<open>The closing end\<close>

lemma flush_pending_last:
  assumes "u_pending u \<noteq> []" "length (u_pending u) \<le> u_packet_size u" "can_send_data u"
  shows "flush_pending (length (u_pending u)) now us u = send_next now us u"
proof -
  obtain n where n: "length (u_pending u) = Suc n" using assms(1) by (cases "u_pending u") auto
  have "u_pending (send_next now us u) = []" using assms(2) by (simp add: send_next_fields)
  then have "flush_pending n now us (send_next now us u) = send_next now us u" by (cases n) simp_all
  with assms show ?thesis by (simp only: n flush_pending_step if_False simp_thms)
qed

section \<open>The other end\<close>

lemma handle_receives:
  assumes "parse_packet d = Some (h, es, off)"
  obtains u2 where "receives u2 = receives u" "u_eof u2 = u_eof u"
    "receives (handle_packet incr now us d u) = receives (snd (on_type incr now us h (drop off d) (sack_of es) u2))"
proof -
  define u2 where "u2 = (if ph_type h \<noteq> ST_SYN
    then update_delay (us - ph_timestamp h) now (u\<lparr>u_last_recv := Some now, u_timeouts := 0,
       u_ts_echo := us - ph_timestamp h, u_peer_wnd := unat (ph_wnd_size h)\<rparr>)
    else u\<lparr>u_last_recv := Some now, u_timeouts := 0, u_ts_echo := us - ph_timestamp h,
       u_peer_wnd := unat (ph_wnd_size h)\<rparr>)"
  obtain b u3 where t: "on_type incr now us h (drop off d) (sack_of es) u2 = (b, u3)" by force
  have "receives u2 = receives u" by (simp add: u2_def)
  moreover have "u_eof u2 = u_eof u" by (simp add: u2_def update_delay_def Let_def)
  moreover have "handle_packet incr now us d u = (if b then u3 else if u_ack_pending u3 then send_ack now us u3 else u3)"
    using t by (cases b) (simp_all add: handle_packet_def assms u2_def Let_def)
  then have "receives (handle_packet incr now us d u) = receives u3" by simp
  ultimately show thesis using that t by simp
qed

lemma handle_fin:
  assumes "parse_packet d = Some (h, es, off)" "ph_type h = ST_FIN" "u_state u = Connected"
    and "ph_seq_nr h = u_ack u + 1" "\<not> u_eof u"
  shows "receives (handle_packet incr now us d u) = (ph_seq_nr h, u_recv_out u, u_reorder u, False)"
proof -
  obtain u2 where u2: "receives u2 = receives u" "u_eof u2 = u_eof u"
    "receives (handle_packet incr now us d u) = receives (snd (on_type incr now us h (drop off d) (sack_of es) u2))"
    by (rule handle_receives [OF assms(1)])
  then have f: "u_ack u2 = u_ack u" "u_recv_out u2 = u_recv_out u" "u_reorder u2 = u_reorder u" "u_state u2 \<noteq> SynSent"
    using assms(3) by (simp_all add: receives_def)
  define c where "c = (if u_state u2 = SynRecv then u2\<lparr>u_state := Connected\<rparr> else u2)"
  define g where "g = c\<lparr>u_ack := ph_seq_nr h, u_eof := True, u_ack_pending := True\<rparr>"
  have c: "u_ack c = u_ack u" "\<not> u_eof c" "u_recv_out c = u_recv_out u" "u_reorder c = u_reorder u" "u_state c \<noteq> SynSent"
    using f u2(2) assms(5) by (simp_all add: c_def)
  then have g: "u_state g \<noteq> SynSent" "receives g = (ph_seq_nr h, u_recv_out u, u_reorder u, False)"
    by (simp_all add: g_def receives_def)
  have "snd (on_type incr now us h pl bits u2) = on_ack incr now us (ph_ack_nr h) bits g" for pl bits
    using f(4) c(1,2) unfolding on_type_def assms(2) Let_def
    by (simp only: types_small if_False if_True simp_thms c_def [symmetric] assms(4) snd_conv g_def)
  with u2(3) receives_on_ack [OF g(1)] g(2) show ?thesis by simp
qed

lemma handle_old_data:
  assumes "parse_packet d = Some (h, es, off)" "ph_type h = ST_DATA" "u_state u \<noteq> SynSent"
    and "seq_leq (ph_seq_nr h) (u_ack u)"
  shows "receives (handle_packet incr now us d u) = receives u"
proof -
  obtain u2 where u2: "receives u2 = receives u" "u_eof u2 = u_eof u"
    "receives (handle_packet incr now us d u) = receives (snd (on_type incr now us h (drop off d) (sack_of es) u2))"
    by (rule handle_receives [OF assms(1)])
  then have f: "u_ack u2 = u_ack u" "u_state u2 \<noteq> SynSent" using assms(3) by (simp_all add: receives_def)
  define c where "c = (if u_state u2 = SynRecv then u2\<lparr>u_state := Connected\<rparr> else u2)"
  have c: "receives c = receives u2" "u_ack c = u_ack u" using f receives_closed by (simp_all add: c_def)
  let ?d = "\<lambda>pl. on_data (ph_seq_nr h) pl c"
  have d: "receives (?d pl) = receives u2" for pl
    using assms(4) c by (simp add: on_data_def Let_def)
  then have s: "u_state (?d pl) \<noteq> SynSent" for pl using receives_state f by blast
  have "snd (on_type incr now us h pl bits u2) = on_ack incr now us (ph_ack_nr h) bits (?d pl)" for pl bits
    using f(2) unfolding on_type_def assms(2) Let_def
    by (simp only: types_small if_False if_True simp_thms c_def [symmetric] snd_conv)
  then show ?thesis using u2 d receives_on_ack [OF s] by simp
qed

text \<open>
  Closing loses what was just written. When an application closes a connection that still has data
  to send, the next tick sends the FIN first and gives the data that follows the same sequence number:
  the other end takes the FIN, acknowledges that number, and drops the data as old, so nothing ever
  reaches its reader although this end's packet is acknowledged.
\<close>

theorem utp_close_loses_data:
  assumes "u_state u = Connected" "u_fin_pending u" "u_pending u \<noteq> []"
    and "length (u_pending u) \<le> u_packet_size u" "can_send_data u" "u_last_recv u = Some now" "\<not> u_ack_pending u"
    and "u_state w = Connected" "u_ack w + 1 = u_seq u" "\<not> u_eof w"
  shows "\<exists>fin d p. u_outbox (process_tick now us u) = u_outbox u @ [fin, d] \<and> u_pending (process_tick now us u) = [] \<and>
    u_queue (process_tick now us u) = u_queue u @ [p] \<and> op_payload p = u_pending u \<and>
    u_recv_out (handle_packet incr t2 us2 d (handle_packet incr t1 us1 fin w)) = u_recv_out w \<and>
    op_seq p = u_ack (handle_packet incr t2 us2 d (handle_packet incr t1 us1 fin w))"
proof -
  let ?u0 = "u\<lparr>u_fin_pending := False, u_fin_sent := True, u_fin_seq := u_seq u, u_state := FinSent\<rparr>"
  obtain fin es off where q: "queue_control now us ST_FIN 0 ?u0 = ?u0\<lparr>u_outbox := u_outbox ?u0 @ [fin], u_last_send := Some now\<rparr>"
    and fin: "parse_packet fin = Some (control_header us ST_FIN ?u0, es, off)"
    by (rule queue_control_out [OF types_small(2)])
  define u1 where "u1 = ?u0\<lparr>u_outbox := u_outbox u @ [fin], u_last_send := Some now\<rparr>"
  define v where "v = send_next now us u1"
  have ff: "flush_fin now us u = (False, u1)" using assms(1,2) q by (simp add: flush_fin_def u1_def)
  have rto: "\<not> rto_expired now u1" using assms(6) by (simp add: rto_expired_def u1_def)
  have "flush_pending (length (u_pending u1)) now us u1 = v"
    unfolding v_def using assms(3-5) by (intro flush_pending_last) (simp_all add: u1_def can_send_data_def)
  moreover have "\<not> u_ack_pending v"
    using assms(7) by (simp add: v_def u1_def send_next_def queue_data_packet_def Let_def)
  moreover have "is_connected u1" by (simp add: u1_def is_connected_def)
  ultimately have "process_tick now us u = v\<lparr>u_want_read := (u_want_read v \<or> u_recv_out v \<noteq> [] \<or> eof_received v)\<rparr>"
    using assms(1) rto by (simp only: process_tick_def ff prod.case bool.case Let_def if_False if_True) simp
  then have tick: "\<exists>r. process_tick now us u = v\<lparr>u_want_read := r\<rparr>" by blast
  let ?p = "next_packet now u1"
  let ?d = "data_packet us (op_seq ?p) (op_payload ?p) u1"
  have p: "op_payload ?p = u_pending u" "op_seq ?p = u_seq u"
    using assms(4) by (simp_all add: next_packet_fields u1_def)
  have out: "u_outbox (process_tick now us u) = u_outbox u @ [fin, ?d]" "u_pending (process_tick now us u) = []"
    "u_queue (process_tick now us u) = u_queue u @ [?p]"
    using tick assms(4) by (auto simp: v_def send_next_fields wire_of_def) (simp_all add: u1_def)
  obtain h where h: "parse_packet ?d = Some (h, [], 20)" "ph_type h = ST_DATA" "ph_seq_nr h = u_seq u"
    using parse_data_packet [of us "op_seq ?p" "op_payload ?p" u1] p(2) by auto
  let ?w1 = "handle_packet incr t1 us1 fin w"
  have "receives ?w1 = (u_seq u, u_recv_out w, u_reorder w, False)"
    using handle_fin [OF fin _ assms(8) _ assms(10)] assms(9) types_small by (simp add: control_header_def)
  then have w1: "u_ack ?w1 = u_seq u" "u_recv_out ?w1 = u_recv_out w" "u_state ?w1 \<noteq> SynSent"
    by (simp_all add: receives_def)
  have "receives (handle_packet incr t2 us2 ?d ?w1) = receives ?w1"
    using handle_old_data [OF h(1,2) w1(3)] h(3) w1(1) by (simp add: seq_leq_def)
  then have "u_recv_out (handle_packet incr t2 us2 ?d ?w1) = u_recv_out w" "u_ack (handle_packet incr t2 us2 ?d ?w1) = u_seq u"
    using w1 by (simp_all add: receives_def)
  with out p show ?thesis by (intro exI [of _ fin] exI [of _ ?d] exI [of _ ?p]) simp
qed

theorem utp_close_loses_data_witness:
  "\<exists>fin d. u_outbox (process_tick 0 0 (utp_blank\<lparr>u_state := Connected, u_seq := 8, u_fin_pending := True, u_pending := [1, 2],
      u_last_recv := Some 0\<rparr>)) = [fin, d] \<and>
    u_recv_out (handle_packet demo_incr 1 1 d (handle_packet demo_incr 1 1 fin
      (utp_blank\<lparr>u_state := Connected, u_ack := 7\<rparr>))) = []"
  using utp_close_loses_data [of "utp_blank\<lparr>u_state := Connected, u_seq := 8, u_fin_pending := True, u_pending := [1, 2],
      u_last_recv := Some 0\<rparr>" 0 "utp_blank\<lparr>u_state := Connected, u_ack := 7\<rparr>" 0 demo_incr 1 1 1 1]
  by (auto simp: utp_blank_def can_send_data_def DEFAULT_PACKET_SIZE_def INITIAL_CWND_PACKETS_def)

end
