(* ===== verification/Utp_Edges.thy ===== *)
theory Utp_Edges
  imports Utp_Claims "HOL-Library.Code_Target_Nat"
begin

text \<open>
  The uTP connection at its edges: the selective acknowledgement on the wire, giving up, and two
  defects, at the wrap of the sequence numbers and at closing.
\<close>

section \<open>Selective acknowledgements\<close>

lemma unat_offset:
  fixes s a :: u16
  assumes "i < 32"
  shows "unat (s - a) = i \<longleftrightarrow> s = a + of_nat i"
proof -
  have "unat (s - a) = i \<longleftrightarrow> s - a = of_nat i" using assms by (simp add: word_unat_eq_iff unat_of_nat)
  then show ?thesis by (simp add: diff_eq_eq add.commute)
qed

lemma sack_bits_fold:
  fixes ack :: u16
  assumes "i < 32"
  shows "bit (fold (\<lambda>s bits. let off = unat (s - (ack + 2)) in if off < 32 then bits OR push_bit off 1 else bits) keys b0 :: u32) i \<longleftrightarrow>
    bit b0 i \<or> ack + 2 + of_nat i \<in> set keys"
proof (induction keys arbitrary: b0)
  case (Cons s keys)
  let ?b = "let off = unat (s - (ack + 2)) in if off < 32 then b0 OR push_bit off 1 else b0"
  have "bit ?b i \<longleftrightarrow> bit b0 i \<or> unat (s - (ack + 2)) = i"
    using assms by (auto simp: Let_def bit_simps)
  also have "\<dots> \<longleftrightarrow> bit b0 i \<or> s = ack + 2 + of_nat i" by (simp only: unat_offset [OF assms])
  finally show ?case using Cons by auto
qed simp

lemma sack_bytes_roundtrip:
  "decode_sack_bits (map (\<lambda>i. ucast (drop_bit (8 * i) bits AND 0xFF)) [0..<4]) = bits"
proof -
  let ?p = "\<lambda>i. ucast (drop_bit (8 * i) bits AND 0xFF) :: byte"
  have l: "[0..<4] = [0, 1, 2, 3 :: nat]" by (simp add: upt_rec)
  let ?x = "((ucast (?p 0) OR push_bit 8 (ucast (?p 1))) OR push_bit 16 (ucast (?p 2))) OR push_bit 24 (ucast (?p 3)) :: u32"
  have d: "decode_sack_bits (map ?p [0..<4]) = ?x"
    by (simp add: decode_sack_bits_def l)
  have m: "(0xFF :: u32) = mask 8" by (simp add: mask_eq_exp_minus_1)
  have "?x = bits"
  proof (rule bit_word_eqI)
    fix n assume "n < LENGTH(32)"
    then consider "n < 8" | "8 \<le> n" "n < 16" | "16 \<le> n" "n < 24" | "24 \<le> n" "n < 32" by fastforce
    then show "bit ?x n = bit bits n"
      by cases (auto simp: m bit_simps)
  qed
  then show ?thesis by (simp only: d)
qed

text \<open>
  The acknowledgement says what was buffered. Every control packet parses as the header it was
  made from, and the selective acknowledgement its receiver reads has bit \<open>i\<close> exactly when the packet
  \<open>ack_nr + 2 + i\<close> is in the reorder buffer, for all 32 bits.
\<close>

theorem utp_sack_exact:
  assumes "type < 16" "i < 32"
  shows "\<exists>d h es off. u_outbox (queue_control now us type 0 u) = u_outbox u @ [d] \<and>
    parse_packet d = Some (h, es, off) \<and> drop off d = [] \<and> ph_type h = type \<and> ph_ack_nr h = u_ack u \<and>
    (bit (sack_of es) i \<longleftrightarrow> ph_ack_nr h + 2 + of_nat i \<in> fst ` set (u_reorder u))"
proof -
  let ?h = "control_header us type u"
  let ?bits = "sack_bits_of (u_ack u) (map fst (u_reorder u))"
  let ?b = "map (\<lambda>i. ucast (drop_bit (8 * i) ?bits AND 0xFF)) [0..<4] :: bytes"
  define es where "es = (if u_reorder u \<noteq> [] then [(EXT_SACK, ?b)] else [])"
  define d where "d = encode_header ?h @ exts_wire es"
  have "list_all ext_ok es" by (simp add: es_def ext_ok_def EXT_SACK_def EXT_NONE_def)
  then have p: "parse_packet (encode_header ?h @ exts_wire es @ []) = Some (?h, es, HEADER_LEN + length (exts_wire es))"
    using assms(1) by (intro parse_encode) (simp_all add: header_ok_def control_header_def first_ext_def es_def)
  have q: "u_outbox (queue_control now us type 0 u) = u_outbox u @ [d]"
    by (simp add: queue_control_def Let_def control_header_def es_def d_def)
  have bits: "bit ?bits i \<longleftrightarrow> u_ack u + 2 + of_nat i \<in> fst ` set (u_reorder u)"
    using sack_bits_fold [OF assms(2), of "u_ack u" "map fst (u_reorder u)" 0] by (simp add: sack_bits_of_def)
  have "sack_of es = (if u_reorder u \<noteq> [] then ?bits else 0)"
    by (simp only: es_def sack_of_def sack_bytes_roundtrip fold_simps prod.case if_distrib [of "\<lambda>l. fold _ l _"] simp_thms if_True id_apply)
  then have "bit (sack_of es) i \<longleftrightarrow> u_ack u + 2 + of_nat i \<in> fst ` set (u_reorder u)"
    using bits by auto
  moreover have "drop (HEADER_LEN + length (exts_wire es)) d = []" by (simp add: d_def)
  moreover have "ph_type ?h = type" "ph_ack_nr ?h = u_ack u" by (simp_all add: control_header_def)
  ultimately show ?thesis using p q by (auto simp: d_def)
qed

theorem utp_sack_exact_witness:
  "\<exists>d h es off. u_outbox (queue_control 0 0 ST_STATE 0 (utp_blank\<lparr>u_ack := 5, u_reorder := [(9, [1])]\<rparr>)) = [d] \<and>
    parse_packet d = Some (h, es, off) \<and> bit (sack_of es) 2"
  using utp_sack_exact [of ST_STATE 2 0 0 "utp_blank\<lparr>u_ack := 5, u_reorder := [(9, [1])]\<rparr>"]
  by (auto simp: ST_STATE_def utp_blank_def)

section \<open>Giving up\<close>

definition timeouts :: "(nat \<times> u32) list \<Rightarrow> utp \<Rightarrow> utp" where
  "timeouts ts u = fold (\<lambda>(now, us). handle_timeout now us) ts u"

lemma min_mult_min: "0 < k \<Longrightarrow> min (min a m * k) m = min (a * k) m" for a k m :: nat
proof (cases "a \<le> m")
  case False
  assume "0 < k"
  then have "a \<le> a * k" "m \<le> m * k" by simp_all
  then have "m \<le> a * k" using False by linarith
  with False \<open>m \<le> m * k\<close> show ?thesis by (simp add: min_absorb2)
qed simp

lemma timeouts_open:
  assumes "u_state u \<noteq> SynSent" "u_timeouts u + length ts < 5" "0 < length ts"
  shows "u_state (timeouts ts u) = u_state u \<and> u_error (timeouts ts u) = u_error u \<and>
    u_timeouts (timeouts ts u) = u_timeouts u + length ts \<and>
    u_timeout (timeouts ts u) = min (u_timeout u * 2 ^ length ts) RTO_MAX \<and>
    shape (u_queue (timeouts ts u)) = shape (u_queue u) \<and>
    u_max_window (timeouts ts u) = MIN_PACKET_SIZE \<and> u_packet_size (timeouts ts u) = MIN_PACKET_SIZE"
  using assms
proof (induction ts arbitrary: u)
  case (Cons t ts)
  obtain now us where t: "t = (now, us)" by force
  let ?v = "handle_timeout now us u"
  have v: "u_state ?v = u_state u" "u_error ?v = u_error u" "u_timeouts ?v = u_timeouts u + 1"
    "u_timeout ?v = min (u_timeout u * 2) RTO_MAX" "shape (u_queue ?v) = shape (u_queue u)"
    "u_max_window ?v = MIN_PACKET_SIZE" "u_packet_size ?v = MIN_PACKET_SIZE"
    using Cons.prems by (simp_all add: handle_timeout_def Let_def retransmit_unacked_def queue_control_def shape_def comp_def)
  show ?case
  proof (cases ts)
    case Nil
    with v show ?thesis by (simp add: timeouts_def t)
  next
    case (Cons t' ts')
    then have "u_timeout (timeouts ts ?v) = min (u_timeout ?v * 2 ^ length ts) RTO_MAX"
      using Cons.IH [of ?v] Cons.prems v by simp
    also have "\<dots> = min (u_timeout u * 2 ^ length (t # ts)) RTO_MAX"
      unfolding v(4) by (simp add: min_mult_min mult.assoc)
    finally have "u_timeout (timeouts ts ?v) = min (u_timeout u * 2 ^ length (t # ts)) RTO_MAX" .
    then show ?thesis using Cons.IH [of ?v] Cons.prems v Cons by (simp add: timeouts_def t)
  qed
qed simp

text \<open>
  C37. A silent peer is given up after the fifth time out, not before. On each of the first four, the
  connection stays as it is, keeps every unacknowledged packet in order, shrinks its window to one
  small packet and doubles its time out up to a minute; on the fifth it is closed with an error. A
  connection that is being opened is given up on the fourth.
\<close>

theorem utp_gives_up:
  assumes "u_state u \<noteq> SynSent" "u_timeouts u = 0" "0 < length ts" "length ts < 5"
    and "u_state v = SynSent" "u_syn_attempts v = 3"
  shows "u_state (timeouts ts u) = u_state u \<and> u_error (timeouts ts u) = u_error u \<and>
    map op_payload (u_queue (timeouts ts u)) = map op_payload (u_queue u) \<and>
    map op_seq (u_queue (timeouts ts u)) = map op_seq (u_queue u) \<and>
    u_max_window (timeouts ts u) = MIN_PACKET_SIZE \<and>
    u_timeout (timeouts ts u) = min (u_timeout u * 2 ^ length ts) RTO_MAX \<and>
    (length ts = 4 \<longrightarrow> u_state (handle_timeout now us (timeouts ts u)) = Closed \<and>
       u_error (handle_timeout now us (timeouts ts u))) \<and>
    u_state (handle_timeout now us v) = Closed \<and> u_error (handle_timeout now us v)"
proof -
  have o: "u_state (timeouts ts u) = u_state u" "u_error (timeouts ts u) = u_error u"
    "u_timeouts (timeouts ts u) = length ts" "u_timeout (timeouts ts u) = min (u_timeout u * 2 ^ length ts) RTO_MAX"
    "shape (u_queue (timeouts ts u)) = shape (u_queue u)" "u_max_window (timeouts ts u) = MIN_PACKET_SIZE"
    using timeouts_open [OF assms(1) _ assms(3)] assms(2,4) by simp_all
  have "u_state (handle_timeout now us w) = Closed \<and> u_error (handle_timeout now us w)"
    if "u_state w \<noteq> SynSent" "u_timeouts w = 4" for w
    using that by (simp add: handle_timeout_def Let_def)
  moreover have "u_state (handle_timeout now us v) = Closed \<and> u_error (handle_timeout now us v)"
    using assms(5,6) by (simp add: handle_timeout_def Let_def)
  ultimately show ?thesis using o shape_parts(3,4) [OF o(5)] assms(1) by auto
qed

theorem utp_gives_up_witness:
  "u_state (handle_timeout 9 0 (timeouts (replicate 4 (0, 0)) (utp_blank\<lparr>u_state := Connected\<rparr>))) = Closed"
  using utp_gives_up [of "utp_blank\<lparr>u_state := Connected\<rparr>" "replicate 4 (0, 0)" "utp_blank\<lparr>u_syn_attempts := 3\<rparr>" 9 0]
  by (simp add: utp_blank_def)

section \<open>The reorder buffer across the wrap\<close>

lemma seq_wrap_facts:
  "\<not> seq_leq (0xFFFF :: u16) 0xFFFD" "\<not> seq_leq (0 :: u16) 0xFFFD" "\<not> seq_leq (0xFFFE :: u16) 0xFFFD"
  "\<not> seq_leq (0xFFFF :: u16) 0xFFFE" "seq_leq (0xFFFF :: u16) 0xFFFF"
  by code_simp+

text \<open>
  The reorder buffer fails where the sequence numbers wrap. It is drained from its smallest number,
  not from the next one: with 65535 and 0 buffered, the arrival of 65534 delivers one packet only, and
  once 65535 is sent again its first copy stays in the buffer. As long as it is there the stream never
  ends for the reader, and after a full cycle of the sequence numbers the stale copy is delivered in
  place of the packet of that number.
\<close>

theorem utp_reorder_wrap:
  assumes "u_ack u = 0xFFFD" "u_reorder u = []" "p \<noteq> []" "q \<noteq> []" "r \<noteq> []"
    and "u_buffered u + length p + length q \<le> REORDER_WINDOW"
    and "u_ack w = 0xFFFD" "u_reorder w = [(0xFFFF, p)]" "s \<noteq> []"
  shows "u_recv_out (on_data 0xFFFE r (on_data 0 q (on_data 0xFFFF p u))) = u_recv_out u @ r \<and>
    u_recv_out (on_data 0xFFFF p (on_data 0xFFFE r (on_data 0 q (on_data 0xFFFF p u)))) = u_recv_out u @ r @ p @ q \<and>
    u_ack (on_data 0xFFFF p (on_data 0xFFFE r (on_data 0 q (on_data 0xFFFF p u)))) = 0 \<and>
    u_reorder (on_data 0xFFFF p (on_data 0xFFFE r (on_data 0 q (on_data 0xFFFF p u)))) = [(0xFFFF, p)] \<and>
    \<not> eof_received w \<and>
    u_recv_out (on_data 0xFFFF s (on_data 0xFFFE r w)) = u_recv_out w @ r @ p"
proof -
  let ?u1 = "on_data 0xFFFF p u"
  let ?u2 = "on_data 0 q ?u1"
  let ?u3 = "on_data 0xFFFE r ?u2"
  have 1: "u_ack ?u1 = 0xFFFD" "u_reorder ?u1 = [(0xFFFF, p)]" "u_recv_out ?u1 = u_recv_out u"
    "u_buffered ?u1 = u_buffered u + length p"
    using assms by (simp_all add: on_data_def buffer_packet_def seq_wrap_facts Let_def)
  have 2: "u_ack ?u2 = 0xFFFD" "u_reorder ?u2 = [(0, q), (0xFFFF, p)]" "u_recv_out ?u2 = u_recv_out u"
    using assms 1 by (simp_all add: on_data_def [of 0] buffer_packet_def seq_wrap_facts Let_def)
  have 3: "u_ack ?u3 = 0xFFFE" "u_reorder ?u3 = [(0, q), (0xFFFF, p)]" "u_recv_out ?u3 = u_recv_out u @ r"
    using assms 2 by (simp_all add: on_data_def [of "0xFFFE"] seq_wrap_facts Let_def)
  let ?w1 = "on_data 0xFFFE r w"
  have w: "u_ack ?w1 = 0xFFFF" "u_recv_out ?w1 = u_recv_out w @ r @ p"
    using assms by (simp_all add: on_data_def seq_wrap_facts Let_def)
  show ?thesis
    using assms 3 w by (simp add: on_data_def [of "0xFFFF"] seq_wrap_facts Let_def eof_received_def)
qed

theorem utp_reorder_wrap_witness:
  "u_recv_out (on_data 0xFFFF [9] (on_data 0xFFFE [3] (utp_blank\<lparr>u_ack := 0xFFFD, u_reorder := [(0xFFFF, [1])]\<rparr>))) = [3, 1]"
  using utp_reorder_wrap [of "utp_blank\<lparr>u_ack := 0xFFFD\<rparr>" "[1]" "[2]" "[3]"
      "utp_blank\<lparr>u_ack := 0xFFFD, u_reorder := [(0xFFFF, [1])]\<rparr>" "[9]"]
  by (simp add: utp_blank_def REORDER_WINDOW_def)

section \<open>The window of a tick\<close>

theorem utp_tick_fills_window_witness:
  "u_cur_window (process_tick 0 0 (utp_blank\<lparr>u_state := Connected, u_pending := [1, 2, 3]\<rparr>)) \<le> 14000"
proof -
  let ?u = "utp_blank\<lparr>u_state := Connected, u_pending := [1, 2, 3]\<rparr>"
  have "utp_wf ?u" by (simp add: utp_wf_def utp_blank_def queue_seqs_def bt_wf_def REORDER_WINDOW_def MAX_PENDING_SEND_def)
  from utp_tick_fills_window [OF this, of 0 0]
  show ?thesis
    by (simp add: utp_blank_def is_connected_def rto_expired_def Let_def DEFAULT_PACKET_SIZE_def INITIAL_CWND_PACKETS_def)
qed

end
