(* ===== verification/Flv_Stream.thy ===== *)
theory Flv_Stream
  imports Http_Error
begin

unbundle bit_operations_syntax

text \<open>
  The byte stream of an FLV recording, \<open>FlvStream\<close> of \<open>crates/xfer-http/src/flv.rs\<close>: cutting the
  chunks of a connection into the file header and complete tags, and moving the time stamps so that
  the product starts at zero and has no gap where a connection was lost.

  Time stamps of the product are naturals (\<open>u64\<close>), the shift of a connection is an integer (\<open>i64\<close>).
\<close>

section \<open>Definitions\<close>

definition REPLAY_PROBE_LEN :: nat where "REPLAY_PROBE_LEN = 1024"

record flv_stream =
  fs_buf :: bytes
  fs_started :: bool
  fs_header_written :: bool
  fs_shift :: "int option"
  fs_mapped_max :: nat
  fs_begin_probe :: "bytes option"
  fs_seg_media_seen :: bool
  fs_replay :: bool

definition flv_new :: "nat \<Rightarrow> nat \<Rightarrow> bytes option \<Rightarrow> flv_stream" where
  "flv_new resume_ms resume_bytes begin_probe =
     \<lparr>fs_buf = [], fs_started = False, fs_header_written = (0 < resume_bytes), fs_shift = None,
      fs_mapped_max = resume_ms, fs_begin_probe = begin_probe, fs_seg_media_seen = False, fs_replay = False\<rparr>"

definition begin_segment :: "flv_stream \<Rightarrow> flv_stream" where
  "begin_segment fs = fs\<lparr>fs_buf := [], fs_started := False, fs_shift := None, fs_seg_media_seen := False,
     fs_replay := False\<rparr>"

definition is_media :: "u8 \<Rightarrow> bool" where
  "is_media tag_type \<longleftrightarrow> tag_type = 8 \<or> tag_type = 9"

definition map_ts :: "u8 \<Rightarrow> u32 \<Rightarrow> flv_stream \<Rightarrow> nat \<times> flv_stream" where
  "map_ts tag_type ts fs =
     (let fs1 = (if is_media tag_type \<and> fs_shift fs = None
                 then fs\<lparr>fs_shift := Some (int (unat ts) - int (fs_mapped_max fs))\<rparr> else fs);
          mapped = (case fs_shift fs1 of
                      Some s \<Rightarrow> nat (max (int (unat ts) - s) 0)
                    | None \<Rightarrow> fs_mapped_max fs1);
          fs2 = (if fs_mapped_max fs1 < mapped then fs1\<lparr>fs_mapped_max := mapped\<rparr> else fs1)
      in (min mapped (2 ^ 32 - 1), fs2))"

text \<open>The length of the data in a tag header, and its time stamp.\<close>

definition tag_size :: "bytes \<Rightarrow> nat" where
  "tag_size hdr = unat (push_bit 16 (ucast (hdr ! 1)) OR push_bit 8 (ucast (hdr ! 2)) OR ucast (hdr ! 3) :: u64)"

definition tag_ts :: "bytes \<Rightarrow> u32" where
  "tag_ts hdr = push_bit 16 (ucast (hdr ! 4)) OR push_bit 8 (ucast (hdr ! 5)) OR ucast (hdr ! 6) OR
     push_bit 24 (ucast (hdr ! 7))"

text \<open>The replay check on the first media tag of a connection, which starts at \<open>pos\<close> and ends at \<open>end\<close>.\<close>

definition check_replay :: "u8 \<Rightarrow> nat \<Rightarrow> nat \<Rightarrow> flv_stream \<Rightarrow> flv_stream" where
  "check_replay tag_type pos tag_end fs =
     (if is_media tag_type \<and> \<not> fs_seg_media_seen fs
      then
        let fs1 = fs\<lparr>fs_seg_media_seen := True\<rparr>;
            cut = min (pos + REPLAY_PROBE_LEN) tag_end;
            head = take (cut - pos) (drop pos (fs_buf fs))
        in case fs_begin_probe fs1 of
             None \<Rightarrow> fs1\<lparr>fs_begin_probe := Some head\<rparr>
           | Some p \<Rightarrow> if length p = cut - pos \<and> p = head then fs1\<lparr>fs_replay := True\<rparr> else fs1
      else fs)"

text \<open>Writing a time stamp over the tag header at \<open>pos\<close>.\<close>

definition patch_ts :: "nat \<Rightarrow> u32 \<Rightarrow> bytes \<Rightarrow> bytes" where
  "patch_ts pos mapped buf =
     buf[pos + 4 := ucast (drop_bit 16 mapped), pos + 5 := ucast (drop_bit 8 mapped), pos + 6 := ucast mapped,
         pos + 7 := ucast (drop_bit 24 mapped)]"

lemma length_patch_ts [simp]: "length (patch_ts pos m buf) = length buf"
  by (simp add: patch_ts_def)

definition flv_tag :: "nat \<Rightarrow> nat \<Rightarrow> flv_stream \<Rightarrow> flv_stream" where
  "flv_tag pos tag_end fs =
     (let hdr = take 11 (drop pos (fs_buf fs));
          fs1 = check_replay (hdr ! 0) pos tag_end fs
      in case map_ts (hdr ! 0) (tag_ts hdr) fs1 of
           (mapped, fs2) \<Rightarrow> fs2\<lparr>fs_buf := patch_ts pos (of_nat mapped) (fs_buf fs2)\<rparr>)"

lemma flv_tag_frame [simp]:
  "length (fs_buf (flv_tag pos e fs)) = length (fs_buf fs)" "fs_started (flv_tag pos e fs) = fs_started fs"
  "fs_header_written (flv_tag pos e fs) = fs_header_written fs"
  by (simp_all add: flv_tag_def check_replay_def map_ts_def Let_def split: option.splits)

text \<open>The loop of \<open>feed\<close>: the stream, the position up to which it is consumed, the output.\<close>

function flv_loop :: "flv_stream \<Rightarrow> nat \<Rightarrow> bytes \<Rightarrow> http_error + (flv_stream \<times> nat \<times> bytes)" where
  "flv_loop fs pos out =
     (let buf = fs_buf fs
      in if \<not> fs_started fs then
           if length buf < 9 then Inr (fs, pos, out)
           else if take 3 buf \<noteq> [0x46, 0x4C, 0x56] then Inl NotFlv
           else
             let off = unat (u32_from_be (buf ! 5) (buf ! 6) (buf ! 7) (buf ! 8))
             in if \<not> (9 \<le> off \<and> off \<le> 4096) then Inl NotFlv
                else if length buf < off + 4 then Inr (fs, pos, out)
                else flv_loop (fs\<lparr>fs_header_written := True, fs_started := True\<rparr>) (off + 4)
                       (if fs_header_written fs then out else out @ take (off + 4) buf)
         else if length buf - pos < 11 then Inr (fs, pos, out)
         else
           let tag_end = pos + 11 + tag_size (take 11 (drop pos buf)) + 4
           in if length buf < tag_end then Inr (fs, pos, out)
              else
                let fs' = flv_tag pos tag_end fs
                in flv_loop fs' tag_end (out @ take (tag_end - pos) (drop pos (fs_buf fs'))))"
  by pat_completeness auto

termination
  by (relation "measures [\<lambda>(fs, _, _). if fs_started fs then 0 else 1, \<lambda>(fs, pos, _). length (fs_buf fs) - pos]")
    (auto simp: Let_def)

declare flv_loop.simps [simp del]

definition flv_feed :: "bytes \<Rightarrow> flv_stream \<Rightarrow> bytes \<Rightarrow> http_error + (flv_stream \<times> bytes)" where
  "flv_feed data fs out =
     (case flv_loop (fs\<lparr>fs_buf := fs_buf fs @ data\<rparr>) 0 out of
        Inl e \<Rightarrow> Inl e
      | Inr (fs', pos, out') \<Rightarrow> Inr (if 0 < pos then fs'\<lparr>fs_buf := drop pos (fs_buf fs')\<rparr> else fs', out'))"

section \<open>The loop on the bytes not yet consumed\<close>

text \<open>One complete tag on its own, and the loop that drops what it has consumed at once.\<close>

definition one_tag :: "bytes \<Rightarrow> flv_stream \<Rightarrow> flv_stream" where
  "one_tag w fs = flv_tag 0 (length w) (fs\<lparr>fs_buf := w\<rparr>)"

lemma one_tag_frame [simp]:
  "length (fs_buf (one_tag w fs)) = length w" "fs_started (one_tag w fs) = fs_started fs"
  "fs_header_written (one_tag w fs) = fs_header_written fs"
  by (simp_all add: one_tag_def)

function flv_run :: "flv_stream \<Rightarrow> bytes \<Rightarrow> http_error + (flv_stream \<times> bytes)" where
  "flv_run fs out =
     (let buf = fs_buf fs
      in if \<not> fs_started fs then
           if length buf < 9 then Inr (fs, out)
           else if take 3 buf \<noteq> [0x46, 0x4C, 0x56] then Inl NotFlv
           else
             let off = unat (u32_from_be (buf ! 5) (buf ! 6) (buf ! 7) (buf ! 8))
             in if \<not> (9 \<le> off \<and> off \<le> 4096) then Inl NotFlv
                else if length buf < off + 4 then Inr (fs, out)
                else flv_run (fs\<lparr>fs_header_written := True, fs_started := True, fs_buf := drop (off + 4) buf\<rparr>)
                       (if fs_header_written fs then out else out @ take (off + 4) buf)
         else if length buf < 11 then Inr (fs, out)
         else
           let n = 15 + tag_size buf
           in if length buf < n then Inr (fs, out)
              else
                let fs' = one_tag (take n buf) fs
                in flv_run (fs'\<lparr>fs_buf := drop n buf\<rparr>) (out @ fs_buf fs'))"
  by pat_completeness auto

termination
  by (relation "measures [\<lambda>(fs, _). if fs_started fs then 0 else 1, \<lambda>(fs, _). length (fs_buf fs)]")
    (auto simp: Let_def)

declare flv_run.simps [simp del]

lemma patch_ts_shift:
  assumes "8 \<le> length w"
  shows "patch_ts (length p) m (p @ w @ r) = p @ patch_ts 0 m w @ r"
  using assms by (simp add: patch_ts_def list_update_append)

lemma tag_hdr_append: "11 \<le> length w \<Longrightarrow> take 11 (w @ r) = take 11 w"
  by simp

lemma tag_size_take: "11 \<le> n \<Longrightarrow> tag_size (take n buf) = tag_size buf"
  by (simp add: tag_size_def)

lemma map_ts_buf:
  "map_ts t ts (fs\<lparr>fs_buf := b\<rparr>) = (let (m, fs') = map_ts t ts fs in (m, fs'\<lparr>fs_buf := b\<rparr>))"
  by (simp add: map_ts_def Let_def split: option.splits)

lemma flv_tag_one:
  assumes "fs_buf fs = p @ w @ r" "15 \<le> length w"
  shows "flv_tag (length p) (length p + length w) fs = (one_tag w fs)\<lparr>fs_buf := p @ fs_buf (one_tag w fs) @ r\<rparr>"
proof -
  let ?h = "take 11 w"
  have cut: "min (length p + REPLAY_PROBE_LEN) (length p + length w) - length p = min REPLAY_PROBE_LEN (length w)"
    by simp
  have c: "check_replay t (length p) (length p + length w) fs =
      (check_replay t 0 (length w) (fs\<lparr>fs_buf := w\<rparr>))\<lparr>fs_buf := p @ w @ r\<rparr>" for t
    unfolding check_replay_def cut Let_def using assms
    by (auto simp: min_def split: option.splits)
  have b: "fs_buf (check_replay t 0 (length w) (fs\<lparr>fs_buf := w\<rparr>)) = w" for t
    by (simp add: check_replay_def Let_def split: option.splits)
  obtain m fs2 where m: "map_ts (?h ! 0) (tag_ts ?h) (check_replay (?h ! 0) 0 (length w) (fs\<lparr>fs_buf := w\<rparr>)) = (m, fs2)"
    by force
  have b2: "fs_buf fs2 = w"
    using m b [of "?h ! 0"] by (auto simp: map_ts_def Let_def split: option.splits if_splits)
  have h: "take 11 (drop (length p) (fs_buf fs)) = ?h" using assms by simp
  show ?thesis
    unfolding flv_tag_def h c map_ts_buf m Let_def one_tag_def
    using m b2 assms by (simp add: patch_ts_shift)
qed

lemma flv_loop_run:
  assumes "pos \<le> length (fs_buf fs)" "\<not> fs_started fs \<Longrightarrow> pos = 0"
  shows "(case flv_loop fs pos out of Inl e \<Rightarrow> Inl e | Inr (fs', p, out') \<Rightarrow> Inr (fs'\<lparr>fs_buf := drop p (fs_buf fs')\<rparr>, out'))
    = flv_run (fs\<lparr>fs_buf := drop pos (fs_buf fs)\<rparr>) out"
  using assms
proof (induction fs pos out rule: flv_loop.induct)
  case (1 fs pos out)
  let ?b = "fs_buf fs"
  let ?d = "drop pos ?b"
  show ?case
  proof (cases "fs_started fs")
    case False
    then have [simp]: "pos = 0" using 1 by simp
    let ?off = "unat (u32_from_be (?b ! 5) (?b ! 6) (?b ! 7) (?b ! 8))"
    consider (short) "length ?b < 9"
      | (err) "9 \<le> length ?b" "take 3 ?b \<noteq> [0x46, 0x4C, 0x56] \<or> \<not> (9 \<le> ?off \<and> ?off \<le> 4096)"
      | (wait) "9 \<le> length ?b" "take 3 ?b = [0x46, 0x4C, 0x56]" "9 \<le> ?off \<and> ?off \<le> 4096" "length ?b < ?off + 4"
      | (go) "9 \<le> length ?b" "take 3 ?b = [0x46, 0x4C, 0x56]" "9 \<le> ?off \<and> ?off \<le> 4096" "?off + 4 \<le> length ?b"
      by linarith
    then show ?thesis
    proof cases
      case short
      with False show ?thesis by (simp add: flv_loop.simps [of fs] flv_run.simps [of fs])
    next
      case err
      with False have "flv_loop fs 0 out = Inl NotFlv" by (subst flv_loop.simps) (auto simp: Let_def)
      moreover from err False have "flv_run fs out = Inl NotFlv" by (subst flv_run.simps) (auto simp: Let_def)
      ultimately show ?thesis by simp
    next
      case wait
      with False have "flv_loop fs 0 out = Inr (fs, 0, out)" by (subst flv_loop.simps) (simp add: Let_def)
      moreover from wait False have "flv_run fs out = Inr (fs, out)" by (subst flv_run.simps) (simp add: Let_def)
      ultimately show ?thesis by simp
    next
      case go
      let ?out = "if fs_header_written fs then out else out @ take (?off + 4) ?b"
      have nine: "\<not> length ?b < 9" using go by simp
      note IH = "1.IH"(1) [OF refl False nine _ refl]
      from go False have "flv_loop fs 0 out =
          flv_loop (fs\<lparr>fs_header_written := True, fs_started := True\<rparr>) (?off + 4) ?out"
        by (subst flv_loop.simps) (simp add: Let_def)
      moreover from go False have "flv_run fs out =
          flv_run (fs\<lparr>fs_header_written := True, fs_started := True, fs_buf := drop (?off + 4) ?b\<rparr>) ?out"
        by (subst flv_run.simps) (simp add: Let_def)
      ultimately show ?thesis using IH go by simp
    qed
  next
    case True
    let ?n = "15 + tag_size ?d"
    have size: "tag_size (take 11 ?d) = tag_size ?d" by (simp add: tag_size_take)
    show ?thesis
    proof (cases "11 \<le> length ?d \<and> ?n \<le> length ?d")
      case no: False
      have "pos + 11 + tag_size ?d + 4 = pos + ?n" by simp
      with no True "1.prems"(1) show ?thesis
        by (subst flv_loop.simps, subst flv_run.simps) (auto simp: Let_def size)
    next
      case yes: True
      let ?w = "take ?n ?d"
      let ?fs' = "flv_tag pos (pos + ?n) fs"
      have split: "?b = take pos ?b @ ?w @ drop (pos + ?n) ?b"
        by (metis append_take_drop_id drop_drop add.commute)
      have lp: "length (take pos ?b) = pos" "length ?w = ?n" using "1.prems"(1) yes by simp_all
      have t: "?fs' = (one_tag ?w fs)\<lparr>fs_buf := take pos ?b @ fs_buf (one_tag ?w fs) @ drop (pos + ?n) ?b\<rparr>"
        using flv_tag_one [OF split] lp by simp
      have e: "pos + 11 + tag_size (take 11 ?d) + 4 = pos + ?n" unfolding size by simp
      have out: "take (pos + ?n - pos) (drop pos (fs_buf ?fs')) = fs_buf (one_tag ?w fs)"
        unfolding t using lp by simp
      have dr: "drop (pos + ?n) (fs_buf ?fs') = drop ?n ?d" unfolding t using lp by (simp add: add.commute)
      have len: "length (fs_buf ?fs') = length ?b" by simp
      have st: "fs_started ?fs'" using True by simp
      have le: "pos + ?n \<le> length ?b" using yes "1.prems"(1) unfolding length_drop by linarith
      have IH: "(case flv_loop ?fs' (pos + ?n) (out @ fs_buf (one_tag ?w fs)) of Inl e \<Rightarrow> Inl e
          | Inr (fs', p, out') \<Rightarrow> Inr (fs'\<lparr>fs_buf := drop p (fs_buf fs')\<rparr>, out')) =
        flv_run (?fs'\<lparr>fs_buf := drop (pos + ?n) (fs_buf ?fs')\<rparr>) (out @ fs_buf (one_tag ?w fs))"
        using "1.IH"(2) [OF refl _ _ refl _ refl, unfolded e out] True yes len st "1.prems"(1) le by simp
      have run: "?fs'\<lparr>fs_buf := drop ?n ?d\<rparr> = (one_tag ?w fs)\<lparr>fs_buf := drop ?n ?d\<rparr>" unfolding t by simp
      have o1: "one_tag ?w (fs\<lparr>fs_buf := x\<rparr>) = one_tag ?w fs" for x by (simp add: one_tag_def)
      have L: "flv_loop fs pos out = flv_loop ?fs' (pos + ?n) (out @ fs_buf (one_tag ?w fs))"
        using True yes le leD [OF le] leD [of 11 "length ?b - pos"]
        unfolding flv_loop.simps [of fs] Let_def e out length_drop by simp
      have R: "flv_run (fs\<lparr>fs_buf := ?d\<rparr>) out = flv_run ((one_tag ?w fs)\<lparr>fs_buf := drop ?n ?d\<rparr>) (out @ fs_buf (one_tag ?w fs))"
        using True yes by (subst flv_run.simps) (simp add: Let_def o1)
      show ?thesis unfolding L IH R dr run ..
    qed
  qed
qed

lemma flv_feed_run: "flv_feed data fs out = flv_run (fs\<lparr>fs_buf := fs_buf fs @ data\<rparr>) out"
proof -
  have d: "(if 0 < p then fs'\<lparr>fs_buf := drop p (fs_buf fs')\<rparr> else fs') = fs'\<lparr>fs_buf := drop p (fs_buf fs')\<rparr>" for p and fs' :: flv_stream
    by simp
  show ?thesis
    using flv_loop_run [of 0 "fs\<lparr>fs_buf := fs_buf fs @ data\<rparr>" out] unfolding flv_feed_def d
    by (simp split: sum.splits)
qed

lemma flv_run_append:
  "flv_run (fs\<lparr>fs_buf := fs_buf fs @ c\<rparr>) out =
     (case flv_run fs out of Inl e \<Rightarrow> Inl e | Inr (fs', out') \<Rightarrow> flv_run (fs'\<lparr>fs_buf := fs_buf fs' @ c\<rparr>) out')"
proof (induction fs out rule: flv_run.induct)
  case (1 fs out)
  let ?b = "fs_buf fs"
  show ?case
  proof (cases "fs_started fs")
    case False
    let ?off = "unat (u32_from_be (?b ! 5) (?b ! 6) (?b ! 7) (?b ! 8))"
    show ?thesis
    proof (cases "length ?b < 9")
      case True
      with False have "flv_run fs out = Inr (fs, out)" by (subst flv_run.simps) simp
      then show ?thesis by simp
    next
      case nine: False
      then have off: "u32_from_be ((?b @ c) ! 5) ((?b @ c) ! 6) ((?b @ c) ! 7) ((?b @ c) ! 8) =
          u32_from_be (?b ! 5) (?b ! 6) (?b ! 7) (?b ! 8)" by (simp add: nth_append)
      consider (err) "take 3 ?b \<noteq> [0x46, 0x4C, 0x56] \<or> \<not> (9 \<le> ?off \<and> ?off \<le> 4096)"
        | (wait) "take 3 ?b = [0x46, 0x4C, 0x56]" "9 \<le> ?off \<and> ?off \<le> 4096" "length ?b < ?off + 4"
        | (go) "take 3 ?b = [0x46, 0x4C, 0x56]" "9 \<le> ?off \<and> ?off \<le> 4096" "?off + 4 \<le> length ?b"
        by linarith
      then show ?thesis
      proof cases
        case err
        with False nine have "flv_run fs out = Inl NotFlv" by (subst flv_run.simps) (auto simp: Let_def)
        moreover from err False nine have "flv_run (fs\<lparr>fs_buf := ?b @ c\<rparr>) out = Inl NotFlv"
          using off by (subst flv_run.simps) (auto simp: Let_def)
        ultimately show ?thesis by simp
      next
        case wait
        with False nine have "flv_run fs out = Inr (fs, out)" by (subst flv_run.simps) (simp add: Let_def)
        then show ?thesis by simp
      next
        case go
        note IH = "1.IH"(1) [OF refl False nine _ refl]
        from go False nine have "flv_run fs out = flv_run (fs\<lparr>fs_header_written := True, fs_started := True,
            fs_buf := drop (?off + 4) ?b\<rparr>) (if fs_header_written fs then out else out @ take (?off + 4) ?b)"
          by (subst flv_run.simps) (simp add: Let_def)
        moreover from go False nine have "flv_run (fs\<lparr>fs_buf := ?b @ c\<rparr>) out = flv_run (fs\<lparr>fs_header_written := True,
            fs_started := True, fs_buf := drop (?off + 4) ?b @ c\<rparr>) (if fs_header_written fs then out else out @ take (?off + 4) ?b)"
          using off by (subst flv_run.simps) (simp add: Let_def)
        ultimately show ?thesis using IH go by simp
      qed
    qed
  next
    case True
    let ?n = "15 + tag_size ?b"
    show ?thesis
    proof (cases "11 \<le> length ?b \<and> ?n \<le> length ?b")
      case False
      with True have "flv_run fs out = Inr (fs, out)" by (subst flv_run.simps) (auto simp: Let_def)
      then show ?thesis by simp
    next
      case yes: True
      have size: "tag_size (?b @ c) = tag_size ?b" using yes by (simp add: tag_size_def nth_append)
      have o1: "one_tag w (fs\<lparr>fs_buf := x\<rparr>) = one_tag w fs" for w x by (simp add: one_tag_def)
      have "flv_run fs out = flv_run ((one_tag (take ?n ?b) fs)\<lparr>fs_buf := drop ?n ?b\<rparr>) (out @ fs_buf (one_tag (take ?n ?b) fs))"
        using True yes by (subst flv_run.simps) (simp add: Let_def)
      moreover have "flv_run (fs\<lparr>fs_buf := ?b @ c\<rparr>) out =
          flv_run ((one_tag (take ?n ?b) fs)\<lparr>fs_buf := drop ?n ?b @ c\<rparr>) (out @ fs_buf (one_tag (take ?n ?b) fs))"
        using True yes by (subst flv_run.simps) (simp add: Let_def size o1)
      ultimately show ?thesis using "1.IH"(2) [OF refl _ _ refl _ refl] True yes by simp
    qed
  qed
qed

end
