(* ===== verification/Flv_Claims.thy ===== *)
theory Flv_Claims
  imports Flv_Stream
begin

text \<open>
  What an FLV recording contains: the tags of every connection, cut out of the stream however it was
  segmented, on one timeline.
\<close>

section \<open>Chunks\<close>

fun flv_feeds :: "bytes list \<Rightarrow> flv_stream \<Rightarrow> bytes \<Rightarrow> http_error + (flv_stream \<times> bytes)" where
  "flv_feeds [] fs out = Inr (fs, out)"
| "flv_feeds (c # cs) fs out =
     (case flv_feed c fs out of Inl e \<Rightarrow> Inl e | Inr (fs', out') \<Rightarrow> flv_feeds cs fs' out')"

lemma flv_run_idle:
  assumes "flv_run fs out = Inr (fs', out')"
  shows "flv_run fs' out' = Inr (fs', out')"
  using flv_run_append [of fs "[]" out] assms by simp

lemma flv_feeds_run:
  assumes "flv_run fs out = Inr (fs, out)"
  shows "flv_feeds cs fs out = flv_run (fs\<lparr>fs_buf := fs_buf fs @ concat cs\<rparr>) out"
  using assms
proof (induction cs arbitrary: fs out)
  case (Cons c cs)
  show ?case
  proof (cases "flv_run (fs\<lparr>fs_buf := fs_buf fs @ c\<rparr>) out")
    case (Inl e)
    with flv_run_append [of "fs\<lparr>fs_buf := fs_buf fs @ c\<rparr>" "concat cs" out] show ?thesis by (simp add: flv_feed_run)
  next
    case (Inr r)
    obtain fs1 out1 where r: "r = (fs1, out1)" by force
    have "flv_run fs1 out1 = Inr (fs1, out1)" using flv_run_idle Inr r by blast
    from Cons.IH [OF this] Inr r flv_run_append [of "fs\<lparr>fs_buf := fs_buf fs @ c\<rparr>" "concat cs" out]
    show ?thesis by (simp add: flv_feed_run)
  qed
qed simp

lemma begin_segment_idle: "flv_run (begin_segment fs) out = Inr (begin_segment fs, out)"
  by (subst flv_run.simps) (simp add: begin_segment_def)

section \<open>Tags\<close>

record flv_tag =
  t_type :: u8
  t_ts :: u32
  t_stream :: bytes
  t_data :: bytes
  t_prev :: bytes

definition tag_ok :: "flv_tag \<Rightarrow> bool" where
  "tag_ok t \<longleftrightarrow> length (t_stream t) = 3 \<and> length (t_prev t) = 4 \<and> length (t_data t) < 2 ^ 24"

definition tag_wire :: "flv_tag \<Rightarrow> bytes" where
  "tag_wire t = [t_type t, ucast (drop_bit 16 (of_nat (length (t_data t)) :: u64)),
     ucast (drop_bit 8 (of_nat (length (t_data t)) :: u64)), ucast (of_nat (length (t_data t)) :: u64),
     ucast (drop_bit 16 (t_ts t)), ucast (drop_bit 8 (t_ts t)), ucast (t_ts t), ucast (drop_bit 24 (t_ts t))]
     @ t_stream t @ t_data t @ t_prev t"

lemma length_tag_wire: "tag_ok t \<Longrightarrow> length (tag_wire t) = 15 + length (t_data t)"
  by (simp add: tag_wire_def tag_ok_def)

lemma be24_word:
  fixes w :: u64
  assumes "unat w < 2 ^ 24"
  shows "push_bit 16 (ucast (ucast (drop_bit 16 w) :: byte)) OR push_bit 8 (ucast (ucast (drop_bit 8 w) :: byte)) OR
      ucast (ucast w :: byte) = w"
proof (rule bit_word_eqI)
  fix i assume "i < LENGTH(64)"
  have hi: "\<not> bit w i" if "24 \<le> i"
  proof -
    have "unat w < 2 ^ i" using assms power_increasing [OF that, of "2 :: nat"] by simp
    then have "\<not> bit (unat w) i" by (simp add: bit_iff_odd)
    then show ?thesis by (simp add: bit_unsigned_iff)
  qed
  consider "i < 8" | "8 \<le> i" "i < 16" | "16 \<le> i" "i < 24" | "24 \<le> i" by linarith
  then show "bit (push_bit 16 (ucast (ucast (drop_bit 16 w) :: byte)) OR
      push_bit 8 (ucast (ucast (drop_bit 8 w) :: byte)) OR ucast (ucast w :: byte) :: u64) i = bit w i"
    using hi by cases (auto simp: bit_simps)
qed

lemma tag_size_wire:
  assumes "tag_ok t"
  shows "tag_size (tag_wire t @ r) = length (t_data t)"
proof -
  have u: "unat (of_nat (length (t_data t)) :: u64) = length (t_data t)"
    using assms by (simp add: tag_ok_def unat_of_nat)
  with assms have "unat (of_nat (length (t_data t)) :: u64) < 2 ^ 24" by (simp add: tag_ok_def)
  then show ?thesis using u by (simp add: tag_size_def tag_wire_def be24_word)
qed

lemma tag_ts_wire: "tag_ts (tag_wire t @ r) = t_ts t"
proof -
  have "tag_ts (tag_wire t @ r) = u32_from_be (u32_to_be (t_ts t) ! 0) (u32_to_be (t_ts t) ! 1)
      (u32_to_be (t_ts t) ! 2) (u32_to_be (t_ts t) ! 3)"
    by (simp add: tag_ts_def tag_wire_def u32_from_be_def u32_to_be_def or.left_commute or.commute)
  then show ?thesis by (simp only: u32_from_to_be)
qed

lemma patch_ts_wire: "patch_ts 0 m (tag_wire t) = tag_wire (t\<lparr>t_ts := m\<rparr>)"
  by (simp add: patch_ts_def tag_wire_def eval_nat_numeral)

text \<open>
  The timeline in terms of tags: the shift of the connection, if it had a media tag, and the largest
  time stamp written.
\<close>

definition next_shift :: "int option \<Rightarrow> nat \<Rightarrow> flv_tag \<Rightarrow> int option" where
  "next_shift sh mx t = (if is_media (t_type t) \<and> sh = None then Some (int (unat (t_ts t)) - int mx) else sh)"

definition new_ts :: "int option \<Rightarrow> nat \<Rightarrow> flv_tag \<Rightarrow> nat" where
  "new_ts sh mx t = (case sh of None \<Rightarrow> mx | Some s \<Rightarrow> nat (int (unat (t_ts t)) - s))"

fun retime :: "int option \<Rightarrow> nat \<Rightarrow> flv_tag list \<Rightarrow> flv_tag list \<times> nat" where
  "retime sh mx [] = ([], mx)"
| "retime sh mx (t # ts) =
     (let sh' = next_shift sh mx t; m = new_ts sh' mx t; (ts', mx') = retime sh' (max mx m) ts
      in (t\<lparr>t_ts := of_nat (min m (2 ^ 32 - 1))\<rparr> # ts', mx'))"

lemma check_replay_frame:
  "fs_shift (check_replay a p e fs) = fs_shift fs" "fs_mapped_max (check_replay a p e fs) = fs_mapped_max fs"
  "fs_buf (check_replay a p e fs) = fs_buf fs"
  by (simp_all add: check_replay_def Let_def split: option.splits)

lemma map_ts_spec:
  "map_ts (t_type t) (t_ts t) fs =
     (min (new_ts (next_shift (fs_shift fs) (fs_mapped_max fs) t) (fs_mapped_max fs) t) (2 ^ 32 - 1),
      fs\<lparr>fs_shift := next_shift (fs_shift fs) (fs_mapped_max fs) t,
         fs_mapped_max := max (fs_mapped_max fs) (new_ts (next_shift (fs_shift fs) (fs_mapped_max fs) t) (fs_mapped_max fs) t)\<rparr>)"
proof -
  have n: "nat (max i 0) = nat i" for i by simp
  show ?thesis
    unfolding map_ts_def Let_def n by (cases fs; cases "fs_shift fs") (auto simp: next_shift_def new_ts_def max_def)
qed

lemma one_tag_wire:
  fixes fs :: flv_stream
  assumes "tag_ok t"
  defines "sh \<equiv> next_shift (fs_shift fs) (fs_mapped_max fs) t"
  defines "m \<equiv> new_ts sh (fs_mapped_max fs) t"
  shows "fs_buf (one_tag (tag_wire t) fs) = tag_wire (t\<lparr>t_ts := of_nat (min m (2 ^ 32 - 1))\<rparr>) \<and>
    fs_shift (one_tag (tag_wire t) fs) = sh \<and> fs_mapped_max (one_tag (tag_wire t) fs) = max (fs_mapped_max fs) m"
proof -
  let ?w = "tag_wire t"
  have h: "?w ! 0 = t_type t" "tag_ts (take 11 ?w) = t_ts t"
    using tag_ts_wire [of t "[]"] by (simp add: tag_wire_def, simp add: tag_ts_def)
  let ?c = "check_replay (t_type t) 0 (length ?w) (fs\<lparr>fs_buf := ?w\<rparr>)"
  have c: "fs_shift ?c = fs_shift fs" "fs_mapped_max ?c = fs_mapped_max fs" "fs_buf ?c = ?w"
    by (simp_all add: check_replay_frame)
  show ?thesis
    by (simp add: one_tag_def flv_tag_def Let_def h map_ts_spec c patch_ts_wire sh_def m_def)
qed

text \<open>The connection: bytes too short for another tag stay in the buffer.\<close>

definition incomplete :: "bytes \<Rightarrow> bool" where
  "incomplete p \<longleftrightarrow> length p < 11 \<or> length p < 15 + tag_size p"

lemma run_tags:
  assumes "fs_started fs" "fs_buf fs = concat (map tag_wire ts) @ p" "list_all tag_ok ts" "incomplete p"
  shows "\<exists>fs'. flv_run fs out = Inr (fs', out @ concat (map tag_wire (fst (retime (fs_shift fs) (fs_mapped_max fs) ts)))) \<and>
    fs_mapped_max fs' = snd (retime (fs_shift fs) (fs_mapped_max fs) ts) \<and> fs_buf fs' = p \<and>
    fs_header_written fs' = fs_header_written fs"
  using assms
proof (induction ts arbitrary: fs out)
  case Nil
  then have "flv_run fs out = Inr (fs, out)"
    by (subst flv_run.simps) (auto simp: incomplete_def Let_def)
  with Nil show ?case by simp
next
  case (Cons t ts)
  let ?r = "concat (map tag_wire ts) @ p"
  have ok: "tag_ok t" using Cons.prems by simp
  have len: "length (tag_wire t) = 15 + length (t_data t)" by (rule length_tag_wire [OF ok])
  have size: "tag_size (fs_buf fs) = length (t_data t)" using tag_size_wire [OF ok] Cons.prems(2) by simp
  let ?o = "one_tag (tag_wire t) fs"
  have step: "flv_run fs out = flv_run (?o\<lparr>fs_buf := ?r\<rparr>) (out @ fs_buf ?o)"
    using Cons.prems(1,2) len size by (subst flv_run.simps) (simp add: Let_def)
  let ?g = "?o\<lparr>fs_buf := ?r\<rparr>"
  have "fs_started ?g" "fs_buf ?g = concat (map tag_wire ts) @ p" "list_all tag_ok ts"
    using Cons.prems by simp_all
  from Cons.IH [OF this Cons.prems(4), of "out @ fs_buf ?o"] one_tag_wire [OF ok, of fs]
  show ?case unfolding step by (auto simp: Let_def split_beta)
qed

definition flv_header :: "bytes \<Rightarrow> bool" where
  "flv_header h \<longleftrightarrow> 13 \<le> length h \<and> length h \<le> 4100 \<and> take 3 h = [0x46, 0x4C, 0x56] \<and>
     unat (u32_from_be (h ! 5) (h ! 6) (h ! 7) (h ! 8)) + 4 = length h"

lemma run_header:
  assumes "\<not> fs_started fs" "fs_buf fs = h @ r" "flv_header h"
  shows "flv_run fs out = flv_run (fs\<lparr>fs_header_written := True, fs_started := True, fs_buf := r\<rparr>)
    (if fs_header_written fs then out else out @ h)"
proof -
  let ?off = "unat (u32_from_be (h ! 5) (h ! 6) (h ! 7) (h ! 8))"
  have o: "9 \<le> ?off" "?off \<le> 4096" "?off + 4 = length h" using assms(3) unfolding flv_header_def by linarith+
  have n: "(h @ r) ! 5 = h ! 5" "(h @ r) ! 6 = h ! 6" "(h @ r) ! 7 = h ! 7" "(h @ r) ! 8 = h ! 8" "take 3 (h @ r) = [0x46, 0x4C, 0x56]"
    "\<not> length (h @ r) < 9"
    using assms(3) by (simp_all add: flv_header_def nth_append)
  show ?thesis
    using assms(1) unfolding flv_run.simps [of fs] assms(2) Let_def n o(3)
    using o by simp
qed

text \<open>
  C17. A recording contains exactly the tags of the connection. However the connection is cut into
  chunks, the parser writes the file header, unless the product already has one, and then every
  complete tag with nothing changed but its time stamp, which the timeline of the product gives it;
  the unfinished tail of the connection is kept back.
\<close>

theorem flv_stream_refines:
  assumes "concat cs = h @ concat (map tag_wire ts) @ p" "flv_header h" "list_all tag_ok ts" "incomplete p"
  shows "\<exists>fs'. flv_feeds cs (begin_segment fs) [] =
      Inr (fs', (if fs_header_written fs then [] else h) @ concat (map tag_wire (fst (retime None (fs_mapped_max fs) ts)))) \<and>
    fs_mapped_max fs' = snd (retime None (fs_mapped_max fs) ts) \<and> fs_buf fs' = p \<and> fs_header_written fs'"
proof -
  let ?b = "(begin_segment fs)\<lparr>fs_buf := h @ concat (map tag_wire ts) @ p\<rparr>"
  let ?s = "?b\<lparr>fs_header_written := True, fs_started := True, fs_buf := concat (map tag_wire ts) @ p\<rparr>"
  let ?o = "if fs_header_written fs then [] else h"
  have "flv_feeds cs (begin_segment fs) [] = flv_run ?b []"
    using flv_feeds_run [OF begin_segment_idle, of cs fs "[]"] assms(1) by (simp add: begin_segment_def)
  also have "\<dots> = flv_run ?s ?o"
    using run_header [of ?b h _ "[]"] assms(2) by (simp add: begin_segment_def)
  finally have f: "flv_feeds cs (begin_segment fs) [] = flv_run ?s ?o" .
  have "fs_shift ?s = None" "fs_mapped_max ?s = fs_mapped_max fs" by (simp_all add: begin_segment_def)
  then show ?thesis
    unfolding f using run_tags [of ?s ts p ?o] assms(3,4) by (auto simp: Let_def)
qed

section \<open>The timeline of several connections\<close>

abbreviation tsn :: "flv_tag \<Rightarrow> nat" where "tsn t \<equiv> unat (t_ts t)"

lemma retime_shifted:
  assumes "\<And>t. t \<in> set ts \<Longrightarrow> a \<le> tsn t \<and> m + (tsn t - a) < 2 ^ 32"
  shows "fst (retime (Some (int a - int m)) mx ts) = map (\<lambda>t. t\<lparr>t_ts := of_nat (m + (tsn t - a))\<rparr>) ts \<and>
    snd (retime (Some (int a - int m)) mx ts) = fold max (map (\<lambda>t. m + (tsn t - a)) ts) mx"
  using assms
proof (induction ts arbitrary: mx)
  case (Cons t ts)
  have "a \<le> tsn t \<and> m + (tsn t - a) < 2 ^ 32" by (intro Cons.prems) simp
  then have t: "a \<le> tsn t" "m + (tsn t - a) \<le> 2 ^ 32 - 1" by linarith+
  have "nat (int k - (int a - int m)) = m + (k - a)" if "a \<le> k" for k using that by linarith
  from this [OF t(1)] have n: "new_ts (Some (int a - int m)) mx t = m + (tsn t - a)"
    unfolding new_ts_def option.case .
  have s: "next_shift (Some (int a - int m)) mx t = Some (int a - int m)" by (simp add: next_shift_def)
  have "min (m + (tsn t - a)) (2 ^ 32 - 1) = m + (tsn t - a)" using t by (simp add: min_absorb1)
  moreover have IH: "fst (retime (Some (int a - int m)) (max mx (m + (tsn t - a))) ts) = map (\<lambda>t. t\<lparr>t_ts := of_nat (m + (tsn t - a))\<rparr>) ts \<and>
    snd (retime (Some (int a - int m)) (max mx (m + (tsn t - a))) ts) =
      fold max (map (\<lambda>t. m + (tsn t - a)) ts) (max mx (m + (tsn t - a)))"
    by (rule Cons.IH, rule Cons.prems) simp
  ultimately show ?case
    unfolding retime.simps Let_def split_beta s n
    by (simp only: fst_conv snd_conv list.map fold_simps max.commute [of "m + (tsn t - a)"] simp_thms)
qed simp

lemma retime_scripts:
  assumes "\<And>t. t \<in> set ps \<Longrightarrow> \<not> is_media (t_type t)" "mx < 2 ^ 32"
  shows "retime None mx (ps @ ts) = (map (\<lambda>t. t\<lparr>t_ts := of_nat mx\<rparr>) ps @ fst (retime None mx ts), snd (retime None mx ts))"
  using assms by (induction ps) (simp_all add: next_shift_def new_ts_def Let_def split_beta)

text \<open>
  A connection that flows: nothing but script tags before its first media tag \<open>t\<close>, time stamps that
  do not go back afterwards.
\<close>

definition flows :: "flv_tag list \<Rightarrow> flv_tag \<Rightarrow> flv_tag list \<Rightarrow> bool" where
  "flows ps t ts \<longleftrightarrow> (\<forall>p \<in> set ps. \<not> is_media (t_type p)) \<and> is_media (t_type t) \<and> sorted (map tsn (t # ts))"

definition duration :: "flv_tag \<Rightarrow> flv_tag list \<Rightarrow> nat" where
  "duration t ts = tsn (last (t # ts)) - tsn t"

lemma fold_max_sorted: "sorted (m # xs) \<Longrightarrow> fold max xs m = last (m # xs)" for m :: nat
  by (induction xs arbitrary: m) auto

lemma sorted_last: "sorted (map f (t # ts)) \<Longrightarrow> x \<in> set (t # ts) \<Longrightarrow> f x \<le> f (last (t # ts))" for f :: "'a \<Rightarrow> nat"
  by (induction ts arbitrary: t) auto

lemma retime_flow:
  assumes "flows ps t ts" "mx + duration t ts < 2 ^ 32"
  shows "retime None mx (ps @ t # ts) =
    (map (\<lambda>x. x\<lparr>t_ts := of_nat mx\<rparr>) ps @ map (\<lambda>x. x\<lparr>t_ts := of_nat (mx + (tsn x - tsn t))\<rparr>) (t # ts), mx + duration t ts)"
proof -
  have srt: "sorted (map tsn (t # ts))" and md: "is_media (t_type t)" using assms(1) by (simp_all add: flows_def)
  have b: "tsn t \<le> tsn x \<and> mx + (tsn x - tsn t) < 2 ^ 32" if "x \<in> set ts" for x
  proof -
    have "tsn x \<le> tsn (last (t # ts))" using sorted_last [OF srt, of x] that by simp
    moreover have "tsn t \<le> tsn x" using srt that by simp
    ultimately show ?thesis using assms(2) unfolding duration_def by linarith
  qed
  define a where "a = tsn t"
  have first: "new_ts (Some (int a - int mx)) mx t = mx" by (simp add: new_ts_def a_def)
  have shift: "next_shift None mx t = Some (int a - int mx)" using md by (simp add: next_shift_def a_def)
  have mm: "min mx (2 ^ 32 - 1) = mx" using assms(2) by simp
  have "sorted (mx # map (\<lambda>x. mx + (tsn x - tsn t)) ts)"
    using srt by (auto simp: sorted_map intro: sorted_wrt_mono_rel [rotated] diff_le_mono)
  from fold_max_sorted [OF this]
  have l: "fold max (map (\<lambda>x. mx + (tsn x - tsn t)) ts) mx = mx + duration t ts"
    by (auto simp: duration_def last_map)
  have "retime None mx (t # ts) =
      (map (\<lambda>x. x\<lparr>t_ts := of_nat (mx + (tsn x - tsn t))\<rparr>) (t # ts), mx + duration t ts)"
    using retime_shifted [of ts a mx mx, OF b [folded a_def]] l unfolding retime.simps shift Let_def first split_beta max.idem mm
    by (simp add: a_def [symmetric])
  then show ?thesis
    using retime_scripts [of ps mx "t # ts"] assms by (auto simp: flows_def simp del: retime.simps)
qed

fun flv_records :: "bytes list list \<Rightarrow> flv_stream \<Rightarrow> bytes \<Rightarrow> http_error + (flv_stream \<times> bytes)" where
  "flv_records [] fs out = Inr (fs, out)"
| "flv_records (cs # css) fs out =
     (case flv_feeds cs (begin_segment fs) out of
        Inl e \<Rightarrow> Inl e
      | Inr (fs', out') \<Rightarrow> flv_records css fs' out')"

text \<open>A connection: its chunks, header, script tags, first media tag, further tags and unfinished tail.\<close>

type_synonym connection = "bytes list \<times> bytes \<times> flv_tag list \<times> flv_tag \<times> flv_tag list \<times> bytes"

definition connection_ok :: "connection \<Rightarrow> bool" where
  "connection_ok = (\<lambda>(cs, h, ps, t, ts, p). concat cs = h @ concat (map tag_wire (ps @ t # ts)) @ p \<and> flv_header h \<and>
     list_all tag_ok (ps @ t # ts) \<and> incomplete p \<and> flows ps t ts)"

abbreviation chunks_of :: "connection \<Rightarrow> bytes list" where "chunks_of \<equiv> fst"
definition tags_of :: "connection \<Rightarrow> flv_tag list" where "tags_of = (\<lambda>(cs, h, ps, t, ts, p). ps @ t # ts)"
definition lasts :: "connection \<Rightarrow> nat" where "lasts = (\<lambda>(cs, h, ps, t, ts, p). duration t ts)"
definition header_of :: "connection \<Rightarrow> bytes" where "header_of = (\<lambda>(cs, h, _). h)"

definition untimed :: "flv_tag list \<Rightarrow> flv_tag list" where
  "untimed = map (\<lambda>t. t\<lparr>t_ts := 0\<rparr>)"

lemma connection_recorded:
  assumes "connection_ok c" "fs_mapped_max fs + lasts c < 2 ^ 32"
  shows "\<exists>fs' ts. flv_feeds (chunks_of c) (begin_segment fs) out =
      Inr (fs', out @ (if fs_header_written fs then [] else header_of c) @ concat (map tag_wire ts)) \<and>
    fs_mapped_max fs' = fs_mapped_max fs + lasts c \<and> fs_header_written fs' \<and> untimed ts = untimed (tags_of c) \<and>
    ts \<noteq> [] \<and> tsn (hd ts) = fs_mapped_max fs \<and> sorted (map tsn ts) \<and> (\<forall>t \<in> set ts. fs_mapped_max fs \<le> tsn t \<and> tsn t \<le> fs_mapped_max fs + lasts c)"
proof -
  obtain cs h ps t ts p where c: "c = (cs, h, ps, t, ts, p)" by (cases c)
  let ?m = "fs_mapped_max fs"
  let ?d = "duration t ts"
  have ok: "concat cs = h @ concat (map tag_wire (ps @ t # ts)) @ p" "flv_header h" "list_all tag_ok (ps @ t # ts)"
    "incomplete p" "flows ps t ts" using assms(1) by (simp_all add: connection_ok_def c)
  have d: "?m + ?d < 2 ^ 32" using assms(2) by (simp add: lasts_def c)
  let ?ts = "fst (retime None ?m (ps @ t # ts))"
  have srt: "sorted (map tsn (t # ts))" using ok(5) by (simp add: flows_def)
  have r: "?ts = map (\<lambda>x. x\<lparr>t_ts := of_nat ?m\<rparr>) ps @ map (\<lambda>x. x\<lparr>t_ts := of_nat (?m + (tsn x - tsn t))\<rparr>) (t # ts)"
    "snd (retime None ?m (ps @ t # ts)) = ?m + ?d" using retime_flow [OF ok(5) d] by simp_all
  let ?b = "(begin_segment fs)\<lparr>fs_buf := concat cs\<rparr>"
  let ?s = "?b\<lparr>fs_header_written := True, fs_started := True, fs_buf := concat (map tag_wire (ps @ t # ts)) @ p\<rparr>"
  let ?o = "if fs_header_written fs then out else out @ h"
  have "flv_feeds cs (begin_segment fs) out = flv_run ?b out"
    using flv_feeds_run [OF begin_segment_idle, of cs fs out] by (simp add: begin_segment_def)
  also have "\<dots> = flv_run ?s ?o"
    using run_header [of ?b h _ out] ok(1,2) by (simp add: begin_segment_def)
  finally have f: "flv_feeds cs (begin_segment fs) out = flv_run ?s ?o" .
  have "fs_shift ?s = None" "fs_mapped_max ?s = ?m" by (simp_all add: begin_segment_def)
  from run_tags [of ?s "ps @ t # ts" p ?o, unfolded this] ok(3,4) r(2)
  obtain fs' where fs': "flv_run ?s ?o = Inr (fs', ?o @ concat (map tag_wire ?ts))" "fs_mapped_max fs' = ?m + ?d"
    "fs_header_written fs'" by auto
  have stamp: "unat (of_nat (?m + (tsn x - tsn t)) :: u32) = ?m + (tsn x - tsn t) \<and> tsn x - tsn t \<le> ?d" if "x \<in> set (t # ts)" for x
  proof -
    have le: "tsn x - tsn t \<le> ?d" using sorted_last [OF srt that] unfolding duration_def by (rule diff_le_mono)
    with d have "?m + (tsn x - tsn t) < 2 ^ LENGTH(32)" by simp
    with le show ?thesis unfolding unat_of_nat by simp
  qed
  have sm: "unat (of_nat ?m :: u32) = ?m" using d by (simp add: unat_of_nat)
  have stamps: "map tsn ?ts = map (\<lambda>_. ?m) ps @ map (\<lambda>x. ?m + (tsn x - tsn t)) (t # ts)"
    unfolding r(1) using stamp sm by simp
  have "sorted (map tsn ?ts)"
    unfolding stamps using srt by (auto simp: sorted_append sorted_map intro: sorted_wrt_mono_rel [rotated] diff_le_mono)
  moreover have "?m \<le> tsn x \<and> tsn x \<le> ?m + ?d" if "x \<in> set ?ts" for x
  proof -
    have "tsn x \<in> set (map tsn ?ts)" using that by simp
    then show ?thesis unfolding stamps using stamp by auto
  qed
  moreover have "untimed ?ts = untimed (ps @ t # ts)" by (simp add: r(1) untimed_def)
  moreover have "?ts \<noteq> []" "hd (map tsn ?ts) = ?m" unfolding stamps by (simp_all add: r(1)) (cases ps; simp)
  then have "tsn (hd ?ts) = ?m" by (simp add: hd_map)
  ultimately show ?thesis
    using fs' f \<open>?ts \<noteq> []\<close> by (intro exI [of _ fs'] exI [of _ ?ts]) (simp add: c lasts_def tags_of_def header_of_def)
qed

lemma records_from:
  assumes "list_all connection_ok cons" "fs_mapped_max fs + sum_list (map lasts cons) < 2 ^ 32" "fs_header_written fs"
  shows "\<exists>fs' ts. flv_records (map chunks_of cons) fs out = Inr (fs', out @ concat (map tag_wire ts)) \<and>
    fs_mapped_max fs' = fs_mapped_max fs + sum_list (map lasts cons) \<and>
    untimed ts = untimed (concat (map tags_of cons)) \<and> sorted (map tsn ts) \<and> (\<forall>t \<in> set ts. fs_mapped_max fs \<le> tsn t)"
  using assms
proof (induction cons arbitrary: fs out)
  case Nil
  then show ?case by (auto intro!: exI [of _ "[]"] simp: untimed_def)
next
  case (Cons c cons)
  from Cons.prems connection_recorded [of c fs out] obtain fs1 ts1 where 1:
    "flv_feeds (chunks_of c) (begin_segment fs) out = Inr (fs1, out @ concat (map tag_wire ts1))"
    "fs_mapped_max fs1 = fs_mapped_max fs + lasts c" "fs_header_written fs1" "untimed ts1 = untimed (tags_of c)"
    "sorted (map tsn ts1)" "\<forall>t \<in> set ts1. fs_mapped_max fs \<le> tsn t \<and> tsn t \<le> fs_mapped_max fs1"
    by auto
  have "list_all connection_ok cons" "fs_mapped_max fs1 + sum_list (map lasts cons) < 2 ^ 32"
    using Cons.prems 1(2) by simp_all
  from Cons.IH [OF this 1(3), of "out @ concat (map tag_wire ts1)"] obtain fs' ts where 2:
    "flv_records (map chunks_of cons) fs1 (out @ concat (map tag_wire ts1)) = Inr (fs', (out @ concat (map tag_wire ts1)) @ concat (map tag_wire ts))"
    "fs_mapped_max fs' = fs_mapped_max fs1 + sum_list (map lasts cons)" "untimed ts = untimed (concat (map tags_of cons))"
    "sorted (map tsn ts)" "\<forall>t \<in> set ts. fs_mapped_max fs1 \<le> tsn t" by blast
  have "sorted (map tsn (ts1 @ ts))" using 1(5,6) 2(4,5) by (fastforce simp: sorted_append)
  moreover have "untimed (ts1 @ ts) = untimed (concat (map tags_of (c # cons)))" using 1(4) 2(3) by (simp add: untimed_def)
  moreover have "\<forall>t \<in> set (ts1 @ ts). fs_mapped_max fs \<le> tsn t" using 1(2,6) 2(5) by auto
  ultimately show ?case
    using 1(1,2) 2(1,2) by (intro exI [of _ fs'] exI [of _ "ts1 @ ts"]) simp
qed


end
