(* ===== verification/Flv_Record.thy ===== *)
theory Flv_Record
  imports Flv_Claims
begin

text \<open>
  The recording of an FLV live stream, \<open>record_flv\<close> of \<open>crates/xfer-http/src/flv.rs\<close>, as a machine
  that is told what the network, the clock and the user did: the loop of connections, the opening of
  each connection that is held back until its first media tag, the control file, and the ends.

  The product is its content up to \<open>sink.position()\<close>. Byte counts are naturals, messages are dropped,
  and whether a stored address is the address of the stream (\<open>ctrl_matches\<close>) is an argument. A step
  that writes or flushes is told whether the file accepts it.
\<close>

section \<open>Definitions\<close>

definition OPEN_HOLD_LIMIT :: nat where "OPEN_HOLD_LIMIT = 1024 * 1024"
definition GONE_LIMIT :: nat where "GONE_LIMIT = 6"
definition EMPTY_LIMIT :: nat where "EMPTY_LIMIT = 3"

record flv_ctrl =
  fc_bytes :: nat
  fc_live_ms :: nat
  fc_probe :: bytes

datatype flv_exit = Ended | Stalled | Gone | Cancelled

text \<open>Where the loop stands: at its top, waiting after an error or after a 404, reading a response.\<close>

datatype flv_phase = Top | Backoff | GoneWait | Reading "nat option" nat

record flv_rec =
  fr_parser :: flv_stream
  fr_sink :: bytes
  fr_pending :: bytes
  fr_resumed :: bool
  fr_dirty :: bool
  fr_gone :: nat
  fr_empty :: nat
  fr_attempt :: nat
  fr_last_err :: "http_error option"
  fr_ctrl :: "flv_ctrl option"
  fr_phase :: flv_phase

text \<open>What a step leads to: the loop goes on, the function returns at once, or the loop is left.\<close>

datatype flv_outcome = Go flv_rec | Return http_error flv_rec | Leave "http_error + flv_exit" flv_rec

definition ctrl_of :: "flv_rec \<Rightarrow> flv_ctrl" where
  "ctrl_of r = \<lparr>fc_bytes = length (fr_sink r), fc_live_ms = fs_mapped_max (fr_parser r),
     fc_probe = (case fs_begin_probe (fr_parser r) of None \<Rightarrow> [] | Some p \<Rightarrow> p)\<rparr>"

text \<open>The start: \<open>ctrl\<close> is the control file if there is one for this stream, \<open>disk\<close> the product on disk.\<close>

definition usable_resume :: "flv_ctrl option \<Rightarrow> bool \<Rightarrow> bytes \<Rightarrow> flv_ctrl option" where
  "usable_resume ctrl same disk =
     (case ctrl of None \<Rightarrow> None | Some c \<Rightarrow> if same \<and> fc_bytes c \<le> length disk then Some c else None)"

definition live_resume_point :: "flv_ctrl option \<Rightarrow> bool \<Rightarrow> bytes \<Rightarrow> (nat \<times> nat) option" where
  "live_resume_point ctrl same disk =
     (case ctrl of
        None \<Rightarrow> None
      | Some c \<Rightarrow> if \<not> same then None else if length disk < fc_bytes c then None else Some (fc_bytes c, fc_live_ms c))"

definition flv_start :: "flv_ctrl option \<Rightarrow> bool \<Rightarrow> bytes \<Rightarrow> flv_rec" where
  "flv_start ctrl same disk =
     (let resume = usable_resume ctrl same disk;
          bytes0 = (case resume of None \<Rightarrow> 0 | Some c \<Rightarrow> fc_bytes c);
          ms0 = (case resume of None \<Rightarrow> 0 | Some c \<Rightarrow> fc_live_ms c);
          probe = (case resume of None \<Rightarrow> None | Some c \<Rightarrow> if fc_probe c = [] then None else Some (fc_probe c))
      in \<lparr>fr_parser = flv_new ms0 bytes0 probe, fr_sink = (case resume of None \<Rightarrow> [] | Some c \<Rightarrow> take (fc_bytes c) disk),
          fr_pending = [], fr_resumed = (resume \<noteq> None), fr_dirty = False, fr_gone = 0, fr_empty = 0, fr_attempt = 0,
          fr_last_err = None, fr_ctrl = ctrl, fr_phase = Top\<rparr>)"

datatype connect_result =
    ConnCancelled
  | ConnTimeout
  | ConnError http_error
  | Response nat "nat option"

definition back_off :: "flv_rec \<Rightarrow> flv_rec" where
  "back_off r = r\<lparr>fr_attempt := fr_attempt r + 1, fr_phase := Backoff\<rparr>"

text \<open>The answer to the request.\<close>

definition on_connect :: "connect_result \<Rightarrow> flv_rec \<Rightarrow> flv_outcome" where
  "on_connect res r =
     (case res of
        ConnCancelled \<Rightarrow> Leave (Inr Cancelled) r
      | ConnTimeout \<Rightarrow> Go (back_off (r\<lparr>fr_last_err := Some HttpTimeout\<rparr>))
      | ConnError err \<Rightarrow>
          if \<not> is_retryable err then Leave (Inl err) r else Go (back_off (r\<lparr>fr_last_err := Some err\<rparr>))
      | Response status declared_len \<Rightarrow>
          if status = 404 \<or> status = 410 then
            (let r1 = r\<lparr>fr_gone := fr_gone r + 1\<rparr>
             in if GONE_LIMIT \<le> fr_gone r1 then Leave (Inr Gone) r1 else Go (r1\<lparr>fr_phase := GoneWait\<rparr>))
          else if \<not> (200 \<le> status \<and> status < 300) then
            (let err = HttpStatus status
             in if \<not> is_retryable err then Leave (Inl err) r else Go (back_off (r\<lparr>fr_last_err := Some err\<rparr>)))
          else
            let r1 = r\<lparr>fr_gone := 0\<rparr>
            in if declared_len \<noteq> None \<and> fr_sink r1 \<noteq> [] then Leave (Inr Gone) r1
               else Go (r1\<lparr>fr_phase := Reading declared_len 0\<rparr>))"

text \<open>The end of a response that is not the end of the recording.\<close>

definition response_over :: "nat option \<Rightarrow> nat \<Rightarrow> flv_rec \<Rightarrow> flv_outcome" where
  "response_over declared_len run_bytes r =
     (if declared_len \<noteq> None then Leave (Inr Ended) r
      else
        let r1 = (if run_bytes = 0 then r\<lparr>fr_empty := fr_empty r + 1\<rparr> else r\<lparr>fr_empty := 0\<rparr>)
        in if run_bytes = 0 \<and> EMPTY_LIMIT \<le> fr_empty r1 then Leave (Inr Gone) r1
           else Go (r1\<lparr>fr_attempt := (if 0 < run_bytes then 0 else fr_attempt r1 + 1), fr_phase := Backoff\<rparr>))"

text \<open>Writing what the parser put out; \<open>ok\<close> tells whether the file accepts it.\<close>

definition write_parsed :: "bool \<Rightarrow> bytes \<Rightarrow> flv_rec \<Rightarrow> http_error + flv_rec" where
  "write_parsed ok buf r =
     (if buf = [] then Inr r
      else if fs_seg_media_seen (fr_parser r) \<or> OPEN_HOLD_LIMIT \<le> length (fr_pending r) then
        (if \<not> ok then Inl HttpIo
         else Inr (r\<lparr>fr_sink := fr_sink r @ fr_pending r @ buf, fr_pending := [], fr_dirty := True\<rparr>))
      else Inr (r\<lparr>fr_pending := fr_pending r @ buf, fr_dirty := True\<rparr>))"

definition on_chunk :: "bool \<Rightarrow> bytes \<Rightarrow> nat option \<Rightarrow> nat \<Rightarrow> flv_rec \<Rightarrow> flv_outcome" where
  "on_chunk ok chunk declared_len run0 r =
     (if chunk = [] then Go r
      else
        let run = run0 + length chunk
        in case flv_feed chunk (fr_parser r) [] of
             Inl e \<Rightarrow>
               if fr_sink r = [] \<and> \<not> fr_resumed r then Return e r
               else response_over declared_len run
                      (r\<lparr>fr_last_err := Some HttpProtocol,
                         fr_parser := flv_new (fs_mapped_max (fr_parser r)) 1 (fs_begin_probe (fr_parser r))\<rparr>)
           | Inr (parser, buf) \<Rightarrow>
               let r1 = r\<lparr>fr_parser := parser\<rparr>
               in if fs_replay parser then Leave (Inr Ended) r1
                  else
                    case write_parsed ok buf r1 of
                      Inl e \<Rightarrow> Return e r1
                    | Inr r2 \<Rightarrow>
                        if (case declared_len of None \<Rightarrow> False | Some t \<Rightarrow> t \<le> run)
                        then response_over declared_len run r2
                        else Go (r2\<lparr>fr_phase := Reading declared_len run\<rparr>))"

text \<open>
  Events. \<open>Loop save ok res\<close> is one passage of the top of the loop: whether the last save is old
  enough, whether the file can be flushed, what the request gave.
\<close>

datatype flv_event =
    Cancel
  | Stall
  | Loop bool bool connect_result
  | Waited
  | Chunk bool bytes
  | ReadEnd
  | ReadIdle
  | ReadFail http_error

definition loop_top :: "bool \<Rightarrow> bool \<Rightarrow> connect_result \<Rightarrow> flv_rec \<Rightarrow> flv_outcome" where
  "loop_top save ok res r =
     (if fr_dirty r \<and> save \<and> \<not> ok then Return HttpIo r
      else
        let r1 = (if fr_dirty r \<and> save then r\<lparr>fr_ctrl := Some (ctrl_of r), fr_dirty := False\<rparr> else r)
        in on_connect res (r1\<lparr>fr_parser := begin_segment (fr_parser r1), fr_pending := []\<rparr>))"

definition flv_step :: "flv_event \<Rightarrow> flv_rec \<Rightarrow> flv_outcome option" where
  "flv_step e r =
     (case (fr_phase r, e) of
        (Top, Cancel) \<Rightarrow> Some (Leave (Inr Cancelled) r)
      | (Top, Stall) \<Rightarrow> Some (Leave (Inr Stalled) r)
      | (Top, Loop save ok res) \<Rightarrow> Some (loop_top save ok res r)
      | (Backoff, Waited) \<Rightarrow> Some (Go (r\<lparr>fr_phase := Top\<rparr>))
      | (Backoff, Cancel) \<Rightarrow> Some (Return HttpCancelled r)
      | (GoneWait, Waited) \<Rightarrow> Some (Go (r\<lparr>fr_phase := Top\<rparr>))
      | (GoneWait, Cancel) \<Rightarrow> Some (Leave (Inr Cancelled) r)
      | (Reading declared run, Cancel) \<Rightarrow> Some (Leave (Inr Cancelled) r)
      | (Reading declared run, Chunk ok c) \<Rightarrow> Some (on_chunk ok c declared run r)
      | (Reading declared run, ReadEnd) \<Rightarrow> Some (response_over declared run r)
      | (Reading declared run, ReadIdle) \<Rightarrow> Some (response_over declared run (r\<lparr>fr_last_err := Some HttpTimeout\<rparr>))
      | (Reading declared run, ReadFail err) \<Rightarrow>
          Some (if \<not> is_retryable err then Leave (Inl err) r
                else response_over declared run (r\<lparr>fr_last_err := Some err\<rparr>))
      | _ \<Rightarrow> None)"

text \<open>The wind-up after the loop: the result and the state left behind; \<open>flushed\<close> tells whether the flush succeeded.\<close>

definition wind_up :: "bool \<Rightarrow> http_error + flv_exit \<Rightarrow> flv_rec \<Rightarrow> (http_error + nat \<times> nat) \<times> flv_rec" where
  "wind_up flushed outcome r =
     (let keep = r\<lparr>fr_ctrl := Some (ctrl_of r)\<rparr>
      in case outcome of
           Inl e \<Rightarrow> (Inl e, if flushed then keep else r)
         | Inr Cancelled \<Rightarrow> (Inl (if flushed then HttpCancelled else HttpIo), keep)
         | Inr _ \<Rightarrow>
             if \<not> flushed then (Inl HttpIo, keep)
             else if fr_sink r = [] then (Inl (case fr_last_err r of None \<Rightarrow> HttpProtocol | Some e \<Rightarrow> e), r)
             else (Inr (length (fr_sink r), fs_mapped_max (fr_parser r)), r\<lparr>fr_ctrl := None\<rparr>))"

end
