(* ===== verification/Flv_Record_Claims.thy ===== *)
theory Flv_Record_Claims
  imports Flv_Record "HOL-Library.Code_Target_Nat"
begin

text \<open>
  The product of an FLV recording stays a sequence of whole tags through every connection, error, crash
  and resume; two ways in which the recording loses data.
\<close>

section \<open>Any bytes are cut into tags\<close>

lemma bytes_of_be24:
  fixes a b c :: byte
  defines "w \<equiv> push_bit 16 (ucast a) OR push_bit 8 (ucast b) OR ucast c :: u64"
  shows "unat w < 2 ^ 24" "ucast (drop_bit 16 w) = a" "ucast (drop_bit 8 w) = b" "ucast w = c"
proof -
  have "take_bit 24 w = w" unfolding w_def
    by (rule bit_word_eqI) (auto simp: bit_simps dest: bit_imp_le_length)
  then show "unat w < 2 ^ 24" by (metis take_bit_nat_less_exp unsigned_take_bit_eq)
  show "ucast (drop_bit 16 w) = a" "ucast (drop_bit 8 w) = b" "ucast w = c"
    unfolding w_def by (rule bit_word_eqI; auto simp: bit_simps dest: bit_imp_le_length)+
qed

lemma bytes_of_ts:
  fixes a b c d :: byte
  defines "w \<equiv> push_bit 16 (ucast a) OR push_bit 8 (ucast b) OR ucast c OR push_bit 24 (ucast d) :: u32"
  shows "ucast (drop_bit 16 w) = a" "ucast (drop_bit 8 w) = b" "ucast w = c" "ucast (drop_bit 24 w) = d"
  unfolding w_def by (rule bit_word_eqI; auto simp: bit_simps dest: bit_imp_le_length)+

lemma bytes_are_tag:
  assumes "length w = 15 + tag_size w"
  obtains t where "tag_ok t" "w = tag_wire t"
proof -
  define n where "n = tag_size w"
  define t where "t = \<lparr>t_type = w ! 0, t_ts = tag_ts w, t_stream = take 3 (drop 8 w), t_data = take n (drop 11 w),
    t_prev = drop (11 + n) w\<rparr>"
  let ?s = "push_bit 16 (ucast (w ! 1)) OR push_bit 8 (ucast (w ! 2)) OR ucast (w ! 3) :: u64"
  note be = bytes_of_be24 [of "w ! 1" "w ! 2" "w ! 3"]
  have n: "unat ?s = n" by (simp add: n_def tag_size_def)
  have len: "length w = 15 + n" using assms by (simp add: n_def)
  then have ok: "tag_ok t" using be(1) n by (simp add: tag_ok_def t_def)
  have ld: "(of_nat (length (t_data t)) :: u64) = ?s" using len n by (simp add: t_def flip: n)
  have "w = take 8 w @ drop 8 w" by simp
  also have "take 8 w = [w ! 0, w ! 1, w ! 2, w ! 3, w ! 4, w ! 5, w ! 6, w ! 7]"
    using len by (intro nth_equalityI) (auto simp: less_Suc_eq numeral_eq_Suc)
  also have "drop 8 w = t_stream t @ t_data t @ t_prev t"
  proof -
    have "take n (drop 11 w) @ drop (11 + n) w = drop 11 w"
      using append_take_drop_id [of n "drop 11 w"] by (simp add: add.commute)
    moreover have "take 3 (drop 8 w) @ drop 11 w = drop 8 w"
      using append_take_drop_id [of 3 "drop 8 w"] by simp
    ultimately show ?thesis by (simp add: t_def)
  qed
  finally have "w = tag_wire t"
    unfolding tag_wire_def ld be using bytes_of_ts [of "w ! 4" "w ! 5" "w ! 6" "w ! 7"]
    by (simp add: t_def tag_ts_def)
  with ok that show thesis by blast
qed

text \<open>A product, or a part of one: at most one header, then whole tags.\<close>

definition whole_tags :: "bytes \<Rightarrow> bool" where
  "whole_tags x \<longleftrightarrow> (\<exists>ts. list_all tag_ok ts \<and> x = concat (map tag_wire ts))"

definition whole :: "bytes \<Rightarrow> bool" where
  "whole x \<longleftrightarrow> (\<exists>h y. (h = [] \<or> flv_header h) \<and> whole_tags y \<and> x = h @ y)"

lemma whole_tags_append: "whole_tags x \<Longrightarrow> whole_tags y \<Longrightarrow> whole_tags (x @ y)"
  unfolding whole_tags_def by (metis concat_append list_all_append map_append)

lemma whole_append: "whole x \<Longrightarrow> whole_tags y \<Longrightarrow> whole (x @ y)"
  unfolding whole_def using whole_tags_append by (metis append.assoc)

lemma whole_Nil [simp]: "whole []" "whole_tags []"
  by (auto simp: whole_def whole_tags_def intro: exI [of _ "[]"])

lemma one_tag_out:
  assumes "length w = 15 + tag_size w"
  shows "whole_tags (fs_buf (one_tag w fs))"
proof -
  obtain t where t: "tag_ok t" "w = tag_wire t" using bytes_are_tag [OF assms] .
  then obtain m where "fs_buf (one_tag w fs) = tag_wire (t\<lparr>t_ts := m\<rparr>)" using one_tag_wire [OF t(1), of fs] by blast
  moreover have "tag_ok (t\<lparr>t_ts := m\<rparr>)" using t(1) by (simp add: tag_ok_def)
  ultimately show ?thesis unfolding whole_tags_def by (intro exI [of _ "[t\<lparr>t_ts := m\<rparr>]"]) simp
qed

lemma flv_run_unstarted:
  fixes fs :: flv_stream
  defines "off \<equiv> unat (u32_from_be (fs_buf fs ! 5) (fs_buf fs ! 6) (fs_buf fs ! 7) (fs_buf fs ! 8))"
  assumes "\<not> fs_started fs"
  obtains (stay) "flv_run fs out = Inr (fs, out)"
    | (err) "flv_run fs out = Inl NotFlv"
    | (go) "\<not> length (fs_buf fs) < 9" "take 3 (fs_buf fs) = [0x46, 0x4C, 0x56]" "9 \<le> off" "off \<le> 4096"
        "off + 4 \<le> length (fs_buf fs)"
proof -
  consider "length (fs_buf fs) < 9" | "take 3 (fs_buf fs) \<noteq> [0x46, 0x4C, 0x56] \<or> \<not> (9 \<le> off \<and> off \<le> 4096)" "\<not> length (fs_buf fs) < 9"
    | "take 3 (fs_buf fs) = [0x46, 0x4C, 0x56]" "9 \<le> off \<and> off \<le> 4096" "length (fs_buf fs) < off + 4"
    | "\<not> length (fs_buf fs) < 9" "take 3 (fs_buf fs) = [0x46, 0x4C, 0x56]" "9 \<le> off \<and> off \<le> 4096" "off + 4 \<le> length (fs_buf fs)"
    by linarith
  then show thesis
  proof cases
    case 1
    with assms(2) have "flv_run fs out = Inr (fs, out)" by (subst flv_run.simps) simp
    with stay show thesis .
  next
    case 2
    with assms(2) have "flv_run fs out = Inl NotFlv" by (subst flv_run.simps) (auto simp: Let_def off_def)
    with err show thesis .
  next
    case 3
    with assms(2) have "flv_run fs out = Inr (fs, out)" by (subst flv_run.simps) (auto simp: Let_def off_def)
    with stay show thesis .
  next
    case 4
    with go show thesis by blast
  qed
qed

lemma run_out:
  assumes "flv_run fs out = Inr (fs', out')" "fs_started fs \<Longrightarrow> fs_header_written fs"
  shows "(fs_started fs' \<longrightarrow> fs_header_written fs') \<and>
    (\<exists>y. if fs_header_written fs then fs_header_written fs' \<and> out' = out @ y \<and> whole_tags y
         else if fs_header_written fs' then out' = out @ y \<and> whole y else out' = out)"
  using assms
proof (induction fs out rule: flv_run.induct)
  case (1 fs out)
  let ?b = "fs_buf fs"
  show ?case
  proof (cases "fs_started fs")
    case False
    let ?off = "unat (u32_from_be (?b ! 5) (?b ! 6) (?b ! 7) (?b ! 8))"
    show ?thesis
    proof (rule flv_run_unstarted [OF False, of out], goal_cases stay err go)
      case stay
      with "1.prems"(1) False show ?thesis by (auto intro: exI [of _ "[]"])
    next
      case err
      with "1.prems" show ?thesis by simp
    next
      case go
      let ?fs = "fs\<lparr>fs_header_written := True, fs_started := True, fs_buf := drop (?off + 4) ?b\<rparr>"
      let ?out = "if fs_header_written fs then out else out @ take (?off + 4) ?b"
      have "flv_run fs out = flv_run ?fs ?out"
        using False go by (subst flv_run.simps) (simp add: Let_def)
      then have "flv_run ?fs ?out = Inr (fs', out')" using "1.prems" by simp
      with "1.IH"(1) [OF refl False go(1) _ refl] go obtain y where
        y: "fs_started fs' \<longrightarrow> fs_header_written fs'" "fs_header_written fs'" "out' = ?out @ y" "whole_tags y" by auto
      have "flv_header (take (?off + 4) ?b)" using go by (simp add: flv_header_def min_def)
      with y(4) have "whole (take (?off + 4) ?b @ y)" unfolding whole_def by blast
      with y show ?thesis by (cases "fs_header_written fs") auto
    qed
  next
    case True
    let ?n = "15 + tag_size ?b"
    show ?thesis
    proof (cases "11 \<le> length ?b \<and> ?n \<le> length ?b")
      case False
      with True have "flv_run fs out = Inr (fs, out)" by (subst flv_run.simps) (auto simp: Let_def)
      with "1.prems" show ?thesis by (auto intro: exI [of _ "[]"])
    next
      case yes: True
      let ?w = "take ?n ?b"
      let ?fs = "(one_tag ?w fs)\<lparr>fs_buf := drop ?n ?b\<rparr>"
      have "flv_run fs out = flv_run ?fs (out @ fs_buf (one_tag ?w fs))"
        using True yes by (subst flv_run.simps) (simp add: Let_def)
      then have r: "flv_run ?fs (out @ fs_buf (one_tag ?w fs)) = Inr (fs', out')" using "1.prems" by simp
      have hw: "fs_header_written fs" using True "1.prems"(2) by simp
      have "length ?w = 15 + tag_size ?w" using yes by (simp add: tag_size_take)
      then have t: "whole_tags (fs_buf (one_tag ?w fs))" by (rule one_tag_out)
      from "1.IH"(2) [OF refl _ _ refl _ refl] True yes r hw obtain y where
        "fs_started fs' \<longrightarrow> fs_header_written fs'" "fs_header_written fs'"
        "out' = (out @ fs_buf (one_tag ?w fs)) @ y" "whole_tags y" by auto
      then show ?thesis using hw whole_tags_append [OF t] by auto
    qed
  qed
qed

section \<open>The product\<close>

text \<open>What holds of a recording: the parser's flags, the product, and what the control file claims of it.\<close>

definition rec_ok :: "flv_rec \<Rightarrow> bool" where
  "rec_ok r \<longleftrightarrow> (fs_started (fr_parser r) \<longrightarrow> fs_header_written (fr_parser r)) \<and>
     (\<not> fs_header_written (fr_parser r) \<longrightarrow> fr_sink r = [] \<and> fr_pending r = []) \<and>
     whole (fr_sink r) \<and> whole (fr_sink r @ fr_pending r) \<and>
     (\<forall>c. fr_ctrl r = Some c \<longrightarrow> fc_bytes c \<le> length (fr_sink r) \<and> whole (take (fc_bytes c) (fr_sink r)))"

definition product :: "flv_rec \<Rightarrow> bool \<times> bool \<times> bytes \<times> bytes \<times> flv_ctrl option" where
  "product r = (fs_started (fr_parser r), fs_header_written (fr_parser r), fr_sink r, fr_pending r, fr_ctrl r)"

lemma rec_ok_product: "rec_ok r \<Longrightarrow> product r' = product r \<Longrightarrow> rec_ok r'"
  by (simp add: rec_ok_def product_def)

lemma product_upd [simp]:
  "product (r\<lparr>fr_attempt := n\<rparr>) = product r" "product (r\<lparr>fr_phase := ph\<rparr>) = product r"
  "product (r\<lparr>fr_last_err := e\<rparr>) = product r" "product (r\<lparr>fr_gone := n\<rparr>) = product r"
  "product (r\<lparr>fr_empty := n\<rparr>) = product r" "product (r\<lparr>fr_dirty := d\<rparr>) = product r"
  by (simp_all add: product_def)

fun result_of :: "flv_outcome \<Rightarrow> flv_rec" where
  "result_of (Go r) = r"
| "result_of (Return e r) = r"
| "result_of (Leave x r) = r"

lemma product_connect: "product (result_of (on_connect res r)) = product r"
  by (cases res) (simp_all add: on_connect_def back_off_def Let_def)

lemma product_over: "product (result_of (response_over d n r)) = product r"
  by (simp add: response_over_def Let_def)

lemma write_parsed_ok:
  assumes "rec_ok r" "write_parsed ok buf (r\<lparr>fr_parser := p\<rparr>) = Inr r'"
    and "fs_started p \<longrightarrow> fs_header_written p"
    and "if fs_header_written (fr_parser r) then fs_header_written p \<and> whole_tags buf
         else if fs_header_written p then whole buf else buf = []"
  shows "rec_ok r'"
proof (cases "buf = []")
  case True
  with assms(2) have "r' = r\<lparr>fr_parser := p\<rparr>" by (simp add: write_parsed_def)
  with assms True show ?thesis by (auto simp: rec_ok_def split: if_splits)
next
  case False
  have hw: "fs_header_written p" using assms(4) False by (auto split: if_splits)
  have w: "whole ((fr_sink r @ fr_pending r) @ buf)"
  proof (cases "fs_header_written (fr_parser r)")
    case True
    with assms(4) have "whole_tags buf" by simp
    from assms(1) have "whole (fr_sink r @ fr_pending r)" by (simp add: rec_ok_def)
    from whole_append [OF this \<open>whole_tags buf\<close>] show ?thesis .
  next
    case False
    with assms(1,4) hw show ?thesis by (simp add: rec_ok_def)
  qed
  have ctrl: "fc_bytes c \<le> length (fr_sink r @ x) \<and> whole (take (fc_bytes c) (fr_sink r @ x))" if "fr_ctrl r = Some c" for c x
    using assms(1) that by (auto simp: rec_ok_def)
  show ?thesis
    using assms(2) w hw ctrl assms(1) False
    by (auto simp: write_parsed_def rec_ok_def split: if_splits)
qed

lemma on_chunk_ok:
  assumes "rec_ok r"
  shows "rec_ok (result_of (on_chunk ok chunk d run0 r))"
proof (cases "chunk = []")
  case True
  with assms show ?thesis by (simp add: on_chunk_def)
next
  case ne: False
  show ?thesis
  proof (cases "flv_feed chunk (fr_parser r) []")
    case (Inl e)
    let ?r = "r\<lparr>fr_last_err := Some HttpProtocol, fr_parser := flv_new (fs_mapped_max (fr_parser r)) 1 (fs_begin_probe (fr_parser r))\<rparr>"
    have "rec_ok ?r" using assms by (simp add: rec_ok_def flv_new_def)
    then have "rec_ok (result_of (response_over d (run0 + length chunk) ?r))"
      using rec_ok_product product_over by blast
    with Inl ne assms show ?thesis by (simp add: on_chunk_def Let_def)
  next
    case (Inr pb)
    obtain p buf where pb: "pb = (p, buf)" by force
    have run: "flv_run ((fr_parser r)\<lparr>fs_buf := fs_buf (fr_parser r) @ chunk\<rparr>) [] = Inr (p, buf)"
      using Inr pb by (simp add: flv_feed_run)
    have st: "fs_started (fr_parser r) \<longrightarrow> fs_header_written (fr_parser r)" using assms by (simp add: rec_ok_def)
    from run_out [OF run] st have p: "fs_started p \<longrightarrow> fs_header_written p"
      "if fs_header_written (fr_parser r) then fs_header_written p \<and> whole_tags buf
       else if fs_header_written p then whole buf else buf = []"
      by (auto split: if_splits)
    let ?r1 = "r\<lparr>fr_parser := p\<rparr>"
    have 1: "rec_ok ?r1" using assms p by (auto simp: rec_ok_def split: if_splits)
    have 2: "rec_ok r2" if "write_parsed ok buf ?r1 = Inr r2" for r2
      by (rule write_parsed_ok [OF assms that p])
    have o: "rec_ok (result_of (response_over d n r2))" if "rec_ok r2" for n r2
      using rec_ok_product [OF that] product_over by blast
    have g: "rec_ok (r2\<lparr>fr_phase := ph\<rparr>)" if "rec_ok r2" for r2 ph
      by (rule rec_ok_product [OF that]) simp
    show ?thesis
      using Inr pb ne 1 2 o g by (simp add: on_chunk_def Let_def split: sum.splits option.splits)
  qed
qed


lemma rec_ok_save: "rec_ok r \<Longrightarrow> rec_ok (r\<lparr>fr_ctrl := Some (ctrl_of r)\<rparr>)"
  by (simp add: rec_ok_def ctrl_of_def)

lemma rec_ok_begin: "rec_ok r \<Longrightarrow> rec_ok (r\<lparr>fr_parser := begin_segment (fr_parser r), fr_pending := []\<rparr>)"
  by (simp add: rec_ok_def begin_segment_def)

lemma loop_top_ok:
  assumes "rec_ok r"
  shows "rec_ok (result_of (loop_top save ok res r))"
proof -
  have "rec_ok (r\<lparr>fr_ctrl := Some (ctrl_of r), fr_dirty := False\<rparr>)"
    by (rule rec_ok_product [OF rec_ok_save [OF assms]]) simp
  note saved = rec_ok_begin [OF this] and kept = rec_ok_begin [OF assms]
  have c: "rec_ok (result_of (on_connect res r'))" if "rec_ok r'" for r'
    by (rule rec_ok_product [OF that]) (rule product_connect)
  show ?thesis
    using c [OF saved] c [OF kept] assms by (simp add: loop_top_def Let_def)
qed

lemma step_ok:
  assumes "rec_ok r" "flv_step e r = Some x"
  shows "rec_ok (result_of x)"
proof -
  have same: "rec_ok r'" if "product r' = product r" for r' by (rule rec_ok_product [OF assms(1) that])
  have over: "rec_ok (result_of (response_over d n (r\<lparr>fr_last_err := le\<rparr>)))" "rec_ok (result_of (response_over d n r))" for d n le
    by (simp_all add: same product_over)
  show ?thesis
    using assms(2) on_chunk_ok [OF assms(1)] loop_top_ok [OF assms(1)] assms(1) over
    by (auto simp: flv_step_def same split: flv_phase.splits flv_event.splits)
qed

lemma wind_up_ok: "rec_ok r \<Longrightarrow> rec_ok (snd (wind_up flushed x r))"
  using rec_ok_save [of r] by (auto simp: wind_up_def Let_def rec_ok_def split: sum.splits flv_exit.splits)

lemma start_ok:
  assumes "\<forall>c. ctrl = Some c \<longrightarrow> fc_bytes c \<le> length disk \<and> whole (take (fc_bytes c) disk)"
  shows "rec_ok (flv_start ctrl True disk)"
  using assms by (cases ctrl) (auto simp: flv_start_def usable_resume_def rec_ok_def flv_new_def Let_def min_def)

text \<open>
  Recordings: a new one, any step of the loop, and a restart after a crash, after the function returned
  at once, or after the wind-up, on a disk that still holds what the control file claims.
\<close>

definition keeps :: "flv_rec \<Rightarrow> bytes \<Rightarrow> bool" where
  "keeps r disk \<longleftrightarrow> (case fr_ctrl r of None \<Rightarrow> True | Some c \<Rightarrow> take (fc_bytes c) disk = take (fc_bytes c) (fr_sink r))"

inductive flv_reach :: "flv_rec \<Rightarrow> bool" where
  fresh: "flv_reach (flv_start None True disk)"
| step: "flv_reach r \<Longrightarrow> flv_step e r = Some (Go r') \<Longrightarrow> flv_reach r'"
| crash: "flv_reach r \<Longrightarrow> keeps r disk \<Longrightarrow> flv_reach (flv_start (fr_ctrl r) True disk)"
| returned: "flv_reach r \<Longrightarrow> flv_step e r = Some (Return err r') \<Longrightarrow> keeps r' disk \<Longrightarrow>
    flv_reach (flv_start (fr_ctrl r') True disk)"
| left: "flv_reach r \<Longrightarrow> flv_step e r = Some (Leave x r') \<Longrightarrow> keeps (snd (wind_up flushed x r')) disk \<Longrightarrow>
    flv_reach (flv_start (fr_ctrl (snd (wind_up flushed x r'))) True disk)"

lemma keeps_ok:
  assumes "rec_ok r" "keeps r disk"
  shows "rec_ok (flv_start (fr_ctrl r) True disk)"
proof (rule start_ok, intro allI impI)
  fix c assume c: "fr_ctrl r = Some c"
  with assms have t: "take (fc_bytes c) disk = take (fc_bytes c) (fr_sink r)" "fc_bytes c \<le> length (fr_sink r)"
    "whole (take (fc_bytes c) (fr_sink r))" by (auto simp: keeps_def rec_ok_def)
  have "length (take (fc_bytes c) disk) = fc_bytes c" unfolding t(1) using t(2) by simp
  then have "fc_bytes c \<le> length disk" by simp
  then show "fc_bytes c \<le> length disk \<and> whole (take (fc_bytes c) disk)" using t by simp
qed

lemma flv_reach_ok: "flv_reach r \<Longrightarrow> rec_ok r"
proof (induction rule: flv_reach.induct)
  case (fresh disk)
  show ?case by (rule start_ok) simp
next
  case (step r e r')
  then show ?case using step_ok by fastforce
next
  case (crash r disk)
  then show ?case by (intro keeps_ok)
next
  case (returned r e err r' disk)
  then show ?case using step_ok by (intro keeps_ok) fastforce+
next
  case (left r e x r' flushed disk)
  then show ?case using step_ok by (intro keeps_ok wind_up_ok) fastforce+
qed


section \<open>Two ways to lose data\<close>

fun flv_go :: "flv_event list \<Rightarrow> flv_rec \<Rightarrow> flv_rec option" where
  "flv_go [] r = Some r"
| "flv_go (e # es) r = (case flv_step e r of Some (Go r') \<Rightarrow> flv_go es r' | _ \<Rightarrow> None)"

lemma flv_go_reach: "flv_reach r \<Longrightarrow> flv_go es r = Some r' \<Longrightarrow> flv_reach r'"
  by (induction es r rule: flv_go.induct) (auto split: option.splits flv_outcome.splits intro: flv_reach.step)

text \<open>A header, a script tag and a video tag at 1000 ms, as bytes.\<close>

definition demo_header :: bytes where "demo_header = [0x46, 0x4C, 0x56, 1, 5, 0, 0, 0, 9, 0, 0, 0, 0]"
definition demo_script :: bytes where "demo_script = [18, 0, 0, 1, 0, 0, 0, 0, 0, 0, 0, 7, 0, 0, 0, 12]"
definition demo_video :: bytes where "demo_video = [9, 0, 0, 1, 0, 3, 0xE8, 0, 0, 0, 0, 7, 0, 0, 0, 12]"
definition demo_video0 :: bytes where "demo_video0 = [9, 0, 0, 1, 0, 0, 0, 0, 0, 0, 0, 7, 0, 0, 0, 12]"

definition demo_get :: flv_event where "demo_get = Loop True True (Response 200 None)"

text \<open>
  A recording can lose its file header. The header counts as written once it was parsed, but it is
  held back until the first media tag; when the first connection ends before that tag, what is held
  back is dropped, the next connection does not write a header again, and the product begins with a
  tag.
\<close>

theorem flv_header_lost:
  "map_option fr_sink (flv_go [demo_get, Chunk True demo_header, Chunk True demo_script, ReadEnd, Waited,
     demo_get, Chunk True demo_header, Chunk True demo_video] (flv_start None True [])) = Some demo_video0"
  by code_simp

text \<open>Pausing while a connection is read keeps the whole product.\<close>

lemma pause_keeps:
  assumes "fr_phase r = Reading d n"
  shows "flv_step Cancel r = Some (Leave (Inr Cancelled) r)"
    "fr_sink (flv_start (fr_ctrl (snd (wind_up True (Inr Cancelled) r))) True (fr_sink r)) = fr_sink r"
  using assms by (simp_all add: flv_step_def wind_up_def flv_start_def usable_resume_def ctrl_of_def Let_def)

text \<open>
  Pausing between two connections loses the recording. The control file is only written at the top
  of the loop, which is not reached during a connection; a pause during the wait after it returns at
  once, without the wind-up that would save it: everything the first connection recorded is truncated
  away when the recording is resumed.
\<close>

theorem flv_pause_in_backoff:
  "\<exists>r. flv_reach r \<and> fr_sink r = demo_header @ demo_video0 \<and> flv_step Cancel r = Some (Return HttpCancelled r) \<and>
    fr_sink (flv_start (fr_ctrl r) True (fr_sink r)) = []"
proof -
  let ?es = "[demo_get, Chunk True (demo_header @ demo_video), ReadEnd]"
  have "map_option (\<lambda>r. (fr_sink r, fr_phase r, fr_ctrl r)) (flv_go ?es (flv_start None True [])) =
      Some (demo_header @ demo_video0, Backoff, None)" by code_simp
  then obtain r where r: "flv_go ?es (flv_start None True []) = Some r" "fr_sink r = demo_header @ demo_video0"
    "fr_phase r = Backoff" "fr_ctrl r = None" unfolding map_option_eq_Some by blast
  have "flv_reach r" by (rule flv_go_reach [OF flv_reach.fresh r(1)])
  with r show ?thesis
    by (intro exI [of _ r]) (simp add: flv_step_def flv_start_def usable_resume_def Let_def)
qed

section \<open>Witnesses\<close>

definition demo_tag :: "nat \<Rightarrow> flv_tag" where
  "demo_tag ms = \<lparr>t_type = 9, t_ts = of_nat ms, t_stream = [0, 0, 0], t_data = [7], t_prev = [0, 0, 0, 12]\<rparr>"

lemma demo_tag_ok: "tag_ok (demo_tag n)" "is_media (t_type (demo_tag n))" "flv_header demo_header" "incomplete []"
proof -
  show "flv_header demo_header" by code_simp
qed (simp_all add: tag_ok_def demo_tag_def is_media_def incomplete_def)

theorem flv_stream_refines_witness:
  "\<exists>fs'. flv_feeds [take 5 (demo_header @ tag_wire (demo_tag 1000)), drop 5 (demo_header @ tag_wire (demo_tag 1000))]
      (begin_segment (flv_new 0 0 None)) [] =
    Inr (fs', demo_header @ concat (map tag_wire (fst (retime None 0 [demo_tag 1000]))))"
proof -
  let ?w = "demo_header @ tag_wire (demo_tag 1000)"
  have c: "concat [take 5 ?w, drop 5 ?w] = demo_header @ concat (map tag_wire [demo_tag 1000]) @ []"
    by (simp only: concat.simps list.map append_Nil2 append_take_drop_id)
  have n: "fs_header_written (flv_new 0 0 None) = False" "fs_mapped_max (flv_new 0 0 None) = 0" by (simp_all add: flv_new_def)
  have "list_all tag_ok [demo_tag 1000]" using demo_tag_ok by simp
  from flv_stream_refines [OF c demo_tag_ok(3) this demo_tag_ok(4), of "flv_new 0 0 None", unfolded n if_False]
  show ?thesis by blast
qed

definition demo_connection :: "nat \<Rightarrow> nat \<Rightarrow> connection" where
  "demo_connection a b = ([demo_header, tag_wire (demo_tag a) @ tag_wire (demo_tag b)], demo_header, [], demo_tag a, [demo_tag b], [])"



end
