(* ===== verification/Hls_Types.thy ===== *)
theory Hls_Types
  imports Complex_Main Http_Error
begin

text \<open>
  The data of the HLS code, \<open>crates/xfer-http/src/playlist.rs\<close> and \<open>playlist/crypto.rs\<close>: keys,
  segments and the plan a media playlist is turned into. Text is its UTF-8 bytes. A duration is an
  exact rational number of seconds where the source has a binary64; lengths, offsets and sequence
  numbers are naturals.
\<close>

datatype key_method = KmNone | Aes128 | Aes256 | Aes128Ctr | SampleAes | SampleAesCtr

datatype key_format = KfIdentity | FairPlay | Widevine | PlayReady | KfOther bytes

record segment_key =
  sk_url :: bytes
  sk_iv :: bytes
  sk_method :: key_method
  sk_format :: key_format

record segment =
  sg_url :: bytes
  sg_range :: "(nat \<times> nat) option"
  sg_key :: "segment_key option"
  sg_len :: "nat option"
  sg_duration :: rat
  sg_seq :: nat
  sg_is_map :: bool

record playlist_plan =
  pl_source :: bytes
  pl_chain :: "bytes list"
  pl_init :: "segment option"
  pl_segments :: "segment list"
  pl_live :: bool
  pl_fmp4 :: bool
  pl_total :: "nat option"
  pl_duration_secs :: rat
  pl_bitrate :: "nat option"
  pl_separate_audio :: bool
  pl_target_duration :: rat
  pl_parts_only :: bool

definition segment_count :: "playlist_plan \<Rightarrow> nat" where
  "segment_count p = length (pl_segments p) + (if pl_init p \<noteq> None then 1 else 0)"

definition max_u64 :: nat where "max_u64 = 2 ^ 64 - 1"

end
