(* ===== verification/Hls_Live.thy ===== *)
theory Hls_Live
  imports Hls_Types
begin

text \<open>
  The recording of an HLS live stream, \<open>record_playlist\<close> and \<open>LiveState\<close> of
  \<open>crates/xfer-http/src/playlist.rs\<close>: the queue of media and initialisation segments keyed by media
  sequence number, the merge of a playlist snapshot into it, the splicing of finished segment files
  into the product, and the recording loop as a machine that is told what the network, the clock and
  the user did.

  \<open>stable_url\<close> (address without its credentials) and the decryption of a whole segment are arguments
  of the model. Times are milliseconds. The segment directory is a map from (sequence number,
  initialisation segment or not) to the content of the file of that name.
\<close>

section \<open>Names of the segment files\<close>

definition pad10 :: "bytes \<Rightarrow> bytes" where
  "pad10 ds = replicate (10 - length ds) 48 @ ds"

definition live_seg_file :: "nat \<Rightarrow> bool \<Rightarrow> bytes" where
  "live_seg_file sq is_map = pad10 (dec_bytes sq) @ (if is_map then [109] else [])"

definition parse_live_seg_name :: "bytes \<Rightarrow> (nat \<times> bool) option" where
  "parse_live_seg_name name =
     (if name \<noteq> [] \<and> last name = 109 then map_option (\<lambda>s. (s, True)) (parse_u64 (butlast name))
      else map_option (\<lambda>s. (s, False)) (parse_u64 name))"

type_synonym seg_files = "nat \<times> bool \<Rightarrow> bytes option"

definition sweep_live_seg_files :: "nat \<Rightarrow> seg_files \<Rightarrow> seg_files" where
  "sweep_live_seg_files head fs = (\<lambda>k. if fst k < head then None else fs k)"

section \<open>The queue\<close>

datatype live_item_state = Queued "nat option" | Inflight | ItemDone | ItemFailed

record live_item =
  li_seg :: segment
  li_state :: live_item_state
  li_attempts :: nat

definition li_queued :: "segment \<Rightarrow> live_item" where
  "li_queued s = \<lparr>li_seg = s, li_state = Queued None, li_attempts = 0\<rparr>"

definition is_queued :: "live_item \<Rightarrow> bool" where
  "is_queued it = (case li_state it of Queued _ \<Rightarrow> True | _ \<Rightarrow> False)"

datatype live_key = LeadingMap | MapKey nat | SegKey nat

record live_state =
  ls_head :: nat
  ls_tail :: nat
  ls_end :: bool
  ls_reload_stopped :: bool
  ls_segs :: "(nat, live_item) btree_map"
  ls_maps :: "(nat, live_item) btree_map"
  ls_leading :: "live_item option"
  ls_map_seen :: "bytes set"
  ls_written_map :: "bytes option"
  ls_spliced :: nat
  ls_skipped :: nat
  ls_last_new :: nat
  ls_last_ok :: nat
  ls_fail :: nat
  ls_gone :: nat

definition bt_remove :: "nat \<Rightarrow> (nat, 'v) btree_map \<Rightarrow> (nat, 'v) btree_map" where
  "bt_remove k m = filter (\<lambda>e. fst e \<noteq> k) m"

definition map_stable_key :: "(bytes \<Rightarrow> bytes) \<Rightarrow> segment \<Rightarrow> bytes" where
  "map_stable_key su s =
     (case sg_range s of
        Some (ofs, l) \<Rightarrow> su (sg_url s) @ [35] @ dec_bytes ofs @ [58] @ dec_bytes l
      | None \<Rightarrow> su (sg_url s))"

definition refresh :: "segment \<Rightarrow> live_item \<Rightarrow> live_item" where
  "refresh s it =
     (if is_queued it then it\<lparr>li_seg := (li_seg it)\<lparr>sg_url := sg_url s, sg_key := sg_key s\<rparr>\<rparr> else it)"

fun refresh_first :: "(segment \<Rightarrow> bool) \<Rightarrow> segment \<Rightarrow> (nat, live_item) btree_map \<Rightarrow> (nat, live_item) btree_map" where
  "refresh_first same s [] = []"
| "refresh_first same s ((k, it) # m) =
     (if same (li_seg it) then (k, refresh s it) # m else (k, it) # refresh_first same s m)"

definition live_consider_map ::
  "(bytes \<Rightarrow> bytes) \<Rightarrow> segment \<Rightarrow> nat option \<Rightarrow> live_state \<times> nat \<Rightarrow> live_state \<times> nat" where
  "live_consider_map su s seq_bound sa =
     (case sa of (st, added) \<Rightarrow>
        let sk = map_stable_key su s;
            same = (\<lambda>s'. map_stable_key su s' = sk)
        in if sk \<in> ls_map_seen st then
             (case ls_leading st of
                Some m \<Rightarrow>
                  if same (li_seg m) then (st\<lparr>ls_leading := Some (refresh s m)\<rparr>, added)
                  else (st\<lparr>ls_maps := refresh_first same s (ls_maps st)\<rparr>, added)
              | None \<Rightarrow> (st\<lparr>ls_maps := refresh_first same s (ls_maps st)\<rparr>, added))
           else
             let st1 = st\<lparr>ls_map_seen := insert sk (ls_map_seen st)\<rparr>
             in case seq_bound of
                  Some sq \<Rightarrow>
                    if ls_head st < sq
                    then (st1\<lparr>ls_maps := bt_insert sq (li_queued (s\<lparr>sg_seq := sq, sg_is_map := True\<rparr>)) (ls_maps st)\<rparr>,
                          added + 1)
                    else (st1\<lparr>ls_leading := (case ls_leading st of
                                               None \<Rightarrow> Some (li_queued (s\<lparr>sg_is_map := True\<rparr>))
                                             | Some m \<Rightarrow> Some m)\<rparr>, added + 1)
                | None \<Rightarrow>
                    (st1\<lparr>ls_leading := (case ls_leading st of
                                          None \<Rightarrow> Some (li_queued (s\<lparr>sg_is_map := True\<rparr>))
                                        | Some m \<Rightarrow> Some m)\<rparr>, added + 1))"

section \<open>Merging a snapshot\<close>

definition is_stale :: "nat \<Rightarrow> nat \<Rightarrow> nat \<times> live_item \<Rightarrow> bool" where
  "is_stale head win_start e \<longleftrightarrow>
     head \<le> fst e \<and> fst e < win_start \<and> (is_queued (snd e) \<or> li_state (snd e) = ItemFailed)"

text \<open>The cursor over numbers with nothing to splice or to wait for: cursor, pending maps, count.\<close>

function skip_gap ::
  "nat \<Rightarrow> (nat, live_item) btree_map \<Rightarrow> nat \<Rightarrow> (nat, live_item) btree_map \<Rightarrow> nat
   \<Rightarrow> nat \<times> (nat, live_item) btree_map \<times> nat" where
  "skip_gap win_start segs head maps advanced =
     (if head < win_start \<and> map_of segs head = None
      then skip_gap win_start segs (head + 1) (bt_remove head maps) (advanced + 1)
      else (head, maps, advanced))"
  by pat_completeness auto
termination by (relation "measure (\<lambda>(w, s, h, m, a). w - h)") auto

declare skip_gap.simps [simp del]

definition slide_window :: "nat \<Rightarrow> live_state \<Rightarrow> seg_files \<Rightarrow> live_state \<times> seg_files" where
  "slide_window win_start st fs =
     (if ls_head st < win_start then
        let stale = map fst (filter (is_stale (ls_head st) win_start) (ls_segs st));
            segs = filter (\<lambda>e. fst e \<notin> set stale) (ls_segs st);
            (head, maps, advanced) = skip_gap win_start segs (ls_head st) (ls_maps st) (length stale)
        in (st\<lparr>ls_segs := segs, ls_head := head, ls_maps := maps, ls_skipped := ls_skipped st + advanced\<rparr>,
            \<lambda>k. if \<not> snd k \<and> fst k \<in> set stale then None else fs k)
      else (st, fs))"

definition take_seg :: "(bytes \<Rightarrow> bytes) \<Rightarrow> segment \<Rightarrow> live_state \<times> nat \<Rightarrow> live_state \<times> nat" where
  "take_seg su s sa =
     (case sa of (st, added) \<Rightarrow>
        if sg_is_map s \<or> sg_seq s < ls_head st then (st, added)
        else case map_of (ls_segs st) (sg_seq s) of
               Some it \<Rightarrow>
                 (case li_state it of
                    Queued _ \<Rightarrow> (st\<lparr>ls_segs := bt_insert (sg_seq s) (it\<lparr>li_seg := s\<rparr>) (ls_segs st)\<rparr>, added)
                  | ItemFailed \<Rightarrow>
                      if su (sg_url (li_seg it)) \<noteq> su (sg_url s)
                      then (st\<lparr>ls_segs := bt_insert (sg_seq s) (li_queued s) (ls_segs st)\<rparr>, added)
                      else (st, added)
                  | _ \<Rightarrow> (st, added))
             | None \<Rightarrow> (st\<lparr>ls_segs := bt_insert (sg_seq s) (li_queued s) (ls_segs st)\<rparr>, added + 1))"

definition apply_plan ::
  "(bytes \<Rightarrow> bytes) \<Rightarrow> nat \<Rightarrow> playlist_plan \<Rightarrow> live_state \<Rightarrow> seg_files \<Rightarrow> live_state \<times> seg_files \<times> nat" where
  "apply_plan su now p st fs =
     (case pl_segments p of
        [] \<Rightarrow> (st, fs, 0)
      | first # _ \<Rightarrow>
          let st0 = st\<lparr>ls_tail := max (ls_tail st) (sg_seq (last (pl_segments p)))\<rparr>;
              (st1, fs1) = slide_window (sg_seq first) st0 fs;
              sa2 = (case pl_init p of None \<Rightarrow> (st1, 0) | Some i \<Rightarrow> live_consider_map su i None (st1, 0));
              sa3 = fold (\<lambda>s. live_consider_map su s (Some (sg_seq s))) (filter sg_is_map (pl_segments p)) sa2;
              (st4, added) = fold (take_seg su) (pl_segments p) sa3;
              st5 = (if pl_live p then st4 else st4\<lparr>ls_end := True, ls_reload_stopped := True\<rparr>)
          in (if 0 < added then st5\<lparr>ls_last_new := now\<rparr> else st5, fs1, added))"

section \<open>Dispatch\<close>

definition due :: "nat \<Rightarrow> live_item \<Rightarrow> bool" where
  "due now it = (case li_state it of
                   Queued None \<Rightarrow> True | Queued (Some t) \<Rightarrow> t \<le> now | _ \<Rightarrow> False)"

definition find_due :: "nat \<Rightarrow> (nat, live_item) btree_map \<Rightarrow> (nat \<times> live_item) option" where
  "find_due now m = find (\<lambda>e. due now (snd e)) m"

definition inflight :: "live_item \<Rightarrow> live_item" where
  "inflight it = it\<lparr>li_state := Inflight\<rparr>"

definition take_bound :: "nat \<Rightarrow> live_state \<Rightarrow> (live_key \<times> segment \<times> live_state) option" where
  "take_bound now st =
     (case find_due now (ls_maps st) of
        Some (sq, m) \<Rightarrow> Some (MapKey sq, li_seg m, st\<lparr>ls_maps := bt_insert sq (inflight m) (ls_maps st)\<rparr>)
      | None \<Rightarrow>
          case find_due now (ls_segs st) of
            Some (sq, s) \<Rightarrow> Some (SegKey sq, li_seg s, st\<lparr>ls_segs := bt_insert sq (inflight s) (ls_segs st)\<rparr>)
          | None \<Rightarrow> None)"

definition take_for_dispatch :: "nat \<Rightarrow> live_state \<Rightarrow> (live_key \<times> segment \<times> live_state) option" where
  "take_for_dispatch now st =
     (case ls_leading st of
        Some m \<Rightarrow>
          if due now m then Some (LeadingMap, li_seg m, st\<lparr>ls_leading := Some (inflight m)\<rparr>)
          else take_bound now st
      | None \<Rightarrow> take_bound now st)"

fun file_of :: "live_key \<Rightarrow> nat \<times> bool" where
  "file_of LeadingMap = (0, True)"
| "file_of (MapKey sq) = (sq, True)"
| "file_of (SegKey sq) = (sq, False)"

fun live_item_at :: "live_state \<Rightarrow> live_key \<Rightarrow> live_item option" where
  "live_item_at st LeadingMap = ls_leading st"
| "live_item_at st (MapKey sq) = map_of (ls_maps st) sq"
| "live_item_at st (SegKey sq) = map_of (ls_segs st) sq"

text \<open>Writing through the reference \<open>live_item_mut\<close> gives; nothing happens when there is no such item.\<close>

fun live_item_set :: "live_key \<Rightarrow> live_item \<Rightarrow> live_state \<Rightarrow> live_state" where
  "live_item_set LeadingMap it st = (if ls_leading st = None then st else st\<lparr>ls_leading := Some it\<rparr>)"
| "live_item_set (MapKey sq) it st =
     (if map_of (ls_maps st) sq = None then st else st\<lparr>ls_maps := bt_insert sq it (ls_maps st)\<rparr>)"
| "live_item_set (SegKey sq) it st =
     (if map_of (ls_segs st) sq = None then st else st\<lparr>ls_segs := bt_insert sq it (ls_segs st)\<rparr>)"

section \<open>Splicing\<close>

definition SPLICE_BUF :: nat where "SPLICE_BUF = 256 * 1024"
definition SPLICE_BATCH_BYTES :: nat where "SPLICE_BATCH_BYTES = 32 * 1024 * 1024"

text \<open>
  Copying a segment file in blocks. \<open>room\<close> is \<open>None\<close> when the product takes every block, \<open>Some n\<close> when
  writing the block after the first \<open>n\<close> fails. The second component is false on an error; the position
  of the sink has then moved over the blocks written.
\<close>

definition splice_seg :: "nat option \<Rightarrow> bytes option \<Rightarrow> bytes \<Rightarrow> bytes \<times> bool" where
  "splice_seg room content sink =
     (case content of
        None \<Rightarrow> (sink, False)
      | Some c \<Rightarrow>
          case room of
            None \<Rightarrow> (sink @ c, True)
          | Some n \<Rightarrow> if n * SPLICE_BUF < length c then (sink @ take (n * SPLICE_BUF) c, False) else (sink @ c, True))"

definition dur_ms :: "segment \<Rightarrow> nat" where
  "dur_ms s = min max_u64 (nat \<lfloor>max 0 (sg_duration s) * 1000 + 1 / 2\<rfloor>)"

datatype splice_result =
    Spliced live_key nat nat live_state seg_files bytes
  | NothingYet
  | SpliceError live_state bytes

definition item_done :: "live_item option \<Rightarrow> bool" where
  "item_done x = (case x of Some it \<Rightarrow> li_state it = ItemDone | None \<Rightarrow> False)"

definition item_failed :: "live_item option \<Rightarrow> bool" where
  "item_failed x = (case x of Some it \<Rightarrow> li_state it = ItemFailed | None \<Rightarrow> False)"

text \<open>
  The move of the file of \<open>key\<close> into the product: \<open>taken\<close> is the state without the item, \<open>st'\<close> the
  state after a success.
\<close>

definition splice_key ::
  "(live_key \<Rightarrow> nat option) \<Rightarrow> live_key \<Rightarrow> nat \<Rightarrow> live_state \<Rightarrow> live_state \<Rightarrow> seg_files \<Rightarrow> bytes \<Rightarrow> splice_result" where
  "splice_key room key ms taken st' fs sink =
     (case splice_seg (room key) (fs (file_of key)) sink of
        (sink', ok) \<Rightarrow>
          if ok then Spliced key (length sink' - length sink) ms st' (fs(file_of key := None)) sink'
          else SpliceError taken sink')"

definition splice_one ::
  "(bytes \<Rightarrow> bytes) \<Rightarrow> (live_key \<Rightarrow> nat option) \<Rightarrow> live_state \<Rightarrow> seg_files \<Rightarrow> bytes \<Rightarrow> splice_result" where
  "splice_one su room st fs sink =
     (case ls_leading st of
        Some m \<Rightarrow>
          if li_state m = ItemDone then
            let taken = st\<lparr>ls_leading := None\<rparr>
            in splice_key room LeadingMap 0 taken
                 (taken\<lparr>ls_written_map := Some (map_stable_key su (li_seg m)), ls_spliced := ls_spliced st + 1\<rparr>) fs sink
          else NothingYet
      | None \<Rightarrow>
          case map_of (ls_maps st) (ls_head st) of
            Some m \<Rightarrow>
              if li_state m = ItemDone then
                let taken = st\<lparr>ls_maps := bt_remove (ls_head st) (ls_maps st)\<rparr>
                in splice_key room (MapKey (ls_head st)) 0 taken
                     (taken\<lparr>ls_written_map := Some (map_stable_key su (li_seg m)), ls_spliced := ls_spliced st + 1\<rparr>) fs sink
              else NothingYet
          | None \<Rightarrow>
              case map_of (ls_segs st) (ls_head st) of
                Some it \<Rightarrow>
                  if li_state it = ItemDone then
                    let taken = st\<lparr>ls_segs := bt_remove (ls_head st) (ls_segs st)\<rparr>
                    in splice_key room (SegKey (ls_head st)) (dur_ms (li_seg it)) taken
                         (taken\<lparr>ls_head := ls_head st + 1, ls_spliced := ls_spliced st + 1\<rparr>) fs sink
                  else NothingYet
              | None \<Rightarrow> NothingYet)"

definition drained :: "live_state \<Rightarrow> bool" where
  "drained st \<longleftrightarrow> ls_leading st = None \<and> ls_tail st < ls_head st
     \<and> map_of (ls_segs st) (ls_head st) = None \<and> map_of (ls_maps st) (ls_head st) = None"

definition blocked_failed :: "live_state \<Rightarrow> bool" where
  "blocked_failed st \<longleftrightarrow> item_failed (ls_leading st)
     \<or> item_failed (map_of (ls_maps st) (ls_head st)) \<or> item_failed (map_of (ls_segs st) (ls_head st))"

end
