(* ===== verification/Hls_Live_Record.thy ===== *)
theory Hls_Live_Record
  imports Hls_Live
begin

text \<open>
  The recording loop \<open>record_playlist\<close> as a machine over the queue of \<open>Hls_Live\<close>: the start from nothing
  or from a control file, one passage of the loop (splice, save, dispatch, end checks, reload), the
  events it waits for, the fetching of a segment into its file, and the wind-up.

  The product is \<open>lr_sink\<close>, every byte the sink has accepted; \<open>position()\<close> is its length. The futures in
  flight are a list, and the counter of the source is its length. What the segment directory and the
  sink accept is told to each passage (\<open>live_io\<close>). \<open>lr_log\<close> is a history variable that nothing reads:
  the items spliced so far. The timeline of the finished product is shifted afterwards by
  \<open>normalize_product_timeline_logged\<close>, which is not part of this model.
\<close>

section \<open>Configuration and state\<close>

definition LIVE_SEG_MAX_ATTEMPTS :: nat where "LIVE_SEG_MAX_ATTEMPTS = 6"
definition LIVE_GONE_LIMIT :: nat where "LIVE_GONE_LIMIT = 6"
definition CTRL_SAVE_INTERVAL :: nat where "CTRL_SAVE_INTERVAL = 1000"

definition live_reload_interval :: "playlist_plan \<Rightarrow> nat" where
  "live_reload_interval p =
     (let t = (if 0 < pl_target_duration p then pl_target_duration p
               else if 0 < pl_duration_secs p \<and> pl_segments p \<noteq> []
                 then pl_duration_secs p / of_nat (length (pl_segments p))
               else 4)
      in max 500 (min 30000 (min max_u64 (nat \<lfloor>t / 2 * 1000\<rfloor>))))"

record live_cfg =
  lc_stable :: "bytes \<Rightarrow> bytes"
  lc_decrypt :: "segment_key \<Rightarrow> bytes \<Rightarrow> http_error + bytes"
  lc_conn :: nat
  lc_retries :: nat
  lc_interval :: nat
  lc_stall :: nat
  lc_source :: bytes

record live_ctrl =
  lq_url :: bytes
  lq_prefix :: nat
  lq_bytes :: nat
  lq_seq :: nat
  lq_live_ms :: nat
  lq_map :: bytes

record live_fut =
  lf_key :: live_key
  lf_seg :: segment
  lf_mem :: "bytes option"
  lf_attempt :: nat

record live_rec =
  lr_st :: live_state
  lr_files :: seg_files
  lr_sink :: bytes
  lr_futs :: "live_fut list"
  lr_next_reload :: nat
  lr_reloading :: bool
  lr_save_due :: nat
  lr_dirty :: bool
  lr_perm_err :: "http_error option"
  lr_ms :: nat
  lr_ctrl :: "live_ctrl option"
  lr_log :: "(live_key \<times> segment \<times> bytes) list"

datatype live_exit = LiveEnded | LiveStalled | LiveCancelled

datatype live_outcome = Running live_rec | Over "http_error + live_exit" live_rec

record live_io =
  io_room :: "live_key \<Rightarrow> nat option"
  io_open :: bool
  io_ctrl :: bool

section \<open>Control file\<close>

definition live_ctrl_of :: "live_cfg \<Rightarrow> live_rec \<Rightarrow> live_ctrl" where
  "live_ctrl_of c r =
     \<lparr>lq_url = lc_source c, lq_prefix = ls_spliced (lr_st r), lq_bytes = length (lr_sink r),
      lq_seq = ls_head (lr_st r), lq_live_ms = lr_ms r,
      lq_map = (case ls_written_map (lr_st r) of None \<Rightarrow> [] | Some m \<Rightarrow> m)\<rparr>"

text \<open>\<open>save_ctrl\<close> writes a temporary file and renames it: it replaces the control file or leaves it.\<close>

definition save_live_ctrl :: "live_cfg \<Rightarrow> bool \<Rightarrow> live_rec \<Rightarrow> live_rec" where
  "save_live_ctrl c ok r = (if ok then r\<lparr>lr_ctrl := Some (live_ctrl_of c r)\<rparr> else r)"

definition live_ctrl_matches :: "(bytes \<Rightarrow> bytes) \<Rightarrow> live_ctrl \<Rightarrow> playlist_plan \<Rightarrow> bool" where
  "live_ctrl_matches su q p \<longleftrightarrow> lq_url q \<noteq> [] \<and> su (lq_url q) = su (pl_source p)"

text \<open>The recording found on disk: control file and content of the product, if there is one.\<close>

definition live_resume ::
  "(bytes \<Rightarrow> bytes) \<Rightarrow> playlist_plan \<Rightarrow> live_ctrl option \<Rightarrow> bytes option \<Rightarrow> live_ctrl option" where
  "live_resume su p ctrl disk =
     (case ctrl of
        None \<Rightarrow> None
      | Some q \<Rightarrow>
          if live_ctrl_matches su q p \<and> lq_bytes q \<le> (case disk of None \<Rightarrow> 0 | Some d \<Rightarrow> length d)
          then Some q else None)"

definition live_resume_point ::
  "(bytes \<Rightarrow> bytes) \<Rightarrow> playlist_plan \<Rightarrow> live_ctrl option \<Rightarrow> bytes option \<Rightarrow> (nat \<times> nat) option" where
  "live_resume_point su p ctrl disk = map_option (\<lambda>q. (lq_bytes q, lq_live_ms q)) (live_resume su p ctrl disk)"

section \<open>Fetching a segment\<close>

text \<open>Opening the file of a queued item; an encrypted segment is collected in memory.\<close>

definition open_target :: "live_key \<Rightarrow> segment \<Rightarrow> seg_files \<Rightarrow> seg_files" where
  "open_target key s fs =
     (let existing = (case fs (file_of key) of None \<Rightarrow> 0 | Some c \<Rightarrow> length c);
          truncate = (existing = 0 \<or> \<not> (case key of SegKey _ \<Rightarrow> True | _ \<Rightarrow> False))
      in fs(file_of key := Some (if truncate then [] else the (fs (file_of key)))))"

definition find_fut :: "live_key \<Rightarrow> live_fut list \<Rightarrow> live_fut option" where
  "find_fut key futs = find (\<lambda>f. lf_key f = key) futs"

definition drop_fut :: "live_key \<Rightarrow> live_fut list \<Rightarrow> live_fut list" where
  "drop_fut key futs = filter (\<lambda>f. lf_key f \<noteq> key) futs"

definition put_fut :: "live_fut \<Rightarrow> live_fut list \<Rightarrow> live_fut list" where
  "put_fut g futs = map (\<lambda>f. if lf_key f = lf_key g then g else f) futs"

text \<open>The response ignored the \<open>Range\<close> of a continuation: the file restarts from nothing.\<close>

definition begin_file :: "bool \<Rightarrow> live_fut \<Rightarrow> seg_files \<Rightarrow> seg_files" where
  "begin_file partial f fs =
     (case lf_mem f of
        Some _ \<Rightarrow> fs
      | None \<Rightarrow>
          let existing = (case fs (file_of (lf_key f)) of None \<Rightarrow> 0 | Some c \<Rightarrow> length c)
          in if 0 < existing \<and> \<not> partial then fs(file_of (lf_key f) := Some []) else fs)"

definition data_file :: "bytes \<Rightarrow> live_fut \<Rightarrow> seg_files \<Rightarrow> seg_files" where
  "data_file bs f fs =
     (case lf_mem f of
        Some _ \<Rightarrow> fs
      | None \<Rightarrow> fs(file_of (lf_key f) := Some ((case fs (file_of (lf_key f)) of None \<Rightarrow> [] | Some c \<Rightarrow> c) @ bs)))"

definition data_futs :: "bytes \<Rightarrow> live_fut \<Rightarrow> live_fut list \<Rightarrow> live_fut list" where
  "data_futs bs f futs =
     (case lf_mem f of Some b \<Rightarrow> put_fut (f\<lparr>lf_mem := Some (b @ bs)\<rparr>) futs | None \<Rightarrow> futs)"

definition fetch_begin :: "bool \<Rightarrow> live_fut \<Rightarrow> live_rec \<Rightarrow> live_rec" where
  "fetch_begin partial f r = r\<lparr>lr_files := begin_file partial f (lr_files r)\<rparr>"

definition fetch_data :: "bytes \<Rightarrow> live_fut \<Rightarrow> live_rec \<Rightarrow> live_rec" where
  "fetch_data bs f r = r\<lparr>lr_files := data_file bs f (lr_files r), lr_futs := data_futs bs f (lr_futs r)\<rparr>"

text \<open>The end of a response: the declared length, then the decryption; the data only for a memory target.\<close>

definition fetch_result :: "live_cfg \<Rightarrow> live_fut \<Rightarrow> seg_files \<Rightarrow> http_error + (nat \<times> bytes)" where
  "fetch_result c f fs =
     (case lf_mem f of
        Some b \<Rightarrow>
          if sg_len (lf_seg f) \<noteq> None \<and> sg_len (lf_seg f) \<noteq> Some (length b) then Inl ShortRead
          else (case sg_key (lf_seg f) of
                  None \<Rightarrow> Inr (0, b)
                | Some k \<Rightarrow> (case lc_decrypt c k b of Inl e \<Rightarrow> Inl e | Inr d \<Rightarrow> Inr (0, d)))
      | None \<Rightarrow>
          let got = (case fs (file_of (lf_key f)) of None \<Rightarrow> 0 | Some d \<Rightarrow> length d)
          in if sg_len (lf_seg f) \<noteq> None \<and> sg_len (lf_seg f) \<noteq> Some got then Inl ShortRead else Inr (got, []))"

text \<open>A failed attempt inside the future: another one, or the error is its result.\<close>

definition fetch_retry :: "live_cfg \<Rightarrow> http_error \<Rightarrow> live_fut \<Rightarrow> live_fut option" where
  "fetch_retry c e f =
     (if is_retryable_segment e \<and> lf_attempt f < max 1 (lc_retries c)
      then Some (f\<lparr>lf_attempt := lf_attempt f + 1, lf_mem := map_option (\<lambda>_. []) (lf_mem f)\<rparr>) else None)"

section \<open>The loop\<close>

fun queue_len :: "live_state \<Rightarrow> nat" where
  "queue_len st = (if ls_leading st = None then 0 else 1) + length (ls_maps st) + length (ls_segs st)"

text \<open>Splicing until nothing is ready or a batch has been moved. False: an error.\<close>

fun splice_batch :: "nat \<Rightarrow> live_cfg \<Rightarrow> (live_key \<Rightarrow> nat option) \<Rightarrow> nat \<Rightarrow> live_rec \<Rightarrow> bool \<times> live_rec" where
  "splice_batch 0 c room moved r = (True, r)"
| "splice_batch (Suc fuel) c room moved r =
     (case splice_one (lc_stable c) room (lr_st r) (lr_files r) (lr_sink r) of
        NothingYet \<Rightarrow> (True, r)
      | SpliceError st sink \<Rightarrow> (False, r\<lparr>lr_st := st, lr_sink := sink\<rparr>)
      | Spliced key n ms st fs sink \<Rightarrow>
          let r' = r\<lparr>lr_st := st, lr_files := fs, lr_sink := sink, lr_ms := lr_ms r + ms, lr_dirty := True,
                      lr_log := lr_log r @ [(key, li_seg (the (live_item_at (lr_st r) key)), drop (length (lr_sink r)) sink)]\<rparr>
          in if SPLICE_BATCH_BYTES \<le> moved + n then (True, r') else splice_batch fuel c room (moved + n) r')"

text \<open>Filling the connections. False: a segment file cannot be opened.\<close>

fun dispatch :: "nat \<Rightarrow> live_cfg \<Rightarrow> bool \<Rightarrow> nat \<Rightarrow> live_rec \<Rightarrow> bool \<times> live_rec" where
  "dispatch 0 c ok now r = (True, r)"
| "dispatch (Suc fuel) c ok now r =
     (if length (lr_futs r) < lc_conn c then
        (case take_for_dispatch now (lr_st r) of
           None \<Rightarrow> (True, r)
         | Some (key, s, st) \<Rightarrow>
             let f = \<lparr>lf_key = key, lf_seg = s, lf_mem = (if sg_key s = None then None else Some []), lf_attempt = 1\<rparr>
             in if sg_key s = None \<and> \<not> ok then (False, r\<lparr>lr_st := st\<rparr>)
                else dispatch fuel c ok now
                       (r\<lparr>lr_st := st, lr_futs := lr_futs r @ [f],
                         lr_files := (if sg_key s = None then open_target key s (lr_files r) else lr_files r)\<rparr>))
      else (True, r))"

definition end_check :: "live_cfg \<Rightarrow> nat \<Rightarrow> live_rec \<Rightarrow> (http_error + live_exit) option" where
  "end_check c now r =
     (let st = lr_st r in
      if ls_end st \<and> drained st then Some (Inr LiveEnded)
      else if lr_futs r = [] \<and> blocked_failed st \<and> (ls_end st \<or> max (lc_stall c) 30000 \<le> now - ls_last_new st)
        then Some (Inl (case lr_perm_err r of None \<Rightarrow> HttpProtocol | Some e \<Rightarrow> e))
      else if \<not> ls_end st \<and> lc_stall c \<noteq> 0 \<and> drained st \<and> now - ls_last_ok st < 4 * lc_interval c
              \<and> lc_stall c \<le> now - ls_last_new st
        then Some (Inr LiveStalled)
      else None)"

definition live_pass :: "live_cfg \<Rightarrow> live_io \<Rightarrow> nat \<Rightarrow> live_rec \<Rightarrow> live_outcome" where
  "live_pass c io now r0 =
     (case splice_batch (Suc (queue_len (lr_st r0))) c (io_room io) 0 r0 of
        (False, r1) \<Rightarrow> Over (Inl HttpIo) r1
      | (True, r1) \<Rightarrow>
          let r2 = (if lr_dirty r1 \<and> lr_save_due r1 \<le> now
                    then (save_live_ctrl c (io_ctrl io) r1)\<lparr>lr_dirty := False, lr_save_due := now + CTRL_SAVE_INTERVAL\<rparr>
                    else r1)
          in case dispatch (lc_conn c) c (io_open io) now r2 of
               (False, r3) \<Rightarrow> Over (Inl HttpIo) r3
             | (True, r3) \<Rightarrow>
                 case end_check c now r3 of
                   Some x \<Rightarrow> Over x r3
                 | None \<Rightarrow>
                     if \<not> lr_reloading r3 \<and> \<not> ls_reload_stopped (lr_st r3) \<and> lr_next_reload r3 \<le> now
                     then Running (r3\<lparr>lr_reloading := True\<rparr>) else Running r3)"

section \<open>Events\<close>

datatype live_event =
    Tick
  | CancelLive
  | Reloaded "http_error + playlist_plan"
  | FetchBegin live_key bool
  | FetchData live_key bytes
  | FetchEnd live_key bool
  | FetchFail live_key http_error

definition reload_done :: "live_cfg \<Rightarrow> nat \<Rightarrow> http_error + playlist_plan \<Rightarrow> live_rec \<Rightarrow> live_rec" where
  "reload_done c now res r0 =
     (let r = r0\<lparr>lr_reloading := False\<rparr>; st = lr_st r in
      case res of
        Inr p \<Rightarrow>
          let st1 = st\<lparr>ls_fail := 0, ls_gone := 0, ls_last_ok := now\<rparr>;
              (st2, fs2, _) = (if pl_parts_only p then (st1, lr_files r, 0)
                               else apply_plan (lc_stable c) now p st1 (lr_files r))
          in r\<lparr>lr_st := st2, lr_files := fs2, lr_next_reload := now + lc_interval c\<rparr>
      | Inl e \<Rightarrow>
          let st1 = (if e = HttpStatus 404 \<or> e = HttpStatus 410 then
                       let st' = st\<lparr>ls_gone := ls_gone st + 1\<rparr>
                       in if LIVE_GONE_LIMIT \<le> ls_gone st' then st'\<lparr>ls_end := True, ls_reload_stopped := True\<rparr> else st'
                     else st\<lparr>ls_fail := min (2 ^ 32 - 1) (ls_fail st + 1)\<rparr>);
              secs = min (2 ^ min (ls_fail st1) 4) 15
          in r\<lparr>lr_st := st1, lr_next_reload := now + 1000 * secs\<rparr>)"

text \<open>The result of a future reaches the loop.\<close>

definition fut_ok :: "live_cfg \<Rightarrow> bool \<Rightarrow> live_fut \<Rightarrow> nat \<times> bytes \<Rightarrow> live_rec \<Rightarrow> live_outcome" where
  "fut_ok c ok f res r0 =
     (let key = lf_key f; r = r0\<lparr>lr_futs := drop_fut key (lr_futs r0)\<rparr> in
      if fst res = 0 \<and> \<not> ok then Over (Inl HttpIo) r
      else
        let r1 = (if fst res = 0 then r\<lparr>lr_files := (lr_files r)(file_of key := Some (snd res))\<rparr> else r)
        in Running (case live_item_at (lr_st r1) key of
                      None \<Rightarrow> r1
                    | Some it \<Rightarrow> r1\<lparr>lr_st := live_item_set key (it\<lparr>li_state := ItemDone, li_attempts := 0\<rparr>) (lr_st r1)\<rparr>))"

definition fut_err :: "nat \<Rightarrow> http_error \<Rightarrow> live_fut \<Rightarrow> live_rec \<Rightarrow> live_outcome" where
  "fut_err now e f r0 =
     (let key = lf_key f; r = r0\<lparr>lr_futs := drop_fut key (lr_futs r0)\<rparr> in
      if e = HttpCancelled then Over (Inr LiveCancelled) r
      else if e = HttpIo then Over (Inl HttpIo) r
      else Running
        (case live_item_at (lr_st r) key of
           None \<Rightarrow> r
         | Some it \<Rightarrow>
             let att = li_attempts it + 1 in
             if LIVE_SEG_MAX_ATTEMPTS \<le> att
             then r\<lparr>lr_st := live_item_set key (it\<lparr>li_state := ItemFailed, li_attempts := att\<rparr>) (lr_st r),
                    lr_perm_err := (case lr_perm_err r of None \<Rightarrow> Some e | Some e' \<Rightarrow> Some e')\<rparr>
             else r\<lparr>lr_st := live_item_set key
                       (it\<lparr>li_state := Queued (Some (now + 1000 * (1 + 2 * att))), li_attempts := att\<rparr>) (lr_st r)\<rparr>))"

text \<open>
  One step. An event that does not fit the state (a reload nobody asked for, data for a segment that is
  not in flight) has none. \<open>FetchBegin\<close> and \<open>FetchData\<close> do not reach the loop.
\<close>

definition then_pass :: "live_cfg \<Rightarrow> live_io \<Rightarrow> nat \<Rightarrow> live_outcome \<Rightarrow> live_outcome" where
  "then_pass c io now res = (case res of Running r \<Rightarrow> live_pass c io now r | Over x r \<Rightarrow> Over x r)"

definition fetch_failed :: "live_cfg \<Rightarrow> live_io \<Rightarrow> nat \<Rightarrow> http_error \<Rightarrow> live_fut \<Rightarrow> live_rec \<Rightarrow> live_outcome" where
  "fetch_failed c io now e f r =
     (case fetch_retry c e f of
        Some g \<Rightarrow> Running (r\<lparr>lr_futs := put_fut g (lr_futs r)\<rparr>)
      | None \<Rightarrow> then_pass c io now (fut_err now e f r))"

definition live_step :: "live_cfg \<Rightarrow> live_io \<Rightarrow> nat \<Rightarrow> live_event \<Rightarrow> live_rec \<Rightarrow> live_outcome option" where
  "live_step c io now e r =
     (case e of
        Tick \<Rightarrow> Some (live_pass c io now r)
      | CancelLive \<Rightarrow> Some (Over (Inr LiveCancelled) r)
      | Reloaded res \<Rightarrow> if lr_reloading r then Some (live_pass c io now (reload_done c now res r)) else None
      | FetchBegin key partial \<Rightarrow> map_option (\<lambda>f. Running (fetch_begin partial f r)) (find_fut key (lr_futs r))
      | FetchData key bs \<Rightarrow> map_option (\<lambda>f. Running (fetch_data bs f r)) (find_fut key (lr_futs r))
      | FetchEnd key ok \<Rightarrow>
          map_option (\<lambda>f. case fetch_result c f (lr_files r) of
                            Inr res \<Rightarrow> then_pass c io now (fut_ok c ok f res r)
                          | Inl err \<Rightarrow> fetch_failed c io now err f r) (find_fut key (lr_futs r))
      | FetchFail key err \<Rightarrow> map_option (\<lambda>f. fetch_failed c io now err f r) (find_fut key (lr_futs r)))"

fun live_run :: "live_cfg \<Rightarrow> (live_io \<times> nat \<times> live_event) list \<Rightarrow> live_outcome \<Rightarrow> live_outcome option" where
  "live_run c [] res = Some res"
| "live_run c ((io, now, e) # evs) (Running r) =
     (case live_step c io now e r of None \<Rightarrow> None | Some res \<Rightarrow> live_run c evs res)"
| "live_run c (x # evs) (Over res r) = None"

section \<open>Start and wind-up\<close>

definition live_state0 :: "nat \<Rightarrow> nat \<Rightarrow> bytes option \<Rightarrow> nat \<Rightarrow> live_state" where
  "live_state0 head prefix written now =
     \<lparr>ls_head = head, ls_tail = 0, ls_end = False, ls_reload_stopped = False, ls_segs = [], ls_maps = [],
      ls_leading = None, ls_map_seen = set_option written, ls_written_map = written, ls_spliced = prefix,
      ls_skipped = 0, ls_last_new = now, ls_last_ok = now, ls_fail = 0, ls_gone = 0\<rparr>"

definition live_start ::
  "live_cfg \<Rightarrow> nat \<Rightarrow> playlist_plan \<Rightarrow> live_ctrl option \<Rightarrow> bytes option \<Rightarrow> seg_files \<Rightarrow> http_error + live_rec" where
  "live_start c now p ctrl disk fs =
     (if pl_parts_only p \<or> pl_segments p = [] then Inl HttpProtocol
      else
        let resume = live_resume (lc_stable c) p ctrl disk in
        if resume \<noteq> None \<and> disk = None then Inl HttpIo
        else
          let (bytes0, st, fs1, ms) =
                (case resume of
                   None \<Rightarrow> (0, live_state0 (sg_seq (hd (pl_segments p))) 0 None now, (\<lambda>_. None), 0)
                 | Some q \<Rightarrow>
                     (lq_bytes q,
                      live_state0 (lq_seq q) (lq_prefix q) (if lq_map q = [] then None else Some (lq_map q)) now,
                      sweep_live_seg_files (lq_seq q) fs, lq_live_ms q));
              (st', fs2, _) = apply_plan (lc_stable c) now p st fs1
          in Inr \<lparr>lr_st = st', lr_files = sweep_live_seg_files (ls_head st') fs2,
                  lr_sink = take bytes0 (case disk of None \<Rightarrow> [] | Some d \<Rightarrow> d), lr_futs = [],
                  lr_next_reload = now + lc_interval c, lr_reloading = False, lr_save_due = now, lr_dirty = False,
                  lr_perm_err = None, lr_ms = ms, lr_ctrl = ctrl, lr_log = []\<rparr>)"

text \<open>
  The wind-up: \<open>flushed\<close> is \<open>None\<close> when the final flush succeeds, otherwise how many bytes of the product
  are on disk. The result, the product on disk and the control file.
\<close>

definition live_finish ::
  "live_cfg \<Rightarrow> bool \<Rightarrow> nat option \<Rightarrow> http_error + live_exit \<Rightarrow> live_rec
   \<Rightarrow> (http_error + nat \<times> nat) \<times> bytes \<times> live_ctrl option" where
  "live_finish c ctrl_ok flushed outcome r =
     (let saved = lr_ctrl (save_live_ctrl c ctrl_ok r) in
      case flushed of
        Some n \<Rightarrow> (Inl HttpIo, take n (lr_sink r), saved)
      | None \<Rightarrow>
          case outcome of
            Inl e \<Rightarrow> (Inl e, lr_sink r, saved)
          | Inr LiveCancelled \<Rightarrow> (Inl HttpCancelled, lr_sink r, saved)
          | Inr _ \<Rightarrow> (Inr (length (lr_sink r), ls_spliced (lr_st r)), lr_sink r, None))"

end
