(* ===== verification/Hls_Live_Proofs.thy ===== *)
theory Hls_Live_Proofs
  imports Hls_Live_Record
begin

text \<open>
  The invariant of the live recorder: the queue seen as a function from keys to items, the futures
  in flight, the segment files and the splice log, preserved by every operation of the loop.
\<close>

section \<open>The queue as a function\<close>

lemma file_of_inj: "file_of a = file_of b \<Longrightarrow> a \<noteq> MapKey 0 \<Longrightarrow> b \<noteq> MapKey 0 \<Longrightarrow> a = b"
  by (cases a; cases b) auto

lemma map_of_bt_remove: "map_of (bt_remove k m) k' = (if k' = k then None else map_of m k')"
  by (induction m) (auto simp: bt_remove_def)

lemma map_of_filter_key: "map_of (filter (\<lambda>e. fst e \<notin> S) m) k = (if k \<in> S then None else map_of m k)"
  by (induction m) auto

lemma bt_wf_filter: "bt_wf m \<Longrightarrow> bt_wf (filter P m)"
proof (induction m)
  case (Cons a m)
  have "fst ` set (filter P m) \<subseteq> fst ` set m" by auto
  with Cons show ?case by (auto simp: bt_wf_def)
qed (simp add: bt_wf_def)

lemma lq_wf_remove: "bt_wf m \<Longrightarrow> bt_wf (bt_remove k m)"
  by (simp add: bt_remove_def bt_wf_filter)

lemma bt_wf_map_of: "bt_wf m \<Longrightarrow> (k, v) \<in> set m \<Longrightarrow> map_of m k = Some v"
  by (simp add: bt_wf_distinct)

lemma at_segs: "live_item_at (st\<lparr>ls_segs := bt_insert k it (ls_segs st)\<rparr>) = (live_item_at st)(SegKey k \<mapsto> it)"
proof
  fix key show "live_item_at (st\<lparr>ls_segs := bt_insert k it (ls_segs st)\<rparr>) key = ((live_item_at st)(SegKey k \<mapsto> it)) key"
    by (cases key) (auto simp: map_of_bt_insert)
qed

lemma at_maps: "live_item_at (st\<lparr>ls_maps := bt_insert k it (ls_maps st)\<rparr>) = (live_item_at st)(MapKey k \<mapsto> it)"
proof
  fix key show "live_item_at (st\<lparr>ls_maps := bt_insert k it (ls_maps st)\<rparr>) key = ((live_item_at st)(MapKey k \<mapsto> it)) key"
    by (cases key) (auto simp: map_of_bt_insert)
qed

lemma at_leading: "live_item_at (st\<lparr>ls_leading := x\<rparr>) = (live_item_at st)(LeadingMap := x)"
proof
  fix key show "live_item_at (st\<lparr>ls_leading := x\<rparr>) key = ((live_item_at st)(LeadingMap := x)) key"
    by (cases key) auto
qed

lemma at_same:
  "ls_segs st' = ls_segs st \<Longrightarrow> ls_maps st' = ls_maps st \<Longrightarrow> ls_leading st' = ls_leading st
   \<Longrightarrow> live_item_at st' = live_item_at st"
proof
  fix key assume "ls_segs st' = ls_segs st" "ls_maps st' = ls_maps st" "ls_leading st' = ls_leading st"
  then show "live_item_at st' key = live_item_at st key" by (cases key) auto
qed

section \<open>The invariant\<close>

definition whole :: "live_cfg \<Rightarrow> segment \<Rightarrow> bytes \<Rightarrow> bool" where
  "whole c s content \<longleftrightarrow>
     (case sg_key s of
        None \<Rightarrow> sg_len s = None \<or> sg_len s = Some (length content)
      | Some k \<Rightarrow> \<exists>b. lc_decrypt c k b = Inr content)"

definition idle :: "live_item \<Rightarrow> bool" where
  "idle it \<longleftrightarrow> is_queued it \<or> li_state it = ItemFailed"

definition key_ok :: "(nat \<Rightarrow> bytes) \<Rightarrow> nat \<Rightarrow> bytes set \<Rightarrow> live_key \<Rightarrow> bool" where
  "key_ok mk head seen key =
     (case key of LeadingMap \<Rightarrow> True | SegKey k \<Rightarrow> head \<le> k | MapKey k \<Rightarrow> head \<le> k \<and> 0 < k \<and> mk k \<in> seen)"

definition fut_inv :: "(live_key \<Rightarrow> live_item option) \<Rightarrow> nat \<Rightarrow> live_fut \<Rightarrow> bool" where
  "fut_inv A head f \<longleftrightarrow>
     (case A (lf_key f) of
        Some it \<Rightarrow> li_state it = Inflight \<and> li_seg it = lf_seg f
      | None \<Rightarrow> \<exists>k. lf_key f = MapKey k \<and> k < head)
     \<and> lf_key f \<noteq> MapKey 0 \<and> (lf_mem f = None \<longleftrightarrow> sg_key (lf_seg f) = None)"

definition done_inv :: "live_cfg \<Rightarrow> (live_key \<Rightarrow> live_item option) \<Rightarrow> seg_files \<Rightarrow> bool" where
  "done_inv c A fs \<longleftrightarrow>
     (\<forall>key it. A key = Some it \<and> li_state it = ItemDone \<longrightarrow>
        (\<exists>content. fs (file_of key) = Some content \<and> whole c (li_seg it) content))"

definition qinv ::
  "live_cfg \<Rightarrow> (nat \<Rightarrow> bytes) \<Rightarrow> (live_key \<Rightarrow> live_item option) \<Rightarrow> nat \<Rightarrow> bytes set \<Rightarrow> seg_files \<Rightarrow> live_fut list \<Rightarrow> bool" where
  "qinv c mk A head seen fs futs \<longleftrightarrow>
     (\<forall>key. A key \<noteq> None \<longrightarrow> key_ok mk head seen key)
     \<and> distinct (map lf_key futs) \<and> (\<forall>f \<in> set futs. fut_inv A head f) \<and> done_inv c A fs"

lemma qinvD:
  assumes "qinv c mk A head seen fs futs"
  shows "A key = Some it \<Longrightarrow> key_ok mk head seen key"
    and "distinct (map lf_key futs)"
    and "f \<in> set futs \<Longrightarrow> fut_inv A head f"
    and "A key = Some it \<Longrightarrow> li_state it = ItemDone \<Longrightarrow>
         \<exists>content. fs (file_of key) = Some content \<and> whole c (li_seg it) content"
  using assms by (auto simp: qinv_def done_inv_def)

lemma key_ok_mono: "key_ok mk head seen key \<Longrightarrow> seen \<subseteq> seen' \<Longrightarrow> key_ok mk head seen' key"
  by (auto simp: key_ok_def split: live_key.splits)

lemma idle_not: "idle it \<Longrightarrow> li_state it \<noteq> Inflight \<and> li_state it \<noteq> ItemDone"
  by (auto simp: idle_def is_queued_def split: live_item_state.splits)

lemma is_queued_idle: "is_queued it \<Longrightarrow> idle it"
  by (simp add: idle_def)

text \<open>No future for an item that waits, and none for a key that has no item yet.\<close>

lemma no_fut:
  assumes "qinv c mk A head seen fs futs"
    and "A key = None \<and> key_ok mk head seen' key \<or> (\<exists>it. A key = Some it \<and> li_state it \<noteq> Inflight)"
    and "f \<in> set futs"
  shows "lf_key f \<noteq> key"
  using qinvD(3) [OF assms(1,3)] assms(2) by (auto simp: fut_inv_def key_ok_def)

lemma qinv_update_idle:
  assumes q: "qinv c mk A head seen fs futs"
    and free: "A key = None \<or> (\<exists>it. A key = Some it \<and> idle it)"
    and "idle it'" "key_ok mk head seen' key" "seen \<subseteq> seen'"
  shows "qinv c mk (A(key \<mapsto> it')) head seen' fs futs"
proof -
  have nf: "lf_key f \<noteq> key" if "f \<in> set futs" for f
    using no_fut [OF q _ that, of key seen'] free assms(4) idle_not by blast
  have "fut_inv (A(key \<mapsto> it')) head f" if "f \<in> set futs" for f
    using qinvD(3) [OF q that] nf [OF that] by (auto simp: fut_inv_def)
  moreover have "done_inv c (A(key \<mapsto> it')) fs"
    using q idle_not [OF assms(3)] by (auto simp: qinv_def done_inv_def)
  moreover have "key_ok mk head seen' k" if "(A(key \<mapsto> it')) k \<noteq> None" for k
    using that assms(4,5) q key_ok_mono by (auto simp: qinv_def split: if_splits)
  ultimately show ?thesis using q by (simp add: qinv_def)
qed

lemma qinv_seen: "qinv c mk A head seen fs futs \<Longrightarrow> seen \<subseteq> seen' \<Longrightarrow> qinv c mk A head seen' fs futs"
  by (auto simp: qinv_def intro: key_ok_mono)

lemma qinv_refresh:
  assumes q: "qinv c mk A head seen fs futs" and "A key = Some it"
  shows "qinv c mk (A(key \<mapsto> refresh s it)) head seen fs futs"
proof (cases "is_queued it")
  case True
  then have "idle (refresh s it)" by (simp add: refresh_def idle_def is_queued_def)
  with True show ?thesis
    using qinv_update_idle [OF q] qinvD(1) [OF q assms(2)] assms(2) is_queued_idle by blast
next
  case False
  then have "refresh s it = it" by (simp add: refresh_def)
  with assms show ?thesis by (simp add: fun_upd_idem)
qed

lemma idle_li_queued [simp]: "idle (li_queued s)"
  by (simp add: idle_def is_queued_def li_queued_def)

section \<open>Initialisation segments and snapshots\<close>

definition st_inv :: "live_cfg \<Rightarrow> (nat \<Rightarrow> bytes) \<Rightarrow> live_state \<Rightarrow> seg_files \<Rightarrow> live_fut list \<Rightarrow> bool" where
  "st_inv c mk st fs futs \<longleftrightarrow> bt_wf (ls_segs st) \<and> bt_wf (ls_maps st)
     \<and> qinv c mk (live_item_at st) (ls_head st) (ls_map_seen st) fs futs"

text \<open>The head, and whether an initialisation segment waits right before it, which the order of the log needs.\<close>

definition low :: "live_state \<Rightarrow> nat" where
  "low st = (if map_of (ls_maps st) (ls_head st) = None then 2 * ls_head st + 1 else 2 * ls_head st)"

lemma refresh_first_cases:
  assumes "bt_wf m"
  obtains "refresh_first same s m = m"
    | k it where "map_of m k = Some it" "refresh_first same s m = bt_insert k (refresh s it) m"
proof -
  have "refresh_first same s m = m
    \<or> (\<exists>k it. map_of m k = Some it \<and> refresh_first same s m = bt_insert k (refresh s it) m)"
    using assms
  proof (induction m)
    case (Cons e m)
    obtain k it where e: "e = (k, it)" by (cases e)
    show ?case
    proof (cases "same (li_seg it)")
      case True
      then show ?thesis by (auto simp: e intro!: exI [of _ k])
    next
      case False
      from Cons.prems have wf: "bt_wf m" and lt: "\<And>k'. k' \<in> fst ` set m \<Longrightarrow> k < k'"
        by (auto simp: bt_wf_def e)
      from Cons.IH [OF wf] show ?thesis
      proof (elim disjE exE conjE)
        fix k' it' assume a: "map_of m k' = Some it'" "refresh_first same s m = bt_insert k' (refresh s it') m"
        from a(1) have "k < k'" by (intro lt) (metis map_of_SomeD fst_conv imageI)
        with a False show ?thesis by (auto simp: e intro!: exI [of _ k'])
      qed (simp add: e False)
    qed
  qed simp
  with that show ?thesis by blast
qed

lemma st_inv_refresh_first:
  assumes "st_inv c mk st fs futs"
  shows "st_inv c mk (st\<lparr>ls_maps := refresh_first same s (ls_maps st)\<rparr>) fs futs"
proof -
  from assms have wf: "bt_wf (ls_maps st)" and q: "qinv c mk (live_item_at st) (ls_head st) (ls_map_seen st) fs futs"
    by (auto simp: st_inv_def)
  show ?thesis
    using wf
  proof (cases rule: refresh_first_cases [of "ls_maps st" same s])
    case 1
    with assms show ?thesis by simp
  next
    case (2 k it)
    with qinv_refresh [OF q, of "MapKey k" it s] assms show ?thesis
      by (simp add: st_inv_def at_maps bt_wf_insert)
  qed
qed

lemma refresh_first_None: "map_of (refresh_first same s m) k = None \<longleftrightarrow> map_of m k = None"
  by (induction same s m rule: refresh_first.induct) auto

lemma low_refresh_first: "low (st\<lparr>ls_maps := refresh_first same s (ls_maps st)\<rparr>) = low st"
  by (simp add: low_def refresh_first_None)

text \<open>The initialisation segment bound to a number is the same in every snapshot.\<close>

definition maps_fixed :: "(bytes \<Rightarrow> bytes) \<Rightarrow> (nat \<Rightarrow> bytes) \<Rightarrow> playlist_plan \<Rightarrow> bool" where
  "maps_fixed su mk p \<longleftrightarrow> (\<forall>s \<in> set (pl_segments p). sg_is_map s \<longrightarrow> map_stable_key su s = mk (sg_seq s))"

definition same_low :: "live_state \<Rightarrow> live_state \<Rightarrow> bool" where
  "same_low st st' \<longleftrightarrow> ls_head st' = ls_head st \<and> low st' = low st"

lemma st_inv_leading:
  assumes "st_inv c mk st fs futs" "ls_leading st = None" "ls_map_seen st \<subseteq> seen'"
  shows "st_inv c mk (st\<lparr>ls_map_seen := seen', ls_leading := Some (li_queued s)\<rparr>) fs futs"
proof -
  have at: "live_item_at (st\<lparr>ls_map_seen := seen', ls_leading := Some (li_queued s)\<rparr>)
    = (live_item_at st)(LeadingMap \<mapsto> li_queued s)"
    by (intro ext, case_tac x) auto
  from assms show ?thesis
    unfolding st_inv_def at
    by (auto intro!: qinv_update_idle simp: key_ok_def)
qed

lemma st_inv_seen:
  "st_inv c mk st fs futs \<Longrightarrow> ls_map_seen st \<subseteq> seen' \<Longrightarrow> st_inv c mk (st\<lparr>ls_map_seen := seen'\<rparr>) fs futs"
  by (auto simp: st_inv_def at_same [of "st\<lparr>ls_map_seen := seen'\<rparr>" st] intro: qinv_seen)

lemma st_inv_bind:
  assumes "st_inv c mk st fs futs" "ls_head st < sq" "mk sq \<notin> ls_map_seen st"
  shows "st_inv c mk (st\<lparr>ls_map_seen := insert (mk sq) (ls_map_seen st), ls_maps := bt_insert sq (li_queued s) (ls_maps st)\<rparr>) fs futs"
proof -
  have at: "live_item_at (st\<lparr>ls_map_seen := insert (mk sq) (ls_map_seen st), ls_maps := bt_insert sq (li_queued s) (ls_maps st)\<rparr>)
    = (live_item_at st)(MapKey sq \<mapsto> li_queued s)"
    by (intro ext, case_tac x) (auto simp: map_of_bt_insert)
  have "live_item_at st (MapKey sq) = None"
    using assms qinvD(1) [of c mk "live_item_at st" "ls_head st" "ls_map_seen st" fs futs "MapKey sq"]
    by (cases "live_item_at st (MapKey sq)") (auto simp: st_inv_def key_ok_def)
  with assms show ?thesis
    unfolding st_inv_def at
    by (auto intro!: qinv_update_idle simp: key_ok_def bt_wf_insert)
qed

lemma consider_map_inv:
  assumes q: "st_inv c mk st fs futs"
    and fixed: "\<And>sq. b = Some sq \<Longrightarrow> map_stable_key su s = mk sq"
  shows "st_inv c mk (fst (live_consider_map su s b (st, added))) fs futs
    \<and> same_low st (fst (live_consider_map su s b (st, added)))
    \<and> ls_map_seen st \<subseteq> ls_map_seen (fst (live_consider_map su s b (st, added)))"
proof (cases "map_stable_key su s \<in> ls_map_seen st")
  case True
  have lead: "st_inv c mk (st\<lparr>ls_leading := Some (refresh s m)\<rparr>) fs futs" if "ls_leading st = Some m" for m
    using q qinv_refresh [of c mk "live_item_at st" "ls_head st" "ls_map_seen st" fs futs LeadingMap m s] that
    by (simp add: st_inv_def at_leading)
  show ?thesis
    using True st_inv_refresh_first [OF q] lead
    by (cases "ls_leading st") (simp_all add: live_consider_map_def Let_def same_low_def low_def refresh_first_None)
next
  case False
  have lead: "st_inv c mk (st\<lparr>ls_map_seen := insert (map_stable_key su s) (ls_map_seen st),
      ls_leading := (case ls_leading st of None \<Rightarrow> Some (li_queued x) | Some m \<Rightarrow> Some m)\<rparr>) fs futs" for x
  proof (cases "ls_leading st")
    case None
    with st_inv_leading [OF q, of "insert (map_stable_key su s) (ls_map_seen st)"] show ?thesis by auto
  next
    case (Some m)
    have "st\<lparr>ls_map_seen := insert (map_stable_key su s) (ls_map_seen st), ls_leading := Some m\<rparr>
      = st\<lparr>ls_map_seen := insert (map_stable_key su s) (ls_map_seen st)\<rparr>" using Some by simp
    with st_inv_seen [OF q subset_insertI, of "map_stable_key su s"] Some show ?thesis by (simp only: option.simps)
  qed
  have bind: "st_inv c mk (st\<lparr>ls_map_seen := insert (map_stable_key su s) (ls_map_seen st),
      ls_maps := bt_insert sq (li_queued x) (ls_maps st)\<rparr>) fs futs" if "b = Some sq" "ls_head st < sq" for sq x
    using st_inv_bind [OF q that(2)] fixed [OF that(1)] False by simp
  show ?thesis
    using False lead bind
    by (auto simp: live_consider_map_def Let_def same_low_def low_def map_of_bt_insert split: option.splits)
qed

lemma fold_consider_inv:
  assumes "st_inv c mk st fs futs" "\<And>s. s \<in> set ss \<Longrightarrow> map_stable_key su s = mk (sg_seq s)"
  shows "st_inv c mk (fst (fold (\<lambda>s. live_consider_map su s (Some (sg_seq s))) ss (st, added))) fs futs
    \<and> same_low st (fst (fold (\<lambda>s. live_consider_map su s (Some (sg_seq s))) ss (st, added)))"
  using assms
proof (induction ss arbitrary: st added)
  case (Cons s ss)
  obtain st' added' where e: "live_consider_map su s (Some (sg_seq s)) (st, added) = (st', added')"
    by (cases "live_consider_map su s (Some (sg_seq s)) (st, added)")
  have "st_inv c mk st' fs futs \<and> same_low st st'"
    using consider_map_inv [OF Cons.prems(1), of "Some (sg_seq s)" su s added] Cons.prems(2) e by auto
  with Cons.IH [of st' added'] Cons.prems(2) e show ?case by (auto simp: same_low_def)
qed (simp add: same_low_def)

section \<open>Media segments of a snapshot\<close>

lemma st_inv_seg_idle:
  assumes "st_inv c mk st fs futs" "ls_head st \<le> k" "idle it'"
    and "map_of (ls_segs st) k = None \<or> (\<exists>it. map_of (ls_segs st) k = Some it \<and> idle it)"
  shows "st_inv c mk (st\<lparr>ls_segs := bt_insert k it' (ls_segs st)\<rparr>) fs futs"
  using assms unfolding st_inv_def at_segs
  by (auto intro!: qinv_update_idle simp: key_ok_def bt_wf_insert)

lemma take_seg_inv:
  assumes "st_inv c mk st fs futs"
  shows "st_inv c mk (fst (take_seg su s (st, added))) fs futs \<and> same_low st (fst (take_seg su s (st, added)))"
proof (cases "sg_is_map s \<or> sg_seq s < ls_head st")
  case False
  then have h: "ls_head st \<le> sg_seq s" by simp
  have low: "same_low st (st\<lparr>ls_segs := x\<rparr>)" for x by (simp add: same_low_def low_def)
  show ?thesis
  proof (cases "map_of (ls_segs st) (sg_seq s)")
    case None
    with False low st_inv_seg_idle [OF assms h, of "li_queued s"] show ?thesis
      by (simp add: take_seg_def)
  next
    case (Some it)
    have same: "same_low st st" by (simp add: same_low_def)
    show ?thesis
    proof (cases "idle it")
      case True
      then have i: "st_inv c mk (st\<lparr>ls_segs := bt_insert (sg_seq s) it' (ls_segs st)\<rparr>) fs futs" if "idle it'" for it'
        using st_inv_seg_idle [OF assms h that] Some by simp
      have "idle (it\<lparr>li_seg := s\<rparr>)" if "li_state it = Queued x" for x
        using that by (simp add: idle_def is_queued_def)
      with i low same assms Some False show ?thesis
        by (auto simp: take_seg_def split: live_item_state.splits)
    next
      case False2: False
      with Some False assms same show ?thesis
        by (auto simp: take_seg_def idle_def is_queued_def split: live_item_state.splits)
    qed
  qed
qed (use assms in \<open>auto simp: take_seg_def same_low_def\<close>)

lemma fold_take_seg_inv:
  assumes "st_inv c mk (fst sa) fs futs"
  shows "st_inv c mk (fst (fold (take_seg su) ss sa)) fs futs \<and> same_low (fst sa) (fst (fold (take_seg su) ss sa))"
  using assms
proof (induction ss arbitrary: sa)
  case (Cons s ss)
  have "st_inv c mk (fst (take_seg su s sa)) fs futs \<and> same_low (fst sa) (fst (take_seg su s sa))"
    using take_seg_inv [OF Cons.prems, of su s "snd sa"] by simp
  with Cons.IH [of "take_seg su s sa"] show ?case by (auto simp: same_low_def)
qed (simp add: same_low_def)

section \<open>Sliding the window\<close>

lemma skip_gap_facts:
  assumes "skip_gap w segs h maps a = (h', maps', a')"
  shows "h \<le> h' \<and> h' \<le> max h w \<and> (\<forall>i. h \<le> i \<and> i < h' \<longrightarrow> map_of segs i = None)
    \<and> maps' = filter (\<lambda>e. fst e \<notin> {h..<h'}) maps \<and> a' = a + (h' - h)
    \<and> (h' < w \<longrightarrow> map_of segs h' \<noteq> None)"
  using assms
proof (induction w segs h maps a rule: skip_gap.induct)
  case (1 w segs h maps a)
  show ?case
  proof (cases "h < w \<and> map_of segs h = None")
    case True
    with "1.prems" have "skip_gap w segs (h + 1) (bt_remove h maps) (a + 1) = (h', maps', a')"
      by (subst (asm) skip_gap.simps) simp
    from "1.IH" [OF True this] have r: "h + 1 \<le> h'" "h' \<le> max (h + 1) w"
      "\<forall>i. h + 1 \<le> i \<and> i < h' \<longrightarrow> map_of segs i = None"
      "maps' = filter (\<lambda>e. fst e \<notin> {h + 1..<h'}) (bt_remove h maps)" "a' = a + 1 + (h' - (h + 1))"
      "h' < w \<longrightarrow> map_of segs h' \<noteq> None" by auto
    have "maps' = filter (\<lambda>e. fst e \<notin> {h..<h'}) maps"
      using r(1,4) by (auto simp: bt_remove_def intro!: filter_cong)
    moreover have "map_of segs i = None" if "h \<le> i" "i < h'" for i
      using r(3) True that by (cases "i = h") auto
    ultimately show ?thesis using r True by auto
  next
    case False
    with "1.prems" have "h' = h" "maps' = maps" "a' = a" by (auto simp: skip_gap.simps)
    with False show ?thesis by auto
  qed
qed

text \<open>Items leave the queue while the cursor moves on; futures keep running for the maps passed over.\<close>

lemma qinv_restrict:
  assumes q: "qinv c mk A head seen fs futs" and "head \<le> head'"
    and rest: "\<And>key. A' key = A key \<or> (A' key = None \<and>
      ((\<exists>it. A key = Some it \<and> li_state it \<noteq> Inflight) \<or> (\<exists>k<head'. key = MapKey k)))"
    and segs: "\<And>k. k < head' \<Longrightarrow> A' (SegKey k) = None"
    and maps: "\<And>k. k < head' \<Longrightarrow> A' (MapKey k) = None"
    and files: "\<And>key it. A' key = Some it \<Longrightarrow> li_state it = ItemDone \<Longrightarrow> fs' (file_of key) = fs (file_of key)"
  shows "qinv c mk A' head' seen fs' futs"
proof -
  have sub: "A' key = A key" if "A' key \<noteq> None" for key
    using that rest by metis
  have key: "key_ok mk head' seen key" if "A' key \<noteq> None" for key
  proof -
    have "key_ok mk head seen key" using q sub [OF that] that by (simp add: qinv_def)
    moreover have "head' \<le> k" if "A' (SegKey k) \<noteq> None" for k
      using segs [of k] that by (cases "k < head'") auto
    moreover have "head' \<le> k" if "A' (MapKey k) \<noteq> None" for k
      using maps [of k] that by (cases "k < head'") auto
    ultimately show ?thesis using that by (cases key) (auto simp: key_ok_def)
  qed
  have futs: "fut_inv A' head' f" if f: "f \<in> set futs" for f
    using qinvD(3) [OF q f] rest [of "lf_key f"] \<open>head \<le> head'\<close>
    by (auto simp: fut_inv_def split: option.splits)
  have "done_inv c A' fs'"
    using q sub files unfolding qinv_def done_inv_def by (metis option.distinct(1))
  with key futs q show ?thesis by (simp add: qinv_def)
qed

lemma qinv_slide:
  assumes q: "st_inv c mk st fs futs"
  shows "st_inv c mk (fst (slide_window w st fs)) (snd (slide_window w st fs)) futs
    \<and> ls_head st \<le> ls_head (fst (slide_window w st fs))
    \<and> low st \<le> low (fst (slide_window w st fs))"
proof (cases "ls_head st < w")
  case True
  define stale where "stale = map fst (filter (is_stale (ls_head st) w) (ls_segs st))"
  define segs where "segs = filter (\<lambda>e. fst e \<notin> set stale) (ls_segs st)"
  obtain h' maps' a' where g: "skip_gap w segs (ls_head st) (ls_maps st) (length stale) = (h', maps', a')"
    by (metis prod_cases3)
  note sg = skip_gap_facts [OF g]
  let ?st = "st\<lparr>ls_segs := segs, ls_head := h', ls_maps := maps', ls_skipped := ls_skipped st + a'\<rparr>"
  let ?fs = "\<lambda>k. if \<not> snd k \<and> fst k \<in> set stale then None else fs k"
  have slide: "slide_window w st fs = (?st, ?fs)"
    using True g by (simp add: slide_window_def stale_def segs_def Let_def)
  from q have wf: "bt_wf (ls_segs st)" "bt_wf (ls_maps st)"
    and q': "qinv c mk (live_item_at st) (ls_head st) (ls_map_seen st) fs futs"
    by (auto simp: st_inv_def)
  have mo: "map_of segs k = (if k \<in> set stale then None else map_of (ls_segs st) k)" for k
    by (simp add: segs_def map_of_filter_key)
  have mm: "map_of maps' k = (if ls_head st \<le> k \<and> k < h' then None else map_of (ls_maps st) k)" for k
  proof -
    have "map_of maps' k = map_of (filter (\<lambda>e. fst e \<notin> {ls_head st..<h'}) (ls_maps st)) k" using sg by simp
    then show ?thesis by (simp only: map_of_filter_key) simp
  qed
  have idle: "\<exists>it. map_of (ls_segs st) k = Some it \<and> li_state it \<noteq> Inflight" if "k \<in> set stale" for k
  proof -
    from that obtain it where "(k, it) \<in> set (ls_segs st)" "is_stale (ls_head st) w (k, it)"
      by (auto simp: stale_def)
    with bt_wf_map_of [OF wf(1)] show ?thesis
      by (force simp: is_stale_def is_queued_def)
  qed
  have none: "live_item_at st key = None" if "\<not> key_ok mk (ls_head st) (ls_map_seen st) key" for key
    using qinvD(1) [OF q', of key] that by (cases "live_item_at st key") auto
  have "qinv c mk (live_item_at ?st) h' (ls_map_seen st) ?fs futs"
  proof (rule qinv_restrict [OF q'])
    fix key
    show "live_item_at ?st key = live_item_at st key \<or> (live_item_at ?st key = None \<and>
      ((\<exists>it. live_item_at st key = Some it \<and> li_state it \<noteq> Inflight) \<or> (\<exists>k<h'. key = MapKey k)))"
      using mo idle mm by (cases key) auto
  next
    fix k assume "k < h'"
    then show "live_item_at ?st (SegKey k) = None" "live_item_at ?st (MapKey k) = None"
      using sg mo [of k] mm [of k] none [of "SegKey k"] none [of "MapKey k"]
      by (cases "ls_head st \<le> k"; auto simp: key_ok_def)+
  next
    fix key it
    assume "live_item_at ?st key = Some it" "li_state it = ItemDone"
    then show "?fs (file_of key) = fs (file_of key)"
      using mo by (cases key) auto
  qed (use sg in auto)
  moreover have "bt_wf segs" "bt_wf maps'"
    using wf sg by (auto simp: segs_def bt_wf_filter)
  moreover have "low st \<le> low ?st"
    using sg mm [of h'] by (cases "h' = ls_head st") (auto simp: low_def)
  ultimately show ?thesis using sg by (simp add: slide st_inv_def)
qed (use q in \<open>simp add: slide_window_def\<close>)

lemma st_inv_same:
  assumes "st_inv c mk st fs futs" "ls_segs st' = ls_segs st" "ls_maps st' = ls_maps st"
    "ls_leading st' = ls_leading st" "ls_head st' = ls_head st" "ls_map_seen st' = ls_map_seen st"
  shows "st_inv c mk st' fs futs \<and> same_low st st'"
  using assms at_same [of st' st] by (simp add: st_inv_def same_low_def low_def)

lemma apply_plan_inv:
  assumes q: "st_inv c mk st fs futs" and fixed: "maps_fixed su mk p"
    and r: "apply_plan su now p st fs = (st', fs', n)"
  shows "st_inv c mk st' fs' futs \<and> ls_head st \<le> ls_head st' \<and> low st \<le> low st'"
proof (cases "pl_segments p")
  case Nil
  with q r show ?thesis by (simp add: apply_plan_def)
next
  case (Cons first rest)
  let ?st0 = "st\<lparr>ls_tail := max (ls_tail st) (sg_seq (last (pl_segments p)))\<rparr>"
  have 0: "st_inv c mk ?st0 fs futs \<and> same_low st ?st0" using q by (intro st_inv_same) auto
  obtain st1 fs1 where 1: "slide_window (sg_seq first) ?st0 fs = (st1, fs1)"
    by (cases "slide_window (sg_seq first) ?st0 fs")
  have i1: "st_inv c mk st1 fs1 futs" "ls_head st \<le> ls_head st1" "low st \<le> low st1"
    using qinv_slide [of c mk ?st0 fs futs "sg_seq first"] 0 1 by (auto simp: same_low_def)
  define sa2 where "sa2 = (case pl_init p of None \<Rightarrow> (st1, 0) | Some i \<Rightarrow> live_consider_map su i None (st1, 0))"
  have i2: "st_inv c mk (fst sa2) fs1 futs" "same_low st1 (fst sa2)"
    using i1 consider_map_inv [OF i1(1), of None su] by (auto simp: sa2_def same_low_def split: option.splits)
  define sa3 where "sa3 = fold (\<lambda>s. live_consider_map su s (Some (sg_seq s))) (filter sg_is_map (pl_segments p)) sa2"
  have "\<And>s. s \<in> set (filter sg_is_map (pl_segments p)) \<Longrightarrow> map_stable_key su s = mk (sg_seq s)"
    using fixed by (simp add: maps_fixed_def)
  then have i3: "st_inv c mk (fst sa3) fs1 futs" "same_low (fst sa2) (fst sa3)"
    using fold_consider_inv [OF i2(1), of "filter sg_is_map (pl_segments p)" su "snd sa2"] by (auto simp: sa3_def)
  obtain st4 a where 4: "fold (take_seg su) (pl_segments p) sa3 = (st4, a)"
    by (cases "fold (take_seg su) (pl_segments p) sa3")
  have i4: "st_inv c mk st4 fs1 futs" "same_low (fst sa3) st4"
    using fold_take_seg_inv [OF i3(1), of su "pl_segments p"] 4 by auto
  have r': "fs' = fs1" "st' = (if 0 < a then (if pl_live p then st4 else st4\<lparr>ls_end := True, ls_reload_stopped := True\<rparr>)\<lparr>ls_last_new := now\<rparr>
      else (if pl_live p then st4 else st4\<lparr>ls_end := True, ls_reload_stopped := True\<rparr>))"
    using r unfolding apply_plan_def Cons list.case Let_def 1 [unfolded Cons] prod.case sa2_def [symmetric]
      sa3_def [unfolded Cons, symmetric] 4 [unfolded Cons] by auto
  have "st_inv c mk st' fs1 futs \<and> same_low st4 st'"
    by (rule st_inv_same [OF i4(1)]) (simp_all add: r')
  with i1 i2 i3 i4 r' show ?thesis by (auto simp: same_low_def)
qed

section \<open>Dispatch\<close>

lemma qinv_start:
  assumes q: "qinv c mk A head seen fs futs" and it: "A key = Some it" "is_queued it"
    and f: "lf_key f = key" "lf_seg f = li_seg it" "lf_mem f = None \<longleftrightarrow> sg_key (lf_seg f) = None"
    and fs': "\<And>k. k \<noteq> file_of key \<Longrightarrow> fs' k = fs k"
  shows "qinv c mk (A(key \<mapsto> inflight it)) head seen fs' (futs @ [f])"
proof -
  have k: "key_ok mk head seen key" using qinvD(1) [OF q it(1)] .
  then have k0: "key \<noteq> MapKey 0" by (auto simp: key_ok_def)
  have nf: "lf_key g \<noteq> key" if "g \<in> set futs" for g
    using no_fut [OF q _ that, of key] it idle_not [OF is_queued_idle [OF it(2)]] by blast
  have "fut_inv (A(key \<mapsto> inflight it)) head g" if "g \<in> set (futs @ [f])" for g
  proof (cases "g = f")
    case True
    with f k0 show ?thesis by (simp add: fut_inv_def inflight_def)
  next
    case False
    with that nf qinvD(3) [OF q] show ?thesis by (auto simp: fut_inv_def)
  qed
  moreover have "done_inv c (A(key \<mapsto> inflight it)) fs'"
    unfolding done_inv_def
  proof (intro allI impI, elim conjE)
    fix key' it' assume a: "(A(key \<mapsto> inflight it)) key' = Some it'" "li_state it' = ItemDone"
    then have n: "key' \<noteq> key" and A: "A key' = Some it'" by (auto simp: inflight_def split: if_splits)
    from A have "key' \<noteq> MapKey 0" using qinvD(1) [OF q A] by (auto simp: key_ok_def)
    with n k0 have "file_of key' \<noteq> file_of key" using file_of_inj by blast
    with fs' qinvD(4) [OF q A a(2)] show "\<exists>content. fs' (file_of key') = Some content \<and> whole c (li_seg it') content"
      by simp
  qed
  moreover have "distinct (map lf_key (futs @ [f]))"
    using nf qinvD(2) [OF q] f(1) by (fastforce simp: distinct_append)
  ultimately show ?thesis
    using q k by (simp add: qinv_def)
qed

lemma due_queued: "due now it \<Longrightarrow> is_queued it"
  by (auto simp: due_def is_queued_def split: live_item_state.splits)

lemma find_due_Some:
  assumes "bt_wf m" "find_due now m = Some (k, it)"
  shows "map_of m k = Some it \<and> is_queued it"
proof -
  from assms(2) obtain i where "i < length m" "m ! i = (k, it)" "due now it"
    by (auto simp: find_due_def find_Some_iff dest: sym)
  with bt_wf_map_of [OF assms(1), of k it] due_queued show ?thesis by (metis nth_mem)
qed

lemma take_for_dispatch_cases:
  assumes "st_inv c mk st fs futs" "take_for_dispatch now st = Some (key, s, st')"
  obtains it where "live_item_at st key = Some it" "is_queued it" "s = li_seg it"
    "live_item_at st' = (live_item_at st)(key \<mapsto> inflight it)" "ls_head st' = ls_head st"
    "ls_map_seen st' = ls_map_seen st" "bt_wf (ls_segs st')" "bt_wf (ls_maps st')" "low st' = low st"
proof -
  note goal = that
  from assms(1) have wf: "bt_wf (ls_segs st)" "bt_wf (ls_maps st)" by (auto simp: st_inv_def)
  have bound: thesis if b: "take_bound now st = Some (key, s, st')"
  proof (cases "find_due now (ls_maps st)")
    case (Some e)
    obtain k it where e: "e = (k, it)" by (cases e)
    with Some b have "key = MapKey k" "s = li_seg it" "st' = st\<lparr>ls_maps := bt_insert k (inflight it) (ls_maps st)\<rparr>"
      by (auto simp: take_bound_def)
    with find_due_Some [OF wf(2)] Some e wf show ?thesis
      by (intro goal [of it]) (auto simp: at_maps bt_wf_insert low_def map_of_bt_insert)
  next
    case None
    with b obtain k it where e: "find_due now (ls_segs st) = Some (k, it)"
      by (auto simp: take_bound_def split: option.splits)
    with None b have "key = SegKey k" "s = li_seg it" "st' = st\<lparr>ls_segs := bt_insert k (inflight it) (ls_segs st)\<rparr>"
      by (auto simp: take_bound_def)
    with find_due_Some [OF wf(1) e] wf show ?thesis
      by (intro goal [of it]) (auto simp: at_segs bt_wf_insert low_def)
  qed
  show thesis
  proof (cases "\<exists>m. ls_leading st = Some m \<and> due now m")
    case True
    then obtain m where m: "ls_leading st = Some m" "due now m" by blast
    with assms(2) have "key = LeadingMap" "s = li_seg m" "st' = st\<lparr>ls_leading := Some (inflight m)\<rparr>"
      by (auto simp: take_for_dispatch_def)
    with m wf show ?thesis
      by (intro goal [of m]) (auto simp: at_leading due_queued low_def)
  next
    case False
    with assms(2) have "take_bound now st = Some (key, s, st')"
      by (auto simp: take_for_dispatch_def split: option.splits if_splits)
    then show ?thesis by (rule bound)
  qed
qed

section \<open>The recorder\<close>

fun rank :: "live_key \<Rightarrow> nat option" where
  "rank LeadingMap = None"
| "rank (MapKey k) = Some (2 * k)"
| "rank (SegKey k) = Some (2 * k + 1)"

definition ranks :: "(live_key \<times> segment \<times> bytes) list \<Rightarrow> nat list" where
  "ranks es = List.map_filter (\<lambda>e. rank (fst e)) es"

definition log_inv :: "live_cfg \<Rightarrow> bytes \<Rightarrow> nat \<Rightarrow> live_rec \<Rightarrow> bool" where
  "log_inv c base head0 r \<longleftrightarrow>
     lr_sink r = base @ concat (map (\<lambda>(key, s, content). content) (lr_log r))
     \<and> sorted_wrt (<) (ranks (lr_log r)) \<and> (\<forall>x \<in> set (ranks (lr_log r)). 2 * head0 \<le> x \<and> x < low (lr_st r))
     \<and> (\<forall>(key, s, content) \<in> set (lr_log r). whole c s content) \<and> head0 \<le> ls_head (lr_st r)"

definition rec_inv :: "live_cfg \<Rightarrow> (nat \<Rightarrow> bytes) \<Rightarrow> bytes \<Rightarrow> nat \<Rightarrow> live_rec \<Rightarrow> bool" where
  "rec_inv c mk base head0 r \<longleftrightarrow> st_inv c mk (lr_st r) (lr_files r) (lr_futs r) \<and> log_inv c base head0 r"

lemma ranks_snoc: "ranks (es @ [(key, s, content)]) = ranks es @ (case rank key of None \<Rightarrow> [] | Some x \<Rightarrow> [x])"
  by (cases key) (simp_all add: ranks_def List.map_filter_def)

lemma log_inv_mono:
  assumes "log_inv c base head0 r" "lr_sink r' = lr_sink r" "lr_log r' = lr_log r"
    "low (lr_st r) \<le> low (lr_st r')" "ls_head (lr_st r) \<le> ls_head (lr_st r')"
  shows "log_inv c base head0 r'"
  using assms by (fastforce simp: log_inv_def)

lemma dispatch_inv:
  assumes "rec_inv c mk base head0 r" "dispatch n c ok now r = (True, r'')"
  shows "rec_inv c mk base head0 r''"
  using assms
proof (induction n arbitrary: r)
  case (Suc n)
  show ?case
  proof (cases "length (lr_futs r) < lc_conn c \<and> take_for_dispatch now (lr_st r) \<noteq> None")
    case True
    then obtain key s st' where t: "take_for_dispatch now (lr_st r) = Some (key, s, st')" by auto
    from Suc.prems(1) have q: "st_inv c mk (lr_st r) (lr_files r) (lr_futs r)" and l: "log_inv c base head0 r"
      by (auto simp: rec_inv_def)
    from take_for_dispatch_cases [OF q t] obtain it where it: "live_item_at (lr_st r) key = Some it" "is_queued it" "s = li_seg it"
      "live_item_at st' = (live_item_at (lr_st r))(key \<mapsto> inflight it)" "ls_head st' = ls_head (lr_st r)"
      "ls_map_seen st' = ls_map_seen (lr_st r)" "bt_wf (ls_segs st')" "bt_wf (ls_maps st')" "low st' = low (lr_st r)"
      by metis
    define f where "f = \<lparr>lf_key = key, lf_seg = s, lf_mem = (if sg_key s = None then None else Some []), lf_attempt = 1\<rparr>"
    define r' where "r' = r\<lparr>lr_st := st', lr_futs := lr_futs r @ [f],
      lr_files := (if sg_key s = None then open_target key s (lr_files r) else lr_files r)\<rparr>"
    have "qinv c mk (live_item_at st') (ls_head st') (ls_map_seen st') (lr_files r') (lr_futs r')"
      unfolding it(4,5,6)
      using qinv_start [of c mk "live_item_at (lr_st r)" "ls_head (lr_st r)" "ls_map_seen (lr_st r)" "lr_files r" "lr_futs r" key it f "lr_files r'"]
        q it by (auto simp: st_inv_def f_def r'_def open_target_def Let_def)
    then have "rec_inv c mk base head0 r'"
      using it l log_inv_mono [OF l, of r'] by (auto simp: rec_inv_def st_inv_def r'_def)
    moreover have "dispatch n c ok now r' = (True, r'')"
      using Suc.prems(2) True t by (simp add: Let_def r'_def f_def split: if_splits)
    ultimately show ?thesis by (rule Suc.IH)
  qed (use Suc.prems in \<open>auto split: option.splits if_splits\<close>)
qed simp

section \<open>Splicing\<close>

lemma splice_key_Spliced:
  assumes "splice_key room key ms taken st' fs sink = Spliced k n m st2 fs2 sink2"
  obtains content where "k = key" "m = ms" "st2 = st'" "fs (file_of key) = Some content"
    "sink2 = sink @ content" "fs2 = fs(file_of key := None)" "n = length content"
  using assms
  by (auto simp: splice_key_def splice_seg_def Let_def split: option.splits if_splits prod.splits)

lemma length_bt_remove: "bt_wf m \<Longrightarrow> map_of m k = Some it \<Longrightarrow> length m = Suc (length (bt_remove k m))"
proof (induction m)
  case (Cons e m)
  show ?case
  proof (cases "fst e = k")
    case True
    with Cons.prems(1) have "\<forall>x \<in> set m. fst x \<noteq> k" by (auto simp: bt_wf_def)
    with True show ?thesis by (simp add: bt_remove_def)
  next
    case False
    with Cons show ?thesis by (cases e) (auto simp: bt_remove_def bt_wf_def)
  qed
qed simp

text \<open>What a splice does to the queue: the item was done, it is gone, the rest stays.\<close>

lemma splice_one_cases:
  assumes "splice_one su room st fs sink = Spliced key n ms st' fs' sink'" "st_inv c mk st fs futs"
  obtains it content where "live_item_at st key = Some it" "li_state it = ItemDone" "fs (file_of key) = Some content"
    "sink' = sink @ content" "fs' = fs(file_of key := None)" "n = length content"
    "live_item_at st' = (live_item_at st)(key := None)" "ls_map_seen st' = ls_map_seen st"
    "bt_wf (ls_segs st')" "bt_wf (ls_maps st')"
    "ls_head st' = (case key of SegKey _ \<Rightarrow> ls_head st + 1 | _ \<Rightarrow> ls_head st)"
    "\<And>k. key = MapKey k \<Longrightarrow> k = ls_head st"
    "\<And>k. key = SegKey k \<Longrightarrow> k = ls_head st \<and> map_of (ls_maps st) k = None"
    "ms = (case key of SegKey _ \<Rightarrow> dur_ms (li_seg it) | _ \<Rightarrow> 0)" "ls_spliced st' = ls_spliced st + 1"
    "queue_len st = Suc (queue_len st')"
proof -
  note goal = that
  from assms(2) have wf: "bt_wf (ls_segs st)" "bt_wf (ls_maps st)" by (auto simp: st_inv_def)
  note rem_len = length_bt_remove
  show thesis
  proof (cases "ls_leading st")
    case (Some m)
    then have d: "li_state m = ItemDone" using assms(1) by (auto simp: splice_one_def split: if_splits)
    from assms(1) Some d show ?thesis
      unfolding splice_one_def Let_def
      by (auto elim!: splice_key_Spliced intro!: goal [of m] simp: wf at_leading fun_eq_iff split: live_key.splits)
        (case_tac x; simp)+
  next
    case None
    note lead = this
    show ?thesis
    proof (cases "map_of (ls_maps st) (ls_head st)")
      case (Some m)
      then have d: "li_state m = ItemDone" using assms(1) lead by (auto simp: splice_one_def split: if_splits)
      from assms(1) have "splice_key room (MapKey (ls_head st)) 0 (st\<lparr>ls_maps := bt_remove (ls_head st) (ls_maps st)\<rparr>)
          (st\<lparr>ls_maps := bt_remove (ls_head st) (ls_maps st), ls_written_map := Some (map_stable_key su (li_seg m)),
             ls_spliced := ls_spliced st + 1\<rparr>) fs sink = Spliced key n ms st' fs' sink'"
        using Some d lead by (simp add: splice_one_def Let_def)
      then show ?thesis
        using Some d lead rem_len [OF wf(2) Some]
        by (elim splice_key_Spliced; intro goal [of m]) (auto simp: wf lq_wf_remove map_of_bt_remove fun_eq_iff, case_tac x, auto simp: map_of_bt_remove)
    next
      case None
      with assms(1) lead obtain it where it: "map_of (ls_segs st) (ls_head st) = Some it" "li_state it = ItemDone"
        by (auto simp: splice_one_def split: option.splits if_splits)
      from assms(1) have "splice_key room (SegKey (ls_head st)) (dur_ms (li_seg it)) (st\<lparr>ls_segs := bt_remove (ls_head st) (ls_segs st)\<rparr>)
          (st\<lparr>ls_segs := bt_remove (ls_head st) (ls_segs st), ls_head := ls_head st + 1,
             ls_spliced := ls_spliced st + 1\<rparr>) fs sink = Spliced key n ms st' fs' sink'"
        using None it lead by (simp add: splice_one_def Let_def)
      then show ?thesis
        using None it lead rem_len [OF wf(1) it(1)]
        by (elim splice_key_Spliced; intro goal [of it]) (auto simp: wf lq_wf_remove map_of_bt_remove fun_eq_iff, case_tac x, auto simp: map_of_bt_remove)
    qed
  qed
qed

lemma splice_inv:
  assumes r: "rec_inv c mk base head0 r"
    and sp: "splice_one (lc_stable c) room (lr_st r) (lr_files r) (lr_sink r) = Spliced key n ms st fs sink"
    and r': "lr_st r' = st" "lr_files r' = fs" "lr_sink r' = sink" "lr_futs r' = lr_futs r"
      "lr_log r' = lr_log r @ [(key, li_seg (the (live_item_at (lr_st r) key)), drop (length (lr_sink r)) sink)]"
  shows "rec_inv c mk base head0 r'"
proof (rule splice_one_cases [OF sp])
  from r show "st_inv c mk (lr_st r) (lr_files r) (lr_futs r)" by (simp add: rec_inv_def)
next
  fix it content
  assume it: "live_item_at (lr_st r) key = Some it" "li_state it = ItemDone" "lr_files r (file_of key) = Some content"
    and new: "sink = lr_sink r @ content" "fs = (lr_files r)(file_of key := None)"
      "live_item_at st = (live_item_at (lr_st r))(key := None)" "ls_map_seen st = ls_map_seen (lr_st r)"
      "bt_wf (ls_segs st)" "bt_wf (ls_maps st)"
      "ls_head st = (case key of SegKey _ \<Rightarrow> ls_head (lr_st r) + 1 | _ \<Rightarrow> ls_head (lr_st r))"
    and km: "\<And>k. key = MapKey k \<Longrightarrow> k = ls_head (lr_st r)"
    and ks: "\<And>k. key = SegKey k \<Longrightarrow> k = ls_head (lr_st r) \<and> map_of (ls_maps (lr_st r)) k = None"
  from r have q: "st_inv c mk (lr_st r) (lr_files r) (lr_futs r)" and l: "log_inv c base head0 r"
    by (auto simp: rec_inv_def)
  let ?A = "live_item_at (lr_st r)"
  from q have qi: "qinv c mk ?A (ls_head (lr_st r)) (ls_map_seen (lr_st r)) (lr_files r) (lr_futs r)"
    by (simp add: st_inv_def)
  have none: "?A k = None" if "\<not> key_ok mk (ls_head (lr_st r)) (ls_map_seen (lr_st r)) k" for k
    using qinvD(1) [OF qi, of k] that by (cases "?A k") auto
  have k0: "key \<noteq> MapKey 0" using qinvD(1) [OF qi it(1)] by (auto simp: key_ok_def)
  have "qinv c mk (?A(key := None)) (ls_head st) (ls_map_seen (lr_st r)) fs (lr_futs r)"
  proof (rule qinv_restrict [OF qi])
    show "ls_head (lr_st r) \<le> ls_head st" using new(7) by (simp split: live_key.splits)
  next
    fix k
    show "(?A(key := None)) k = ?A k \<or> ((?A(key := None)) k = None \<and>
      ((\<exists>it. ?A k = Some it \<and> li_state it \<noteq> Inflight) \<or> (\<exists>i<ls_head st. k = MapKey i)))"
      using it by auto
  next
    fix k assume k: "k < ls_head st"
    show "(?A(key := None)) (SegKey k) = None"
      using k new(7) none [of "SegKey k"] ks by (cases "k = ls_head (lr_st r)") (auto simp: key_ok_def split: live_key.splits)
    show "(?A(key := None)) (MapKey k) = None"
      using k new(7) none [of "MapKey k"] ks by (cases "k = ls_head (lr_st r)") (auto simp: key_ok_def split: live_key.splits)
  next
    fix k it' assume a: "(?A(key := None)) k = Some it'" "li_state it' = ItemDone"
    then have "k \<noteq> key" "?A k = Some it'" by (auto split: if_splits)
    moreover from this have "k \<noteq> MapKey 0" using qinvD(1) [OF qi, of k it'] by (auto simp: key_ok_def)
    ultimately have "file_of k \<noteq> file_of key" using file_of_inj k0 by blast
    then show "fs (file_of k) = lr_files r (file_of k)" by (simp add: new)
  qed
  then have st': "st_inv c mk st fs (lr_futs r)" using new by (simp add: st_inv_def)
  have w: "whole c (li_seg it) content" using qinvD(4) [OF qi it(1,2)] it(3) by auto
  have maps: "map_of (ls_maps st) k = (if key = MapKey k then None else map_of (ls_maps (lr_st r)) k)" for k
    using fun_cong [OF new(3), of "MapKey k"] by auto
  have bound: "case rank key of None \<Rightarrow> low (lr_st r) \<le> low st
    | Some x \<Rightarrow> low (lr_st r) \<le> x \<and> x < low st \<and> 2 * ls_head (lr_st r) \<le> x"
    using km ks it(1) new(7) maps
    by (cases key) (auto simp: low_def)
  have "log_inv c base head0 r'"
    unfolding log_inv_def r' ranks_snoc
    using l bound w it(1) new(1,7)
    by (auto simp: log_inv_def sorted_wrt_append split: option.splits live_key.splits)
  with st' r' show ?thesis by (simp add: rec_inv_def)
qed

lemma splice_batch_inv:
  assumes "rec_inv c mk base head0 r" "splice_batch n c room moved r = (True, r'')"
  shows "rec_inv c mk base head0 r''"
  using assms
proof (induction n arbitrary: moved r)
  case (Suc n)
  show ?case
  proof (cases "splice_one (lc_stable c) room (lr_st r) (lr_files r) (lr_sink r)")
    case (Spliced key k ms st fs sink)
    let ?r = "r\<lparr>lr_st := st, lr_files := fs, lr_sink := sink, lr_ms := lr_ms r + ms, lr_dirty := True,
      lr_log := lr_log r @ [(key, li_seg (the (live_item_at (lr_st r) key)), drop (length (lr_sink r)) sink)]\<rparr>"
    have "rec_inv c mk base head0 ?r"
      by (rule splice_inv [OF Suc.prems(1) Spliced]) simp_all
    with Suc.IH [of ?r "moved + k"] Suc.prems(2) Spliced show ?thesis
      by (auto simp: Let_def split: if_splits)
  qed (use Suc.prems in auto)
qed simp

text \<open>The fuel of \<open>live_pass\<close> is enough: more of it changes nothing.\<close>

lemma splice_batch_fuel:
  assumes "st_inv c mk (lr_st r) (lr_files r) (lr_futs r)" "rec_inv c mk base head0 r" "queue_len (lr_st r) < n" "n \<le> m"
  shows "splice_batch m c room moved r = splice_batch n c room moved r"
  using assms
proof (induction n arbitrary: m moved r)
  case (Suc n)
  then obtain m' where m: "m = Suc m'" "n \<le> m'" by (cases m) auto
  show ?case
  proof (cases "splice_one (lc_stable c) room (lr_st r) (lr_files r) (lr_sink r)")
    case (Spliced key k ms st fs sink)
    let ?r = "r\<lparr>lr_st := st, lr_files := fs, lr_sink := sink, lr_ms := lr_ms r + ms, lr_dirty := True,
      lr_log := lr_log r @ [(key, li_seg (the (live_item_at (lr_st r) key)), drop (length (lr_sink r)) sink)]\<rparr>"
    have i: "rec_inv c mk base head0 ?r"
      by (rule splice_inv [OF Suc.prems(2) Spliced]) simp_all
    have "queue_len st < n"
      using Suc.prems(3) by - (rule splice_one_cases [OF Spliced Suc.prems(1)], simp)
    then have "splice_batch m' c room (moved + k) ?r = splice_batch n c room (moved + k) ?r"
      using Suc.IH [of ?r m' "moved + k"] i m by (simp add: rec_inv_def)
    with Spliced m show ?thesis by (simp add: Let_def)
  qed (use m in auto)
qed simp

section \<open>Fetching\<close>

lemma find_fut_Some: "find_fut key futs = Some f \<Longrightarrow> f \<in> set futs \<and> lf_key f = key"
  by (auto simp: find_fut_def find_Some_iff)

lemma done_inv_other_file:
  assumes q: "qinv c mk A head seen fs futs" and f: "f \<in> set futs" and fs': "\<And>k. k \<noteq> file_of (lf_key f) \<Longrightarrow> fs' k = fs k"
  shows "qinv c mk A head seen fs' futs"
proof -
  have "done_inv c A fs'"
    unfolding done_inv_def
  proof (intro allI impI, elim conjE)
    fix key it assume a: "A key = Some it" "li_state it = ItemDone"
    have "key \<noteq> lf_key f" using qinvD(3) [OF q f] a by (auto simp: fut_inv_def)
    moreover have "lf_key f \<noteq> MapKey 0" using qinvD(3) [OF q f] by (simp add: fut_inv_def)
    moreover have "key \<noteq> MapKey 0" using qinvD(1) [OF q a(1)] by (auto simp: key_ok_def)
    ultimately have "file_of key \<noteq> file_of (lf_key f)" using file_of_inj by blast
    with fs' qinvD(4) [OF q a] show "\<exists>content. fs' (file_of key) = Some content \<and> whole c (li_seg it) content" by simp
  qed
  with q show ?thesis by (simp add: qinv_def)
qed

lemma put_fut_keys: "map lf_key (put_fut g futs) = map lf_key futs"
  by (induction futs) (auto simp: put_fut_def)

lemma qinv_put_fut:
  assumes q: "qinv c mk A head seen fs futs" and f: "f \<in> set futs"
    and g: "lf_key g = lf_key f" "lf_seg g = lf_seg f" "lf_mem g = None \<longleftrightarrow> lf_mem f = None"
  shows "qinv c mk A head seen fs (put_fut g futs)"
proof -
  have "fut_inv A head g" using qinvD(3) [OF q f] g by (auto simp: fut_inv_def split: option.splits)
  then have "fut_inv A head h" if "h \<in> set (put_fut g futs)" for h
    using that qinvD(3) [OF q] by (auto simp: put_fut_def)
  with q show ?thesis by (simp add: qinv_def put_fut_keys)
qed

lemma qinv_drop_fut:
  assumes "qinv c mk A head seen fs futs"
  shows "qinv c mk A head seen fs (drop_fut key futs)"
  using assms by (auto simp: qinv_def drop_fut_def distinct_map_filter)

lemma fetch_begin_inv:
  assumes "rec_inv c mk base head0 r" "find_fut key (lr_futs r) = Some f"
  shows "rec_inv c mk base head0 (fetch_begin partial f r)"
proof -
  from find_fut_Some [OF assms(2)] have f: "f \<in> set (lr_futs r)" by simp
  have "qinv c mk A head seen ((lr_files r)(file_of (lf_key f) := x)) (lr_futs r)"
    if "qinv c mk A head seen (lr_files r) (lr_futs r)" for A head seen x
    by (rule done_inv_other_file [OF that f]) simp
  with assms(1) show ?thesis
    by (auto simp: fetch_begin_def begin_file_def Let_def rec_inv_def st_inv_def log_inv_def split: option.splits)
qed

lemma fetch_data_inv:
  assumes "rec_inv c mk base head0 r" "find_fut key (lr_futs r) = Some f"
  shows "rec_inv c mk base head0 (fetch_data bs f r)"
proof -
  from find_fut_Some [OF assms(2)] have f: "f \<in> set (lr_futs r)" by simp
  have fileq: "qinv c mk A head seen ((lr_files r)(file_of (lf_key f) := x)) (lr_futs r)"
    if "qinv c mk A head seen (lr_files r) (lr_futs r)" for A head seen x
    by (rule done_inv_other_file [OF that f]) simp
  have mem: "qinv c mk A head seen (lr_files r) (put_fut (f\<lparr>lf_mem := Some x\<rparr>) (lr_futs r))"
    if "qinv c mk A head seen (lr_files r) (lr_futs r)" "lf_mem f = Some y" for A head seen x y
    by (rule qinv_put_fut [OF that(1) f]) (simp_all add: that)
  from assms(1) fileq mem show ?thesis
    by (auto simp: fetch_data_def data_file_def data_futs_def rec_inv_def st_inv_def log_inv_def split: option.splits)
qed

lemma live_item_set_at:
  "live_item_at st key \<noteq> None \<Longrightarrow> live_item_at (live_item_set key it st) = (live_item_at st)(key \<mapsto> it)"
  by (cases key) (auto simp: at_leading at_maps at_segs)

lemma live_item_set_frame:
  "ls_head (live_item_set key it st) = ls_head st \<and> ls_map_seen (live_item_set key it st) = ls_map_seen st
   \<and> low (live_item_set key it st) = low st
   \<and> (bt_wf (ls_segs st) \<longrightarrow> bt_wf (ls_segs (live_item_set key it st)))
   \<and> (bt_wf (ls_maps st) \<longrightarrow> bt_wf (ls_maps (live_item_set key it st)))"
  by (cases key) (auto simp: low_def map_of_bt_insert bt_wf_insert)

lemma fetch_result_whole:
  assumes "fut_inv A head f" "fetch_result c f fs = Inr res"
  shows "\<exists>content. (if fst res = 0 then Some (snd res) else fs (file_of (lf_key f))) = Some content \<and> whole c (lf_seg f) content"
proof (cases "lf_mem f")
  case None
  with assms have k: "sg_key (lf_seg f) = None" by (auto simp: fut_inv_def)
  from None assms(2) have e: "snd res = []" "fst res = (case fs (file_of (lf_key f)) of None \<Rightarrow> 0 | Some d \<Rightarrow> length d)"
    "sg_len (lf_seg f) = None \<or> sg_len (lf_seg f) = Some (fst res)"
    by (auto simp: fetch_result_def Let_def split: if_splits)
  show ?thesis
  proof (cases "fs (file_of (lf_key f))")
    case None
    with e k show ?thesis by (auto simp: whole_def)
  next
    case (Some d)
    with e k show ?thesis by (auto simp: whole_def)
  qed
next
  case (Some b)
  with assms have "sg_key (lf_seg f) \<noteq> None" by (auto simp: fut_inv_def)
  with Some assms(2) show ?thesis
    by (auto simp: fetch_result_def whole_def split: if_splits option.splits sum.splits)
qed

text \<open>A future that is over leaves; its item is no longer in flight.\<close>

lemma qinv_finish:
  assumes q: "qinv c mk A head seen fs futs" and f: "f \<in> set futs" and it: "A (lf_key f) = Some it"
    and it': "li_state it' \<noteq> Inflight"
    and fs': "\<And>k. k \<noteq> file_of (lf_key f) \<Longrightarrow> fs' k = fs k"
    and ready: "li_state it' = ItemDone \<Longrightarrow> \<exists>content. fs' (file_of (lf_key f)) = Some content \<and> whole c (li_seg it') content"
  shows "qinv c mk (A(lf_key f \<mapsto> it')) head seen fs' (drop_fut (lf_key f) futs)"
proof -
  have q1: "qinv c mk A head seen fs' futs" by (rule done_inv_other_file [OF q f fs'])
  have "fut_inv (A(lf_key f \<mapsto> it')) head g" if "g \<in> set (drop_fut (lf_key f) futs)" for g
    using that qinvD(3) [OF q, of g] by (auto simp: drop_fut_def fut_inv_def)
  moreover have "done_inv c (A(lf_key f \<mapsto> it')) fs'"
    using q1 ready by (auto simp: qinv_def done_inv_def)
  moreover have "\<forall>key. (A(lf_key f \<mapsto> it')) key \<noteq> None \<longrightarrow> key_ok mk head seen key"
    using q1 it by (auto simp: qinv_def)
  ultimately show ?thesis
    using qinv_drop_fut [OF q1, of "lf_key f"] by (simp add: qinv_def)
qed

lemma rec_inv_finish:
  assumes r: "rec_inv c mk base head0 r" and f: "f \<in> set (lr_futs r)"
    and it: "live_item_at (lr_st r) (lf_key f) = Some it" "li_state it' \<noteq> Inflight"
    and fs': "\<And>k. k \<noteq> file_of (lf_key f) \<Longrightarrow> lr_files r' k = lr_files r k"
    and ready: "li_state it' = ItemDone \<Longrightarrow> \<exists>content. lr_files r' (file_of (lf_key f)) = Some content \<and> whole c (li_seg it') content"
    and r': "lr_st r' = live_item_set (lf_key f) it' (lr_st r)" "lr_futs r' = drop_fut (lf_key f) (lr_futs r)"
      "lr_sink r' = lr_sink r" "lr_log r' = lr_log r"
  shows "rec_inv c mk base head0 r'"
proof -
  note frame = live_item_set_frame [of "lf_key f" it' "lr_st r"]
  from r have q: "qinv c mk (live_item_at (lr_st r)) (ls_head (lr_st r)) (ls_map_seen (lr_st r)) (lr_files r) (lr_futs r)"
    and wf: "bt_wf (ls_segs (lr_st r))" "bt_wf (ls_maps (lr_st r))" and l: "log_inv c base head0 r"
    by (auto simp: rec_inv_def st_inv_def)
  have "qinv c mk ((live_item_at (lr_st r))(lf_key f \<mapsto> it')) (ls_head (lr_st r)) (ls_map_seen (lr_st r))
      (lr_files r') (lr_futs r')"
    using qinv_finish [OF q f it(1,2) fs' ready] r' by simp
  then have "st_inv c mk (lr_st r') (lr_files r') (lr_futs r')"
    using frame wf it(1) by (simp add: st_inv_def r' live_item_set_at)
  moreover have "log_inv c base head0 r'"
    using frame by (intro log_inv_mono [OF l]) (simp_all add: r')
  ultimately show ?thesis by (simp add: rec_inv_def)
qed

lemma rec_inv_drop_fut:
  assumes "rec_inv c mk base head0 r" "f \<in> set (lr_futs r)" "\<And>k. k \<noteq> file_of (lf_key f) \<Longrightarrow> lr_files r' k = lr_files r k"
    "lr_st r' = lr_st r" "lr_futs r' = drop_fut (lf_key f) (lr_futs r)" "lr_sink r' = lr_sink r" "lr_log r' = lr_log r"
  shows "rec_inv c mk base head0 r'"
proof -
  from assms(1) have q: "qinv c mk (live_item_at (lr_st r)) (ls_head (lr_st r)) (ls_map_seen (lr_st r)) (lr_files r) (lr_futs r)"
    by (auto simp: rec_inv_def st_inv_def)
  from qinv_drop_fut [OF done_inv_other_file [OF q assms(2,3)]] assms show ?thesis
    by (auto simp: rec_inv_def st_inv_def log_inv_def)
qed

lemma fut_ok_inv:
  assumes r: "rec_inv c mk base head0 r" and f: "f \<in> set (lr_futs r)"
    and res: "fetch_result c f (lr_files r) = Inr res" and ok: "fut_ok c ok f res r = Running r'"
  shows "rec_inv c mk base head0 r'"
proof -
  from r have q: "qinv c mk (live_item_at (lr_st r)) (ls_head (lr_st r)) (ls_map_seen (lr_st r)) (lr_files r) (lr_futs r)"
    by (auto simp: rec_inv_def st_inv_def)
  note fi = qinvD(3) [OF q f]
  from fetch_result_whole [OF fi res] obtain content where
    w: "(if fst res = 0 then Some (snd res) else lr_files r (file_of (lf_key f))) = Some content" "whole c (lf_seg f) content"
    by blast
  show ?thesis
  proof (cases "live_item_at (lr_st r) (lf_key f)")
    case None
    with ok show ?thesis
      by (intro rec_inv_drop_fut [OF r f]) (auto simp: fut_ok_def Let_def split: if_splits)
  next
    case (Some it)
    with fi have "li_seg it = lf_seg f" by (auto simp: fut_inv_def)
    with Some ok w show ?thesis
      by (intro rec_inv_finish [OF r f Some, of "it\<lparr>li_state := ItemDone, li_attempts := 0\<rparr>"])
        (auto simp: fut_ok_def Let_def split: if_splits)
  qed
qed

lemma fut_err_inv:
  assumes r: "rec_inv c mk base head0 r" and f: "f \<in> set (lr_futs r)"
    and ok: "fut_err now e f r = Running r' \<or> fut_err now e f r = Over (Inr x) r'"
  shows "rec_inv c mk base head0 r'"
proof (cases "live_item_at (lr_st r) (lf_key f) = None \<or> e = HttpCancelled")
  case True
  with ok show ?thesis
    by (intro rec_inv_drop_fut [OF r f]) (auto simp: fut_err_def Let_def split: if_splits option.splits)
next
  case False
  then obtain it where it: "live_item_at (lr_st r) (lf_key f) = Some it" by auto
  show ?thesis
  proof (cases "LIVE_SEG_MAX_ATTEMPTS \<le> li_attempts it + 1")
    case True
    with ok it False show ?thesis
      by (intro rec_inv_finish [OF r f it, of "it\<lparr>li_state := ItemFailed, li_attempts := li_attempts it + 1\<rparr>"])
        (auto simp: fut_err_def Let_def split: if_splits)
  next
    case False2: False
    with ok it False show ?thesis
      by (intro rec_inv_finish [OF r f it, of "it\<lparr>li_state := Queued (Some (now + 1000 * (1 + 2 * (li_attempts it + 1)))),
          li_attempts := li_attempts it + 1\<rparr>"])
        (auto simp: fut_err_def Let_def split: if_splits)
  qed
qed

section \<open>Passage, step, run\<close>

text \<open>The outcome is the recorder \<open>r\<close>, still running or ended without an error.\<close>

definition sound_end :: "live_outcome \<Rightarrow> live_rec \<Rightarrow> bool" where
  "sound_end res r \<longleftrightarrow> res = Running r \<or> (\<exists>x. res = Over (Inr x) r)"

lemma rec_inv_frame:
  assumes "rec_inv c mk base head0 r" "lr_st r' = lr_st r" "lr_files r' = lr_files r" "lr_futs r' = lr_futs r"
    "lr_sink r' = lr_sink r" "lr_log r' = lr_log r"
  shows "rec_inv c mk base head0 r'"
  using assms by (simp add: rec_inv_def log_inv_def)

lemma live_pass_inv:
  assumes r: "rec_inv c mk base head0 r" and e: "sound_end (live_pass c io now r) r'"
  shows "rec_inv c mk base head0 r'"
proof -
  obtain ok1 r1 where 1: "splice_batch (Suc (queue_len (lr_st r))) c (io_room io) 0 r = (ok1, r1)"
    by (cases "splice_batch (Suc (queue_len (lr_st r))) c (io_room io) 0 r")
  with e have ok1: "ok1 = True" by (cases ok1) (auto simp: sound_end_def live_pass_def simp del: splice_batch.simps)
  have i1: "rec_inv c mk base head0 r1" using splice_batch_inv [OF r] 1 ok1 by blast
  define r2 where "r2 = (if lr_dirty r1 \<and> lr_save_due r1 \<le> now
    then (save_live_ctrl c (io_ctrl io) r1)\<lparr>lr_dirty := False, lr_save_due := now + CTRL_SAVE_INTERVAL\<rparr> else r1)"
  have i2: "rec_inv c mk base head0 r2"
    by (rule rec_inv_frame [OF i1]) (simp_all add: r2_def save_live_ctrl_def)
  obtain ok3 r3 where 3: "dispatch (lc_conn c) c (io_open io) now r2 = (ok3, r3)"
    by (cases "dispatch (lc_conn c) c (io_open io) now r2")
  have pass: "live_pass c io now r = (if ok3 then (case end_check c now r3 of Some x \<Rightarrow> Over x r3
      | None \<Rightarrow> if \<not> lr_reloading r3 \<and> \<not> ls_reload_stopped (lr_st r3) \<and> lr_next_reload r3 \<le> now
          then Running (r3\<lparr>lr_reloading := True\<rparr>) else Running r3) else Over (Inl HttpIo) r3)"
    using 1 3 ok1 unfolding r2_def live_pass_def
    by (cases ok3) (simp_all add: Let_def del: splice_batch.simps dispatch.simps)
  have ok3: "ok3 = True" using e unfolding sound_end_def pass by (cases ok3) auto
  have i3: "rec_inv c mk base head0 r3" using dispatch_inv [OF i2] 3 ok3 by blast
  have "r' = r3 \<or> r' = r3\<lparr>lr_reloading := True\<rparr>"
    using e unfolding sound_end_def pass ok3 by (auto split: option.splits if_splits)
  then show ?thesis
    using i3 rec_inv_frame [OF i3, of "r3\<lparr>lr_reloading := True\<rparr>"] by auto
qed

lemma then_pass_inv:
  assumes "\<And>r1. sound_end res r1 \<Longrightarrow> rec_inv c mk base head0 r1" "sound_end (then_pass c io now res) r'"
  shows "rec_inv c mk base head0 r'"
  using assms live_pass_inv by (cases res) (auto simp: then_pass_def sound_end_def)

definition plans_of :: "(live_io \<times> nat \<times> live_event) list \<Rightarrow> playlist_plan list" where
  "plans_of evs = List.map_filter (\<lambda>(io, now, e). case e of Reloaded (Inr p) \<Rightarrow> Some p | _ \<Rightarrow> None) evs"

lemma reload_done_inv:
  assumes r: "rec_inv c mk base head0 r" and fixed: "\<And>p. res = Inr p \<Longrightarrow> maps_fixed (lc_stable c) mk p"
  shows "rec_inv c mk base head0 (reload_done c now res r)"
proof (cases res)
  case (Inl e)
  define st1 where "st1 = lr_st (reload_done c now res r)"
  have e: "reload_done c now res r = r\<lparr>lr_reloading := False, lr_st := st1, lr_next_reload := lr_next_reload (reload_done c now res r)\<rparr>"
    by (simp add: st1_def reload_done_def Inl Let_def)
  have fr: "ls_segs st1 = ls_segs (lr_st r)" "ls_maps st1 = ls_maps (lr_st r)" "ls_leading st1 = ls_leading (lr_st r)"
      "ls_head st1 = ls_head (lr_st r)" "ls_map_seen st1 = ls_map_seen (lr_st r)"
    by (simp_all add: st1_def reload_done_def Inl Let_def)
  have i: "st_inv c mk st1 (lr_files r) (lr_futs r) \<and> same_low (lr_st r) st1"
    using r by (intro st_inv_same fr) (simp add: rec_inv_def)
  have "rec_inv c mk base head0 (r\<lparr>lr_reloading := False, lr_st := st1, lr_next_reload := x\<rparr>)" for x
    using r i log_inv_mono [of c base head0 r "r\<lparr>lr_reloading := False, lr_st := st1, lr_next_reload := x\<rparr>"]
    by (simp add: rec_inv_def same_low_def)
  then show ?thesis by (subst e)
next
  case (Inr p)
  let ?st1 = "(lr_st r)\<lparr>ls_fail := 0, ls_gone := 0, ls_last_ok := now\<rparr>"
  have 1: "st_inv c mk ?st1 (lr_files r) (lr_futs r) \<and> same_low (lr_st r) ?st1"
    using r by (intro st_inv_same) (auto simp: rec_inv_def)
  obtain st2 fs2 n where 2: "(if pl_parts_only p then (?st1, lr_files r, 0) else apply_plan (lc_stable c) now p ?st1 (lr_files r)) = (st2, fs2, n)"
    by (metis prod_cases3)
  have 3: "st_inv c mk st2 fs2 (lr_futs r) \<and> ls_head (lr_st r) \<le> ls_head st2 \<and> low (lr_st r) \<le> low st2"
  proof (cases "pl_parts_only p")
    case True
    with 1 2 show ?thesis by (auto simp: same_low_def)
  next
    case False
    with 2 have "apply_plan (lc_stable c) now p ?st1 (lr_files r) = (st2, fs2, n)" by simp
    from apply_plan_inv [OF conjunct1 [OF 1] fixed [OF Inr] this] 1 show ?thesis by (simp add: same_low_def)
  qed
  have e: "reload_done c now res r = r\<lparr>lr_reloading := False, lr_st := st2, lr_files := fs2, lr_next_reload := now + lc_interval c\<rparr>"
    using 2 by (cases "pl_parts_only p") (auto simp: reload_done_def Inr Let_def)
  have "log_inv c base head0 (reload_done c now res r)"
    unfolding e by (rule log_inv_mono [of c base head0 r]) (use r 3 in \<open>auto simp: rec_inv_def\<close>)
  with 3 show ?thesis by (simp add: rec_inv_def e)
qed

lemma fetch_retry_keys:
  "fetch_retry c e f = Some g \<Longrightarrow> lf_key g = lf_key f \<and> lf_seg g = lf_seg f \<and> (lf_mem g = None \<longleftrightarrow> lf_mem f = None)"
  by (auto simp: fetch_retry_def split: if_splits)

lemma fetch_failed_inv:
  assumes r: "rec_inv c mk base head0 r" and f: "f \<in> set (lr_futs r)"
    and e: "sound_end (fetch_failed c io now err f r) r'"
  shows "rec_inv c mk base head0 r'"
proof (cases "fetch_retry c err f")
  case None
  with e have "sound_end (then_pass c io now (fut_err now err f r)) r'" by (simp add: fetch_failed_def)
  then show ?thesis
    by (rule then_pass_inv [rotated]) (use fut_err_inv [OF r f] in \<open>auto simp: sound_end_def\<close>)
next
  case (Some g)
  note k = fetch_retry_keys [OF Some]
  from r have q: "qinv c mk (live_item_at (lr_st r)) (ls_head (lr_st r)) (ls_map_seen (lr_st r)) (lr_files r) (lr_futs r)"
    by (auto simp: rec_inv_def st_inv_def)
  from qinv_put_fut [OF q f, of g] k have "rec_inv c mk base head0 (r\<lparr>lr_futs := put_fut g (lr_futs r)\<rparr>)"
    using r by (simp add: rec_inv_def st_inv_def log_inv_def)
  with Some e show ?thesis by (auto simp: fetch_failed_def sound_end_def)
qed

lemma live_step_inv:
  assumes r: "rec_inv c mk base head0 r" and fixed: "\<And>p. e = Reloaded (Inr p) \<Longrightarrow> maps_fixed (lc_stable c) mk p"
    and st: "live_step c io now e r = Some res" and se: "sound_end res r'"
  shows "rec_inv c mk base head0 r'"
proof (cases e)
  case Tick
  with st se live_pass_inv [OF r] show ?thesis by (auto simp: live_step_def)
next
  case CancelLive
  with st se r show ?thesis by (auto simp: live_step_def sound_end_def)
next
  case (Reloaded res')
  with st se have "sound_end (live_pass c io now (reload_done c now res' r)) r'"
    by (auto simp: live_step_def split: if_splits)
  then show ?thesis
    using live_pass_inv [OF reload_done_inv [OF r, of res' now]] fixed Reloaded by blast
next
  case (FetchBegin key partial)
  with st se fetch_begin_inv [OF r] show ?thesis by (auto simp: live_step_def sound_end_def)
next
  case (FetchData key bs)
  with st se fetch_data_inv [OF r] show ?thesis by (auto simp: live_step_def sound_end_def)
next
  case (FetchEnd key ok)
  with st obtain f where f: "find_fut key (lr_futs r) = Some f"
    "res = (case fetch_result c f (lr_files r) of Inr res \<Rightarrow> then_pass c io now (fut_ok c ok f res r)
            | Inl err \<Rightarrow> fetch_failed c io now err f r)"
    by (auto simp: live_step_def)
  note fs = conjunct1 [OF find_fut_Some [OF f(1)]]
  show ?thesis
  proof (cases "fetch_result c f (lr_files r)")
    case (Inl err)
    with f se fetch_failed_inv [OF r fs] show ?thesis by simp
  next
    case (Inr d)
    with f se have "sound_end (then_pass c io now (fut_ok c ok f d r)) r'" by simp
    then show ?thesis
      by (rule then_pass_inv [rotated])
        (use fut_ok_inv [OF r fs Inr] in \<open>auto simp: sound_end_def fut_ok_def Let_def split: if_splits\<close>)
  qed
next
  case (FetchFail key err)
  with st obtain f where f: "find_fut key (lr_futs r) = Some f" "res = fetch_failed c io now err f r"
    by (auto simp: live_step_def)
  with se fetch_failed_inv [OF r conjunct1 [OF find_fut_Some [OF f(1)]]] show ?thesis by simp
qed

lemma live_run_inv:
  assumes "sound_end res r \<Longrightarrow> rec_inv c mk base head0 r" "\<And>r. sound_end res r \<Longrightarrow> rec_inv c mk base head0 r"
    "\<And>p. p \<in> set (plans_of evs) \<Longrightarrow> maps_fixed (lc_stable c) mk p"
    "live_run c evs res = Some res'" "sound_end res' r'"
  shows "rec_inv c mk base head0 r'"
  using assms(2-)
proof (induction evs arbitrary: res)
  case (Cons x evs)
  obtain io now e where x: "x = (io, now, e)" by (cases x)
  from Cons.prems(3) obtain r1 where r1: "res = Running r1" by (cases res) auto
  with Cons.prems(3) x obtain res1 where s: "live_step c io now e r1 = Some res1" "live_run c evs res1 = Some res'"
    by (auto split: option.splits)
  have i1: "rec_inv c mk base head0 r1" using Cons.prems(1) r1 by (simp add: sound_end_def)
  have fx: "maps_fixed (lc_stable c) mk p" if "e = Reloaded (Inr p)" for p
    using Cons.prems(2) that by (simp add: plans_of_def x List.map_filter_def)
  show ?case
  proof (rule Cons.IH [OF _ _ s(2) Cons.prems(4)])
    show "rec_inv c mk base head0 r" if "sound_end res1 r" for r
      using live_step_inv [OF i1 fx s(1) that] by blast
    show "maps_fixed (lc_stable c) mk p" if "p \<in> set (plans_of evs)" for p
      using Cons.prems(2) that by (auto simp: plans_of_def x List.map_filter_def split: option.splits)
  qed
qed simp

lemma slide_window_no_files:
  "slide_window w st fs = (st', fs') \<Longrightarrow> slide_window w st (\<lambda>_. None) = (st', \<lambda>_. None)"
  by (auto simp: slide_window_def Let_def split: if_splits prod.splits)

lemma apply_plan_no_files:
  assumes "apply_plan su now p st fs = (st', fs', n)"
  shows "apply_plan su now p st (\<lambda>_. None) = (st', \<lambda>_. None, n)"
proof (cases "pl_segments p")
  case (Cons first rest)
  obtain st1 fs1 where 1: "slide_window (sg_seq first) (st\<lparr>ls_tail := max (ls_tail st) (sg_seq (last (first # rest)))\<rparr>) fs = (st1, fs1)"
    by (metis prod.exhaust)
  from assms 1 slide_window_no_files [OF 1] show ?thesis
    unfolding apply_plan_def Cons list.case Let_def by (auto split: prod.splits)
qed (use assms in \<open>simp add: apply_plan_def\<close>)

text \<open>At the start nothing is finished and nothing is in flight, so any segment files will do.\<close>

lemma live_start_inv:
  assumes s: "live_start c now p ctrl disk fs = Inr r" and fixed: "maps_fixed (lc_stable c) mk p"
  shows "rec_inv c mk (lr_sink r) (ls_head (lr_st r)) r \<and> lr_log r = []"
proof -
  have init: "st_inv c mk (live_state0 h n w now) (\<lambda>_. None) []" for h n w
  proof -
    have "live_item_at (live_state0 h n w now) = (\<lambda>_. None)"
      (is "?f = ?g")
    proof
      fix key show "?f key = ?g key" by (cases key) (simp_all add: live_state0_def)
    qed
    then show ?thesis by (simp add: st_inv_def qinv_def done_inv_def live_state0_def bt_wf_def)
  qed
  have any: "st_inv c mk st' fs'' []" if a: "apply_plan (lc_stable c) now p (live_state0 h k w now) fs' = (st', fs2, n)" for h k w fs' st' fs2 n fs''
  proof -
    have "st_inv c mk st' (\<lambda>_. None) []"
      using apply_plan_inv [OF init fixed apply_plan_no_files [OF a]] by blast
    then show ?thesis by (auto simp: st_inv_def qinv_def done_inv_def)
  qed
  have "st_inv c mk (lr_st r) (lr_files r) (lr_futs r) \<and> lr_log r = []"
    using s unfolding live_start_def Let_def
    by (auto split: if_splits option.splits prod.splits intro: any)
  then show ?thesis by (simp add: rec_inv_def log_inv_def ranks_def List.map_filter_def)
qed

end
