(* ===== verification/Hls_Live_Claims.thy ===== *)
theory Hls_Live_Claims
  imports Hls_Live_Proofs "HOL-Library.Code_Target_Nat"
begin

text \<open>
  What the live recorder promises: the order and the completeness of what it splices, the continuation
  after a pause; and where it fails: a missing number before the end of the stream, a disk that is full.
\<close>

section \<open>A small stream, for the concrete statements\<close>

definition ex_seg :: "nat \<Rightarrow> segment" where
  "ex_seg n = \<lparr>sg_url = [of_nat n], sg_range = None, sg_key = None, sg_len = None, sg_duration = 0, sg_seq = n, sg_is_map = False\<rparr>"

definition ex_plan :: "bool \<Rightarrow> segment list \<Rightarrow> playlist_plan" where
  "ex_plan live ss =
     \<lparr>pl_source = [1], pl_chain = [], pl_init = None, pl_segments = ss, pl_live = live, pl_fmp4 = False,
      pl_total = None, pl_duration_secs = 0, pl_bitrate = None, pl_separate_audio = False,
      pl_target_duration = 0, pl_parts_only = False\<rparr>"

definition ex_cfg :: live_cfg where
  "ex_cfg = \<lparr>lc_stable = (\<lambda>u. u), lc_decrypt = (\<lambda>k b. Inr b), lc_conn = 4, lc_retries = 3,
             lc_interval = 2000, lc_stall = 60000, lc_source = [1]\<rparr>"

definition ex_io :: live_io where
  "ex_io = \<lparr>io_room = (\<lambda>_. None), io_open = True, io_ctrl = True\<rparr>"

definition started :: "http_error + live_rec \<Rightarrow> live_rec" where
  "started x = (case x of Inr r \<Rightarrow> r | Inl _ \<Rightarrow> undefined)"

definition running :: "live_outcome option \<Rightarrow> live_rec" where
  "running x = (case x of Some (Running r) \<Rightarrow> r | _ \<Rightarrow> undefined)"

definition is_running :: "live_outcome option \<Rightarrow> bool" where
  "is_running x = (case x of Some (Running _) \<Rightarrow> True | _ \<Rightarrow> False)"

lemma is_running_eq: "is_running x \<Longrightarrow> x = Some (Running (running x))"
  by (auto simp: is_running_def running_def split: option.splits live_outcome.splits)

definition ex_start :: "live_rec" where
  "ex_start = started (live_start ex_cfg 0 (ex_plan False [ex_seg 1, ex_seg 3]) None None (\<lambda>_. None))"

lemma ex_start_eq: "live_start ex_cfg 0 (ex_plan False [ex_seg 1, ex_seg 3]) None None (\<lambda>_. None) = Inr ex_start"
  by (simp add: ex_start_def started_def live_start_def ex_plan_def live_resume_def split: prod.splits)

definition ex_events :: "(live_io \<times> nat \<times> live_event) list" where
  "ex_events =
     [(ex_io, 0, FetchData (SegKey 1) [7, 8]), (ex_io, 10, FetchEnd (SegKey 1) True),
      (ex_io, 20, FetchData (SegKey 3) [9]), (ex_io, 30, FetchEnd (SegKey 3) True)]"

definition ex_end :: live_rec where
  "ex_end = running (live_run ex_cfg ex_events (live_pass ex_cfg ex_io 0 ex_start))"

lemma ex_end_eq: "live_run ex_cfg ex_events (live_pass ex_cfg ex_io 0 ex_start) = Some (Running ex_end)"
  unfolding ex_end_def by (rule is_running_eq) code_simp

lemma ex_end_sink: "lr_sink ex_end = [7, 8]"
  by code_simp

section \<open>Order and completeness\<close>



section \<open>A number that never comes\<close>

text \<open>
  The stream is over, the playlist is no longer loaded, and there is nothing at the cursor although
  the window goes on beyond it.
\<close>

definition stranded :: "live_rec \<Rightarrow> bool" where
  "stranded r \<longleftrightarrow>
     (let st = lr_st r in ls_end st \<and> ls_reload_stopped st \<and> \<not> lr_reloading r \<and> ls_leading st = None
        \<and> map_of (ls_segs st) (ls_head st) = None \<and> map_of (ls_maps st) (ls_head st) = None
        \<and> ls_head st \<le> ls_tail st)"

text \<open>Events that neither stop the recording nor report a failure of the disk.\<close>

definition undisturbed :: "live_cfg \<Rightarrow> live_io \<times> nat \<times> live_event \<Rightarrow> bool" where
  "undisturbed c x \<longleftrightarrow>
     (case x of (io, now, e) \<Rightarrow> io_open io \<and>
        (case e of
           CancelLive \<Rightarrow> False
         | FetchEnd _ ok \<Rightarrow> ok
         | FetchFail _ err \<Rightarrow> err \<noteq> HttpCancelled \<and> err \<noteq> HttpIo
         | _ \<Rightarrow> True))"

definition decrypts_softly :: "live_cfg \<Rightarrow> bool" where
  "decrypts_softly c \<longleftrightarrow> (\<forall>k b. lc_decrypt c k b \<noteq> Inl HttpCancelled \<and> lc_decrypt c k b \<noteq> Inl HttpIo)"

lemma stranded_splice:
  "stranded r \<Longrightarrow> splice_one su room (lr_st r) (lr_files r) (lr_sink r) = NothingYet"
  by (auto simp: stranded_def splice_one_def Let_def)

lemma stranded_cong:
  assumes "stranded r" "lr_st r' = lr_st r" "lr_reloading r' = lr_reloading r"
  shows "stranded r'"
  using assms by (simp add: stranded_def)

lemma map_of_None_insert: "map_of m h = None \<Longrightarrow> map_of m k = Some it \<Longrightarrow> map_of (bt_insert k it' m) h = None"
  by (auto simp: map_of_bt_insert)

lemma find_due_map_of: "find_due now m = Some (k, it) \<Longrightarrow> map_of m k \<noteq> None"
  by (auto simp: find_due_def find_Some_iff map_of_eq_None_iff) (metis fst_conv image_iff nth_mem)

lemma stranded_take:
  assumes "stranded r" "take_for_dispatch now (lr_st r) = Some (key, s, st)"
  shows "stranded (r\<lparr>lr_st := st, lr_futs := x, lr_files := y\<rparr>)"
  using assms find_due_map_of [of now "ls_maps (lr_st r)"] find_due_map_of [of now "ls_segs (lr_st r)"]
  by (auto simp: take_for_dispatch_def take_bound_def stranded_def Let_def map_of_bt_insert split: option.splits if_splits prod.splits)

lemma stranded_dispatch:
  assumes "stranded r" "dispatch n c True now r = (ok, r')"
  shows "ok \<and> stranded r' \<and> lr_sink r' = lr_sink r"
  using assms
proof (induction n arbitrary: r)
  case (Suc n)
  show ?case
  proof (cases "length (lr_futs r) < lc_conn c \<and> take_for_dispatch now (lr_st r) \<noteq> None")
    case True
    then obtain key s st where t: "take_for_dispatch now (lr_st r) = Some (key, s, st)" by auto
    let ?r = "r\<lparr>lr_st := st, lr_futs := lr_futs r @ [\<lparr>lf_key = key, lf_seg = s, lf_mem = (if sg_key s = None then None else Some []), lf_attempt = 1\<rparr>],
      lr_files := (if sg_key s = None then open_target key s (lr_files r) else lr_files r)\<rparr>"
    from Suc.prems(2) True t have "dispatch n c True now ?r = (ok, r')" by (simp add: Let_def)
    from Suc.IH [OF stranded_take [OF Suc.prems(1) t] this] show ?thesis by simp
  qed (use Suc.prems in \<open>auto split: option.splits if_splits\<close>)
qed simp

lemma stranded_no_end: "stranded r \<Longrightarrow> end_check c now r = None"
  by (auto simp: stranded_def end_check_def drained_def blocked_failed_def item_failed_def Let_def)

lemma stranded_pass:
  assumes "stranded r" "io_open io"
  obtains r' where "live_pass c io now r = Running r'" "stranded r'" "lr_sink r' = lr_sink r"
proof -
  have 1: "splice_batch (Suc (queue_len (lr_st r))) c (io_room io) 0 r = (True, r)"
    using stranded_splice [OF assms(1)] by simp
  define r2 where "r2 = (if lr_dirty r \<and> lr_save_due r \<le> now
    then (save_live_ctrl c (io_ctrl io) r)\<lparr>lr_dirty := False, lr_save_due := now + CTRL_SAVE_INTERVAL\<rparr> else r)"
  have 2: "stranded r2" "lr_sink r2 = lr_sink r"
    using assms(1) by (auto simp: r2_def save_live_ctrl_def intro: stranded_cong)
  obtain ok3 r3 where 3: "dispatch (lc_conn c) c True now r2 = (ok3, r3)"
    by (cases "dispatch (lc_conn c) c True now r2")
  note s3 = stranded_dispatch [OF 2(1) 3]
  from s3 have "ls_reload_stopped (lr_st r3)" by (simp add: stranded_def Let_def)
  with s3 1 3 stranded_no_end [of r3 c now] assms(2) have "live_pass c io now r = Running r3"
    unfolding live_pass_def r2_def by (simp add: Let_def del: splice_batch.simps dispatch.simps)
  with s3 2 show thesis by (intro that [of r3]) simp_all
qed

lemma stranded_item_set:
  "stranded r \<Longrightarrow> lr_st r' = live_item_set key it (lr_st r) \<Longrightarrow> lr_reloading r' = lr_reloading r \<Longrightarrow> stranded r'"
  by (cases key) (auto simp: stranded_def Let_def map_of_bt_insert)

lemma fut_ok_Running:
  "\<exists>r'. fut_ok c True f res r = Running r' \<and> lr_sink r' = lr_sink r \<and> lr_reloading r' = lr_reloading r
    \<and> (lr_st r' = lr_st r \<or> (\<exists>it. lr_st r' = live_item_set (lf_key f) it (lr_st r)))"
  by (cases "live_item_at (lr_st r) (lf_key f)"; cases "fst res = 0") (auto simp: fut_ok_def Let_def)

lemma stranded_fut_ok:
  assumes "stranded r"
  obtains r' where "fut_ok c True f res r = Running r'" "stranded r'" "lr_sink r' = lr_sink r"
proof -
  from fut_ok_Running [of c f res r] obtain r' where
    r': "fut_ok c True f res r = Running r'" "lr_sink r' = lr_sink r" "lr_reloading r' = lr_reloading r"
    "lr_st r' = lr_st r \<or> (\<exists>it. lr_st r' = live_item_set (lf_key f) it (lr_st r))"
    by blast
  with assms have "stranded r'" using stranded_item_set stranded_cong by blast
  with r' show thesis by (intro that)
qed

lemma fut_err_Running:
  assumes "e \<noteq> HttpCancelled" "e \<noteq> HttpIo"
  shows "\<exists>r'. fut_err now e f r = Running r' \<and> lr_sink r' = lr_sink r \<and> lr_reloading r' = lr_reloading r
    \<and> (lr_st r' = lr_st r \<or> (\<exists>it. lr_st r' = live_item_set (lf_key f) it (lr_st r)))"
proof (cases "live_item_at (lr_st r) (lf_key f)")
  case None
  with assms show ?thesis by (simp add: fut_err_def Let_def)
next
  case (Some it)
  show ?thesis
  proof (cases "LIVE_SEG_MAX_ATTEMPTS \<le> li_attempts it + 1")
    case True
    with Some assms show ?thesis by (simp add: fut_err_def Let_def) blast
  next
    case False
    with Some assms show ?thesis by (simp add: fut_err_def Let_def) blast
  qed
qed

lemma stranded_fut_err:
  assumes "stranded r" "e \<noteq> HttpCancelled" "e \<noteq> HttpIo"
  obtains r' where "fut_err now e f r = Running r'" "stranded r'" "lr_sink r' = lr_sink r"
proof -
  from fut_err_Running [OF assms(2,3)] obtain r' where
    r': "fut_err now e f r = Running r'" "lr_sink r' = lr_sink r" "lr_reloading r' = lr_reloading r"
    "lr_st r' = lr_st r \<or> (\<exists>it. lr_st r' = live_item_set (lf_key f) it (lr_st r))"
    by blast
  with assms(1) have "stranded r'" using stranded_item_set stranded_cong by blast
  with r' show thesis by (intro that)
qed

lemma stranded_then_pass:
  assumes "res = Running r1" "stranded r1" "io_open io"
  obtains r' where "then_pass c io now res = Running r'" "stranded r'" "lr_sink r' = lr_sink r1"
  using stranded_pass [OF assms(2,3), of c now] assms(1) by (auto simp: then_pass_def)

lemma stranded_fetch_failed:
  assumes "stranded r" "e \<noteq> HttpCancelled" "e \<noteq> HttpIo" "io_open io"
  obtains r' where "fetch_failed c io now e f r = Running r'" "stranded r'" "lr_sink r' = lr_sink r"
proof (cases "fetch_retry c e f")
  case None
  obtain r1 where 1: "fut_err now e f r = Running r1" "stranded r1" "lr_sink r1 = lr_sink r"
    by (rule stranded_fut_err [OF assms(1-3)])
  obtain r2 where "then_pass c io now (fut_err now e f r) = Running r2" "stranded r2" "lr_sink r2 = lr_sink r1"
    by (rule stranded_then_pass [OF 1(1,2) assms(4)])
  with None 1 show thesis by (intro that [of r2]) (simp_all add: fetch_failed_def)
next
  case (Some g)
  then show thesis
    by (intro that [of "r\<lparr>lr_futs := put_fut g (lr_futs r)\<rparr>"])
      (auto simp: fetch_failed_def intro: stranded_cong [OF assms(1)])
qed

lemma stranded_step:
  assumes r: "stranded r" and u: "undisturbed c (io, now, e)" "decrypts_softly c"
    and st: "live_step c io now e r = Some res"
  obtains r' where "res = Running r'" "stranded r'" "lr_sink r' = lr_sink r"
proof (cases e)
  case Tick
  from u have o: "io_open io" by (simp add: undisturbed_def)
  obtain r' where "live_pass c io now r = Running r'" "stranded r'" "lr_sink r' = lr_sink r"
    by (rule stranded_pass [OF r o])
  with st Tick show thesis by (intro that [of r']) (auto simp: live_step_def)
next
  case CancelLive
  with u show thesis by (simp add: undisturbed_def)
next
  case (Reloaded x)
  with st r show thesis by (simp add: live_step_def stranded_def Let_def)
next
  case (FetchBegin key partial)
  then obtain f where "res = Running (fetch_begin partial f r)" using st by (auto simp: live_step_def)
  then show thesis
    by (intro that [of "fetch_begin partial f r"])
      (auto simp: fetch_begin_def begin_file_def Let_def intro: stranded_cong [OF r] split: option.split)
next
  case (FetchData key bs)
  then obtain f where "res = Running (fetch_data bs f r)" using st by (auto simp: live_step_def)
  then show thesis
    by (intro that [of "fetch_data bs f r"])
      (auto simp: fetch_data_def data_file_def data_futs_def intro: stranded_cong [OF r] split: option.split)
next
  case (FetchEnd key ok)
  from u FetchEnd have o: "io_open io" "ok" by (auto simp: undisturbed_def)
  from st FetchEnd o obtain f where f: "res = (case fetch_result c f (lr_files r) of
      Inr res \<Rightarrow> then_pass c io now (fut_ok c True f res r) | Inl err \<Rightarrow> fetch_failed c io now err f r)"
    by (auto simp: live_step_def)
  show thesis
  proof (cases "fetch_result c f (lr_files r)")
    case (Inl err)
    then have "err \<noteq> HttpCancelled" "err \<noteq> HttpIo"
      using u(2) by (auto simp: fetch_result_def decrypts_softly_def Let_def split: option.splits if_splits sum.splits)
    with Inl f show thesis using stranded_fetch_failed [OF r _ _ o(1), of err c now f] that by (metis old.sum.simps(5))
  next
    case (Inr d)
    obtain r1 where 1: "fut_ok c True f d r = Running r1" "stranded r1" "lr_sink r1 = lr_sink r"
      by (rule stranded_fut_ok [OF r])
    obtain r2 where "then_pass c io now (fut_ok c True f d r) = Running r2" "stranded r2" "lr_sink r2 = lr_sink r1"
      by (rule stranded_then_pass [OF 1(1,2) o(1)])
    with Inr f 1 show thesis by (intro that [of r2]) simp_all
  qed
next
  case (FetchFail key err)
  from u FetchFail have o: "io_open io" "err \<noteq> HttpCancelled" "err \<noteq> HttpIo" by (auto simp: undisturbed_def)
  from st FetchFail obtain f where f: "res = fetch_failed c io now err f r" by (auto simp: live_step_def)
  obtain r' where "fetch_failed c io now err f r = Running r'" "stranded r'" "lr_sink r' = lr_sink r"
    by (rule stranded_fetch_failed [OF r o(2,3,1)])
  with f show thesis by (intro that [of r']) simp_all
qed

text \<open>
  C22. Once the stream has ended and a number before the end of the window is missing (a segment marked
  \<open>#EXT-X-GAP\<close>, or one that left the window), the recorder never ends: for every sequence of ticks,
  responses and failures it is still running and its product has not grown, although segments after the
  gap may be complete. Only the user can stop it.
\<close>

theorem live_gap_never_ends:
  assumes "stranded r" "decrypts_softly c" "list_all (undisturbed c) evs" "live_run c evs (Running r) = Some res"
  shows "\<exists>r'. res = Running r' \<and> stranded r' \<and> lr_sink r' = lr_sink r"
  using assms(1,3,4)
proof (induction evs arbitrary: r)
  case (Cons x evs)
  obtain io now e where x: "x = (io, now, e)" by (cases x)
  with Cons.prems obtain res1 where s: "live_step c io now e r = Some res1" "live_run c evs res1 = Some res"
    by (auto split: option.splits)
  have u: "undisturbed c (io, now, e)" using Cons.prems(2) x by simp
  obtain r1 where r1: "res1 = Running r1" "stranded r1" "lr_sink r1 = lr_sink r"
    by (rule stranded_step [OF Cons.prems(1) u assms(2) s(1)])
  with Cons.IH [of r1] Cons.prems(2) s(2) show ?case by auto
qed auto

lemma ex_end_stranded: "stranded ex_end"
  by code_simp

lemma ex_end_tick: "is_running (live_run ex_cfg [(ex_io, 1000000, Tick)] (Running ex_end))"
  by code_simp

theorem live_gap_never_ends_witness:
  "live_run ex_cfg ex_events (live_pass ex_cfg ex_io 0 ex_start) = Some (Running ex_end)
   \<and> (\<exists>r'. live_run ex_cfg [(ex_io, 1000000, Tick)] (Running ex_end) = Some (Running r')
         \<and> stranded r' \<and> lr_sink r' = [7, 8])"
proof -
  let ?r = "running (live_run ex_cfg [(ex_io, 1000000, Tick)] (Running ex_end))"
  have e: "live_run ex_cfg [(ex_io, 1000000, Tick)] (Running ex_end) = Some (Running ?r)"
    by (rule is_running_eq [OF ex_end_tick])
  have "decrypts_softly ex_cfg" by (simp add: decrypts_softly_def ex_cfg_def)
  moreover have "list_all (undisturbed ex_cfg) [(ex_io, 1000000, Tick)]"
    by (simp add: undisturbed_def ex_io_def)
  ultimately have "stranded ?r \<and> lr_sink ?r = lr_sink ex_end"
    using live_gap_never_ends [OF ex_end_stranded _ _ e] by blast
  then have "stranded ?r" "lr_sink ?r = [7, 8]" using ex_end_sink by simp_all
  with ex_end_eq e show ?thesis by (intro conjI exI [of _ ?r])
qed

section \<open>Pause and continuation\<close>

text \<open>What a snapshot leaves alone; from an empty queue the cursor goes to the start of the window.\<close>

definition core :: "live_state \<Rightarrow> nat \<times> bytes option \<times> nat" where
  "core st = (ls_head st, ls_written_map st, ls_spliced st)"

lemma core_consider: "core (fst (live_consider_map su s b sa)) = core (fst sa)"
  by (cases sa) (auto simp: live_consider_map_def core_def Let_def split: option.splits)

lemma core_take_seg: "core (fst (take_seg su s sa)) = core (fst sa)"
  by (cases sa) (auto simp: take_seg_def core_def split: option.splits live_item_state.splits)

lemma core_fold: "(\<And>s sa. core (fst (f s sa)) = core (fst sa)) \<Longrightarrow> core (fst (fold f ss sa)) = core (fst sa)"
  by (induction ss arbitrary: sa) auto

lemma skip_gap_empty: "skip_gap w [] h [] a = (h', m, a') \<Longrightarrow> h' = max h w"
  using skip_gap_facts [of w "[]" h "[]" a h' m a'] by auto

lemma apply_plan_core:
  assumes a: "apply_plan su now p st fs = (st', fs', n)" and "ls_segs st = []" "ls_maps st = []" "pl_segments p \<noteq> []"
  shows "core st' = (max (ls_head st) (sg_seq (hd (pl_segments p))), ls_written_map st, ls_spliced st)"
proof -
  from assms(4) obtain first rest where Cons: "pl_segments p = first # rest" by (cases "pl_segments p") auto
  let ?st0 = "st\<lparr>ls_tail := max (ls_tail st) (sg_seq (last (first # rest)))\<rparr>"
  obtain st1 fs1 where 1: "slide_window (sg_seq first) ?st0 fs = (st1, fs1)"
    by (metis prod.exhaust)
  have c1: "core st1 = (max (ls_head st) (sg_seq first), ls_written_map st, ls_spliced st)"
    using 1 assms(2,3) by (auto simp: slide_window_def core_def Let_def split: if_splits prod.splits dest!: skip_gap_empty)
  define sa2 where "sa2 = (case pl_init p of None \<Rightarrow> (st1, 0) | Some i \<Rightarrow> live_consider_map su i None (st1, 0))"
  have c2: "core (fst sa2) = core st1" by (auto simp: sa2_def core_consider split: option.split)
  define sa3 where "sa3 = fold (\<lambda>s. live_consider_map su s (Some (sg_seq s))) (filter sg_is_map (first # rest)) sa2"
  have c3: "core (fst sa3) = core st1" by (simp only: sa3_def core_fold core_consider c2)
  obtain st4 a where 4: "fold (take_seg su) (first # rest) sa3 = (st4, a)" by (metis prod.exhaust)
  have c4: "core st4 = core st1"
    using core_fold [of "take_seg su" "first # rest" sa3] c3 4 by (simp add: core_take_seg)
  have "core st' = core st4"
    using a unfolding apply_plan_def Cons list.case Let_def 1 prod.case sa2_def [symmetric] sa3_def [symmetric] 4
    by (auto simp: core_def)
  with c4 c1 Cons show ?thesis by simp
qed

text \<open>
  C21. Pausing and starting again: when the product could be flushed and the control file written, the
  next recording of the same stream starts with the product as it was, from the paused cursor or from
  the start of the window when that is later, with the recorded time, the count of segments and the
  initialisation segment last written; \<open>live_resume_point\<close> tells the engine the same numbers.
\<close>

theorem live_pause_continues:
  assumes fin: "live_finish c True None (Inr LiveCancelled) r = (res, disk, Some q)"
    and src: "lc_source c \<noteq> []" "lc_stable c (lc_source c) = lc_stable c (pl_source p)"
    and p: "\<not> pl_parts_only p" "pl_segments p \<noteq> []" and w: "ls_written_map (lr_st r) \<noteq> Some []"
  shows "res = Inl HttpCancelled
    \<and> live_resume_point (lc_stable c) p (Some q) (Some disk) = Some (length (lr_sink r), lr_ms r)
    \<and> (\<exists>r'. live_start c now p (Some q) (Some disk) fs = Inr r' \<and> lr_sink r' = lr_sink r \<and> lr_ms r' = lr_ms r
         \<and> ls_written_map (lr_st r') = ls_written_map (lr_st r) \<and> ls_spliced (lr_st r') = ls_spliced (lr_st r)
         \<and> ls_head (lr_st r') = max (ls_head (lr_st r)) (sg_seq (hd (pl_segments p))))"
proof -
  from fin have q: "q = live_ctrl_of c r" and d: "disk = lr_sink r" and res: "res = Inl HttpCancelled"
    by (simp_all add: live_finish_def save_live_ctrl_def)
  have resume: "live_resume (lc_stable c) p (Some q) (Some disk) = Some q"
    using src by (simp add: live_resume_def live_ctrl_matches_def q d live_ctrl_of_def)
  have qs: "lq_bytes q = length (lr_sink r)" "lq_live_ms q = lr_ms r" by (simp_all add: q live_ctrl_of_def)
  let ?st = "live_state0 (lq_seq q) (lq_prefix q) (if lq_map q = [] then None else Some (lq_map q)) now"
  let ?fs = "sweep_live_seg_files (lq_seq q) fs"
  obtain st' fs2 n where a: "apply_plan (lc_stable c) now p ?st ?fs = (st', fs2, n)" by (metis prod_cases3)
  have "(if lq_map q = [] then None else Some (lq_map q)) = ls_written_map (lr_st r)"
    using w by (auto simp: q live_ctrl_of_def split: option.splits)
  with apply_plan_core [OF a _ _ p(2)]
  have core: "core st' = (max (ls_head (lr_st r)) (sg_seq (hd (pl_segments p))), ls_written_map (lr_st r), ls_spliced (lr_st r))"
    by (simp add: live_state0_def q live_ctrl_of_def)
  have "live_start c now p (Some q) (Some disk) fs = Inr
      \<lparr>lr_st = st', lr_files = sweep_live_seg_files (ls_head st') fs2, lr_sink = lr_sink r, lr_futs = [],
       lr_next_reload = now + lc_interval c, lr_reloading = False, lr_save_due = now, lr_dirty = False,
       lr_perm_err = None, lr_ms = lr_ms r, lr_ctrl = Some q, lr_log = []\<rparr>"
    using p a qs unfolding live_start_def Let_def resume by (simp add: d)
  with core res resume show ?thesis
    by (simp add: live_resume_point_def core_def) (simp add: q live_ctrl_of_def)
qed

theorem live_pause_continues_witness:
  "\<exists>r'. live_start ex_cfg 5 (ex_plan True [ex_seg 3]) (Some (live_ctrl_of ex_cfg ex_end)) (Some [7, 8]) (\<lambda>_. None) = Inr r'
     \<and> lr_sink r' = [7, 8]"
proof -
  have w: "ls_written_map (lr_st ex_end) = None" by code_simp
  show ?thesis
    using live_pause_continues [of ex_cfg ex_end "Inl HttpCancelled" "[7, 8]" "live_ctrl_of ex_cfg ex_end" "ex_plan True [ex_seg 3]" 5 "\<lambda>_. None"]
      ex_end_sink w
    by (auto simp: live_finish_def save_live_ctrl_def ex_cfg_def ex_plan_def)
qed

text \<open>
  When the final flush fails (a full disk) the control file is written all the same, with the position
  of the sink, which is more than what reached the disk. The next recording of the same stream then takes
  the product for tampered with and starts from nothing: everything recorded is discarded.
\<close>

theorem live_failed_flush_discards:
  assumes fin: "live_finish c True (Some n) outcome r = (res, disk, ctrl)" and n: "n < length (lr_sink r)"
    and p: "\<not> pl_parts_only p" "pl_segments p \<noteq> []"
  shows "res = Inl HttpIo \<and> disk = take n (lr_sink r)
    \<and> (\<exists>r'. live_start c now p ctrl (Some disk) fs = Inr r' \<and> lr_sink r' = [] \<and> lr_ms r' = 0
         \<and> ls_head (lr_st r') = sg_seq (hd (pl_segments p)))"
proof -
  from fin have q: "ctrl = Some (live_ctrl_of c r)" and d: "disk = take n (lr_sink r)" and res: "res = Inl HttpIo"
    by (simp_all add: live_finish_def save_live_ctrl_def)
  have resume: "live_resume (lc_stable c) p ctrl (Some disk) = None"
    using n by (simp add: live_resume_def q d live_ctrl_of_def)
  obtain st' fs2 m where a: "apply_plan (lc_stable c) now p (live_state0 (sg_seq (hd (pl_segments p))) 0 None now) (\<lambda>_. None) = (st', fs2, m)"
    by (metis prod_cases3)
  from apply_plan_core [OF a _ _ p(2)] have "ls_head st' = sg_seq (hd (pl_segments p))"
    by (simp add: live_state0_def core_def)
  with p a res d show ?thesis unfolding live_start_def Let_def resume by simp
qed

theorem live_failed_flush_discards_witness:
  "\<exists>r'. live_start ex_cfg 5 (ex_plan True [ex_seg 3]) (Some (live_ctrl_of ex_cfg ex_end)) (Some [7]) (\<lambda>_. None) = Inr r'
     \<and> lr_sink r' = []"
  using live_failed_flush_discards [of ex_cfg 1 "Inr LiveCancelled" ex_end "Inl HttpIo" "[7]" "Some (live_ctrl_of ex_cfg ex_end)"
      "ex_plan True [ex_seg 3]" 5 "\<lambda>_. None"] ex_end_sink
  by (auto simp: live_finish_def save_live_ctrl_def ex_plan_def)

section \<open>The initialisation segment that gets lost\<close>

text \<open>
  The window jumps over segments 1 and 2 while the initialisation segment bound to 2 is complete: the pending
  one is dropped with the number, the same one at the head of the new snapshot counts as seen, and
  segment 3, which needs it, is spliced without it.
\<close>

definition ex_map :: segment where
  "ex_map = \<lparr>sg_url = [66], sg_range = None, sg_key = None, sg_len = None, sg_duration = 0, sg_seq = 2, sg_is_map = True\<rparr>"

definition ex_cfg1 :: live_cfg where
  "ex_cfg1 = ex_cfg\<lparr>lc_conn := 1\<rparr>"

definition ex_start1 :: live_rec where
  "ex_start1 = started (live_start ex_cfg1 0 (ex_plan True [ex_seg 1, ex_map, ex_seg 2]) None None (\<lambda>_. None))"

definition ex_plan3 :: playlist_plan where
  "ex_plan3 = (ex_plan True [ex_seg 3])\<lparr>pl_init := Some ex_map\<rparr>"

definition ex_jump :: "(live_io \<times> nat \<times> live_event) list" where
  "ex_jump =
     [(ex_io, 0, FetchData (MapKey 2) [66]), (ex_io, 10, FetchEnd (MapKey 2) True),
      (ex_io, 20, FetchFail (SegKey 1) (HttpStatus 404)), (ex_io, 40, FetchFail (SegKey 2) (HttpStatus 404)), (ex_io, 2000, Tick),
      (ex_io, 2500, Reloaded (Inr ex_plan3)),
      (ex_io, 2600, FetchData (SegKey 3) [3]), (ex_io, 2700, FetchEnd (SegKey 3) True)]"

definition spliced_keys :: "live_outcome option \<Rightarrow> (live_key list \<times> bytes option) option" where
  "spliced_keys x =
     (case x of Some (Running r) \<Rightarrow> Some (map fst (lr_log r), ls_written_map (lr_st r)) | _ \<Rightarrow> None)"

lemma live_init_lost:
  "spliced_keys (live_run ex_cfg1 ex_jump (live_pass ex_cfg1 ex_io 0 ex_start1)) = Some ([SegKey 3], None)"
  by code_simp

section \<open>The number of skipped segments\<close>

text \<open>A segment dropped from the queue is counted when it is dropped and again when the cursor passes it.\<close>

lemma live_skipped_twice:
  "ls_skipped (fst (slide_window 3 ((live_state0 1 0 None 0)\<lparr>ls_segs := [(1, li_queued (ex_seg 1)), (2, li_queued (ex_seg 2))]\<rparr>) (\<lambda>_. None))) = 4"
  by code_simp

section \<open>Segment file names\<close>

lemma digits_val_zeros: "digits_val (replicate n 48 @ ds) = digits_val ds"
  by (induction n) (simp_all add: digits_val_def)

lemma pad10_digits: "list_all is_ascii_digit (pad10 (dec_bytes n))"
  using dec_bytes_digits [of n] by (auto simp: pad10_def list_all_iff is_ascii_digit_def)

lemma parse_pad10:
  assumes "n < 2 ^ 64"
  shows "parse_u64 (pad10 (dec_bytes n)) = Some n"
proof -
  have ne: "pad10 (dec_bytes n) \<noteq> []" by (simp add: pad10_def)
  then obtain c r where c: "pad10 (dec_bytes n) = c # r" by (cases "pad10 (dec_bytes n)") auto
  have "is_ascii_digit c" using pad10_digits [of n] c by simp
  then have "c \<noteq> 43" by (auto simp: is_ascii_digit_iff)
  moreover have "digits_val (pad10 (dec_bytes n)) = n" by (simp add: pad10_def digits_val_zeros)
  ultimately show ?thesis using assms pad10_digits [of n] by (simp add: parse_u64_def c)
qed

text \<open>The name of a segment file determines the number and the kind, so the directory is a map from them.\<close>

lemma parse_live_seg_file:
  assumes "n < 2 ^ 64"
  shows "parse_live_seg_name (live_seg_file n b) = Some (n, b)"
proof (cases b)
  case True
  then show ?thesis using parse_pad10 [OF assms] by (simp add: parse_live_seg_name_def live_seg_file_def)
next
  case False
  have "pad10 (dec_bytes n) \<noteq> []" by (simp add: pad10_def)
  then have "is_ascii_digit (last (pad10 (dec_bytes n)))"
    using pad10_digits [of n] by (auto simp: list_all_iff)
  then have "last (pad10 (dec_bytes n)) \<noteq> 109" by (auto simp: is_ascii_digit_iff)
  with False parse_pad10 [OF assms] show ?thesis by (simp add: parse_live_seg_name_def live_seg_file_def)
qed

end
