(* ===== verification/Hls_Parse.thy ===== *)
theory Hls_Parse
  imports Hls_Types Text_Bytes
begin

text \<open>
  The parsers of \<open>crates/xfer-http/src/playlist.rs\<close>: attribute lists, master playlists and the choice of
  a variant, media playlists with their keys, byte ranges, initialisation segments and gaps.

  \<open>join\<close>, an argument, is \<open>Url::join\<close> on the address of the playlist; \<open>secs\<close> is Rust's reader of a
  binary64, as an exact rational (an infinite duration is not represented). Additions wrap as they do in
  the release build. \<open>None\<close> as the result of a parser is a panic: slicing a text inside a character.
\<close>

section \<open>Attribute lists\<close>

fun split_attributes_from :: "bool \<Rightarrow> bytes \<Rightarrow> bytes \<Rightarrow> bytes list" where
  "split_attributes_from quoted cur [] = (if trim cur = [] then [] else [cur])"
| "split_attributes_from quoted cur (b # s) =
     (if b = 34 then split_attributes_from (\<not> quoted) (cur @ [b]) s
      else if b = 44 \<and> \<not> quoted then cur # split_attributes_from quoted [] s
      else split_attributes_from quoted (cur @ [b]) s)"

definition split_attributes :: "bytes \<Rightarrow> bytes list" where
  "split_attributes s = split_attributes_from False [] s"

definition parse_attribute :: "bytes \<Rightarrow> (bytes \<times> bytes) option" where
  "parse_attribute part =
     (case split_once 61 part of
        None \<Rightarrow> None
      | Some (k, v) \<Rightarrow>
          let k = ascii_upper (trim k)
          in if k = [] then None else Some (k, trim_matches 34 (trim v)))"

definition parse_attributes :: "bytes \<Rightarrow> (bytes \<times> bytes) list" where
  "parse_attributes s = List.map_filter parse_attribute (split_attributes s)"

definition attr :: "(bytes \<times> bytes) list \<Rightarrow> bytes \<Rightarrow> bytes option" where
  "attr attrs key = map_of attrs key"

definition attr_bool :: "(bytes \<times> bytes) list \<Rightarrow> bytes \<Rightarrow> bool" where
  "attr_bool attrs key = (case attr attrs key of None \<Rightarrow> False | Some v \<Rightarrow> eq_ignore_case (trim v) (lit ''YES''))"

text \<open>Without byte order marks and outer white space.\<close>

definition clean_text :: "bytes \<Rightarrow> bytes" where
  "clean_text s = trim (strip_seqs [[0xEF, 0xBB, 0xBF]] s)"

definition looks_like_manifest :: "bytes \<Rightarrow> bool" where
  "looks_like_manifest text = starts_with (lit ''#EXTM3U'') (clean_text text)"

definition is_master :: "bytes \<Rightarrow> bool" where
  "is_master text = list_ex (\<lambda>l. starts_with (lit ''#EXT-X-STREAM-INF:'') (trim_start l)) (lines (clean_text text))"

definition resolve_url :: "(bytes \<Rightarrow> bytes option) \<Rightarrow> bytes \<Rightarrow> bytes option option" where
  "resolve_url join uri0 =
     (let uri = trim uri0;
          joined = (case join uri of
                      Some u \<Rightarrow> Some u
                    | None \<Rightarrow> if starts_with (lit ''http'') uri then Some uri else None)
      in if uri = [] then Some None
         else if 5 < length uri then
           (case slice_to 5 uri of
              None \<Rightarrow> None
            | Some h \<Rightarrow> Some (if eq_ignore_case h (lit ''data:'') then Some uri else joined))
         else Some joined)"

section \<open>Master playlists\<close>

record variant =
  va_url :: bytes
  va_bandwidth :: nat
  va_avg_bandwidth :: nat
  va_area :: nat
  va_audio_group :: "bytes option"
  va_codecs :: "bytes option"

record rendition =
  rd_kind :: bytes
  rd_group_id :: bytes
  rd_name :: bytes
  rd_language :: "bytes option"
  rd_default :: bool
  rd_autoselect :: bool
  rd_channels :: "bytes option"
  rd_uri :: "bytes option"

record master =
  ma_variants :: "variant list"
  ma_renditions :: "rendition list"

definition unwrap_or :: "'a \<Rightarrow> 'a option \<Rightarrow> 'a" where
  "unwrap_or d x = (case x of None \<Rightarrow> d | Some y \<Rightarrow> y)"

definition attr_u64 :: "(bytes \<times> bytes) list \<Rightarrow> bytes \<Rightarrow> nat" where
  "attr_u64 attrs key = unwrap_or 0 (Option.bind (attr attrs key) (\<lambda>v. parse_u64 (trim v)))"

definition resolution_area :: "bytes \<Rightarrow> nat option" where
  "resolution_area v =
     (case split_once 120 v of
        None \<Rightarrow> None
      | Some (w, h) \<Rightarrow>
          (case (parse_u64 (trim w), parse_u64 (trim h)) of
             (Some a, Some b) \<Rightarrow> Some (a * b mod 2 ^ 64) | _ \<Rightarrow> None))"

type_synonym pending_variant = "nat \<times> nat \<times> nat \<times> bytes option \<times> bytes option"

definition stream_inf :: "bytes \<Rightarrow> pending_variant" where
  "stream_inf rest =
     (let attrs = parse_attributes rest
      in (attr_u64 attrs (lit ''BANDWIDTH''), attr_u64 attrs (lit ''AVERAGE-BANDWIDTH''),
          unwrap_or 0 (Option.bind (attr attrs (lit ''RESOLUTION'')) resolution_area),
          (case attr attrs (lit ''AUDIO'') of
             None \<Rightarrow> None | Some s \<Rightarrow> if trim s = [] then None else Some (trim s)),
          map_option trim (attr attrs (lit ''CODECS''))))"

definition media_rendition :: "(bytes \<Rightarrow> bytes option) \<Rightarrow> bytes \<Rightarrow> rendition option option" where
  "media_rendition join rest =
     (let attrs = parse_attributes rest;
          kind = ascii_upper (trim (unwrap_or [] (attr attrs (lit ''TYPE''))));
          grp = trim (unwrap_or [] (attr attrs (lit ''GROUP-ID'')))
      in if kind = [] \<or> grp = [] then Some None
         else case (case attr attrs (lit ''URI'') of None \<Rightarrow> Some None | Some u \<Rightarrow> resolve_url join u) of
                None \<Rightarrow> None
              | Some uri \<Rightarrow>
                  Some (Some \<lparr>rd_kind = kind, rd_group_id = grp,
                              rd_name = trim (unwrap_or [] (attr attrs (lit ''NAME''))),
                              rd_language = map_option trim (attr attrs (lit ''LANGUAGE'')),
                              rd_default = attr_bool attrs (lit ''DEFAULT''),
                              rd_autoselect = attr_bool attrs (lit ''AUTOSELECT''),
                              rd_channels = map_option trim (attr attrs (lit ''CHANNELS'')), rd_uri = uri\<rparr>))"

definition master_line ::
  "(bytes \<Rightarrow> bytes option) \<Rightarrow> bytes \<Rightarrow> master \<times> pending_variant option \<Rightarrow> (master \<times> pending_variant option) option" where
  "master_line join raw mp =
     (let line = trim raw; m = fst mp; pending = snd mp in
      if line = [] then Some mp
      else case strip_prefix (lit ''#EXT-X-MEDIA:'') line of
        Some rest \<Rightarrow>
          (case media_rendition join rest of
             None \<Rightarrow> None
           | Some None \<Rightarrow> Some mp
           | Some (Some r) \<Rightarrow> Some (m\<lparr>ma_renditions := ma_renditions m @ [r]\<rparr>, pending))
      | None \<Rightarrow>
          case strip_prefix (lit ''#EXT-X-STREAM-INF:'') line of
            Some rest \<Rightarrow> Some (m, Some (stream_inf rest))
          | None \<Rightarrow>
              if hd line = 35 then Some mp
              else case pending of
                None \<Rightarrow> Some mp
              | Some (bw, avg, area, audio, codecs) \<Rightarrow>
                  (case resolve_url join line of
                     None \<Rightarrow> None
                   | Some None \<Rightarrow> Some (m, None)
                   | Some (Some url) \<Rightarrow>
                       Some (m\<lparr>ma_variants := ma_variants m @
                                [\<lparr>va_url = url, va_bandwidth = bw, va_avg_bandwidth = avg, va_area = area,
                                  va_audio_group = audio, va_codecs = codecs\<rparr>]\<rparr>, None)))"

fun fold_lines :: "(bytes \<Rightarrow> 's \<Rightarrow> 's option) \<Rightarrow> bytes list \<Rightarrow> 's \<Rightarrow> 's option" where
  "fold_lines f [] s = Some s"
| "fold_lines f (l # ls) s = (case f l s of None \<Rightarrow> None | Some s' \<Rightarrow> fold_lines f ls s')"

definition parse_master :: "(bytes \<Rightarrow> bytes option) \<Rightarrow> bytes \<Rightarrow> master option" where
  "parse_master join text =
     map_option fst (fold_lines (master_line join) (lines (clean_text text))
                       (\<lparr>ma_variants = [], ma_renditions = []\<rparr>, None))"

text \<open>\<open>max_by_key\<close>: the last of the greatest.\<close>

fun max_by_key :: "('a \<Rightarrow> 'k::linorder) \<Rightarrow> 'a list \<Rightarrow> 'a option" where
  "max_by_key key [] = None"
| "max_by_key key (x # xs) =
     (case max_by_key key xs of None \<Rightarrow> Some x | Some y \<Rightarrow> if key x \<le> key y then Some y else Some x)"

definition variant_key :: "bool \<Rightarrow> variant \<Rightarrow> nat \<times> nat" where
  "variant_key prefer_worst v =
     (if prefer_worst then (max_u64 - va_bandwidth v, max_u64 - va_area v) else (va_bandwidth v, va_area v))"

definition choose_variant :: "variant list \<Rightarrow> bool \<Rightarrow> variant option" where
  "choose_variant variants prefer_worst =
     (let muxed = filter (\<lambda>v. va_audio_group v = None) variants;
          pool = (if muxed = [] then variants else muxed)
      in max_by_key (variant_key prefer_worst) pool)"

definition pick_audio_rendition :: "rendition list \<Rightarrow> bytes \<Rightarrow> rendition option" where
  "pick_audio_rendition renditions grp =
     (let cs = filter (\<lambda>r. rd_kind r = lit ''AUDIO'' \<and> rd_group_id r = grp \<and> rd_uri r \<noteq> None) renditions
      in case find rd_default cs of
           Some r \<Rightarrow> Some r
         | None \<Rightarrow> (case find rd_autoselect cs of Some r \<Rightarrow> Some r | None \<Rightarrow> if cs = [] then None else Some (hd cs)))"

section \<open>Keys\<close>

definition parse_method :: "bytes \<Rightarrow> key_method \<times> bool" where
  "parse_method raw =
     (let v = ascii_upper (trim raw) in
      if v = [] \<or> v = lit ''NONE'' then (KmNone, True)
      else if v = lit ''AES-128'' then (Aes128, True)
      else if v = lit ''AES-256'' then (Aes256, True)
      else if v = lit ''AES-128-CTR'' \<or> v = lit ''AES-CTR'' then (Aes128Ctr, True)
      else if v = lit ''SAMPLE-AES'' then (SampleAes, True)
      else if v = lit ''SAMPLE-AES-CTR'' then (SampleAesCtr, True)
      else (KmNone, False))"

definition needs_key :: "key_method \<Rightarrow> bool" where
  "needs_key m \<longleftrightarrow> m \<noteq> KmNone"

definition parse_key_format :: "bytes option \<Rightarrow> key_format" where
  "parse_key_format raw =
     (case raw of
        None \<Rightarrow> KfIdentity
      | Some v0 \<Rightarrow>
          let v = trim v0; lower = ascii_lower v in
          if lower = [] \<or> lower = lit ''identity'' then KfIdentity
          else if is_sub (lit ''streamingkeydelivery'') lower \<or> is_sub (lit ''fairplay'') lower then FairPlay
          else if is_sub (lit ''edef8ba9'') lower \<or> is_sub (lit ''widevine'') lower then Widevine
          else if is_sub (lit ''playready'') lower \<or> is_sub (lit ''9a04f079'') lower then PlayReady
          else KfOther v)"

definition is_drm :: "key_format \<Rightarrow> bool" where
  "is_drm f = (case f of FairPlay \<Rightarrow> True | Widevine \<Rightarrow> True | PlayReady \<Rightarrow> True | _ \<Rightarrow> False)"

fun hex_pairs :: "bytes \<Rightarrow> bytes" where
  "hex_pairs (a # b # s) = of_nat (hex_val a * 16 + hex_val b) # hex_pairs s"
| "hex_pairs _ = []"

definition iv_of_hex :: "bytes \<Rightarrow> bytes option" where
  "iv_of_hex hex =
     (if hex = [] \<or> 32 < length hex \<or> \<not> list_all is_hex_digit hex then None
      else let hex = (if odd (length hex) then 48 # hex else hex)
           in Some (replicate (16 - length hex div 2) 0 @ hex_pairs hex))"

definition parse_iv :: "bytes \<Rightarrow> bytes option option" where
  "parse_iv v =
     (let hex = trim v in
      if 2 < length hex then
        (case slice_to 2 hex of
           None \<Rightarrow> None
         | Some h \<Rightarrow> Some (iv_of_hex (trim (if eq_ignore_case h (lit ''0x'') then drop 2 hex else hex))))
      else Some (iv_of_hex (trim hex)))"

definition iv_from_sequence :: "nat \<Rightarrow> bytes" where
  "iv_from_sequence sq =
     replicate 8 0 @ map (\<lambda>i. of_nat (sq div 256 ^ (7 - i))) [0..<8]"

record pending_key =
  pk_url :: bytes
  pk_iv :: "bytes option"
  pk_method :: key_method
  pk_format :: key_format

definition resolve_key :: "nat \<Rightarrow> pending_key \<Rightarrow> segment_key" where
  "resolve_key sq k =
     \<lparr>sk_url = pk_url k, sk_iv = unwrap_or (iv_from_sequence sq) (pk_iv k),
      sk_method = pk_method k, sk_format = pk_format k\<rparr>"

section \<open>Media playlists\<close>

definition parse_byterange :: "bytes \<Rightarrow> (nat \<times> nat option) option" where
  "parse_byterange v0 =
     (let v = trim v0 in
      case split_once 64 v of
        Some (len, ofs) \<Rightarrow>
          (case (parse_u64 (trim len), parse_u64 (trim ofs)) of
             (Some l, Some a) \<Rightarrow> Some (l, Some a) | _ \<Rightarrow> None)
      | None \<Rightarrow> map_option (\<lambda>l. (l, None)) (parse_u64 v))"

datatype fatal_reason =
    UnknownMethod | DrmKey key_format | BadKeyUrl | BadIv | MapWithoutUri | BadMapUrl | BadMapRange | BadRange | BadSegmentUrl

record media_playlist =
  mp_segments :: "segment list"
  mp_init :: "segment option"
  mp_live :: bool
  mp_fmp4 :: bool
  mp_target_duration :: rat
  mp_parts_only :: bool
  mp_fatal :: "fatal_reason option"

record parse_state =
  ps_out :: media_playlist
  ps_key :: "pending_key option"
  ps_sequence :: nat
  ps_next_range :: "(nat \<times> nat) option"
  ps_next_duration :: rat
  ps_last_range_end :: "(bytes \<times> nat) option"
  ps_endlist :: bool
  ps_current_map :: "segment option"
  ps_next_is_gap :: bool
  ps_parts :: "segment list"

definition media_playlist0 :: media_playlist where
  "media_playlist0 =
     \<lparr>mp_segments = [], mp_init = None, mp_live = False, mp_fmp4 = False, mp_target_duration = 0,
      mp_parts_only = False, mp_fatal = None\<rparr>"

definition parse_state0 :: parse_state where
  "parse_state0 =
     \<lparr>ps_out = media_playlist0, ps_key = None, ps_sequence = 0, ps_next_range = None, ps_next_duration = 0,
      ps_last_range_end = None, ps_endlist = False, ps_current_map = None, ps_next_is_gap = False, ps_parts = []\<rparr>"

definition fatal :: "fatal_reason \<Rightarrow> parse_state \<Rightarrow> parse_state" where
  "fatal e p = p\<lparr>ps_out := (ps_out p)\<lparr>mp_fatal := Some e\<rparr>\<rparr>"

definition push_segment :: "segment \<Rightarrow> parse_state \<Rightarrow> parse_state" where
  "push_segment s p = p\<lparr>ps_out := (ps_out p)\<lparr>mp_segments := mp_segments (ps_out p) @ [s]\<rparr>\<rparr>"

definition read_secs :: "(bytes \<Rightarrow> rat option) \<Rightarrow> bytes \<Rightarrow> rat" where
  "read_secs secs t = max 0 (unwrap_or 0 (secs (trim t)))"

definition on_key :: "(bytes \<Rightarrow> bytes option) \<Rightarrow> bytes \<Rightarrow> parse_state \<Rightarrow> parse_state option" where
  "on_key join rest p =
     (let attrs = parse_attributes rest;
          (method, known) = parse_method (unwrap_or (lit ''NONE'') (attr attrs (lit ''METHOD'')));
          key_format = parse_key_format (attr attrs (lit ''KEYFORMAT''))
      in if \<not> known then Some (fatal UnknownMethod p)
         else if \<not> needs_key method then Some (p\<lparr>ps_key := None\<rparr>)
         else if is_drm key_format then Some (fatal (DrmKey key_format) p)
         else if trim (unwrap_or [] (attr attrs (lit ''URI''))) = [] then Some (p\<lparr>ps_key := None\<rparr>)
         else case resolve_url join (unwrap_or [] (attr attrs (lit ''URI''))) of
           None \<Rightarrow> None
         | Some None \<Rightarrow> Some (fatal BadKeyUrl p)
         | Some (Some url) \<Rightarrow>
             (case (if trim (unwrap_or [] (attr attrs (lit ''IV''))) = [] then Some (Inr None)
                    else case parse_iv (unwrap_or [] (attr attrs (lit ''IV''))) of
                           None \<Rightarrow> None
                         | Some None \<Rightarrow> Some (Inl BadIv)
                         | Some (Some iv) \<Rightarrow> Some (Inr (Some iv))) of
                None \<Rightarrow> None
              | Some (Inl e) \<Rightarrow> Some (fatal e p)
              | Some (Inr iv) \<Rightarrow>
                  Some (p\<lparr>ps_key := Some \<lparr>pk_url = url, pk_iv = iv, pk_method = method, pk_format = key_format\<rparr>\<rparr>)))"

definition on_map :: "(bytes \<Rightarrow> bytes option) \<Rightarrow> bytes \<Rightarrow> parse_state \<Rightarrow> parse_state option" where
  "on_map join rest p =
     (let attrs = parse_attributes rest in
      case attr attrs (lit ''URI'') of
        None \<Rightarrow> Some (fatal MapWithoutUri p)
      | Some uri \<Rightarrow>
          case resolve_url join uri of
            None \<Rightarrow> None
          | Some None \<Rightarrow> Some (fatal BadMapUrl p)
          | Some (Some url) \<Rightarrow>
              case (case attr attrs (lit ''BYTERANGE'') of
                      None \<Rightarrow> Inr None
                    | Some v \<Rightarrow>
                        (case parse_byterange v of
                           None \<Rightarrow> Inl BadMapRange
                         | Some (len, ofs) \<Rightarrow> Inr (Some (unwrap_or 0 ofs, len)))) of
                Inl e \<Rightarrow> Some (fatal e p)
              | Inr rng \<Rightarrow>
                  let s = \<lparr>sg_url = url, sg_range = rng, sg_key = None, sg_len = map_option snd rng,
                           sg_duration = 0, sg_seq = ps_sequence p, sg_is_map = True\<rparr>;
                      p1 = p\<lparr>ps_out := (ps_out p)\<lparr>mp_fmp4 := True\<rparr>\<rparr>
                  in Some (case ps_current_map p of
                             None \<Rightarrow> p1\<lparr>ps_current_map := Some s, ps_out := (ps_out p1)\<lparr>mp_init := Some s\<rparr>\<rparr>
                           | Some prev \<Rightarrow>
                               if sg_url prev = url \<and> sg_range prev = rng then p1
                               else push_segment s (p1\<lparr>ps_current_map := Some s\<rparr>)))"

definition on_part :: "(bytes \<Rightarrow> bytes option) \<Rightarrow> (bytes \<Rightarrow> rat option) \<Rightarrow> bytes \<Rightarrow> parse_state \<Rightarrow> parse_state option" where
  "on_part join secs rest p =
     (let attrs = parse_attributes rest;
          duration = (case attr attrs (lit ''DURATION'') of None \<Rightarrow> 0 | Some v \<Rightarrow> read_secs secs v)
      in case attr attrs (lit ''URI'') of
           None \<Rightarrow> Some p
         | Some u \<Rightarrow>
             case resolve_url join u of
               None \<Rightarrow> None
             | Some None \<Rightarrow> Some p
             | Some (Some url) \<Rightarrow>
                 Some (p\<lparr>ps_parts := ps_parts p @
                          [\<lparr>sg_url = url, sg_range = None, sg_key = map_option (resolve_key (ps_sequence p)) (ps_key p),
                            sg_len = None, sg_duration = duration, sg_seq = ps_sequence p, sg_is_map = False\<rparr>]\<rparr>))"

text \<open>Where a byte range starts when the tag leaves it out.\<close>

definition range_start :: "bytes \<Rightarrow> nat \<Rightarrow> parse_state \<Rightarrow> nat" where
  "range_start url ofs p =
     (if ofs = max_u64 then
        (case ps_last_range_end p of Some (u, e) \<Rightarrow> if u = url then e else 0 | None \<Rightarrow> 0)
      else ofs)"

definition next_sequence :: "parse_state \<Rightarrow> nat" where
  "next_sequence p = (ps_sequence p + 1) mod 2 ^ 64"

definition on_uri :: "(bytes \<Rightarrow> bytes option) \<Rightarrow> bytes \<Rightarrow> parse_state \<Rightarrow> parse_state option" where
  "on_uri join line p0 =
     (case resolve_url join line of
        None \<Rightarrow> None
      | Some None \<Rightarrow> Some (fatal BadSegmentUrl p0)
      | Some (Some url) \<Rightarrow>
          let p = p0\<lparr>ps_next_duration := 0\<rparr> in
          if ps_next_is_gap p then
            Some (p\<lparr>ps_next_is_gap := False, ps_next_range := None, ps_sequence := next_sequence p\<rparr>)
          else
            let rng = (case ps_next_range p of
                           None \<Rightarrow> None | Some (len, ofs) \<Rightarrow> Some (range_start url ofs p, len));
                s = \<lparr>sg_url = url, sg_range = rng, sg_key = map_option (resolve_key (ps_sequence p)) (ps_key p),
                     sg_len = map_option snd rng, sg_duration = ps_next_duration p0, sg_seq = ps_sequence p,
                     sg_is_map = False\<rparr>
            in Some (push_segment s
                 (p\<lparr>ps_next_range := None,
                    ps_last_range_end := (case rng of
                                            None \<Rightarrow> ps_last_range_end p
                                          | Some (start, len) \<Rightarrow> Some (url, (start + len) mod 2 ^ 64)),
                    ps_sequence := next_sequence p\<rparr>)))"

definition media_line ::
  "(bytes \<Rightarrow> bytes option) \<Rightarrow> (bytes \<Rightarrow> rat option) \<Rightarrow> bytes \<Rightarrow> parse_state \<Rightarrow> parse_state option" where
  "media_line join secs raw p =
     (let line = trim raw in
      if line = [] then Some p
      else case strip_prefix (lit ''#EXT-X-MEDIA-SEQUENCE:'') line of
        Some rest \<Rightarrow> Some (p\<lparr>ps_sequence := unwrap_or 0 (parse_u64 (trim rest))\<rparr>)
      | None \<Rightarrow>
      case strip_prefix (lit ''#EXT-X-TARGETDURATION:'') line of
        Some rest \<Rightarrow> Some (p\<lparr>ps_out := (ps_out p)\<lparr>mp_target_duration := read_secs secs rest\<rparr>\<rparr>)
      | None \<Rightarrow>
      if starts_with (lit ''#EXT-X-DISCONTINUITY-SEQUENCE:'') line then Some p
      else case strip_prefix (lit ''#EXT-X-KEY:'') line of
        Some rest \<Rightarrow> on_key join rest p
      | None \<Rightarrow>
      case strip_prefix (lit ''#EXT-X-MAP:'') line of
        Some rest \<Rightarrow> on_map join rest p
      | None \<Rightarrow>
      case strip_prefix (lit ''#EXTINF:'') line of
        Some rest \<Rightarrow>
          Some (p\<lparr>ps_next_duration := read_secs secs (takeWhile (\<lambda>b. b \<noteq> 44) rest)\<rparr>)
      | None \<Rightarrow>
      case strip_prefix (lit ''#EXT-X-BYTERANGE:'') line of
        Some rest \<Rightarrow>
          Some (case parse_byterange rest of
                  None \<Rightarrow> fatal BadRange p
                | Some (len, ofs) \<Rightarrow> p\<lparr>ps_next_range := Some (len, unwrap_or max_u64 ofs)\<rparr>)
      | None \<Rightarrow>
      case strip_prefix (lit ''#EXT-X-PART:'') line of
        Some rest \<Rightarrow> on_part join secs rest p
      | None \<Rightarrow>
      if line = lit ''#EXT-X-ENDLIST'' then Some (p\<lparr>ps_endlist := True\<rparr>)
      else if line = lit ''#EXT-X-GAP'' then Some (p\<lparr>ps_next_is_gap := True\<rparr>)
      else if hd line = 35 then Some p
      else on_uri join line p)"

definition finish_media :: "parse_state \<Rightarrow> media_playlist" where
  "finish_media p =
     (let out = (ps_out p)\<lparr>mp_live := \<not> ps_endlist p\<rparr>;
          out = (case mp_segments out of
                   [] \<Rightarrow> out
                 | first # _ \<Rightarrow> out\<lparr>mp_init := map_option (\<lambda>i. i\<lparr>sg_seq := sg_seq first\<rparr>) (mp_init out)\<rparr>)
      in if mp_segments out = [] \<and> ps_parts p \<noteq> [] then out\<lparr>mp_segments := ps_parts p, mp_parts_only := True\<rparr>
         else out)"

definition parse_media :: "(bytes \<Rightarrow> bytes option) \<Rightarrow> (bytes \<Rightarrow> rat option) \<Rightarrow> bytes \<Rightarrow> media_playlist option" where
  "parse_media join secs text =
     map_option finish_media (fold_lines (media_line join secs) (lines (clean_text text)) parse_state0)"

end
