(* ===== verification/Hls_Parse_Claims.thy ===== *)
theory Hls_Parse_Claims
  imports Hls_Parse
begin

text \<open>
  What the playlist parsers do: a printed media playlist is read back as the segments it lists, with
  their numbers, byte ranges and durations; which texts make the parser panic; which variant is chosen.
\<close>

section \<open>Printing a media playlist\<close>

record entry =
  en_secs :: bytes
  en_range :: "(nat \<times> nat option) option"
  en_gap :: bool
  en_url :: bytes

definition range_line :: "nat \<times> nat option \<Rightarrow> bytes" where
  "range_line r =
     lit ''#EXT-X-BYTERANGE:'' @ dec_bytes (fst r) @ (case snd r of None \<Rightarrow> [] | Some a \<Rightarrow> 64 # dec_bytes a)"

definition entry_lines :: "entry \<Rightarrow> bytes list" where
  "entry_lines e =
     [lit ''#EXTINF:'' @ en_secs e @ [44]]
     @ (case en_range e of None \<Rightarrow> [] | Some r \<Rightarrow> [range_line r])
     @ (if en_gap e then [lit ''#EXT-X-GAP''] else []) @ [en_url e]"

definition media_lines :: "nat \<Rightarrow> entry list \<Rightarrow> bool \<Rightarrow> bytes list" where
  "media_lines sq es ended =
     [lit ''#EXTM3U'', lit ''#EXT-X-MEDIA-SEQUENCE:'' @ dec_bytes sq] @ concat (map entry_lines es)
     @ (if ended then [lit ''#EXT-X-ENDLIST''] else [])"

definition media_text :: "nat \<Rightarrow> entry list \<Rightarrow> bool \<Rightarrow> bytes" where
  "media_text sq es ended = concat (map (\<lambda>l. l @ [10]) (media_lines sq es ended))"

text \<open>The segments such a playlist stands for.\<close>

definition entry_start :: "(bytes \<times> nat) option \<Rightarrow> bytes \<Rightarrow> nat option \<Rightarrow> nat" where
  "entry_start prev url ofs =
     (case ofs of
        Some a \<Rightarrow> a
      | None \<Rightarrow> (case prev of Some (u, e) \<Rightarrow> if u = url then e else 0 | None \<Rightarrow> 0))"

fun play ::
  "(bytes \<Rightarrow> bytes option) \<Rightarrow> (bytes \<Rightarrow> rat option) \<Rightarrow> nat \<Rightarrow> (bytes \<times> nat) option \<Rightarrow> entry list \<Rightarrow> segment list" where
  "play join secs sq prev [] = []"
| "play join secs sq prev (e # es) =
     (if en_gap e then play join secs (sq + 1) prev es
      else
        let url = the (join (en_url e));
            rng = map_option (\<lambda>(len, ofs). (entry_start prev url ofs, len)) (en_range e);
            prev' = (case rng of None \<Rightarrow> prev | Some (a, len) \<Rightarrow> Some (url, a + len))
        in \<lparr>sg_url = url, sg_range = rng, sg_key = None, sg_len = map_option snd rng,
            sg_duration = read_secs secs (en_secs e), sg_seq = sq, sg_is_map = False\<rparr>
           # play join secs (sq + 1) prev' es)"

text \<open>Addresses and byte ranges a printer would write.\<close>

definition graphic :: "byte \<Rightarrow> bool" where
  "graphic b \<longleftrightarrow> 33 \<le> b \<and> b < 0x80"

definition plain_url :: "(bytes \<Rightarrow> bytes option) \<Rightarrow> bytes \<Rightarrow> bool" where
  "plain_url join u \<longleftrightarrow> u \<noteq> [] \<and> graphic (hd u) \<and> graphic (last u) \<and> hd u \<noteq> 35 \<and> 10 \<notin> set u
     \<and> resolve_url join u = Some (join u) \<and> join u \<noteq> None"

definition plain_range :: "nat \<times> nat option \<Rightarrow> bool" where
  "plain_range r \<longleftrightarrow> fst r < 2 ^ 32 \<and> (case snd r of None \<Rightarrow> True | Some a \<Rightarrow> a < 2 ^ 63)"

definition plain_entry :: "(bytes \<Rightarrow> bytes option) \<Rightarrow> entry \<Rightarrow> bool" where
  "plain_entry join e \<longleftrightarrow> plain_url join (en_url e) \<and> 44 \<notin> set (en_secs e) \<and> 10 \<notin> set (en_secs e)
     \<and> (case en_range e of None \<Rightarrow> True | Some r \<Rightarrow> plain_range r)"

section \<open>One line\<close>

lemma digit_graphic: "is_ascii_digit b \<Longrightarrow> graphic b"
  by (auto simp: is_ascii_digit_def graphic_def word_le_nat_alt word_less_nat_alt)

lemma tight_graphicI: "s \<noteq> [] \<Longrightarrow> graphic (hd s) \<Longrightarrow> graphic (last s) \<Longrightarrow> tight s"
  by (simp add: graphic_def tight_graphic)

lemma dec_bytes_graphic: "graphic (hd (dec_bytes n)) \<and> graphic (last (dec_bytes n))"
  using dec_bytes_digits [of n] by (auto simp: list_all_iff intro: digit_graphic)

lemma trim_dec [simp]: "trim (dec_bytes n) = dec_bytes n"
  by (intro trim_tight tight_graphicI) (simp_all add: dec_bytes_graphic)

lemma not_in_dec: "\<not> is_ascii_digit b \<Longrightarrow> b \<notin> set (dec_bytes n)"
  using dec_bytes_digits [of n] by (auto simp: list_all_iff)

lemma lits_graphic: "graphic 35" "graphic 44"
  by (simp_all add: graphic_def)

lemma trim_tag: "l = 35 # s \<Longrightarrow> s \<noteq> [] \<Longrightarrow> graphic (last s) \<Longrightarrow> trim l = l"
  by (intro trim_tight tight_graphicI) (simp_all add: lits_graphic)

lemmas tag_simps = media_line_def Let_def strip_prefix_def starts_with_def lit_def

lemma line_extm3u: "media_line join secs (lit ''#EXTM3U'') p = Some p"
proof -
  have "trim (lit ''#EXTM3U'') = lit ''#EXTM3U''"
    by (rule trim_tag [of _ "lit ''EXTM3U''"]) (simp_all add: lit_def graphic_def)
  then show ?thesis by (simp add: tag_simps)
qed

lemma line_endlist: "media_line join secs (lit ''#EXT-X-ENDLIST'') p = Some (p\<lparr>ps_endlist := True\<rparr>)"
proof -
  have "trim (lit ''#EXT-X-ENDLIST'') = lit ''#EXT-X-ENDLIST''"
    by (rule trim_tag [of _ "lit ''EXT-X-ENDLIST''"]) (simp_all add: lit_def graphic_def)
  then show ?thesis by (simp add: tag_simps)
qed

lemma line_gap: "media_line join secs (lit ''#EXT-X-GAP'') p = Some (p\<lparr>ps_next_is_gap := True\<rparr>)"
proof -
  have "trim (lit ''#EXT-X-GAP'') = lit ''#EXT-X-GAP''"
    by (rule trim_tag [of _ "lit ''EXT-X-GAP''"]) (simp_all add: lit_def graphic_def)
  then show ?thesis by (simp add: tag_simps)
qed

lemma line_sequence:
  assumes "n < 2 ^ 64"
  shows "media_line join secs (lit ''#EXT-X-MEDIA-SEQUENCE:'' @ dec_bytes n) p = Some (p\<lparr>ps_sequence := n\<rparr>)"
proof -
  have "trim (lit ''#EXT-X-MEDIA-SEQUENCE:'' @ dec_bytes n) = lit ''#EXT-X-MEDIA-SEQUENCE:'' @ dec_bytes n"
    by (rule trim_tag [of _ "lit ''EXT-X-MEDIA-SEQUENCE:'' @ dec_bytes n"]) (simp_all add: lit_def dec_bytes_graphic)
  with parse_u64_dec_bytes [OF assms] show ?thesis by (simp add: tag_simps unwrap_or_def)
qed

lemma line_extinf:
  assumes "44 \<notin> set t"
  shows "media_line join secs (lit ''#EXTINF:'' @ t @ [44]) p = Some (p\<lparr>ps_next_duration := read_secs secs t\<rparr>)"
proof -
  have "trim (lit ''#EXTINF:'' @ t @ [44]) = lit ''#EXTINF:'' @ t @ [44]"
    by (rule trim_tag [of _ "lit ''EXTINF:'' @ t @ [44]"]) (simp_all add: lit_def lits_graphic)
  moreover have "takeWhile (\<lambda>b. b \<noteq> 44) (t @ [44]) = t" using assms by (auto simp: takeWhile_append)
  ultimately show ?thesis by (simp add: tag_simps)
qed

lemma parse_byterange_printed:
  assumes "plain_range r"
  shows "parse_byterange (dec_bytes (fst r) @ (case snd r of None \<Rightarrow> [] | Some a \<Rightarrow> 64 # dec_bytes a)) = Some r"
proof (cases r)
  case (Pair l ofs)
  with assms have l: "parse_u64 (dec_bytes l) = Some l" by (intro parse_u64_dec_bytes) (simp add: plain_range_def)
  have n: "64 \<notin> set (dec_bytes l)" by (rule not_in_dec) (simp add: is_ascii_digit_def)
  show ?thesis
  proof (cases ofs)
    case None
    with Pair l n show ?thesis by (simp add: parse_byterange_def split_once_def)
  next
    case (Some a)
    with assms Pair have a: "parse_u64 (dec_bytes a) = Some a" by (intro parse_u64_dec_bytes) (simp add: plain_range_def)
    have "trim (dec_bytes l @ 64 # dec_bytes a) = dec_bytes l @ 64 # dec_bytes a"
      by (intro trim_tight tight_graphicI) (simp_all add: dec_bytes_graphic)
    with Pair Some l a n show ?thesis by (simp add: parse_byterange_def split_once_append)
  qed
qed

lemma line_range:
  assumes "plain_range r"
  shows "media_line join secs (range_line r) p = Some (p\<lparr>ps_next_range := Some (fst r, unwrap_or max_u64 (snd r))\<rparr>)"
proof -
  have "trim (range_line r) = range_line r"
    unfolding range_line_def
    by (rule trim_tag [of _ "lit ''EXT-X-BYTERANGE:'' @ dec_bytes (fst r) @ (case snd r of None \<Rightarrow> [] | Some a \<Rightarrow> 64 # dec_bytes a)"])
      (simp_all add: lit_def dec_bytes_graphic split: option.split)
  moreover obtain l ofs where "r = (l, ofs)" by (cases r)
  ultimately show ?thesis
    using parse_byterange_printed [OF assms] by (simp add: tag_simps range_line_def)
qed

lemma line_url:
  assumes "plain_url join u"
  shows "media_line join secs u p = on_uri join u p"
proof -
  from assms have u: "u \<noteq> []" "graphic (hd u)" "graphic (last u)" "hd u \<noteq> 35" by (auto simp: plain_url_def)
  then have t: "trim u = u" by (intro trim_tight tight_graphicI)
  obtain a s where "u = a # s" using u(1) by (cases u) auto
  with u t show ?thesis by (simp add: tag_simps)
qed

section \<open>All lines\<close>

lemma fold_lines_append: "fold_lines f (a @ b) s = Option.bind (fold_lines f a s) (fold_lines f b)"
  by (induction a arbitrary: s) (auto split: option.splits)

text \<open>The state of the parser between entries.\<close>

definition between :: "nat \<Rightarrow> (bytes \<times> nat) option \<Rightarrow> segment list \<Rightarrow> rat \<Rightarrow> parse_state" where
  "between sq prev ss d = parse_state0\<lparr>ps_sequence := sq, ps_last_range_end := prev,
     ps_out := media_playlist0\<lparr>mp_segments := ss\<rparr>, ps_next_duration := d\<rparr>"

lemma between_simps [simp]:
  "ps_sequence (between sq prev ss d) = sq" "ps_last_range_end (between sq prev ss d) = prev"
  "ps_out (between sq prev ss d) = media_playlist0\<lparr>mp_segments := ss\<rparr>" "ps_key (between sq prev ss d) = None"
  "ps_next_range (between sq prev ss d) = None" "ps_next_is_gap (between sq prev ss d) = False"
  "ps_parts (between sq prev ss d) = []"
  by (simp_all add: between_def parse_state0_def)

definition entry_end :: "(bytes \<Rightarrow> bytes option) \<Rightarrow> (bytes \<times> nat) option \<Rightarrow> entry \<Rightarrow> (bytes \<times> nat) option" where
  "entry_end join prev e =
     (if en_gap e then prev
      else case map_option (\<lambda>(len, ofs). (entry_start prev (the (join (en_url e))) ofs, len)) (en_range e) of
             None \<Rightarrow> prev | Some (a, len) \<Rightarrow> Some (the (join (en_url e)), a + len))"

definition small_end :: "nat \<Rightarrow> (bytes \<times> nat) option \<Rightarrow> bool" where
  "small_end n prev \<longleftrightarrow> (case prev of None \<Rightarrow> True | Some (u, e) \<Rightarrow> e \<le> 2 ^ 63 + n * 2 ^ 32)"

lemma play_Cons: "play join secs sq prev (e # es) = play join secs sq prev [e] @ play join secs (sq + 1) (entry_end join prev e) es"
  by (auto simp: Let_def entry_end_def split: option.splits)

lemma entry_start_bound:
  assumes "small_end n prev" "plain_range (len, ofs)" "n < 2 ^ 30"
  shows "entry_start prev url ofs + len \<le> 2 ^ 63 + (n + 1) * 2 ^ 32"
  using assms by (auto simp: entry_start_def small_end_def plain_range_def split: option.splits prod.splits)

lemma range_start_entry:
  assumes "plain_range (len, ofs)" "ps_last_range_end q = prev"
  shows "range_start url (unwrap_or max_u64 ofs) q = entry_start prev url ofs"
  using assms by (auto simp: range_start_def entry_start_def plain_range_def unwrap_or_def max_u64_def split: option.splits)

lemma uri_step:
  fixes t :: bytes and gap :: bool
  assumes u: "plain_url join u" and sq: "sq + 1 < 2 ^ 64"
    and r: "case rng of None \<Rightarrow> True | Some r \<Rightarrow> plain_range r" and small: "small_end n prev" "n < 2 ^ 30"
  defines "e \<equiv> \<lparr>en_secs = t, en_range = rng, en_gap = gap, en_url = u\<rparr>"
  shows "on_uri join u ((between sq prev ss (read_secs secs t))
      \<lparr>ps_next_range := map_option (\<lambda>r. (fst r, unwrap_or max_u64 (snd r))) rng, ps_next_is_gap := gap\<rparr>)
    = Some (between (sq + 1) (entry_end join prev e) (ss @ play join secs sq prev [e]) 0)
    \<and> small_end (n + 1) (entry_end join prev e)"
proof -
  from u obtain url where url: "resolve_url join u = Some (Some url)" "join u = Some url"
    by (auto simp: plain_url_def)
  have mod: "(sq + 1) mod 2 ^ 64 = sq + 1" using sq by simp
  have keep: "small_end (n + 1) prev" using small(1) by (auto simp: small_end_def split: option.splits)
  show ?thesis
  proof (cases gap)
    case True
    with url mod keep show ?thesis
      by (simp add: on_uri_def Let_def next_sequence_def e_def entry_end_def) (simp add: between_def parse_state0_def)
  next
    case False
    show ?thesis
    proof (cases rng)
      case None
      with False url mod keep show ?thesis
        by (simp add: on_uri_def Let_def next_sequence_def e_def entry_end_def push_segment_def)
          (simp add: between_def parse_state0_def)
    next
      case (Some lr)
      obtain len ofs where lr: "lr = (len, ofs)" by (cases lr)
      with Some r have p: "plain_range (len, ofs)" by simp
      define a where "a = entry_start prev url ofs"
      have a: "range_start url (unwrap_or max_u64 ofs) q = a" if "ps_last_range_end q = prev" for q
        using range_start_entry [OF p that] by (simp add: a_def)
      have "a + len \<le> 2 ^ 63 + (n + 1) * 2 ^ 32"
        using entry_start_bound [OF small(1) p small(2)] by (simp add: a_def)
      then have b: "small_end (n + 1) (Some (url, a + len))" "(a + len) mod 2 ^ 64 = a + len"
        using small(2) by (auto simp: small_end_def)
      from False Some url mod a b show ?thesis
        unfolding lr
        by (simp add: on_uri_def Let_def next_sequence_def e_def entry_end_def push_segment_def flip: a_def)
          (simp add: between_def parse_state0_def)
    qed
  qed
qed

lemma entry_step:
  assumes e: "plain_entry join e" and sq: "sq + 1 < 2 ^ 64" and small: "small_end n prev" "n < 2 ^ 30"
  shows "fold_lines (media_line join secs) (entry_lines e) (between sq prev ss d)
      = Some (between (sq + 1) (entry_end join prev e) (ss @ play join secs sq prev [e]) 0)
    \<and> small_end (n + 1) (entry_end join prev e)"
proof -
  obtain t rng gap u where E: "e = \<lparr>en_secs = t, en_range = rng, en_gap = gap, en_url = u\<rparr>" by (cases e)
  with e have u: "plain_url join u" "44 \<notin> set t" and r: "case rng of None \<Rightarrow> True | Some r \<Rightarrow> plain_range r"
    by (auto simp: plain_entry_def)
  have 1: "(between sq prev ss d)\<lparr>ps_next_duration := x\<rparr> = between sq prev ss x" for x
    by (simp add: between_def)
  have 2: "(between sq prev ss x)\<lparr>ps_next_range := None, ps_next_is_gap := False\<rparr> = between sq prev ss x"
    "(between sq prev ss x)\<lparr>ps_next_range := None, ps_next_is_gap := True\<rparr> = (between sq prev ss x)\<lparr>ps_next_is_gap := True\<rparr>"
    "(between sq prev ss x)\<lparr>ps_next_range := y, ps_next_is_gap := False\<rparr> = (between sq prev ss x)\<lparr>ps_next_range := y\<rparr>" for x y
    by (simp_all add: between_def parse_state0_def)
  have "fold_lines (media_line join secs) (entry_lines e) (between sq prev ss d)
    = on_uri join u ((between sq prev ss (read_secs secs t))
      \<lparr>ps_next_range := map_option (\<lambda>r. (fst r, unwrap_or max_u64 (snd r))) rng, ps_next_is_gap := gap\<rparr>)"
    using r
    by (cases rng; cases gap)
      (simp_all add: E entry_lines_def fold_lines_append line_extinf [OF u(2)] 1 line_range line_gap line_url [OF u(1)] 2
        split: option.split)
  with uri_step [OF u(1) sq r small, where secs = secs and t = t and gap = gap and ss = ss] show ?thesis by (simp add: E)
qed

lemma entries_steps:
  assumes "list_all (plain_entry join) es" "sq + length es < 2 ^ 64" "small_end n prev" "n + length es \<le> 2 ^ 30"
  shows "\<exists>prev' d'. fold_lines (media_line join secs) (concat (map entry_lines es)) (between sq prev ss d)
      = Some (between (sq + length es) prev' (ss @ play join secs sq prev es) d')"
  using assms
proof (induction es arbitrary: sq prev ss n d)
  case (Cons e es)
  have step: "fold_lines (media_line join secs) (entry_lines e) (between sq prev ss d)
      = Some (between (sq + 1) (entry_end join prev e) (ss @ play join secs sq prev [e]) 0)
    \<and> small_end (n + 1) (entry_end join prev e)"
    by (rule entry_step) (use Cons.prems in auto)
  from Cons.IH [of "sq + 1" "n + 1" "entry_end join prev e" "ss @ play join secs sq prev [e]" 0] Cons.prems step
  obtain prev' d' where "fold_lines (media_line join secs) (concat (map entry_lines es))
      (between (sq + 1) (entry_end join prev e) (ss @ play join secs sq prev [e]) 0)
    = Some (between (sq + 1 + length es) prev' ((ss @ play join secs sq prev [e]) @ play join secs (sq + 1) (entry_end join prev e) es) d')"
    by auto
  with step show ?case
    by (intro exI [of _ prev'] exI [of _ d'])
      (simp add: fold_lines_append play_Cons [of join secs sq prev e es] del: play.simps)
qed auto

section \<open>The whole text\<close>

lemma lines_from_last: "10 \<notin> set l \<Longrightarrow> lines_from cur l = (if cur @ l = [] then [] else [cur @ l])"
  by (induction l arbitrary: cur) auto

lemma lines_joined:
  assumes "\<And>l. l \<in> set ls \<Longrightarrow> 10 \<notin> set l \<and> (l = [] \<or> last l \<noteq> 13)" "l \<noteq> []" "10 \<notin> set l"
  shows "lines (concat (map (\<lambda>l. l @ [10]) ls) @ l) = ls @ [l]"
  using assms by (induction ls) (auto simp: lines_def lines_from_append strip_cr_def lines_from_last)

lemma trim_end_newline: "x \<noteq> [] \<Longrightarrow> graphic (last x) \<Longrightarrow> trim_end (x @ [10]) = x"
proof -
  assume x: "x \<noteq> []" "graphic (last x)"
  have "head_len (map rev ws_seqs) (10 # rev x) = 1"
    by (simp add: head_len_def ws_seqs_def starts_with_def)
  moreover have "head_len (map rev ws_seqs) (rev x) = 0"
    using x by (intro head_len_graphic ws_ends) (auto simp: graphic_def hd_rev)
  ultimately have "strip_seqs (map rev ws_seqs) (10 # rev x) = rev x"
    by (subst strip_seqs.simps) (simp add: strip_seqs.simps [of _ "rev x"])
  then show ?thesis by (simp add: trim_end_def)
qed

lemma clean_text_line:
  assumes "x = 35 # y" "graphic (last x)"
  shows "clean_text (x @ [10]) = x"
proof -
  have "head_len [[0xEF, 0xBB, 0xBF]] (x @ [10]) = 0"
    using assms by (intro head_len_other) (simp_all add: list_all_iff)
  then have 1: "strip_seqs [[0xEF, 0xBB, 0xBF]] (x @ [10]) = x @ [10]" by (simp add: strip_seqs.simps)
  have "head_len ws_seqs (x @ [10]) = 0"
    using assms by (intro head_len_graphic ws_ends) simp_all
  then have 2: "trim_start (x @ [10]) = x @ [10]" by (simp add: trim_start_def strip_seqs.simps)
  have "trim_end (x @ [10]) = x" by (rule trim_end_newline) (use assms in auto)
  with 1 2 show ?thesis by (simp add: clean_text_def trim_def)
qed

definition good_line :: "bytes \<Rightarrow> bool" where
  "good_line l \<longleftrightarrow> l \<noteq> [] \<and> 10 \<notin> set l \<and> graphic (last l)"

lemma good_line_facts: "good_line l \<Longrightarrow> l \<noteq> [] \<and> 10 \<notin> set l \<and> (l = [] \<or> last l \<noteq> 13)"
  by (auto simp: good_line_def graphic_def)

lemma good_dec: "s \<noteq> [] \<Longrightarrow> 10 \<notin> set s \<Longrightarrow> good_line (s @ dec_bytes n)"
  by (simp add: good_line_def dec_bytes_graphic not_in_dec is_ascii_digit_def)

lemma good_lits:
  "good_line (lit ''#EXTM3U'')" "good_line (lit ''#EXT-X-ENDLIST'')" "good_line (lit ''#EXT-X-GAP'')"
  by (simp_all add: good_line_def lit_def graphic_def)

lemma good_range_line: "good_line (range_line r)"
  by (cases r; cases "snd r")
    (auto simp: good_line_def range_line_def lit_def dec_bytes_graphic not_in_dec is_ascii_digit_def)

lemma good_media_lines:
  assumes "list_all (plain_entry join) es" "l \<in> set (media_lines sq es ended)"
  shows "good_line l"
proof -
  have "good_line (lit ''#EXTINF:'' @ en_secs e @ [44])" if "plain_entry join e" for e
    using that by (simp add: good_line_def plain_entry_def lit_def lits_graphic)
  moreover have "good_line (en_url e)" if "plain_entry join e" for e
    using that by (simp add: good_line_def plain_entry_def plain_url_def)
  moreover have "good_line (lit ''#EXT-X-MEDIA-SEQUENCE:'' @ dec_bytes sq)"
    by (rule good_dec) (simp_all add: lit_def)
  ultimately show ?thesis
    using assms good_lits good_range_line
    by (auto simp: media_lines_def entry_lines_def list_all_iff split: option.splits if_splits)
qed

lemma lines_media_text:
  assumes "list_all (plain_entry join) es"
  shows "lines (clean_text (media_text sq es ended)) = media_lines sq es ended"
proof -
  let ?ls = "media_lines sq es ended"
  have ne: "?ls \<noteq> []" by (simp add: media_lines_def)
  have g: "good_line l" if "l \<in> set ?ls" for l using good_media_lines [OF assms that] .
  let ?x = "concat (map (\<lambda>l. l @ [10]) (butlast ?ls)) @ last ?ls"
  have mt: "media_text sq es ended = ?x @ [10]"
  proof -
    have "media_text sq es ended = concat (map (\<lambda>l. l @ [10]) (butlast ?ls @ [last ?ls]))"
      using ne by (simp add: media_text_def)
    also have "\<dots> = ?x @ [10]" by (simp only: map_append concat_append) simp
    finally show ?thesis .
  qed
  have "\<exists>y. ?x = 35 # y"
  proof -
    have "?x @ [10] = 35 # tl (lit ''#EXTM3U'') @ [10] @ concat (map (\<lambda>l. l @ [10]) (tl ?ls))"
      unfolding mt [symmetric] by (simp add: media_text_def media_lines_def) (simp add: lit_def)
    moreover have "?x \<noteq> []" using g [OF last_in_set [OF ne]] by (simp add: good_line_def)
    ultimately show ?thesis by (cases ?x) auto
  qed
  then obtain y where y: "?x = 35 # y" ..
  have gl: "good_line (last ?ls)" using g [OF last_in_set [OF ne]] .
  then have "graphic (last ?x)" by (simp add: good_line_def)
  with y have "clean_text (?x @ [10]) = ?x" by (rule clean_text_line)
  moreover have "lines ?x = butlast ?ls @ [last ?ls]"
    using good_line_facts [OF gl] good_line_facts [OF g] by (intro lines_joined) (blast dest: in_set_butlastD)+
  ultimately show ?thesis using ne mt by simp
qed

text \<open>
  C23. A media playlist printed with a first sequence number and, for each segment, a duration, a byte
  range with or without its start, and an address, some of them marked as gaps, is read back as exactly
  the segments that are not gaps: numbered consecutively with the gaps counted, a range without a start
  taken from the end of the previous range of the same address, live when there is no end mark.
\<close>

theorem media_playlist_read_back:
  assumes "list_all (plain_entry join) es" "sq + length es < 2 ^ 64" "length es < 2 ^ 30"
  shows "parse_media join secs (media_text sq es ended)
    = Some (media_playlist0\<lparr>mp_segments := play join secs sq None es, mp_live := \<not> ended\<rparr>)"
proof -
  have seq: "sq < 2 ^ 64" using assms(2) by simp
  have 0: "parse_state0\<lparr>ps_sequence := sq\<rparr> = between sq None [] 0"
    by (simp add: between_def parse_state0_def media_playlist0_def)
  obtain prev' d' where body: "fold_lines (media_line join secs) (concat (map entry_lines es)) (between sq None [] 0)
      = Some (between (sq + length es) prev' (play join secs sq None es) d')"
    using entries_steps [OF assms(1,2), of 0 None secs "[]" 0] assms(3) by (auto simp: small_end_def)
  have run: "fold_lines (media_line join secs) (media_lines sq es ended) parse_state0
    = Some ((between (sq + length es) prev' (play join secs sq None es) d')\<lparr>ps_endlist := ended\<rparr>)"
    using body
    by (cases ended) (simp_all add: media_lines_def fold_lines_append line_extm3u line_sequence [OF seq] 0 line_endlist,
        simp add: between_def parse_state0_def)
  show ?thesis
    unfolding parse_media_def lines_media_text [OF assms(1)] run
    by (simp add: finish_media_def Let_def media_playlist0_def split: list.split)
qed

definition ex_join :: "bytes \<Rightarrow> bytes option" where
  "ex_join u = Some (lit ''http://h/'' @ u)"

definition ex_entry :: "bool \<Rightarrow> nat option \<Rightarrow> entry" where
  "ex_entry gap ofs = \<lparr>en_secs = lit ''4'', en_range = Some (100, ofs), en_gap = gap, en_url = lit ''a.ts''\<rparr>"

theorem media_playlist_read_back_witness:
  "map_option (\<lambda>m. map (\<lambda>s. (sg_seq s, sg_range s)) (mp_segments m))
     (parse_media ex_join (\<lambda>_. None) (media_text 7 [ex_entry False (Some 50), ex_entry True None, ex_entry False None] True))
   = Some [(7, Some (50, 100)), (9, Some (150, 100))]"
proof -
  have "plain_entry ex_join (ex_entry gap ofs)" if "ofs = Some 50 \<or> ofs = None" for gap ofs
  proof -
    have t: "trim (lit ''a.ts'') = lit ''a.ts''"
      by (intro trim_tight tight_graphicI) (simp_all add: lit_def graphic_def)
    show ?thesis
      using that t by (auto simp: plain_entry_def ex_entry_def plain_url_def plain_range_def resolve_url_def Let_def)
        (auto simp: ex_join_def lit_def graphic_def)
  qed
  then have p: "list_all (plain_entry ex_join) [ex_entry False (Some 50), ex_entry True None, ex_entry False None]"
    by simp
  show ?thesis
    using media_playlist_read_back [OF p, of 7 "\<lambda>_. None" True]
    by (simp add: ex_entry_def ex_join_def entry_start_def Let_def)
qed

section \<open>Panics\<close>

text \<open>
  The parser panics on an address with a multi-byte character across its fifth byte: \<open>resolve_url\<close>
  cuts the text there to look for \<open>data:\<close>. It does so for exactly these addresses, and a playlist with a
  segment named with two three-byte characters is one.
\<close>

theorem resolve_url_panics:
  "(resolve_url join u = None \<longleftrightarrow> 5 < length (trim u) \<and> trim u ! 5 AND 0xC0 = 0x80)
   \<and> parse_media join secs (lit ''#EXTM3U'' @ [10, 0xE8, 0xA7, 0x86, 0xE9, 0xA2, 0x91, 46, 116, 115]) = None"
proof
  show "resolve_url join u = None \<longleftrightarrow> 5 < length (trim u) \<and> trim u ! 5 AND 0xC0 = 0x80"
    by (auto simp: resolve_url_def Let_def slice_to_def is_char_boundary_def split: if_splits option.splits)
  let ?u = "[0xE8, 0xA7, 0x86, 0xE9, 0xA2, 0x91, 46, 116, 115] :: bytes"
  let ?t = "lit ''#EXTM3U'' @ 10 # ?u"
  have g: "graphic (last ?t)" by (simp add: graphic_def)
  have tight_u: "trim ?u = ?u"
  proof (rule trim_tight)
    have "head_len ws_seqs ?u = 0" by (intro head_len_other) (simp_all add: ws_seqs_def)
    moreover have "head_len (map rev ws_seqs) (rev ?u) = 0" by (intro head_len_graphic ws_ends) simp_all
    ultimately show "tight ?u" by (simp add: tight_def)
  qed
  have clean: "clean_text ?t = ?t"
  proof -
    have 1: "strip_seqs [[0xEF, 0xBB, 0xBF]] ?t = ?t"
      by (subst strip_seqs.simps) (simp add: head_len_def starts_with_def lit_def)
    have "tight ?t" by (rule tight_graphicI) (simp_all add: lit_def graphic_def)
    with 1 show ?thesis by (simp add: clean_text_def trim_tight)
  qed
  have "lines ?t = [lit ''#EXTM3U'', ?u]"
    by (simp add: lines_def lit_def strip_cr_def)
  moreover have "media_line join secs ?u p = None" for p
    using tight_u by (simp add: tag_simps on_uri_def resolve_url_def slice_to_def is_char_boundary_def)
  ultimately have "parse_media join secs ?t = None"
    by (simp add: parse_media_def clean line_extm3u)
  then show "parse_media join secs (lit ''#EXTM3U'' @ [10, 0xE8, 0xA7, 0x86, 0xE9, 0xA2, 0x91, 46, 116, 115]) = None"
    by simp
qed

section \<open>No panic on ASCII text\<close>

definition ascii :: "bytes \<Rightarrow> bool" where
  "ascii s \<longleftrightarrow> (\<forall>b \<in> set s. b < 0x80)"

lemma ascii_sub: "ascii s \<Longrightarrow> set t \<subseteq> set s \<Longrightarrow> ascii t"
  by (auto simp: ascii_def)

lemma set_strip_seqs: "set (strip_seqs seqs s) \<subseteq> set s"
proof (induction seqs s rule: strip_seqs.induct)
  case (1 seqs s)
  show ?case
  proof (cases "head_len seqs s = 0")
    case False
    with 1 set_drop_subset [of "head_len seqs s" s] show ?thesis by (subst strip_seqs.simps) auto
  qed (subst strip_seqs.simps, simp)
qed

lemma set_trim: "set (trim s) \<subseteq> set s"
proof -
  have "set (trim s) \<subseteq> set (trim_start s)"
    using set_strip_seqs [of "map rev ws_seqs" "rev (trim_start s)"] by (simp add: trim_def trim_end_def)
  also have "\<dots> \<subseteq> set s" by (simp add: trim_start_def set_strip_seqs)
  finally show ?thesis .
qed

lemma ascii_trim: "ascii s \<Longrightarrow> ascii (trim s)"
  by (rule ascii_sub [OF _ set_trim])

lemma set_trim_matches: "set (trim_matches c s) \<subseteq> set s"
  by (auto simp: trim_matches_def dest!: set_dropWhileD)

lemma ascii_boundary:
  assumes "ascii s" "n \<le> length s"
  shows "is_char_boundary s n"
proof (cases "n < length s")
  case True
  then have "s ! n < 0x80" using assms by (simp add: ascii_def)
  moreover have "s ! n AND 0xC0 \<le> s ! n" by (rule word_and_le2)
  ultimately have "s ! n AND 0xC0 \<noteq> 0x80" by auto
  with True show ?thesis by (simp add: is_char_boundary_def)
qed (use assms in \<open>simp add: is_char_boundary_def\<close>)

lemma resolve_url_ascii: "ascii u \<Longrightarrow> resolve_url join u \<noteq> None"
  using ascii_boundary [OF ascii_trim, of u 5]
  by (auto simp: resolve_url_def Let_def slice_to_def split: option.splits)

lemma parse_iv_ascii: "ascii v \<Longrightarrow> parse_iv v \<noteq> None"
  using ascii_boundary [OF ascii_trim, of v 2]
  by (auto simp: parse_iv_def Let_def slice_to_def split: option.splits)

lemma set_split_attributes: "part \<in> set (split_attributes_from q cur s) \<Longrightarrow> set part \<subseteq> set cur \<union> set s"
  by (induction q cur s rule: split_attributes_from.induct) (fastforce split: if_splits)+

lemma set_split_once: "split_once c s = Some (a, b) \<Longrightarrow> set a \<subseteq> set s \<and> set b \<subseteq> set s"
  by (auto simp: split_once_def dest: set_takeWhileD set_dropWhileD in_set_dropD split: if_splits)

lemma ascii_attr:
  assumes "ascii s" "attr (parse_attributes s) key = Some v"
  shows "ascii v"
proof -
  from assms(2) have "(key, v) \<in> set (parse_attributes s)" by (simp add: attr_def map_of_SomeD)
  then obtain part where p: "part \<in> set (split_attributes s)" "parse_attribute part = Some (key, v)"
    by (auto simp: parse_attributes_def List.map_filter_def)
  from p(2) obtain k w where "split_once 61 part = Some (k, w)" "v = trim_matches 34 (trim w)"
    by (auto simp: parse_attribute_def Let_def split: option.splits prod.splits if_splits)
  with set_trim_matches [of 34 "trim w"] set_trim [of w] set_split_once have "set v \<subseteq> set part" by blast
  also have "set part \<subseteq> set s" using set_split_attributes [of part False "[]" s] p(1) by (simp add: split_attributes_def)
  finally show ?thesis using assms(1) by (rule ascii_sub [rotated])
qed

lemma ascii_unwrap_attr: "ascii s \<Longrightarrow> ascii (unwrap_or [] (attr (parse_attributes s) key))"
  using ascii_attr [of s key] by (cases "attr (parse_attributes s) key") (auto simp: unwrap_or_def ascii_def)

lemma ascii_strip_prefix: "ascii s \<Longrightarrow> strip_prefix p s = Some r \<Longrightarrow> ascii r"
  by (auto simp: strip_prefix_def ascii_def dest: in_set_dropD split: if_splits)

lemma on_key_ascii: "ascii rest \<Longrightarrow> on_key join rest p \<noteq> None"
  using resolve_url_ascii [OF ascii_unwrap_attr, of rest join "lit ''URI''"] parse_iv_ascii [OF ascii_unwrap_attr, of rest "lit ''IV''"]
  by (auto simp: on_key_def Let_def split: option.splits prod.splits sum.splits if_splits)

lemma on_map_ascii: "ascii rest \<Longrightarrow> on_map join rest p \<noteq> None"
  using resolve_url_ascii [OF ascii_attr, of rest "lit ''URI''" _ join]
  by (auto simp: on_map_def Let_def split: option.splits prod.splits sum.splits if_splits)

lemma on_part_ascii: "ascii rest \<Longrightarrow> on_part join secs rest p \<noteq> None"
  using resolve_url_ascii [OF ascii_attr, of rest "lit ''URI''" _ join]
  by (auto simp: on_part_def Let_def split: option.splits)

lemma on_uri_ascii: "ascii line \<Longrightarrow> on_uri join line p \<noteq> None"
  using resolve_url_ascii [of line join]
  by (auto simp: on_uri_def Let_def split: option.splits)

lemma case_not_None:
  "(a = None \<Longrightarrow> x \<noteq> None) \<Longrightarrow> (\<And>r. a = Some r \<Longrightarrow> y r \<noteq> None) \<Longrightarrow> (case a of None \<Rightarrow> x | Some r \<Rightarrow> y r) \<noteq> None"
  by (cases a) simp_all

lemma if_not_None: "(c \<Longrightarrow> x \<noteq> None) \<Longrightarrow> (\<not> c \<Longrightarrow> y \<noteq> None) \<Longrightarrow> (if c then x else y) \<noteq> None"
  by simp

lemma media_line_ascii:
  assumes "ascii raw"
  shows "media_line join secs raw p \<noteq> None"
proof -
  have a: "ascii (trim raw)" using assms by (rule ascii_trim)
  have k: "on_key join r p \<noteq> None" "on_map join r p \<noteq> None" "on_part join secs r p \<noteq> None"
    if "strip_prefix q (trim raw) = Some r" for q r
    using ascii_strip_prefix [OF a that] by (simp_all only: on_key_ascii on_map_ascii on_part_ascii not_False_eq_True)
  show ?thesis
    unfolding media_line_def Let_def
    by (intro case_not_None if_not_None) (rule option.distinct(2) | erule k | rule on_uri_ascii [OF a])+
qed

lemma master_line_ascii:
  assumes "ascii raw"
  shows "master_line join raw mp \<noteq> None"
proof -
  have a: "ascii (trim raw)" using assms by (rule ascii_trim)
  have m: "\<exists>x. media_rendition join rest = Some x" if "ascii rest" for rest
    using resolve_url_ascii [OF ascii_attr [OF that], of "lit ''URI''" _ join]
    by (auto simp: media_rendition_def Let_def split: option.splits)
  show ?thesis
    using m [OF ascii_strip_prefix [OF a, of "lit ''#EXT-X-MEDIA:''"]] resolve_url_ascii [OF a, of join]
    by (cases "strip_prefix (lit ''#EXT-X-MEDIA:'') (trim raw)"; cases "resolve_url join (trim raw)")
      (force simp: master_line_def Let_def split: option.splits)+
qed

lemma fold_lines_total: "(\<And>l s. l \<in> set ls \<Longrightarrow> f l s \<noteq> None) \<Longrightarrow> fold_lines f ls s \<noteq> None"
  by (induction ls arbitrary: s) (auto split: option.splits)

lemma set_lines_from: "l \<in> set (lines_from cur s) \<Longrightarrow> set l \<subseteq> set cur \<union> set s"
  by (induction cur s rule: lines_from.induct) (fastforce simp: strip_cr_def dest: in_set_butlastD split: if_splits)+

lemma ascii_lines: "ascii s \<Longrightarrow> l \<in> set (lines s) \<Longrightarrow> ascii l"
  using set_lines_from [of l "[]" s] by (auto simp: lines_def ascii_def)

lemma ascii_clean: "ascii s \<Longrightarrow> ascii (clean_text s)"
  using set_trim [of "strip_seqs [[0xEF, 0xBB, 0xBF]] s"] set_strip_seqs [of "[[0xEF, 0xBB, 0xBF]]" s]
  by (auto simp: clean_text_def ascii_def)

text \<open>C24. On ASCII text neither parser panics, whatever the text is.\<close>

theorem ascii_never_panics:
  assumes "ascii text"
  shows "parse_media join secs text \<noteq> None \<and> parse_master join text \<noteq> None"
proof -
  note a = ascii_lines [OF ascii_clean [OF assms]]
  have "fold_lines (media_line join secs) (lines (clean_text text)) parse_state0 \<noteq> None"
    by (rule fold_lines_total) (rule media_line_ascii [OF a])
  moreover have "fold_lines (master_line join) (lines (clean_text text)) (\<lparr>ma_variants = [], ma_renditions = []\<rparr>, None) \<noteq> None"
    by (rule fold_lines_total) (rule master_line_ascii [OF a])
  ultimately show ?thesis by (simp add: parse_media_def parse_master_def)
qed

theorem ascii_never_panics_witness: "parse_media ex_join (\<lambda>_. None) (lit ''#EXTM3U'') \<noteq> None"
  using ascii_never_panics [of "lit ''#EXTM3U''" ex_join "\<lambda>_. None"] by (simp add: ascii_def lit_def)

section \<open>The variant\<close>

lemma max_by_key_None: "max_by_key key xs = None \<longleftrightarrow> xs = []"
  by (induction xs) (auto split: option.splits)

lemma max_by_key_max:
  "max_by_key key xs = Some x \<Longrightarrow> x \<in> set xs \<and> (\<forall>y \<in> set xs. key y \<le> key x)"
proof (induction xs arbitrary: x)
  case (Cons a xs)
  then show ?case
    by (cases "max_by_key key xs") (auto simp: max_by_key_None split: if_splits intro: order_trans less_imp_le)
qed simp

text \<open>
  A variant is chosen whenever there is one. It has its own sound if any has, and among those no
  other has a greater bandwidth and, at the same bandwidth, a greater area; smaller ones when the worst
  is wanted.
\<close>

theorem choose_variant_best:
  assumes "list_all (\<lambda>v. va_bandwidth v \<le> max_u64 \<and> va_area v \<le> max_u64) variants" "variants \<noteq> []"
  shows "\<exists>v. choose_variant variants worst = Some v \<and> v \<in> set variants
    \<and> (va_audio_group v = None \<or> list_all (\<lambda>u. va_audio_group u \<noteq> None) variants)
    \<and> list_all (\<lambda>u. (va_audio_group u = None) = (va_audio_group v = None) \<longrightarrow>
        (if worst then (va_bandwidth v, va_area v) \<le> (va_bandwidth u, va_area u)
         else (va_bandwidth u, va_area u) \<le> (va_bandwidth v, va_area v))) variants"
proof -
  define muxed where "muxed = filter (\<lambda>v. va_audio_group v = None) variants"
  define pool where "pool = (if muxed = [] then variants else muxed)"
  have "pool \<noteq> []" using assms(2) by (simp add: pool_def)
  then obtain v where v: "max_by_key (variant_key worst) pool = Some v"
    using max_by_key_None [of "variant_key worst" pool] by (cases "max_by_key (variant_key worst) pool") auto
  note max = max_by_key_max [OF v]
  have sub: "set pool \<subseteq> set variants" by (auto simp: pool_def muxed_def)
  have audio: "va_audio_group v = None \<or> list_all (\<lambda>u. va_audio_group u \<noteq> None) variants"
    using max by (auto simp: pool_def muxed_def list_all_iff filter_empty_conv split: if_splits)
  have pool: "u \<in> set pool" if "u \<in> set variants" "(va_audio_group u = None) = (va_audio_group v = None)" for u
    using that max audio by (auto simp: pool_def muxed_def list_all_iff filter_empty_conv split: if_splits)
  have best: "(if worst then (va_bandwidth v, va_area v) \<le> (va_bandwidth u, va_area u)
       else (va_bandwidth u, va_area u) \<le> (va_bandwidth v, va_area v))" if "u \<in> set pool" for u
  proof -
    have b: "va_bandwidth x \<le> max_u64" "va_area x \<le> max_u64" if "x \<in> set variants" for x
      using assms(1) that by (auto simp: list_all_iff)
    have "variant_key worst u \<le> variant_key worst v" using max that by blast
    moreover have "va_bandwidth u \<le> max_u64" "va_area u \<le> max_u64" "va_bandwidth v \<le> max_u64" "va_area v \<le> max_u64"
      using b max sub that by blast+
    ultimately show ?thesis
      by (cases worst) (auto simp: variant_key_def less_eq_prod_def)
  qed
  have "list_all (\<lambda>u. (va_audio_group u = None) = (va_audio_group v = None) \<longrightarrow>
      (if worst then (va_bandwidth v, va_area v) \<le> (va_bandwidth u, va_area u)
       else (va_bandwidth u, va_area u) \<le> (va_bandwidth v, va_area v))) variants"
    unfolding list_all_iff by (intro ballI impI best pool)
  moreover have "choose_variant variants worst = Some v"
    using v unfolding choose_variant_def Let_def muxed_def pool_def .
  ultimately show ?thesis using max sub audio by blast
qed

definition ex_variant :: "nat \<Rightarrow> bytes option \<Rightarrow> variant" where
  "ex_variant bw audio =
     \<lparr>va_url = [], va_bandwidth = bw, va_avg_bandwidth = 0, va_area = 0, va_audio_group = audio, va_codecs = None\<rparr>"

theorem choose_variant_best_witness:
  "choose_variant [ex_variant 900 (Some [1]), ex_variant 500 None, ex_variant 300 None] False = Some (ex_variant 500 None)"
proof -
  let ?vs = "[ex_variant 900 (Some [1]), ex_variant 500 None, ex_variant 300 None]"
  obtain v where "choose_variant ?vs False = Some v" "v \<in> set ?vs" "va_audio_group v = None"
    "list_all (\<lambda>u. (va_audio_group u = None) = (va_audio_group v = None) \<longrightarrow> (va_bandwidth u, va_area u) \<le> (va_bandwidth v, va_area v)) ?vs"
    using choose_variant_best [of ?vs False] by (auto simp: ex_variant_def max_u64_def)
  then show ?thesis by (auto simp: ex_variant_def)
qed

end
