(* ===== verification/Http_Text.thy ===== *)
theory Http_Text
  imports Text_Bytes
begin

text \<open>
  The texts of an HTTP exchange, \<open>crates/xfer-http/src/lib.rs\<close>: hints that an address is a playlist or an
  FLV stream, request header lines, \<open>Content-Range\<close>, the file name a server suggests and its clean-up;
  and the percent decoding of \<open>crates/xfer-types/src/text.rs\<close>. \<open>decode\<close>, an argument, is the
  guess of a character set by the crate \<open>encoding_rs\<close>.
\<close>

section \<open>Addresses\<close>

fun split_on_from :: "byte \<Rightarrow> bytes \<Rightarrow> bytes \<Rightarrow> bytes list" where
  "split_on_from c cur [] = [cur]"
| "split_on_from c cur (b # s) = (if b = c then cur # split_on_from c [] s else split_on_from c (cur @ [b]) s)"

definition split_on :: "byte \<Rightarrow> bytes \<Rightarrow> bytes list" where
  "split_on c s = split_on_from c [] s"

definition until :: "byte \<Rightarrow> bytes \<Rightarrow> bytes" where
  "until c s = takeWhile (\<lambda>b. b \<noteq> c) s"

definition path_of :: "bytes \<Rightarrow> bytes" where
  "path_of url = trim (until 59 (until 63 (until 35 url)))"

definition ends_with :: "bytes \<Rightarrow> bytes \<Rightarrow> bool" where
  "ends_with p s \<longleftrightarrow> length p \<le> length s \<and> drop (length s - length p) s = p"

definition mime_is_mpegurl :: "bytes \<Rightarrow> bool" where
  "mime_is_mpegurl content_type =
     (let ct = ascii_lower (trim (until 59 content_type))
      in is_sub (lit ''mpegurl'') ct \<or> is_sub (lit ''m3u8'') ct \<or> is_sub (lit ''vnd.apple'') ct)"

definition mime_is_flv :: "bytes \<Rightarrow> bool" where
  "mime_is_flv content_type = is_sub (lit ''flv'') (ascii_lower (trim (until 59 content_type)))"

definition QUERY_HINT_NAMES :: "bytes list" where
  "QUERY_HINT_NAMES = map lit [''format'', ''fmt'', ''type'', ''output'', ''ext'', ''suffix'', ''filetype'',
     ''file_type'', ''mediatype'', ''media_type'', ''container'', ''f'']"

definition query_hint_value :: "bytes \<Rightarrow> (bytes \<Rightarrow> bool) \<Rightarrow> bool" where
  "query_hint_value query pred =
     list_ex (\<lambda>pair. case split_once 61 pair of
                None \<Rightarrow> False
              | Some (k, v) \<Rightarrow> ascii_lower (trim k) \<in> set QUERY_HINT_NAMES \<and> pred (ascii_lower (trim (until 59 v))))
       (split_on 38 query)"

definition hls_query_hint :: "bytes \<Rightarrow> bool" where
  "hls_query_hint query =
     query_hint_value query (\<lambda>v. v = lit ''hls'' \<or> v = lit ''m3u8'' \<or> v = lit ''m3u'' \<or> mime_is_mpegurl v)"

definition flv_query_hint :: "bytes \<Rightarrow> bool" where
  "flv_query_hint query = query_hint_value query (\<lambda>v. v = lit ''flv'' \<or> mime_is_flv v)"

definition query_of :: "bytes \<Rightarrow> bytes option" where
  "query_of url = map_option snd (split_once 63 (until 35 url))"

definition looks_like_hls_url :: "bytes \<Rightarrow> bool" where
  "looks_like_hls_url url =
     (let lower = ascii_lower (path_of url)
      in ends_with (lit ''.m3u8'') lower \<or> ends_with (lit ''.m3u'') lower
         \<or> (case query_of url of Some q \<Rightarrow> hls_query_hint q | None \<Rightarrow> False))"

definition looks_like_flv_url :: "bytes \<Rightarrow> bool" where
  "looks_like_flv_url url =
     (ends_with (lit ''.flv'') (ascii_lower (path_of url))
      \<or> (case query_of url of Some q \<Rightarrow> flv_query_hint q | None \<Rightarrow> False))"

text \<open>\<open>sftp\<close> addresses (\<open>crates/xfer-sftp/src/url.rs\<close>); \<open>get(..7)\<close> does not panic inside a character.\<close>

definition is_sftp_url :: "bytes \<Rightarrow> bool" where
  "is_sftp_url u =
     (let t = trim u in 7 \<le> length t \<and> is_char_boundary t 7 \<and> eq_ignore_case (take 7 t) (lit ''sftp://''))"

record probe =
  pb_total_len :: "nat option"
  pb_filename :: "bytes option"
  pb_accepts_ranges :: bool
  pb_final_url :: bytes
  pb_content_type :: "bytes option"

definition is_playlist_hint :: "probe \<Rightarrow> bool" where
  "is_playlist_hint p \<longleftrightarrow>
     (case pb_content_type p of Some ct \<Rightarrow> mime_is_mpegurl ct | None \<Rightarrow> False)
     \<or> looks_like_hls_url (pb_final_url p)
     \<or> list_ex (\<lambda>h. is_sub (lit h) (ascii_lower (path_of (pb_final_url p))))
         [''/hls/'', ''/hls_'', ''_hls.'', ''/m3u8/'', ''playlist.m3u8'', ''playlist.m3u'', ''master.m3u8'', ''index.m3u8'']"

definition is_flv_hint :: "probe \<Rightarrow> bool" where
  "is_flv_hint p \<longleftrightarrow>
     (case pb_content_type p of Some ct \<Rightarrow> mime_is_flv ct | None \<Rightarrow> False) \<or> looks_like_flv_url (pb_final_url p)"

section \<open>Request headers\<close>

definition DROPPED_REQUEST_HEADERS :: "bytes list" where
  "DROPPED_REQUEST_HEADERS =
     map lit [''range'', ''host'', ''content-length'', ''connection'', ''accept-encoding'']"

text \<open>The value of the first header of that name, whatever its case, is replaced; a new name goes last.\<close>

fun put_header :: "bytes \<Rightarrow> bytes \<Rightarrow> (bytes \<times> bytes) list \<Rightarrow> (bytes \<times> bytes) list" where
  "put_header name v [] = [(name, v)]"
| "put_header name v ((k, w) # hs) = (if eq_ignore_case k name then (k, v) # hs else (k, w) # put_header name v hs)"

text \<open>\<open>name_ok\<close> and \<open>value_ok\<close> are the checks of the \<open>http\<close> crate on a header name and value.\<close>

definition header_line ::
  "(bytes \<Rightarrow> bool) \<Rightarrow> (bytes \<Rightarrow> bool) \<Rightarrow> bytes \<Rightarrow> (bytes \<times> bytes) list \<Rightarrow> (bytes \<times> bytes) list" where
  "header_line name_ok value_ok line0 out =
     (let line = rev (dropWhile (\<lambda>b. b = 13 \<or> b = 10) (rev line0)) in
      case split_once 58 line of
        None \<Rightarrow> out
      | Some (name0, value0) \<Rightarrow>
          let name = trim name0; v = trim value0 in
          if name = [] \<or> v = [] then out
          else if \<not> name_ok name \<or> \<not> value_ok v then out
          else if ascii_lower name \<in> set DROPPED_REQUEST_HEADERS then out
          else put_header name v out)"

definition parse_header_lines :: "(bytes \<Rightarrow> bool) \<Rightarrow> (bytes \<Rightarrow> bool) \<Rightarrow> bytes list \<Rightarrow> (bytes \<times> bytes) list" where
  "parse_header_lines name_ok value_ok ls = fold (header_line name_ok value_ok) ls []"

section \<open>Response headers\<close>

definition total_from_content_range :: "bytes \<Rightarrow> nat option" where
  "total_from_content_range v =
     (case split_on 47 v of _ # s # _ \<Rightarrow> parse_u64 (trim s) | _ \<Rightarrow> None)"

fun drop_unsafe :: "bytes \<Rightarrow> bytes" where
  "drop_unsafe [] = []"
| "drop_unsafe (b # s) =
     (if b = 47 \<or> b = 92 \<or> b < 32 \<or> b = 127 then drop_unsafe s
      else case s of
        c # s' \<Rightarrow> if b = 0xC2 \<and> 0x80 \<le> c \<and> c \<le> 0x9F then drop_unsafe s' else b # drop_unsafe s
      | [] \<Rightarrow> [b])"

text \<open>No separators and no control characters (U+0080 to U+009F are two bytes), then no outer blanks and dots.\<close>

definition sanitize_filename :: "bytes \<Rightarrow> bytes option" where
  "sanitize_filename name =
     (let t = trim_matches 46 (trim (drop_unsafe name)) in if t = [] then None else Some t)"

text \<open>\<open>None\<close> inside: the prefix test cuts a text inside a character and panics.\<close>

definition strip_ci :: "bytes \<Rightarrow> bytes \<Rightarrow> bytes option option" where
  "strip_ci s prefix =
     (if length s < length prefix then Some None
      else case slice_to (length prefix) s of
        None \<Rightarrow> None
      | Some h \<Rightarrow> Some (if eq_ignore_case h prefix then Some (drop (length prefix) s) else None))"

fun hex_nibble :: "byte \<Rightarrow> byte option" where
  "hex_nibble b =
     (if is_ascii_digit b then Some (b - 48)
      else if 97 \<le> b \<and> b \<le> 102 then Some (b - 87)
      else if 65 \<le> b \<and> b \<le> 70 then Some (b - 55) else None)"

fun percent_to_bytes :: "bytes \<Rightarrow> bytes" where
  "percent_to_bytes (b # h # l # s) =
     (if b = 37 then
        (case (hex_nibble h, hex_nibble l) of
           (Some x, Some y) \<Rightarrow> (push_bit 4 x OR y) # percent_to_bytes s
         | _ \<Rightarrow> b # percent_to_bytes (h # l # s))
      else b # percent_to_bytes (h # l # s))"
| "percent_to_bytes s = s"

text \<open>\<open>str::replace\<close> of a two-byte text by one byte.\<close>

fun replace_pair :: "byte \<Rightarrow> byte \<Rightarrow> byte \<Rightarrow> bytes \<Rightarrow> bytes" where
  "replace_pair a b c (x # y # s) = (if x = a \<and> y = b then c # replace_pair a b c s else x # replace_pair a b c (y # s))"
| "replace_pair a b c s = s"

definition cd_segment ::
  "(bytes option \<Rightarrow> bytes \<Rightarrow> bytes) \<Rightarrow> bytes \<Rightarrow> bytes option \<times> bytes option \<Rightarrow> (bytes option \<times> bytes option) option" where
  "cd_segment decode seg0 acc =
     (let seg = trim seg0; plain = fst acc; extended = snd acc in
      case strip_ci seg (lit ''filename*='') of
        None \<Rightarrow> None
      | Some (Some rest) \<Rightarrow>
          let parts = split_on 39 rest;
              v = (if length parts \<le> 2 then [] else drop (length (parts ! 0) + length (parts ! 1) + 2) rest)
          in Some (plain, sanitize_filename (decode (Some (hd parts)) (percent_to_bytes v)))
      | Some None \<Rightarrow>
          (case strip_ci seg (lit ''filename='') of
             None \<Rightarrow> None
           | Some (Some rest) \<Rightarrow>
               Some (sanitize_filename
                       (replace_pair 92 92 92 (replace_pair 92 34 34 (trim_matches 34 (trim rest)))), extended)
           | Some None \<Rightarrow> Some acc))"

fun cd_segments ::
  "(bytes option \<Rightarrow> bytes \<Rightarrow> bytes) \<Rightarrow> bytes list \<Rightarrow> bytes option \<times> bytes option \<Rightarrow> (bytes option \<times> bytes option) option" where
  "cd_segments decode [] acc = Some acc"
| "cd_segments decode (seg # segs) acc =
     (case cd_segment decode seg acc of None \<Rightarrow> None | Some acc' \<Rightarrow> cd_segments decode segs acc')"

definition filename_from_content_disposition :: "(bytes option \<Rightarrow> bytes \<Rightarrow> bytes) \<Rightarrow> bytes \<Rightarrow> bytes option option" where
  "filename_from_content_disposition decode cd =
     map_option (\<lambda>(plain, extended). case extended of Some e \<Rightarrow> Some e | None \<Rightarrow> plain)
       (cd_segments decode (split_on 59 cd) (None, None))"

definition filename_from_url :: "(bytes option \<Rightarrow> bytes \<Rightarrow> bytes) \<Rightarrow> bytes \<Rightarrow> bytes option" where
  "filename_from_url decode url =
     (let last_part = last (split_on 47 (until 35 (until 63 url)))
      in if last_part = [] then None else sanitize_filename (decode None (percent_to_bytes last_part)))"

definition probe_filename ::
  "(bytes option \<Rightarrow> bytes \<Rightarrow> bytes) \<Rightarrow> bytes option \<Rightarrow> bytes \<Rightarrow> bytes option option" where
  "probe_filename decode content_disposition final_url =
     (case content_disposition of
        None \<Rightarrow> Some (filename_from_url decode final_url)
      | Some cd \<Rightarrow>
          (case filename_from_content_disposition decode cd of
             None \<Rightarrow> None
           | Some (Some f) \<Rightarrow> Some (Some f)
           | Some None \<Rightarrow> Some (filename_from_url decode final_url)))"

definition probe_content_type :: "bytes option \<Rightarrow> bytes option" where
  "probe_content_type raw =
     (case raw of
        None \<Rightarrow> None
      | Some r \<Rightarrow> let mime = ascii_lower (trim (until 59 r)) in if mime = [] then None else Some mime)"

section \<open>What comes out\<close>

definition unsafe_byte :: "byte \<Rightarrow> bool" where
  "unsafe_byte b \<longleftrightarrow> b = 47 \<or> b = 92 \<or> b < 32 \<or> b = 127"

lemma drop_unsafe_Cons:
  "drop_unsafe (b # s) =
     (if unsafe_byte b then drop_unsafe s
      else if s \<noteq> [] \<and> b = 0xC2 \<and> 0x80 \<le> hd s \<and> hd s \<le> 0x9F then drop_unsafe (tl s) else b # drop_unsafe s)"
  unfolding unsafe_byte_def by (cases s) simp_all

declare drop_unsafe.simps(2) [simp del]

lemma drop_unsafe_safe: "b \<in> set (drop_unsafe s) \<Longrightarrow> \<not> unsafe_byte b"
proof (induction s rule: length_induct)
  case (1 s)
  show ?case
  proof (cases s)
    case (Cons a s')
    have "length s' < length s" "length (tl s') < length s" using Cons by simp_all
    then show ?thesis using 1 Cons by (auto simp: drop_unsafe_Cons split: if_splits)
  qed (use 1 in simp)
qed

lemma strip_seqs_subset: "set (strip_seqs seqs s) \<subseteq> set s"
proof (induction seqs s rule: strip_seqs.induct)
  case (1 seqs s)
  then show ?case by (subst strip_seqs.simps) (auto dest: in_set_dropD)
qed

lemma trim_subset: "set (trim s) \<subseteq> set s"
proof -
  have "set (strip_seqs (map rev ws_seqs) (rev (strip_seqs ws_seqs s))) \<subseteq> set (strip_seqs ws_seqs s)"
    using strip_seqs_subset [of "map rev ws_seqs" "rev (strip_seqs ws_seqs s)"] by simp
  then show ?thesis
    using strip_seqs_subset [of ws_seqs s] unfolding trim_def trim_start_def trim_end_def set_rev by blast
qed

lemma trim_matches_ends:
  assumes "trim_matches c s \<noteq> []"
  shows "hd (trim_matches c s) \<noteq> c" "last (trim_matches c s) \<noteq> c"
proof -
  let ?d = "dropWhile (\<lambda>b. b = c) s"
  let ?e = "dropWhile (\<lambda>b. b = c) (rev ?d)"
  have ne: "?e \<noteq> []" using assms by (simp add: trim_matches_def)
  show "last (trim_matches c s) \<noteq> c"
    using hd_dropWhile [OF ne] by (simp add: trim_matches_def last_rev ne)
  have d: "?d \<noteq> []" using ne by (cases "?d") simp_all
  obtain pre where "rev ?d = pre @ ?e" by (metis takeWhile_dropWhile_id)
  then have "last ?e = last (rev ?d)" using ne by (metis last_appendR)
  then show "hd (trim_matches c s) \<noteq> c"
    using hd_dropWhile [OF d] by (simp add: trim_matches_def hd_rev ne d last_rev)
qed

lemma trim_matches_subset: "set (trim_matches c s) \<subseteq> set s"
  unfolding trim_matches_def set_rev by (metis set_dropWhileD set_rev subsetI)

definition safe_name :: "bytes \<Rightarrow> bool" where
  "safe_name f \<longleftrightarrow> f \<noteq> [] \<and> hd f \<noteq> 46 \<and> last f \<noteq> 46 \<and> list_all (\<lambda>b. \<not> unsafe_byte b) f"

lemma sanitize_safe: "sanitize_filename n = Some f \<Longrightarrow> safe_name f"
  using trim_matches_ends [of 46 "trim (drop_unsafe n)"] trim_matches_subset [of 46 "trim (drop_unsafe n)"]
    trim_subset [of "drop_unsafe n"] drop_unsafe_safe [of _ n]
  by (auto simp: sanitize_filename_def Let_def safe_name_def list_all_iff split: if_splits)

lemma cd_segment_safe:
  assumes "cd_segment decode seg acc = Some (p, e)"
    "\<And>f. fst acc = Some f \<Longrightarrow> safe_name f" "\<And>f. snd acc = Some f \<Longrightarrow> safe_name f"
  shows "(p = Some f \<longrightarrow> safe_name f) \<and> (e = Some f \<longrightarrow> safe_name f)"
  using assms by (auto simp: cd_segment_def Let_def dest: sanitize_safe split: option.splits)

lemma cd_segments_safe:
  assumes "cd_segments decode segs acc = Some (p, e)"
    "\<And>f. fst acc = Some f \<Longrightarrow> safe_name f" "\<And>f. snd acc = Some f \<Longrightarrow> safe_name f"
  shows "(p = Some f \<longrightarrow> safe_name f) \<and> (e = Some f \<longrightarrow> safe_name f)"
  using assms
proof (induction segs arbitrary: acc)
  case (Cons seg segs)
  then obtain p' e' where s: "cd_segment decode seg acc = Some (p', e')" "cd_segments decode segs (p', e') = Some (p, e)"
    by (auto split: option.splits)
  show ?case using Cons.IH [OF s(2)] cd_segment_safe [OF s(1) Cons.prems(2,3)] by auto
qed auto

lemma filename_from_url_safe: "filename_from_url decode url = Some f \<Longrightarrow> safe_name f"
  by (auto simp: filename_from_url_def Let_def dest: sanitize_safe split: if_splits)

lemma filename_from_cd_safe:
  assumes "filename_from_content_disposition decode cd = Some (Some f)"
  shows "safe_name f"
proof -
  obtain p e where pe: "cd_segments decode (split_on 59 cd) (None, None) = Some (p, e)"
      "(case e of Some x \<Rightarrow> Some x | None \<Rightarrow> p) = Some f"
    using assms by (auto simp: filename_from_content_disposition_def)
  show ?thesis using cd_segments_safe [OF pe(1)] pe(2) by (auto split: option.splits)
qed

text \<open>
  C25. Whatever a server suggests as a file name in \<open>Content-Disposition\<close> or in its address, and whatever the
  character set guess makes of it, the name kept has no path separator and no ASCII control character, is not
  empty and neither starts nor ends with a dot: joined to the download directory it stays inside it.
\<close>

theorem suggested_name_safe:
  assumes "probe_filename decode content_disposition final_url = Some (Some f)"
  shows "f \<noteq> [] \<and> hd f \<noteq> 46 \<and> last f \<noteq> 46 \<and> set f \<inter> ({47, 92, 127} \<union> {b. b < 32}) = {}"
proof -
  have "safe_name f"
    using assms filename_from_url_safe filename_from_cd_safe
    by (auto simp: probe_filename_def split: option.splits)
  then show ?thesis by (auto simp: safe_name_def list_all_iff unsafe_byte_def)
qed

theorem suggested_name_safe_witness:
  "probe_filename (\<lambda>_ s. s) None (lit ''http://h/a/..%2f..%2fetc'') = Some (Some (lit ''etc'')) \<and> hd (lit ''etc'') \<noteq> 46"
proof -
  have "probe_filename (\<lambda>_ s. s) None (lit ''http://h/a/..%2f..%2fetc'') = Some (Some (lit ''etc''))" by code_simp
  from suggested_name_safe [OF this] this show ?thesis by blast
qed

text \<open>Dots are dropped after the blanks around them, so a blank name gets through.\<close>

lemma blank_name: "sanitize_filename (lit ''. .'') = Some (lit '' '')"
  by code_simp

section \<open>Request headers\<close>

definition accepted_header ::
  "(bytes \<Rightarrow> bool) \<Rightarrow> (bytes \<Rightarrow> bool) \<Rightarrow> bytes \<Rightarrow> (bytes \<times> bytes) option" where
  "accepted_header name_ok value_ok line0 =
     (case split_once 58 (rev (dropWhile (\<lambda>b. b = 13 \<or> b = 10) (rev line0))) of
        None \<Rightarrow> None
      | Some (n, v) \<Rightarrow>
          if trim n \<noteq> [] \<and> trim v \<noteq> [] \<and> name_ok (trim n) \<and> value_ok (trim v)
             \<and> ascii_lower (trim n) \<notin> set DROPPED_REQUEST_HEADERS
          then Some (trim n, trim v) else None)"

lemma header_line_accepted:
  "header_line name_ok value_ok line out =
     (case accepted_header name_ok value_ok line of None \<Rightarrow> out | Some (n, v) \<Rightarrow> put_header n v out)"
  by (auto simp: header_line_def accepted_header_def Let_def split: option.splits)

definition lower_names :: "(bytes \<times> bytes) list \<Rightarrow> (bytes \<times> bytes) list" where
  "lower_names hs = map (\<lambda>(k, v). (ascii_lower k, v)) hs"

lemma put_header_lookup: "map_of (lower_names (put_header n v hs)) = (map_of (lower_names hs))(ascii_lower n \<mapsto> v)"
  by (induction n v hs rule: put_header.induct)
     (auto simp: lower_names_def eq_ignore_case_def fun_eq_iff)

lemma put_header_names:
  "map fst (lower_names (put_header n v hs)) =
     map fst (lower_names hs) @ (if ascii_lower n \<in> fst ` set (lower_names hs) then [] else [ascii_lower n])"
  by (induction n v hs rule: put_header.induct)
     (auto simp: lower_names_def eq_ignore_case_def image_iff)

text \<open>
  C29. The header list made of a user's lines holds each name once, whatever its case, in the order of first
  appearance, never one of the names the client sets itself, and its value is that of the last accepted line.
\<close>

theorem header_lines_last_wins:
  "map_of (lower_names (parse_header_lines name_ok value_ok ls)) =
     map_of (rev (lower_names (List.map_filter (accepted_header name_ok value_ok) ls)))
   \<and> map fst (lower_names (parse_header_lines name_ok value_ok ls)) =
       rev (remdups (rev (map fst (lower_names (List.map_filter (accepted_header name_ok value_ok) ls)))))
   \<and> set (map fst (lower_names (parse_header_lines name_ok value_ok ls))) \<inter> set DROPPED_REQUEST_HEADERS = {}"
proof -
  let ?acc = "\<lambda>ls. lower_names (List.map_filter (accepted_header name_ok value_ok) ls)"
  have acc_snoc: "?acc (ls @ [l]) = ?acc ls @ (case accepted_header name_ok value_ok l of None \<Rightarrow> [] | Some (n, v) \<Rightarrow> [(ascii_lower n, v)])"
    for ls l by (auto simp: map_filter_def lower_names_def split: option.splits)
  have parse: "parse_header_lines name_ok value_ok (ls @ [l]) =
      (case accepted_header name_ok value_ok l of None \<Rightarrow> parse_header_lines name_ok value_ok ls
       | Some (n, v) \<Rightarrow> put_header n v (parse_header_lines name_ok value_ok ls))"
    for ls l unfolding parse_header_lines_def fold_append by (simp add: header_line_accepted)
  have none: "?acc [] = []" "parse_header_lines name_ok value_ok [] = []" "lower_names [] = []"
    by (simp_all add: lower_names_def map_filter_def parse_header_lines_def)
  have "map_of (lower_names (parse_header_lines name_ok value_ok ls)) = map_of (rev (?acc ls))"
  proof (induction ls rule: rev_induct)
    case (snoc l ls)
    then show ?case unfolding parse acc_snoc
      by (cases "accepted_header name_ok value_ok l") (auto simp: put_header_lookup)
  qed (simp add: none)
  moreover have names: "map fst (lower_names (parse_header_lines name_ok value_ok ls)) = rev (remdups (rev (map fst (?acc ls))))"
  proof (induction ls rule: rev_induct)
    case (snoc l ls)
    then have "fst ` set (lower_names (parse_header_lines name_ok value_ok ls)) = fst ` set (?acc ls)"
      by (metis list.set_map set_remdups set_rev)
    with snoc show ?case unfolding parse acc_snoc
      by (cases "accepted_header name_ok value_ok l") (auto simp: put_header_names simp flip: rev_map)
  qed (simp add: none)
  moreover have "set (map fst (?acc ls)) \<inter> set DROPPED_REQUEST_HEADERS = {}"
  proof -
    have "ascii_lower n \<notin> set DROPPED_REQUEST_HEADERS" if "accepted_header name_ok value_ok l = Some (n, v)" for l n v
      using that by (auto simp: accepted_header_def split: option.splits if_splits prod.splits)
    then have "\<forall>(k, v) \<in> set (?acc ls). k \<notin> set DROPPED_REQUEST_HEADERS" for ls
    proof (induction ls rule: rev_induct)
      case (snoc l ls)
      then show ?case unfolding acc_snoc by (cases "accepted_header name_ok value_ok l") auto
    qed (simp add: none)
    then show ?thesis by force
  qed
  ultimately show ?thesis by (metis set_remdups set_rev)
qed

end
