(* ===== verification/Task_Types.thy ===== *)
theory Task_Types
  imports Http_Error Http_Text
begin

text \<open>
  Tasks of \<open>crates/xfer-engine/src/task.rs\<close>: status, intent, failures, the choice of a driver from
  addresses and options, and the part of \<open>Task\<close> and \<open>TaskShared\<close> that its life cycle reads and writes.
  Cancellation tokens are numbers; the clock is in milliseconds.
\<close>

datatype status = StWaiting | StActive | StSeeding | StPaused | StComplete | StError | StRemoved

definition is_terminal :: "status \<Rightarrow> bool" where
  "is_terminal s \<longleftrightarrow> s \<in> {StComplete, StError, StRemoved}"

datatype task_kind = KindHttp | KindBt | KindPlaylist | KindSftp

datatype intent = IntentNone | IntentPause | IntentRemove | IntentStopSeeding | IntentRestart

text \<open>\<open>TaskFailure\<close> without its messages; an SFTP failure is its code and whether it is a cancellation.\<close>

datatype task_failure =
    FailHttp http_error
  | FailChecksum
  | FailBt
  | FailSftp int bool
  | FailCancelled

fun failure_code :: "task_failure \<Rightarrow> int" where
  "failure_code (FailHttp e) = error_code e"
| "failure_code FailChecksum = 9"
| "failure_code FailBt = 1"
| "failure_code (FailSftp code _) = code"
| "failure_code FailCancelled = 0"

fun is_cancelled :: "task_failure \<Rightarrow> bool" where
  "is_cancelled (FailHttp e) \<longleftrightarrow> e = HttpCancelled"
| "is_cancelled (FailSftp _ cancelled) \<longleftrightarrow> cancelled"
| "is_cancelled FailCancelled \<longleftrightarrow> True"
| "is_cancelled _ \<longleftrightarrow> False"

section \<open>The kind of a task\<close>

definition option_value :: "bytes list \<Rightarrow> (bytes \<Rightarrow> bytes option) \<Rightarrow> bool option" where
  "option_value keys options =
     (case List.map_filter options keys of
        [] \<Rightarrow> None
      | v0 # _ \<Rightarrow>
          let v = ascii_lower (trim v0)
          in Some (v \<notin> {lit ''false'', lit ''0'', lit ''no'', lit ''off''}))"

definition hls_option_value :: "(bytes \<Rightarrow> bytes option) \<Rightarrow> bool option" where
  "hls_option_value = option_value [lit ''hls'', lit ''hls-playlist'']"

definition flv_option_value :: "(bytes \<Rightarrow> bytes option) \<Rightarrow> bool option" where
  "flv_option_value = option_value [lit ''flv'', lit ''http-flv'']"

definition detect_kind :: "bytes list \<Rightarrow> (bytes \<Rightarrow> bytes option) \<Rightarrow> task_kind" where
  "detect_kind uris options =
     (if list_ex (\<lambda>u. starts_with (lit ''magnet:'') (trim u)) uris then KindBt
      else if list_ex is_sftp_url uris then KindSftp
      else case hls_option_value options of
        Some on \<Rightarrow> if on then KindPlaylist else KindHttp
      | None \<Rightarrow> if list_ex looks_like_hls_url uris then KindPlaylist else KindHttp)"

section \<open>A task\<close>

type_synonym gid = nat
type_synonym path = bytes

record task =
  tk_status :: status
  tk_intent :: intent
  tk_token :: nat
  tk_path :: "path option"
  tk_error_code :: int
  tk_finished_at :: nat
  tk_active_ms :: nat
  tk_active_since :: "nat option"
  tk_delete_files :: bool
  tk_awaiting :: bool
  tk_selected :: "nat list option"
  tk_meta :: "nat option"
  tk_dir :: path
  tk_created_at :: nat

definition fresh_task :: "nat \<Rightarrow> nat \<Rightarrow> bool \<Rightarrow> nat option \<Rightarrow> nat list option \<Rightarrow> path \<Rightarrow> task" where
  "fresh_task now token awaiting meta selected dir =
     \<lparr>tk_status = StWaiting, tk_intent = IntentNone, tk_token = token, tk_path = None, tk_error_code = 0,
      tk_finished_at = 0, tk_active_ms = 0, tk_active_since = None, tk_delete_files = False,
      tk_awaiting = awaiting, tk_selected = selected, tk_meta = meta, tk_dir = dir, tk_created_at = now\<rparr>"

text \<open>The active time so far moves to the account when the task leaves \<open>Active\<close>.\<close>

definition freeze_timer :: "nat \<Rightarrow> task \<Rightarrow> task" where
  "freeze_timer now t =
     (case tk_active_since t of
        None \<Rightarrow> t
      | Some since \<Rightarrow> t\<lparr>tk_active_ms := tk_active_ms t + (now - since), tk_active_since := None\<rparr>)"

definition set_status :: "nat \<Rightarrow> status \<Rightarrow> task \<Rightarrow> task" where
  "set_status now s t =
     (let t1 = t\<lparr>tk_status := s\<rparr> in
      if s = StActive \<and> tk_status t \<noteq> StActive then t1\<lparr>tk_active_since := Some now\<rparr>
      else if tk_status t = StActive \<and> s \<noteq> StActive then freeze_timer now t1
      else t1)"

definition elapsed_ms :: "nat \<Rightarrow> task \<Rightarrow> nat" where
  "elapsed_ms now t = tk_active_ms t + (case tk_active_since t of None \<Rightarrow> 0 | Some since \<Rightarrow> now - since)"

lemma set_status_simps [simp]:
  "tk_status (set_status now s t) = s" "tk_intent (set_status now s t) = tk_intent t"
  "tk_token (set_status now s t) = tk_token t" "tk_path (set_status now s t) = tk_path t"
  "tk_delete_files (set_status now s t) = tk_delete_files t" "tk_awaiting (set_status now s t) = tk_awaiting t"
  "tk_selected (set_status now s t) = tk_selected t" "tk_meta (set_status now s t) = tk_meta t"
  "tk_dir (set_status now s t) = tk_dir t" "tk_created_at (set_status now s t) = tk_created_at t"
  by (simp_all add: set_status_def freeze_timer_def Let_def split: option.split)

lemma freeze_timer_simps [simp]:
  "tk_status (freeze_timer now t) = tk_status t" "tk_intent (freeze_timer now t) = tk_intent t"
  "tk_token (freeze_timer now t) = tk_token t" "tk_path (freeze_timer now t) = tk_path t"
  "tk_delete_files (freeze_timer now t) = tk_delete_files t" "tk_awaiting (freeze_timer now t) = tk_awaiting t"
  "tk_selected (freeze_timer now t) = tk_selected t" "tk_meta (freeze_timer now t) = tk_meta t"
  "tk_dir (freeze_timer now t) = tk_dir t" "tk_created_at (freeze_timer now t) = tk_created_at t"
  by (simp_all add: freeze_timer_def split: option.split)

end
