(* ===== verification/Task_Manager.thy ===== *)
theory Task_Manager
  imports Task_Types
begin

text \<open>
  The life cycle of tasks, \<open>TaskManager\<close> of \<open>crates/xfer-engine/src/manager.rs\<close>: the scheduler, the worker of
  a task, and the operations that add, pause, resume, stop and remove tasks.

  The operations take their locks one after the other, so each is a sequence of sections, one per critical
  section; \<open>exec\<close> runs one section and says which follow. Operations, workers and the scheduler interleave
  section by section (\<open>sys_step\<close>); run to the end without interruption an operation is \<open>call\<close>.
  \<open>fill_slots\<close> is one section, its reads of task states included.
\<close>

definition MAX_RESULTS :: nat where
  "MAX_RESULTS = 1000"

text \<open>
  \<open>Inner\<close>, with the objects the tasks map points to (\<open>mg_store\<close>, which keeps an object that a worker or an
  operation still holds after the map has dropped it), the set of cancelled tokens, the wake-up permit of the
  scheduler, the files on disk with their lengths and the control files. \<open>mg_ever\<close> and \<open>mg_peak\<close> are for the
  properties only: the numbers handed out and the largest limit so far.
\<close>

record mgr =
  mg_tasks :: "gid set"
  mg_store :: "gid \<Rightarrow> task"
  mg_queue :: "gid list"
  mg_active :: "gid set"
  mg_stopped :: "gid list"
  mg_stopped_total :: nat
  mg_max :: nat
  mg_claims :: "path set"
  mg_cancelled :: "nat set"
  mg_next_token :: nat
  mg_kicked :: bool
  mg_files :: "(path \<times> nat) list"
  mg_ctrls :: "path set"
  mg_now :: nat
  mg_ever :: "gid set"
  mg_peak :: nat

definition upd_task :: "gid \<Rightarrow> (task \<Rightarrow> task) \<Rightarrow> mgr \<Rightarrow> mgr" where
  "upd_task g f m = m\<lparr>mg_store := (mg_store m)(g := f (mg_store m g))\<rparr>"

abbreviation status_of :: "mgr \<Rightarrow> gid \<Rightarrow> status" where
  "status_of m g \<equiv> tk_status (mg_store m g)"

definition mark :: "gid \<Rightarrow> status \<Rightarrow> mgr \<Rightarrow> mgr" where
  "mark g s m = upd_task g (set_status (mg_now m) s) m"

definition unclaim :: "gid \<Rightarrow> mgr \<Rightarrow> mgr" where
  "unclaim g m = (case tk_path (mg_store m g) of None \<Rightarrow> m | Some p \<Rightarrow> m\<lparr>mg_claims := mg_claims m - {p}\<rparr>)"

section \<open>The scheduler\<close>

text \<open>
  One turn of the loop per iteration; the queue gets shorter in each, so its length bounds them. The inner
  count leaves out the tasks that seed, the condition of the loop does not.
\<close>

definition downloading :: "mgr \<Rightarrow> nat" where
  "downloading m = card {g \<in> mg_active m. g \<in> mg_tasks m \<and> status_of m g \<noteq> StSeeding}"

fun fill_loop :: "nat \<Rightarrow> mgr \<Rightarrow> mgr \<times> gid list" where
  "fill_loop 0 m = (m, [])"
| "fill_loop (Suc fuel) m =
     (if \<not> card (mg_active m) < mg_max m then (m, [])
      else if mg_max m \<le> downloading m then (m, [])
      else case mg_queue m of
        [] \<Rightarrow> (m, [])
      | g # rest \<Rightarrow>
          if g \<notin> mg_tasks m \<or> status_of m g \<noteq> StWaiting then fill_loop fuel (m\<lparr>mg_queue := rest\<rparr>)
          else
            let (m', started) =
              fill_loop fuel (mark g StActive (m\<lparr>mg_queue := rest, mg_active := insert g (mg_active m)\<rparr>))
            in (m', g # started))"

definition fill_slots :: "mgr \<Rightarrow> mgr \<times> gid list" where
  "fill_slots m = fill_loop (Suc (length (mg_queue m))) m"

section \<open>Sections\<close>

datatype reply = Accepted | NoSuchTask | AlreadyPaused | AlreadyEnded | NotResumable | MustSelect | NotSeeding | NotEnded

datatype sec =
    Kick
  | Answer reply
  \<comment> \<open>\<open>run_task\<close>: reading the token, running, the three sections after the driver\<close>
  | WorkerStart gid
  | WorkerRun gid nat
  | WorkerMark gid "task_failure option"
  | WorkerClean gid
  | WorkerLeave gid bool
  \<comment> \<open>\<open>pause\<close>, \<open>pause_all\<close>\<close>
  | PauseFind gid
  | PauseCheck gid
  | PauseDequeue gid
  | PauseSet gid
  | SetIntent gid intent
  | Cancel gid
  \<comment> \<open>\<open>unpause\<close>\<close>
  | UnpauseFind gid
  | UnpauseCheck gid
  | UnpauseClear gid
  | UnpauseUnlist gid
  | UnpauseSelect gid
  | UnpauseToken gid
  | UnpauseIntent gid
  | UnpauseKeep gid
  | UnpauseEnqueue gid
  | UnpauseSet gid
  \<comment> \<open>\<open>stop_seeding\<close>\<close>
  | StopFind gid
  | StopCheck gid
  \<comment> \<open>\<open>remove_with_files\<close>, \<open>finish_removed\<close>\<close>
  | RemoveFind gid bool
  | RemoveFlag gid bool
  | RemoveCheck gid
  | RemoveDequeue gid
  | RemovedSet gid
  | RemovedDrop gid
  | RemovedClean gid
  \<comment> \<open>\<open>purge_download_result\<close>, \<open>remove_download_result\<close>\<close>
  | PurgeList
  | PurgeDrop "gid list"
  | ResultFind gid
  | ResultCheck gid
  | ResultDrop gid
  | DropCtrl gid
  \<comment> \<open>\<open>claim_path\<close>: one turn of the loop, then the path\<close>
  | ClaimTry gid bytes "nat \<Rightarrow> path \<Rightarrow> bool" nat
  | ClaimSet gid path

text \<open>\<open>delete_task_ctrl\<close> and \<open>delete_task_files\<close>.\<close>

definition delete_task_ctrl :: "gid \<Rightarrow> mgr \<Rightarrow> mgr" where
  "delete_task_ctrl g m =
     (case tk_path (mg_store m g) of None \<Rightarrow> m | Some p \<Rightarrow> m\<lparr>mg_ctrls := mg_ctrls m - {p}\<rparr>)"

definition delete_task_files :: "gid \<Rightarrow> mgr \<Rightarrow> mgr" where
  "delete_task_files g m =
     (let m = delete_task_ctrl g m in
      case tk_path (mg_store m g) of
        None \<Rightarrow> m
      | Some p \<Rightarrow> m\<lparr>mg_files := filter (\<lambda>(q, n). q \<noteq> p) (mg_files m)\<rparr>)"

definition delete_as_asked :: "gid \<Rightarrow> mgr \<Rightarrow> mgr" where
  "delete_as_asked g m = (if tk_delete_files (mg_store m g) then delete_task_files g m else delete_task_ctrl g m)"

definition forget :: "gid \<Rightarrow> mgr \<Rightarrow> mgr" where
  "forget g m =
     unclaim g (m\<lparr>mg_tasks := mg_tasks m - {g}, mg_stopped := filter (\<lambda>h. h \<noteq> g) (mg_stopped m)\<rparr>)"

text \<open>The end of a worker: the status that follows from the result and, for a cancellation, from the intent.\<close>

definition end_status :: "intent \<Rightarrow> task_failure option \<Rightarrow> status \<times> bool" where
  "end_status i r =
     (case r of
        None \<Rightarrow> (StComplete, True)
      | Some f \<Rightarrow>
          if is_cancelled f then
            (case i of
               IntentPause \<Rightarrow> (StPaused, False)
             | IntentRestart \<Rightarrow> (StWaiting, False)
             | IntentStopSeeding \<Rightarrow> (StComplete, True)
             | _ \<Rightarrow> (StRemoved, True))
          else (StError, True))"

definition worker_mark :: "nat \<Rightarrow> task_failure option \<Rightarrow> task \<Rightarrow> task" where
  "worker_mark now r t0 =
     (let s = fst (end_status (tk_intent t0) r);
          t = (freeze_timer now t0)\<lparr>tk_status := s\<rparr>
      in case s of
           StComplete \<Rightarrow> t\<lparr>tk_error_code := 0, tk_finished_at := now\<rparr>
         | StError \<Rightarrow> t\<lparr>tk_error_code := failure_code (the r), tk_finished_at := now\<rparr>
         | _ \<Rightarrow> t)"

fun evict :: "nat \<Rightarrow> mgr \<Rightarrow> mgr" where
  "evict 0 m = m"
| "evict (Suc fuel) m =
     (if length (mg_stopped m) \<le> MAX_RESULTS then m
      else evict fuel (m\<lparr>mg_tasks := mg_tasks m - {hd (mg_stopped m)}, mg_stopped := tl (mg_stopped m)\<rparr>))"

definition worker_leave :: "gid \<Rightarrow> bool \<Rightarrow> mgr \<Rightarrow> mgr" where
  "worker_leave g terminal m0 =
     (let m = m0\<lparr>mg_active := mg_active m0 - {g}\<rparr> in
      if status_of m g = StRemoved then forget g m
      else if status_of m g = StWaiting then
        (if tk_intent (mg_store m g) = IntentRestart then
           (upd_task g (\<lambda>t. t\<lparr>tk_intent := IntentNone, tk_token := mg_next_token m\<rparr>) m)
             \<lparr>mg_next_token := Suc (mg_next_token m), mg_queue := mg_queue m @ [g]\<rparr>
         else mark g StPaused m)
      else if terminal then
        let m1 = unclaim g (m\<lparr>mg_stopped := mg_stopped m @ [g], mg_stopped_total := Suc (mg_stopped_total m)\<rparr>)
        in evict (length (mg_stopped m1)) m1
      else m)"

text \<open>\<open>rename_with_counter\<close> and \<open>Path::join\<close> on Unix.\<close>

definition rename_with_counter :: "bytes \<Rightarrow> nat \<Rightarrow> bytes" where
  "rename_with_counter name n =
     (let ext = rev (takeWhile (\<lambda>b. b \<noteq> 46) (rev name));
          stem = take (length name - length ext - 1) name
      in if 46 \<in> set name \<and> stem \<noteq> [] then stem @ [46] @ dec_bytes n @ [46] @ ext else name @ [46] @ dec_bytes n)"

definition path_join :: "path \<Rightarrow> bytes \<Rightarrow> path" where
  "path_join dir name =
     (if name \<noteq> [] \<and> hd name = 47 then name
      else if dir = [] \<or> last dir = 47 then dir @ name else dir @ [47] @ name)"

definition existing_len :: "mgr \<Rightarrow> path \<Rightarrow> nat" where
  "existing_len m p = (case map_of (mg_files m) p of None \<Rightarrow> 0 | Some n \<Rightarrow> n)"

definition candidate :: "gid \<Rightarrow> bytes \<Rightarrow> nat \<Rightarrow> mgr \<Rightarrow> path" where
  "candidate g base n m =
     path_join (tk_dir (mg_store m g)) (if n = 0 then base else rename_with_counter base n)"

text \<open>The result of a section: the new state and the sections that follow.\<close>

fun exec :: "sec \<Rightarrow> mgr \<Rightarrow> mgr \<times> sec list" where
  "exec Kick m = (m\<lparr>mg_kicked := True\<rparr>, [])"
| "exec (Answer r) m = (m, [])"
| "exec (WorkerStart g) m = (m, [WorkerRun g (tk_token (mg_store m g))])"
| "exec (WorkerRun g tok) m = (m, [WorkerRun g tok])"
| "exec (WorkerMark g r) m =
     (upd_task g (worker_mark (mg_now m) r) m,
      [WorkerClean g, WorkerLeave g (snd (end_status (tk_intent (mg_store m g)) r)), Kick])"
| "exec (WorkerClean g) m = (if status_of m g = StRemoved then delete_as_asked g m else m, [])"
| "exec (WorkerLeave g terminal) m = (worker_leave g terminal m, [])"
| "exec (PauseFind g) m = (m, [if g \<in> mg_tasks m then PauseCheck g else Answer NoSuchTask])"
| "exec (PauseCheck g) m =
     (m, case status_of m g of
           StWaiting \<Rightarrow> [PauseDequeue g, PauseSet g, Kick, Answer Accepted]
         | StActive \<Rightarrow> [SetIntent g IntentPause, Cancel g, Answer Accepted]
         | StSeeding \<Rightarrow> [SetIntent g IntentPause, Cancel g, Answer Accepted]
         | StPaused \<Rightarrow> [Answer AlreadyPaused]
         | _ \<Rightarrow> [Answer AlreadyEnded])"
| "exec (PauseDequeue g) m = (m\<lparr>mg_queue := filter (\<lambda>h. h \<noteq> g) (mg_queue m)\<rparr>, [])"
| "exec (PauseSet g) m = (mark g StPaused m, [])"
| "exec (SetIntent g i) m = (upd_task g (\<lambda>t. t\<lparr>tk_intent := i\<rparr>) m, [])"
| "exec (Cancel g) m = (m\<lparr>mg_cancelled := insert (tk_token (mg_store m g)) (mg_cancelled m)\<rparr>, [])"
| "exec (UnpauseFind g) m = (m, [if g \<in> mg_tasks m then UnpauseCheck g else Answer NoSuchTask])"
| "exec (UnpauseCheck g) m =
     (m, case status_of m g of
           StPaused \<Rightarrow> [UnpauseSelect g]
         | StError \<Rightarrow> [UnpauseClear g, UnpauseUnlist g, UnpauseSelect g]
         | _ \<Rightarrow> [Answer NotResumable])"
| "exec (UnpauseClear g) m = (upd_task g (\<lambda>t. t\<lparr>tk_error_code := 0\<rparr>) m, [])"
| "exec (UnpauseUnlist g) m =
     ((upd_task g (\<lambda>t. t\<lparr>tk_finished_at := 0\<rparr>) m)\<lparr>mg_stopped := filter (\<lambda>h. h \<noteq> g) (mg_stopped m)\<rparr>, [])"
| "exec (UnpauseSelect g) m =
     (m, if tk_awaiting (mg_store m g) \<and> tk_selected (mg_store m g) = None \<and> tk_meta (mg_store m g) \<noteq> None
         then [Answer MustSelect]
         else [UnpauseToken g, UnpauseIntent g, UnpauseKeep g, UnpauseEnqueue g, UnpauseSet g, Kick, Answer Accepted])"
| "exec (UnpauseToken g) m =
     ((upd_task g (\<lambda>t. t\<lparr>tk_token := mg_next_token m\<rparr>) m)\<lparr>mg_next_token := Suc (mg_next_token m)\<rparr>, [])"
| "exec (UnpauseIntent g) m = (upd_task g (\<lambda>t. t\<lparr>tk_intent := IntentNone\<rparr>) m, [])"
| "exec (UnpauseKeep g) m = (upd_task g (\<lambda>t. t\<lparr>tk_delete_files := False\<rparr>) m, [])"
| "exec (UnpauseEnqueue g) m = (m\<lparr>mg_queue := mg_queue m @ [g]\<rparr>, [])"
| "exec (UnpauseSet g) m = (mark g StWaiting m, [])"
| "exec (StopFind g) m = (m, [if g \<in> mg_tasks m then StopCheck g else Answer NoSuchTask])"
| "exec (StopCheck g) m =
     (m, if status_of m g = StSeeding then [SetIntent g IntentStopSeeding, Cancel g, Answer Accepted]
         else [Answer NotSeeding])"
| "exec (RemoveFind g del) m = (m, [if g \<in> mg_tasks m then RemoveFlag g del else Answer NoSuchTask])"
| "exec (RemoveFlag g del) m = (upd_task g (\<lambda>t. t\<lparr>tk_delete_files := del\<rparr>) m, [RemoveCheck g])"
| "exec (RemoveCheck g) m =
     (m, case status_of m g of
           StWaiting \<Rightarrow> [RemoveDequeue g, RemovedSet g, RemovedDrop g, RemovedClean g, Kick, Answer Accepted]
         | StActive \<Rightarrow> [SetIntent g IntentRemove, Cancel g, Answer Accepted]
         | StSeeding \<Rightarrow> [SetIntent g IntentRemove, Cancel g, Answer Accepted]
         | _ \<Rightarrow> [RemovedSet g, RemovedDrop g, RemovedClean g, Kick, Answer Accepted])"
| "exec (RemoveDequeue g) m = (m\<lparr>mg_queue := filter (\<lambda>h. h \<noteq> g) (mg_queue m)\<rparr>, [])"
| "exec (RemovedSet g) m = (mark g StRemoved m, [])"
| "exec (RemovedDrop g) m = (forget g m, [])"
| "exec (RemovedClean g) m = (delete_as_asked g m, [])"
| "exec PurgeList m =
     (m, [PurgeDrop (sorted_list_of_set {g \<in> mg_tasks m. is_terminal (status_of m g)})])"
| "exec (PurgeDrop gs) m =
     (m\<lparr>mg_tasks := {g \<in> mg_tasks m. \<not> is_terminal (status_of m g)}, mg_stopped := []\<rparr>,
      map DropCtrl gs @ [Answer Accepted])"
| "exec (ResultFind g) m = (m, [if g \<in> mg_tasks m then ResultCheck g else Answer NoSuchTask])"
| "exec (ResultCheck g) m =
     (m, if is_terminal (status_of m g) then [ResultDrop g, DropCtrl g, Answer Accepted] else [Answer NotEnded])"
| "exec (ResultDrop g) m =
     (m\<lparr>mg_tasks := mg_tasks m - {g}, mg_stopped := filter (\<lambda>h. h \<noteq> g) (mg_stopped m)\<rparr>, [])"
| "exec (DropCtrl g) m = (delete_task_ctrl g m, [])"
| "exec (ClaimTry g base can_resume n) m =
     (let c = candidate g base n m; existing = existing_len m c;
          disk_conflict = (\<not> can_resume existing c \<and> 0 < existing)
      in if c \<notin> mg_claims m \<and> \<not> disk_conflict
         then (m\<lparr>mg_claims := insert c (mg_claims m)\<rparr>, [ClaimSet g c])
         else (m, [ClaimTry g base can_resume (Suc n)]))"
| "exec (ClaimSet g p) m = (upd_task g (\<lambda>t. t\<lparr>tk_path := Some p\<rparr>) m, [])"

section \<open>Interleavings\<close>

text \<open>
  Threads are the sections they still have to run. The scheduler runs whenever the permit is there; every task
  it starts gets a thread of its own.
\<close>

record sys =
  sy_mgr :: mgr
  sy_threads :: "sec list list"

definition put_thread :: "nat \<Rightarrow> sec list \<Rightarrow> sec list list \<Rightarrow> sec list list" where
  "put_thread i th ths = (if th = [] then take i ths @ drop (Suc i) ths else ths[i := th])"

datatype request =
    PauseReq gid
  | PauseAllReq "gid list"
  | UnpauseReq gid
  | StopSeedingReq gid
  | RemoveReq gid bool
  | PurgeReq
  | RemoveResultReq gid

text \<open>\<open>pause_all\<close> pauses the tasks it finds waiting or running, in the order of the map, \<open>gs\<close>.\<close>

fun request_secs :: "mgr \<Rightarrow> request \<Rightarrow> sec list" where
  "request_secs m (PauseReq g) = [PauseFind g]"
| "request_secs m (PauseAllReq gs) =
     map PauseFind (filter (\<lambda>g. g \<in> mg_tasks m \<and> status_of m g \<in> {StWaiting, StActive, StSeeding}) gs)"
| "request_secs m (UnpauseReq g) = [UnpauseFind g]"
| "request_secs m (StopSeedingReq g) = [StopFind g]"
| "request_secs m (RemoveReq g del) = [RemoveFind g del]"
| "request_secs m PurgeReq = [PurgeList]"
| "request_secs m (RemoveResultReq g) = [ResultFind g]"

text \<open>
  What a running driver does to the task: it claims a path, a BT task takes the path of its metadata without
  a claim, the metadata arrives, a task without a choice of files pauses or restarts itself, the task starts to
  seed, a broken path is dropped.
\<close>

datatype driver =
    Claim bytes "nat \<Rightarrow> path \<Rightarrow> bool"
  | BtPath bytes
  | GotMeta nat
  | AutoPause
  | Seed
  | ResetPath
  | Grow nat

definition auto_pause :: "gid \<Rightarrow> nat \<Rightarrow> mgr \<Rightarrow> mgr" where
  "auto_pause g tok m =
     (let t = mg_store m g in
      case tk_meta t of
        None \<Rightarrow> m
      | Some files \<Rightarrow>
          if tk_awaiting t \<and> tk_intent t = IntentNone then
            (upd_task g (\<lambda>t. if files \<le> 1 then t\<lparr>tk_awaiting := False, tk_intent := IntentRestart\<rparr>
                             else t\<lparr>tk_intent := IntentPause\<rparr>) m)
              \<lparr>mg_cancelled := insert tok (mg_cancelled m)\<rparr>
          else m)"

definition reset_task_path :: "gid \<Rightarrow> mgr \<Rightarrow> mgr" where
  "reset_task_path g m =
     (case tk_path (mg_store m g) of
        None \<Rightarrow> m
      | Some p \<Rightarrow>
          (upd_task g (\<lambda>t. t\<lparr>tk_path := None\<rparr>) m)\<lparr>mg_ctrls := mg_ctrls m - {p}, mg_claims := mg_claims m - {p}\<rparr>)"

definition grow_file :: "gid \<Rightarrow> nat \<Rightarrow> mgr \<Rightarrow> mgr" where
  "grow_file g n m =
     (case tk_path (mg_store m g) of
        None \<Rightarrow> m
      | Some p \<Rightarrow> m\<lparr>mg_files := (p, n) # filter (\<lambda>(q, k). q \<noteq> p) (mg_files m), mg_ctrls := insert p (mg_ctrls m)\<rparr>)"

fun drive :: "driver \<Rightarrow> gid \<Rightarrow> nat \<Rightarrow> mgr \<Rightarrow> mgr \<times> sec list" where
  "drive (Claim base can_resume) g tok m =
     (m, if tk_path (mg_store m g) = None then [ClaimTry g base can_resume 0, WorkerRun g tok] else [WorkerRun g tok])"
| "drive (BtPath name) g tok m =
     (if tk_path (mg_store m g) = None
      then upd_task g (\<lambda>t. t\<lparr>tk_path := Some (path_join (tk_dir t) name)\<rparr>) m else m, [WorkerRun g tok])"
| "drive (GotMeta n) g tok m = (upd_task g (\<lambda>t. t\<lparr>tk_meta := Some n\<rparr>) m, [WorkerRun g tok])"
| "drive AutoPause g tok m = (auto_pause g tok m, [WorkerRun g tok])"
| "drive Seed g tok m = (if status_of m g = StSeeding then m else mark g StSeeding m, [WorkerRun g tok])"
| "drive ResetPath g tok m = (reset_task_path g m, [WorkerRun g tok])"
| "drive (Grow n) g tok m = (grow_file g n m, [WorkerRun g tok])"

text \<open>\<open>add_uri\<close>, \<open>add_torrent\<close>, \<open>add_magnet\<close> once their arguments are parsed: a fresh number, a place in the queue.\<close>

definition add_task :: "gid \<Rightarrow> bool \<Rightarrow> nat option \<Rightarrow> nat list option \<Rightarrow> path \<Rightarrow> int option \<Rightarrow> mgr \<Rightarrow> mgr" where
  "add_task g awaiting meta selected dir position m =
     (let q = mg_queue m in
      m\<lparr>mg_tasks := insert g (mg_tasks m), mg_ever := insert g (mg_ever m),
        mg_store := (mg_store m)(g := fresh_task (mg_now m) (mg_next_token m) awaiting meta selected dir),
        mg_next_token := Suc (mg_next_token m),
        mg_queue := (case position of
                       None \<Rightarrow> q @ [g]
                     | Some pos \<Rightarrow>
                         if 0 \<le> pos then let k = min (nat pos) (length q) in take k q @ [g] @ drop k q
                         else q @ [g])\<rparr>)"

text \<open>
  \<open>select_files\<close>: \<open>count\<close> is the number of files; \<open>covered\<close> says whether the running engine, if there is one, has
  the chosen files open.
\<close>

definition select_files :: "gid \<Rightarrow> nat \<Rightarrow> nat list \<Rightarrow> bool option \<Rightarrow> mgr \<Rightarrow> mgr option" where
  "select_files g count indices covered m =
     (let sel = sort (remdups (filter (\<lambda>i. i < count) indices)) in
      if g \<notin> mg_tasks m \<or> sel = [] then None
      else
        let m1 = upd_task g (\<lambda>t. t\<lparr>tk_selected := Some sel, tk_awaiting := False\<rparr>) m
        in Some (if covered = Some False
                 then fst (exec (Cancel g) (fst (exec (SetIntent g IntentPause) m1))) else m1))"

datatype act =
    Run nat
  | Finish nat "task_failure option"
  | Drive nat driver
  | Request request
  | Add gid bool "nat option" "nat list option" path "int option"
  | Select gid nat "nat list" "bool option"
  | SetMax nat
  | Wake
  | Tick nat

definition head_sec :: "nat \<Rightarrow> sys \<Rightarrow> sec option" where
  "head_sec i s = (if i < length (sy_threads s) then (case sy_threads s ! i of [] \<Rightarrow> None | x # _ \<Rightarrow> Some x) else None)"

text \<open>Actions that are not possible in a state leave it as it is.\<close>

fun sys_step :: "act \<Rightarrow> sys \<Rightarrow> sys" where
  "sys_step (Run i) s =
     (case head_sec i s of
        None \<Rightarrow> s
      | Some (WorkerRun g tok) \<Rightarrow> s
      | Some x \<Rightarrow>
          let (m, follow) = exec x (sy_mgr s)
          in \<lparr>sy_mgr = m, sy_threads = put_thread i (follow @ tl (sy_threads s ! i)) (sy_threads s)\<rparr>)"
| "sys_step (Finish i r) s =
     (case head_sec i s of
        Some (WorkerRun g tok) \<Rightarrow>
          if (case r of Some f \<Rightarrow> is_cancelled f | None \<Rightarrow> False) \<and> tok \<notin> mg_cancelled (sy_mgr s) then s
          else \<lparr>sy_mgr = sy_mgr s, sy_threads = put_thread i (WorkerMark g r # tl (sy_threads s ! i)) (sy_threads s)\<rparr>
      | _ \<Rightarrow> s)"
| "sys_step (Drive i d) s =
     (case head_sec i s of
        Some (WorkerRun g tok) \<Rightarrow>
          let (m, follow) = drive d g tok (sy_mgr s)
          in \<lparr>sy_mgr = m, sy_threads = put_thread i (follow @ tl (sy_threads s ! i)) (sy_threads s)\<rparr>
      | _ \<Rightarrow> s)"
| "sys_step (Request r) s =
     s\<lparr>sy_threads := sy_threads s @ (if request_secs (sy_mgr s) r = [] then [] else [request_secs (sy_mgr s) r])\<rparr>"
| "sys_step (Add g awaiting meta selected dir position) s =
     (if g \<in> mg_ever (sy_mgr s) then s
      else \<lparr>sy_mgr = add_task g awaiting meta selected dir position (sy_mgr s), sy_threads = sy_threads s @ [[Kick]]\<rparr>)"
| "sys_step (Select g count indices covered) s =
     (case select_files g count indices covered (sy_mgr s) of None \<Rightarrow> s | Some m \<Rightarrow> s\<lparr>sy_mgr := m\<rparr>)"
| "sys_step (SetMax n) s =
     \<lparr>sy_mgr = (sy_mgr s)\<lparr>mg_max := max 1 n, mg_peak := max (mg_peak (sy_mgr s)) (max 1 n)\<rparr>,
      sy_threads = sy_threads s @ [[Kick]]\<rparr>"
| "sys_step Wake s =
     (if mg_kicked (sy_mgr s) then
        let (m, started) = fill_slots ((sy_mgr s)\<lparr>mg_kicked := False\<rparr>)
        in \<lparr>sy_mgr = m, sy_threads = sy_threads s @ map (\<lambda>g. [WorkerStart g]) started\<rparr>
      else s)"
| "sys_step (Tick n) s = s\<lparr>sy_mgr := (sy_mgr s)\<lparr>mg_now := mg_now (sy_mgr s) + n\<rparr>\<rparr>"

definition run :: "act list \<Rightarrow> sys \<Rightarrow> sys" where
  "run = fold sys_step"

definition new_manager :: "nat \<Rightarrow> mgr" where
  "new_manager max_concurrent =
     \<lparr>mg_tasks = {}, mg_store = (\<lambda>_. fresh_task 0 0 False None None []), mg_queue = [], mg_active = {},
      mg_stopped = [], mg_stopped_total = 0, mg_max = max max_concurrent 1, mg_claims = {}, mg_cancelled = {},
      mg_next_token = 1, mg_kicked = False, mg_files = [], mg_ctrls = {}, mg_now = 0, mg_ever = {},
      mg_peak = max max_concurrent 1\<rparr>"

definition new_system :: "nat \<Rightarrow> sys" where
  "new_system n = \<lparr>sy_mgr = new_manager n, sy_threads = []\<rparr>"

section \<open>Operations without interruption\<close>

text \<open>A list of sections run one after the other, with the answers given on the way.\<close>

definition answer :: "sec \<Rightarrow> reply list" where
  "answer s = (case s of Answer r \<Rightarrow> [r] | _ \<Rightarrow> [])"

inductive runs :: "sec list \<Rightarrow> mgr \<Rightarrow> reply list \<Rightarrow> mgr \<Rightarrow> bool" where
  runs_Nil: "runs [] m [] m"
| runs_Cons: "runs (snd (exec s m) @ rest) (fst (exec s m)) rs m' \<Longrightarrow> runs (s # rest) m (answer s @ rs) m'"

inductive_simps runs_Nil_iff [simp]: "runs [] m rs m'"

end
