(* ===== verification/Task_Sched.thy ===== *)
theory Task_Sched
  imports Task_Manager
begin

text \<open>
  What holds however the operations, the workers and the scheduler interleave: the number of running tasks
  stays within the limit, the list of results within its bound, and no free slot is left while a task waits
  unless a wake-up of the scheduler is under way.
\<close>

section \<open>The fields a section may change\<close>

lemma upd_task_simps [simp]:
  "mg_tasks (upd_task g f m) = mg_tasks m" "mg_queue (upd_task g f m) = mg_queue m"
  "mg_active (upd_task g f m) = mg_active m" "mg_stopped (upd_task g f m) = mg_stopped m"
  "mg_stopped_total (upd_task g f m) = mg_stopped_total m"
  "mg_max (upd_task g f m) = mg_max m" "mg_claims (upd_task g f m) = mg_claims m"
  "mg_cancelled (upd_task g f m) = mg_cancelled m" "mg_next_token (upd_task g f m) = mg_next_token m"
  "mg_kicked (upd_task g f m) = mg_kicked m" "mg_files (upd_task g f m) = mg_files m"
  "mg_ctrls (upd_task g f m) = mg_ctrls m" "mg_now (upd_task g f m) = mg_now m"
  "mg_ever (upd_task g f m) = mg_ever m" "mg_peak (upd_task g f m) = mg_peak m"
  "mg_store (upd_task g f m) = (mg_store m)(g := f (mg_store m g))"
  by (simp_all add: upd_task_def)

lemma mark_simps [simp]:
  "mg_tasks (mark g s m) = mg_tasks m" "mg_queue (mark g s m) = mg_queue m"
  "mg_active (mark g s m) = mg_active m" "mg_stopped (mark g s m) = mg_stopped m"
  "mg_stopped_total (mark g s m) = mg_stopped_total m"
  "mg_max (mark g s m) = mg_max m" "mg_claims (mark g s m) = mg_claims m"
  "mg_cancelled (mark g s m) = mg_cancelled m" "mg_next_token (mark g s m) = mg_next_token m"
  "mg_kicked (mark g s m) = mg_kicked m" "mg_files (mark g s m) = mg_files m"
  "mg_ctrls (mark g s m) = mg_ctrls m" "mg_now (mark g s m) = mg_now m"
  "mg_ever (mark g s m) = mg_ever m" "mg_peak (mark g s m) = mg_peak m"
  "mg_store (mark g s m) = (mg_store m)(g := set_status (mg_now m) s (mg_store m g))"
  by (simp_all add: mark_def)

lemma unclaim_simps [simp]:
  "mg_tasks (unclaim g m) = mg_tasks m" "mg_queue (unclaim g m) = mg_queue m"
  "mg_active (unclaim g m) = mg_active m" "mg_stopped (unclaim g m) = mg_stopped m"
  "mg_stopped_total (unclaim g m) = mg_stopped_total m"
  "mg_max (unclaim g m) = mg_max m" "mg_store (unclaim g m) = mg_store m"
  "mg_cancelled (unclaim g m) = mg_cancelled m" "mg_next_token (unclaim g m) = mg_next_token m"
  "mg_kicked (unclaim g m) = mg_kicked m" "mg_files (unclaim g m) = mg_files m"
  "mg_ctrls (unclaim g m) = mg_ctrls m" "mg_now (unclaim g m) = mg_now m"
  "mg_ever (unclaim g m) = mg_ever m" "mg_peak (unclaim g m) = mg_peak m"
  by (simp_all add: unclaim_def split: option.split)

lemma forget_simps [simp]:
  "mg_tasks (forget g m) = mg_tasks m - {g}" "mg_queue (forget g m) = mg_queue m"
  "mg_active (forget g m) = mg_active m" "mg_stopped (forget g m) = filter (\<lambda>h. h \<noteq> g) (mg_stopped m)"
  "mg_stopped_total (forget g m) = mg_stopped_total m"
  "mg_max (forget g m) = mg_max m" "mg_store (forget g m) = mg_store m"
  "mg_cancelled (forget g m) = mg_cancelled m" "mg_next_token (forget g m) = mg_next_token m"
  "mg_kicked (forget g m) = mg_kicked m" "mg_files (forget g m) = mg_files m"
  "mg_ctrls (forget g m) = mg_ctrls m" "mg_now (forget g m) = mg_now m"
  "mg_ever (forget g m) = mg_ever m" "mg_peak (forget g m) = mg_peak m"
  by (simp_all add: forget_def)

lemma delete_simps [simp]:
  "mg_tasks (delete_as_asked g m) = mg_tasks m" "mg_queue (delete_as_asked g m) = mg_queue m"
  "mg_active (delete_as_asked g m) = mg_active m" "mg_stopped (delete_as_asked g m) = mg_stopped m"
  "mg_stopped_total (delete_as_asked g m) = mg_stopped_total m"
  "mg_max (delete_as_asked g m) = mg_max m" "mg_claims (delete_as_asked g m) = mg_claims m"
  "mg_store (delete_as_asked g m) = mg_store m"
  "mg_cancelled (delete_as_asked g m) = mg_cancelled m" "mg_next_token (delete_as_asked g m) = mg_next_token m"
  "mg_kicked (delete_as_asked g m) = mg_kicked m" "mg_now (delete_as_asked g m) = mg_now m"
  "mg_ever (delete_as_asked g m) = mg_ever m" "mg_peak (delete_as_asked g m) = mg_peak m"
  by (simp_all add: delete_as_asked_def delete_task_files_def delete_task_ctrl_def Let_def split: option.split)

lemma delete_ctrl_simps [simp]:
  "mg_tasks (delete_task_ctrl g m) = mg_tasks m" "mg_queue (delete_task_ctrl g m) = mg_queue m"
  "mg_active (delete_task_ctrl g m) = mg_active m" "mg_stopped (delete_task_ctrl g m) = mg_stopped m"
  "mg_stopped_total (delete_task_ctrl g m) = mg_stopped_total m"
  "mg_max (delete_task_ctrl g m) = mg_max m" "mg_claims (delete_task_ctrl g m) = mg_claims m"
  "mg_store (delete_task_ctrl g m) = mg_store m" "mg_files (delete_task_ctrl g m) = mg_files m"
  "mg_cancelled (delete_task_ctrl g m) = mg_cancelled m" "mg_next_token (delete_task_ctrl g m) = mg_next_token m"
  "mg_kicked (delete_task_ctrl g m) = mg_kicked m" "mg_now (delete_task_ctrl g m) = mg_now m"
  "mg_ever (delete_task_ctrl g m) = mg_ever m" "mg_peak (delete_task_ctrl g m) = mg_peak m"
  by (simp_all add: delete_task_ctrl_def split: option.split)

lemma worker_mark_simps [simp]:
  "tk_status (worker_mark now r t) = fst (end_status (tk_intent t) r)" "tk_intent (worker_mark now r t) = tk_intent t"
  "tk_token (worker_mark now r t) = tk_token t" "tk_path (worker_mark now r t) = tk_path t"
  "tk_delete_files (worker_mark now r t) = tk_delete_files t" "tk_awaiting (worker_mark now r t) = tk_awaiting t"
  "tk_selected (worker_mark now r t) = tk_selected t" "tk_meta (worker_mark now r t) = tk_meta t"
  "tk_dir (worker_mark now r t) = tk_dir t" "tk_created_at (worker_mark now r t) = tk_created_at t"
  by (simp_all add: worker_mark_def Let_def split: status.split)

text \<open>The oldest results go until the bound holds.\<close>

lemma evict_simps [simp]:
  "mg_queue (evict k m) = mg_queue m" "mg_active (evict k m) = mg_active m" "mg_max (evict k m) = mg_max m"
  "mg_store (evict k m) = mg_store m" "mg_claims (evict k m) = mg_claims m"
  "mg_cancelled (evict k m) = mg_cancelled m" "mg_next_token (evict k m) = mg_next_token m"
  "mg_kicked (evict k m) = mg_kicked m" "mg_now (evict k m) = mg_now m" "mg_ever (evict k m) = mg_ever m"
  "mg_peak (evict k m) = mg_peak m"
  by (induction k m rule: evict.induct) simp_all

lemma evict_stopped:
  "length (mg_stopped m) \<le> k \<Longrightarrow> mg_stopped (evict k m) = drop (length (mg_stopped m) - MAX_RESULTS) (mg_stopped m)"
proof (induction k m rule: evict.induct)
  case (2 fuel m)
  then show ?case
    by (cases "mg_stopped m") (auto simp: drop_Cons' Suc_diff_le)
qed simp

lemma evict_tasks:
  "length (mg_stopped m) \<le> k \<Longrightarrow>
   mg_tasks (evict k m) = mg_tasks m - set (take (length (mg_stopped m) - MAX_RESULTS) (mg_stopped m))"
proof (induction k m rule: evict.induct)
  case (2 fuel m)
  then show ?case
    by (cases "mg_stopped m") (auto simp: take_Cons' Suc_diff_le)
qed simp

lemma worker_leave_fields [simp]:
  "mg_active (worker_leave g t m) = mg_active m - {g}" "mg_max (worker_leave g t m) = mg_max m"
  "mg_peak (worker_leave g t m) = mg_peak m" "mg_kicked (worker_leave g t m) = mg_kicked m"
  "mg_ever (worker_leave g t m) = mg_ever m" "mg_now (worker_leave g t m) = mg_now m"
  by (simp_all add: worker_leave_def Let_def)

section \<open>Filling the slots\<close>

lemma fill_loop_fields [simp]:
  "mg_max (fst (fill_loop k m)) = mg_max m" "mg_peak (fst (fill_loop k m)) = mg_peak m"
  "mg_stopped (fst (fill_loop k m)) = mg_stopped m" "mg_tasks (fst (fill_loop k m)) = mg_tasks m"
  "mg_kicked (fst (fill_loop k m)) = mg_kicked m" "mg_ever (fst (fill_loop k m)) = mg_ever m"
  "mg_cancelled (fst (fill_loop k m)) = mg_cancelled m" "mg_next_token (fst (fill_loop k m)) = mg_next_token m"
  "mg_claims (fst (fill_loop k m)) = mg_claims m" "mg_now (fst (fill_loop k m)) = mg_now m"
  by (induction k m rule: fill_loop.induct) (auto split: list.splits prod.splits)

lemma fill_loop_active:
  "finite (mg_active m) \<Longrightarrow>
   finite (mg_active (fst (fill_loop k m))) \<and> card (mg_active (fst (fill_loop k m))) \<le> max (card (mg_active m)) (mg_max m)"
proof (induction k m rule: fill_loop.induct)
  case (2 fuel m)
  show ?case
  proof (cases "card (mg_active m) < mg_max m \<and> \<not> mg_max m \<le> downloading m \<and> mg_queue m \<noteq> []")
    case True
    then obtain g rest where q: "mg_queue m = g # rest" by (cases "mg_queue m") auto
    let ?m = "mark g StActive (m\<lparr>mg_queue := rest, mg_active := insert g (mg_active m)\<rparr>)"
    have c: "card (insert g (mg_active m)) \<le> mg_max m"
      using True card_insert_le_m1 [of "mg_max m" "mg_active m" g] by (simp add: card_insert_if 2)
    show ?thesis
    proof (cases "g \<notin> mg_tasks m \<or> status_of m g \<noteq> StWaiting")
      case skip: True
      then show ?thesis using True q 2 by auto
    next
      case False
      have "finite (mg_active (fst (fill_loop fuel ?m)))
          \<and> card (mg_active (fst (fill_loop fuel ?m))) \<le> max (card (mg_active ?m)) (mg_max ?m)"
        using "2.IH"(2) True q False 2(3) by auto
      then show ?thesis using True q False c by (auto split: prod.splits)
    qed
  next
    case False
    then show ?thesis using 2 by (auto split: list.split)
  qed
qed simp

lemma downloading_le: "finite (mg_active m) \<Longrightarrow> downloading m \<le> card (mg_active m)"
  unfolding downloading_def by (intro card_mono) auto

lemma fill_loop_full:
  "finite (mg_active m) \<Longrightarrow> length (mg_queue m) < k \<Longrightarrow>
   mg_queue (fst (fill_loop k m)) = [] \<or> mg_max m \<le> card (mg_active (fst (fill_loop k m)))"
proof (induction k m rule: fill_loop.induct)
  case (2 fuel m)
  show ?case
  proof (cases "card (mg_active m) < mg_max m \<and> \<not> mg_max m \<le> downloading m \<and> mg_queue m \<noteq> []")
    case True
    then obtain g rest where q: "mg_queue m = g # rest" by (cases "mg_queue m") auto
    then show ?thesis
      using True 2 by (cases "g \<notin> mg_tasks m \<or> status_of m g \<noteq> StWaiting") (auto split: prod.splits)
  next
    case False
    then show ?thesis using downloading_le [of m] 2 by (auto split: list.split)
  qed
qed simp

section \<open>The invariant of every interleaving\<close>

text \<open>The sections that free a slot or add to the queue are followed, in their thread, by a wake-up.\<close>

fun needs_kick :: "sec \<Rightarrow> bool" where
  "needs_kick (UnpauseEnqueue g) = True"
| "needs_kick (WorkerLeave g t) = True"
| "needs_kick _ = False"

fun kicks :: "sec list \<Rightarrow> bool" where
  "kicks [] = True"
| "kicks (s # rest) = ((needs_kick s \<longrightarrow> Kick \<in> set rest) \<and> kicks rest)"

lemma kicks_append: "kicks xs \<Longrightarrow> kicks ys \<Longrightarrow> kicks (xs @ ys)"
  by (induction xs) auto

lemma kicks_tl: "kicks xs \<Longrightarrow> kicks (tl xs)"
  by (cases xs) auto

lemma kicks_plain: "(\<And>x. x \<in> set xs \<Longrightarrow> \<not> needs_kick x) \<Longrightarrow> kicks xs"
  by (induction xs) auto

lemma exec_kicks: "kicks (snd (exec x m))"
proof (cases x)
  case (ClaimTry g base can_resume n)
  then show ?thesis by (simp add: Let_def)
next
  case (PurgeDrop gs)
  then show ?thesis by (auto intro!: kicks_plain)
qed (auto split: status.split)

lemma exec_fields:
  "mg_max (fst (exec x m)) = mg_max m" "mg_peak (fst (exec x m)) = mg_peak m"
  "mg_active (fst (exec x m)) = (case x of WorkerLeave g t \<Rightarrow> mg_active m - {g} | _ \<Rightarrow> mg_active m)"
  "mg_kicked (fst (exec x m)) = (mg_kicked m \<or> x = Kick)"
  by (cases x; auto simp: Let_def)+

lemma exec_queue: "\<not> needs_kick x \<Longrightarrow> mg_queue (fst (exec x m)) \<noteq> [] \<Longrightarrow> mg_queue m \<noteq> []"
  by (cases x) (auto simp: Let_def split: if_splits)

lemma worker_leave_stopped:
  "length (mg_stopped m) \<le> MAX_RESULTS \<Longrightarrow> length (mg_stopped (worker_leave g t m)) \<le> MAX_RESULTS"
  by (auto simp: worker_leave_def Let_def evict_stopped intro: order_trans [OF length_filter_le])

lemma exec_stopped:
  "length (mg_stopped m) \<le> MAX_RESULTS \<Longrightarrow> length (mg_stopped (fst (exec x m))) \<le> MAX_RESULTS"
  by (cases x) (auto simp: Let_def worker_leave_stopped intro: order_trans [OF length_filter_le])

definition waking :: "sys \<Rightarrow> bool" where
  "waking s \<longleftrightarrow> mg_kicked (sy_mgr s) \<or> list_ex (\<lambda>t. Kick \<in> set t) (sy_threads s)"

definition sched_inv :: "sys \<Rightarrow> bool" where
  "sched_inv s \<longleftrightarrow>
     (let m = sy_mgr s in
      finite (mg_active m) \<and> card (mg_active m) \<le> mg_peak m \<and> mg_max m \<le> mg_peak m
      \<and> length (mg_stopped m) \<le> MAX_RESULTS
      \<and> (mg_queue m \<noteq> [] \<longrightarrow> card (mg_active m) < mg_max m \<longrightarrow> waking s)
      \<and> list_all kicks (sy_threads s))"

lemma put_thread_all: "list_all P ths \<Longrightarrow> (th \<noteq> [] \<Longrightarrow> P th) \<Longrightarrow> list_all P (put_thread i th ths)"
  by (auto simp: put_thread_def list_all_iff dest!: in_set_takeD in_set_dropD subsetD [OF set_update_subset_insert])

text \<open>What replaces a thread wakes the scheduler when the thread did.\<close>

lemma put_thread_ex:
  assumes "i < length ths" "list_ex P ths" "P (ths ! i) \<Longrightarrow> th \<noteq> [] \<and> P th"
  shows "list_ex P (put_thread i th ths)"
proof -
  from assms(2) obtain j where j: "j < length ths" "P (ths ! j)" by (auto simp: list_ex_length)
  show ?thesis
  proof (cases "th = []")
    case True
    then have "i \<noteq> j" using assms(3) j by auto
    have "ths ! j \<in> set (take i ths @ drop (Suc i) ths)"
    proof (cases "j < i")
      case True
      then show ?thesis using j assms(1) by (auto simp: in_set_conv_nth intro: exI [of _ j])
    next
      case False
      then have "ths ! j = drop (Suc i) ths ! (j - Suc i)" "j - Suc i < length (drop (Suc i) ths)"
        using \<open>i \<noteq> j\<close> j by auto
      then show ?thesis by (metis Un_iff nth_mem set_append)
    qed
    then show ?thesis using True j by (auto simp: put_thread_def list_ex_iff)
  next
    case False
    have "list_ex P (ths[i := th])"
      using j assms by (cases "i = j") (auto simp: list_ex_length intro: exI [of _ j])
    then show ?thesis using False by (simp add: put_thread_def)
  qed
qed

lemma put_thread_mem: "i < length ths \<Longrightarrow> th \<noteq> [] \<Longrightarrow> th \<in> set (put_thread i th ths)"
  by (auto simp: put_thread_def set_update_memI)

lemma head_sec_SomeD:
  "head_sec i s = Some x \<Longrightarrow> i < length (sy_threads s) \<and> sy_threads s ! i = x # tl (sy_threads s ! i)"
  by (auto simp: head_sec_def split: if_splits list.splits)

lemma run_inv:
  assumes inv: "sched_inv s" and head: "head_sec i s = Some x"
  shows "sched_inv \<lparr>sy_mgr = fst (exec x (sy_mgr s)),
                    sy_threads = put_thread i (snd (exec x (sy_mgr s)) @ tl (sy_threads s ! i)) (sy_threads s)\<rparr>"
proof -
  let ?old = "sy_mgr s" and ?m = "fst (exec x (sy_mgr s))" and ?th = "snd (exec x (sy_mgr s)) @ tl (sy_threads s ! i)"
  note i = head_sec_SomeD [OF head]
  have th: "kicks (sy_threads s ! i)" using inv i by (simp add: sched_inv_def Let_def list_all_length)
  have k: "kicks ?th" using kicks_append [OF exec_kicks kicks_tl [OF th]] .
  have keep: "?th \<noteq> [] \<and> Kick \<in> set ?th" if "Kick \<in> set (sy_threads s ! i)" "x \<noteq> Kick"
    using that i by (metis Un_iff append_is_Nil_conv in_set_insert insert_Nil list.distinct(1) list.set_intros(1) set_ConsD set_append empty_iff list.set(1))
  have wake: "waking \<lparr>sy_mgr = ?m, sy_threads = put_thread i ?th (sy_threads s)\<rparr>"
    if "mg_queue ?m \<noteq> []" "card (mg_active ?m) < mg_max ?m"
  proof (cases "needs_kick x")
    case True
    then have "Kick \<in> set (tl (sy_threads s ! i))" using th i by (metis kicks.simps(2))
    then have "?th \<noteq> [] \<and> Kick \<in> set ?th" by auto
    then have "list_ex (\<lambda>t. Kick \<in> set t) (put_thread i ?th (sy_threads s))"
      using put_thread_mem [of i "sy_threads s" ?th] i unfolding list_ex_iff by blast
    then show ?thesis by (simp add: waking_def)
  next
    case False
    have "mg_active ?m = mg_active ?old" using False by (cases x) (simp_all add: Let_def)
    then have "card (mg_active ?old) < mg_max ?old" using that(2) by (simp add: exec_fields)
    moreover have "mg_queue ?old \<noteq> []" using exec_queue [OF False that(1)] .
    ultimately have w: "waking s" using inv by (simp add: sched_inv_def Let_def)
    show ?thesis
    proof (cases "x = Kick \<or> mg_kicked ?old")
      case True
      then have "mg_kicked ?m" using exec_fields(4) [of x ?old] by blast
      then show ?thesis by (simp add: waking_def)
    next
      case False
      then have "list_ex (\<lambda>t. Kick \<in> set t) (sy_threads s)" using w by (simp add: waking_def)
      from put_thread_ex [OF _ this, of i ?th] show ?thesis using keep False i by (auto simp: waking_def)
    qed
  qed
  have "card (mg_active ?m) \<le> mg_peak ?m" "finite (mg_active ?m)"
    using inv by (auto simp: sched_inv_def Let_def exec_fields split: sec.split
      intro: order_trans [OF card_mono [OF _ Diff_subset]])
  then show ?thesis
    using inv wake k exec_stopped [of ?old x] unfolding sched_inv_def Let_def
    by (auto simp: exec_fields intro!: put_thread_all)
qed

text \<open>What a driver does leaves the fields of the scheduler alone.\<close>

lemma drive_fields [simp]:
  "mg_max (fst (drive d g tok m)) = mg_max m" "mg_peak (fst (drive d g tok m)) = mg_peak m"
  "mg_active (fst (drive d g tok m)) = mg_active m" "mg_kicked (fst (drive d g tok m)) = mg_kicked m"
  "mg_queue (fst (drive d g tok m)) = mg_queue m" "mg_stopped (fst (drive d g tok m)) = mg_stopped m"
  "mg_tasks (fst (drive d g tok m)) = mg_tasks m" "mg_ever (fst (drive d g tok m)) = mg_ever m"
  by (cases d; simp add: auto_pause_def reset_task_path_def grow_file_def Let_def split: option.split)+

lemma drive_follow: "kicks (snd (drive d g tok m))" "snd (drive d g tok m) \<noteq> []"
  by (cases d; simp)+

lemma select_files_fields:
  "select_files g count indices covered m = Some m' \<Longrightarrow>
   mg_max m' = mg_max m \<and> mg_peak m' = mg_peak m \<and> mg_active m' = mg_active m \<and> mg_kicked m' = mg_kicked m
   \<and> mg_queue m' = mg_queue m \<and> mg_stopped m' = mg_stopped m \<and> mg_tasks m' = mg_tasks m \<and> mg_ever m' = mg_ever m"
  by (auto simp: select_files_def Let_def split: if_splits)

lemma request_kicks: "kicks (request_secs m r)"
  by (cases r) (auto intro!: kicks_plain)

lemma thread_inv:
  assumes "sched_inv s" "head_sec i s = Some x" "x \<noteq> Kick" "kicks th" "th \<noteq> []"
    "set (tl (sy_threads s ! i)) \<subseteq> set th"
    "mg_max m = mg_max (sy_mgr s)" "mg_peak m = mg_peak (sy_mgr s)" "mg_active m = mg_active (sy_mgr s)"
    "mg_kicked m = mg_kicked (sy_mgr s)" "mg_queue m = mg_queue (sy_mgr s)" "mg_stopped m = mg_stopped (sy_mgr s)"
  shows "sched_inv \<lparr>sy_mgr = m, sy_threads = put_thread i th (sy_threads s)\<rparr>"
proof -
  note i = head_sec_SomeD [OF assms(2)]
  have "waking \<lparr>sy_mgr = m, sy_threads = put_thread i th (sy_threads s)\<rparr>" if "waking s"
  proof (cases "mg_kicked m")
    case False
    then have "list_ex (\<lambda>t. Kick \<in> set t) (sy_threads s)" using that assms by (simp add: waking_def)
    moreover have "th \<noteq> [] \<and> Kick \<in> set th" if "Kick \<in> set (sy_threads s ! i)"
      using that i assms(3,5,6) by (metis set_ConsD subsetD)
    ultimately show ?thesis using put_thread_ex [of i "sy_threads s" "\<lambda>t. Kick \<in> set t" th] i
      by (auto simp: waking_def)
  qed (simp add: waking_def)
  then show ?thesis
    using assms by (auto simp: sched_inv_def Let_def intro!: put_thread_all)
qed

lemma sched_inv_step: "sched_inv s \<Longrightarrow> sched_inv (sys_step a s)"
proof (induction a s rule: sys_step.induct)
  case (1 i s)
  then show ?case
    using run_inv [of s i] by (auto simp: split_beta Let_def split: option.split sec.split)
next
  case (2 i r s)
  show ?case
  proof (cases "\<exists>g tok. head_sec i s = Some (WorkerRun g tok)
      \<and> \<not> ((case r of Some f \<Rightarrow> is_cancelled f | None \<Rightarrow> False) \<and> tok \<notin> mg_cancelled (sy_mgr s))")
    case True
    then obtain g tok where h: "head_sec i s = Some (WorkerRun g tok)"
      and c: "\<not> ((case r of Some f \<Rightarrow> is_cancelled f | None \<Rightarrow> False) \<and> tok \<notin> mg_cancelled (sy_mgr s))" by blast
    have "kicks (WorkerMark g r # tl (sy_threads s ! i))"
      using 2 head_sec_SomeD [OF h] by (simp add: sched_inv_def Let_def list_all_length kicks_tl)
    then have "sched_inv \<lparr>sy_mgr = sy_mgr s, sy_threads = put_thread i (WorkerMark g r # tl (sy_threads s ! i)) (sy_threads s)\<rparr>"
      using thread_inv [OF 2 h, of "WorkerMark g r # tl (sy_threads s ! i)" "sy_mgr s"] by auto
    then show ?thesis using h c 2 by simp
  next
    case False
    then show ?thesis using 2 by (auto split: option.split sec.split)
  qed
next
  case (3 i d s)
  show ?case
  proof (cases "\<exists>g tok. head_sec i s = Some (WorkerRun g tok)")
    case True
    then obtain g tok where h: "head_sec i s = Some (WorkerRun g tok)" by blast
    have "kicks (snd (drive d g tok (sy_mgr s)) @ tl (sy_threads s ! i))"
      using 3 head_sec_SomeD [OF h]
      by (simp add: sched_inv_def Let_def list_all_length kicks_tl kicks_append drive_follow)
    then show ?thesis
      using thread_inv [OF 3 h, of "snd (drive d g tok (sy_mgr s)) @ tl (sy_threads s ! i)" "fst (drive d g tok (sy_mgr s))"]
        h drive_follow by (auto simp: split_beta)
  next
    case False
    then show ?thesis using 3 by (auto split: option.split sec.split)
  qed
next
  case (4 r s)
  then show ?case using request_kicks [of "sy_mgr s" r]
    by (auto simp: sched_inv_def waking_def Let_def)
next
  case (5 g awaiting meta selected dir position s)
  then show ?case
    by (auto simp: sched_inv_def waking_def Let_def add_task_def)
next
  case (6 g count indices covered s)
  then show ?case
    by (cases "select_files g count indices covered (sy_mgr s)")
       (auto simp: sched_inv_def waking_def Let_def dest!: select_files_fields)
next
  case (7 n s)
  then show ?case by (auto simp: sched_inv_def waking_def Let_def)
next
  case (8 s)
  let ?m = "sy_mgr s\<lparr>mg_kicked := False\<rparr>"
  have fin: "finite (mg_active ?m)" using 8 by (simp add: sched_inv_def Let_def)
  have ks: "list_all kicks (map (\<lambda>g. [WorkerStart g]) gs)" for gs by (simp add: list_all_iff)
  show ?case
    using 8 fill_loop_active [OF fin, of "Suc (length (mg_queue ?m))"] fill_loop_full [OF fin, of "Suc (length (mg_queue ?m))"] ks
    by (auto simp: sched_inv_def waking_def Let_def fill_slots_def split_beta simp del: fill_loop.simps)
next
  case (9 n s)
  then show ?case by (auto simp: sched_inv_def waking_def Let_def)
qed

lemma sched_inv_new: "sched_inv (new_system n)"
  by (simp add: sched_inv_def new_system_def new_manager_def Let_def)

lemma sched_inv_run: "sched_inv s \<Longrightarrow> sched_inv (run as s)"
  unfolding run_def by (induction as arbitrary: s) (auto intro: sched_inv_step)

text \<open>
  C12. However the requests, the workers and the scheduler interleave, section by section: at most as many
  tasks are registered as running as the largest limit that was ever set, at most \<open>MAX_RESULTS\<close> results are kept,
  and a free slot never stays empty while the queue is not, unless the scheduler has a permit or a thread is
  about to give it one.
\<close>

theorem manager_schedules:
  fixes n :: nat and as :: "act list"
  defines "s \<equiv> run as (new_system n)"
  shows "card (mg_active (sy_mgr s)) \<le> mg_peak (sy_mgr s) \<and> length (mg_stopped (sy_mgr s)) \<le> MAX_RESULTS
    \<and> (mg_queue (sy_mgr s) = [] \<or> mg_max (sy_mgr s) \<le> card (mg_active (sy_mgr s)) \<or> mg_kicked (sy_mgr s)
       \<or> list_ex (\<lambda>t. Kick \<in> set t) (sy_threads s))"
  using sched_inv_run [OF sched_inv_new, of as n]
  by (auto simp: s_def sched_inv_def waking_def Let_def)

end
