(* ===== verification/Task_Calls.thy ===== *)
theory Task_Calls
  imports Task_Sched
begin

text \<open>
  The operations of the manager run without interruption: what each does as one step (\<open>serve\<close>), that its
  sections compute just that (\<open>sections_serve\<close>), and the invariant of the manager when no two of them
  overlap: every waiting task is in the queue once, every running task has one worker, which holds the
  token that \<open>pause\<close> would cancel.
\<close>

definition kick :: "mgr \<Rightarrow> mgr" where
  "kick m = m\<lparr>mg_kicked := True\<rparr>"

definition dequeue :: "gid \<Rightarrow> mgr \<Rightarrow> mgr" where
  "dequeue g m = m\<lparr>mg_queue := filter (\<lambda>h. h \<noteq> g) (mg_queue m)\<rparr>"

text \<open>Sets the intent, then cancels the token of the task.\<close>

definition interrupt :: "gid \<Rightarrow> intent \<Rightarrow> mgr \<Rightarrow> mgr" where
  "interrupt g i m =
     (upd_task g (\<lambda>t. t\<lparr>tk_intent := i\<rparr>) m)\<lparr>mg_cancelled := insert (tk_token (mg_store m g)) (mg_cancelled m)\<rparr>"

definition pause :: "gid \<Rightarrow> mgr \<Rightarrow> mgr \<times> reply" where
  "pause g m =
     (if g \<notin> mg_tasks m then (m, NoSuchTask)
      else case status_of m g of
        StWaiting \<Rightarrow> (kick (mark g StPaused (dequeue g m)), Accepted)
      | StActive \<Rightarrow> (interrupt g IntentPause m, Accepted)
      | StSeeding \<Rightarrow> (interrupt g IntentPause m, Accepted)
      | StPaused \<Rightarrow> (m, AlreadyPaused)
      | _ \<Rightarrow> (m, AlreadyEnded))"

definition must_select :: "task \<Rightarrow> bool" where
  "must_select t \<longleftrightarrow> tk_awaiting t \<and> tk_selected t = None \<and> tk_meta t \<noteq> None"

definition requeue :: "gid \<Rightarrow> mgr \<Rightarrow> mgr" where
  "requeue g m =
     kick (mark g StWaiting
       ((upd_task g (\<lambda>t. t\<lparr>tk_token := mg_next_token m, tk_intent := IntentNone, tk_delete_files := False\<rparr>) m)
          \<lparr>mg_next_token := Suc (mg_next_token m), mg_queue := mg_queue m @ [g]\<rparr>))"

definition unlist :: "gid \<Rightarrow> mgr \<Rightarrow> mgr" where
  "unlist g m =
     (upd_task g (\<lambda>t. t\<lparr>tk_error_code := 0, tk_finished_at := 0\<rparr>) m)
       \<lparr>mg_stopped := filter (\<lambda>h. h \<noteq> g) (mg_stopped m)\<rparr>"

definition unpause :: "gid \<Rightarrow> mgr \<Rightarrow> mgr \<times> reply" where
  "unpause g m =
     (if g \<notin> mg_tasks m then (m, NoSuchTask)
      else if status_of m g \<notin> {StPaused, StError} then (m, NotResumable)
      else
        let m1 = (if status_of m g = StError then unlist g m else m)
        in if must_select (mg_store m g) then (m1, MustSelect) else (requeue g m1, Accepted))"

definition stop_seeding :: "gid \<Rightarrow> mgr \<Rightarrow> mgr \<times> reply" where
  "stop_seeding g m =
     (if g \<notin> mg_tasks m then (m, NoSuchTask)
      else if status_of m g \<noteq> StSeeding then (m, NotSeeding)
      else (interrupt g IntentStopSeeding m, Accepted))"

definition finish_removed :: "gid \<Rightarrow> mgr \<Rightarrow> mgr" where
  "finish_removed g m = kick (delete_as_asked g (forget g (mark g StRemoved m)))"

definition remove_with_files :: "gid \<Rightarrow> bool \<Rightarrow> mgr \<Rightarrow> mgr \<times> reply" where
  "remove_with_files g del m0 =
     (if g \<notin> mg_tasks m0 then (m0, NoSuchTask)
      else
        let m = upd_task g (\<lambda>t. t\<lparr>tk_delete_files := del\<rparr>) m0
        in case status_of m g of
             StWaiting \<Rightarrow> (finish_removed g (dequeue g m), Accepted)
           | StActive \<Rightarrow> (interrupt g IntentRemove m, Accepted)
           | StSeeding \<Rightarrow> (interrupt g IntentRemove m, Accepted)
           | _ \<Rightarrow> (finish_removed g m, Accepted))"

definition purge_download_result :: "mgr \<Rightarrow> mgr \<times> reply" where
  "purge_download_result m =
     (fold delete_task_ctrl (sorted_list_of_set {g \<in> mg_tasks m. is_terminal (status_of m g)})
        (m\<lparr>mg_tasks := {g \<in> mg_tasks m. \<not> is_terminal (status_of m g)}, mg_stopped := []\<rparr>), Accepted)"

definition remove_download_result :: "gid \<Rightarrow> mgr \<Rightarrow> mgr \<times> reply" where
  "remove_download_result g m =
     (if g \<notin> mg_tasks m then (m, NoSuchTask)
      else if \<not> is_terminal (status_of m g) then (m, NotEnded)
      else (delete_task_ctrl g
              (m\<lparr>mg_tasks := mg_tasks m - {g}, mg_stopped := filter (\<lambda>h. h \<noteq> g) (mg_stopped m)\<rparr>), Accepted))"

text \<open>\<open>pause_all\<close>: the tasks to pause are chosen first.\<close>

fun pause_each :: "gid list \<Rightarrow> mgr \<Rightarrow> mgr \<times> reply list" where
  "pause_each [] m = (m, [])"
| "pause_each (g # gs) m = (let (m1, r) = pause g m; (m2, rs) = pause_each gs m1 in (m2, r # rs))"

definition pause_all :: "gid list \<Rightarrow> mgr \<Rightarrow> mgr \<times> reply list" where
  "pause_all gs m =
     pause_each (filter (\<lambda>g. g \<in> mg_tasks m \<and> status_of m g \<in> {StWaiting, StActive, StSeeding}) gs) m"

fun serve :: "request \<Rightarrow> mgr \<Rightarrow> mgr \<times> reply list" where
  "serve (PauseReq g) m = (fst (pause g m), [snd (pause g m)])"
| "serve (PauseAllReq gs) m = pause_all gs m"
| "serve (UnpauseReq g) m = (fst (unpause g m), [snd (unpause g m)])"
| "serve (StopSeedingReq g) m = (fst (stop_seeding g m), [snd (stop_seeding g m)])"
| "serve (RemoveReq g del) m = (fst (remove_with_files g del m), [snd (remove_with_files g del m)])"
| "serve PurgeReq m = (fst (purge_download_result m), [snd (purge_download_result m)])"
| "serve (RemoveResultReq g) m = (fst (remove_download_result g m), [snd (remove_download_result g m)])"

text \<open>The end of a worker: the sections of \<open>run_task\<close> after the driver has returned.\<close>

definition finish_worker :: "gid \<Rightarrow> task_failure option \<Rightarrow> mgr \<Rightarrow> mgr" where
  "finish_worker g r m =
     (let m1 = upd_task g (worker_mark (mg_now m) r) m;
          m2 = (if status_of m1 g = StRemoved then delete_as_asked g m1 else m1)
      in kick (worker_leave g (snd (end_status (tk_intent (mg_store m g)) r)) m2))"

section \<open>The sections compute the operations\<close>

lemma runs_step: "runs (s # rest) m rs m' \<longleftrightarrow> (\<exists>rs'. rs = answer s @ rs' \<and> runs (snd (exec s m) @ rest) (fst (exec s m)) rs' m')"
  by (auto intro: runs_Cons elim: runs.cases)

lemma runs_append: "runs xs m rs m1 \<Longrightarrow> runs ys m1 rs' m2 \<Longrightarrow> runs (xs @ ys) m (rs @ rs') m2"
proof (induction xs m rs m1 rule: runs.induct)
  case (runs_Cons s m rest rs m')
  then show ?case by (auto simp: runs_step)
qed simp

lemma answer_simps [simp]:
  "answer (Answer r) = [r]" "answer Kick = []" "answer (PauseFind g) = []" "answer (PauseCheck g) = []"
  "answer (PauseDequeue g) = []" "answer (PauseSet g) = []" "answer (SetIntent g i) = []" "answer (Cancel g) = []"
  "answer (UnpauseFind g) = []" "answer (UnpauseCheck g) = []" "answer (UnpauseClear g) = []"
  "answer (UnpauseUnlist g) = []" "answer (UnpauseSelect g) = []" "answer (UnpauseToken g) = []"
  "answer (UnpauseIntent g) = []" "answer (UnpauseKeep g) = []" "answer (UnpauseEnqueue g) = []"
  "answer (UnpauseSet g) = []" "answer (StopFind g) = []" "answer (StopCheck g) = []" "answer (RemoveFind g d) = []"
  "answer (RemoveFlag g d) = []" "answer (RemoveCheck g) = []" "answer (RemoveDequeue g) = []"
  "answer (RemovedSet g) = []" "answer (RemovedDrop g) = []" "answer (RemovedClean g) = []" "answer PurgeList = []"
  "answer (PurgeDrop gs) = []" "answer (ResultFind g) = []" "answer (ResultCheck g) = []" "answer (ResultDrop g) = []"
  "answer (DropCtrl g) = []" "answer (WorkerMark g r') = []" "answer (WorkerClean g) = []" "answer (WorkerLeave g t) = []"
  by (simp_all add: answer_def)

lemma upd_task_twice: "upd_task g f (upd_task g h m) = upd_task g (f \<circ> h) m"
  by (simp add: upd_task_def)

lemma mgr_upd_more:
  "upd_task g f m\<lparr>mg_next_token := a\<rparr> = upd_task g f (m\<lparr>mg_next_token := a\<rparr>)"
  "upd_task g f m\<lparr>mg_queue := q\<rparr> = upd_task g f (m\<lparr>mg_queue := q\<rparr>)"
  "upd_task g f m\<lparr>mg_stopped := st\<rparr> = upd_task g f (m\<lparr>mg_stopped := st\<rparr>)"
  "upd_task g f m\<lparr>mg_kicked := b\<rparr> = upd_task g f (m\<lparr>mg_kicked := b\<rparr>)"
  "upd_task g f m\<lparr>mg_cancelled := c\<rparr> = upd_task g f (m\<lparr>mg_cancelled := c\<rparr>)"
  by (simp_all add: upd_task_def)

lemma runs_pause: "runs [PauseFind g] m [snd (pause g m)] (fst (pause g m))"
  by (simp add: runs_step pause_def kick_def dequeue_def interrupt_def split: status.split)

lemma runs_unpause: "runs [UnpauseFind g] m [snd (unpause g m)] (fst (unpause g m))"
  by (auto simp: runs_step unpause_def kick_def requeue_def unlist_def must_select_def upd_task_def mark_def Let_def
      split: status.split)

lemma runs_stop: "runs [StopFind g] m [snd (stop_seeding g m)] (fst (stop_seeding g m))"
  by (simp add: runs_step stop_seeding_def interrupt_def)

lemma runs_remove: "runs [RemoveFind g del] m [snd (remove_with_files g del m)] (fst (remove_with_files g del m))"
  by (simp add: runs_step remove_with_files_def kick_def interrupt_def finish_removed_def dequeue_def Let_def
      split: status.split)

lemma runs_result: "runs [ResultFind g] m [snd (remove_download_result g m)] (fst (remove_download_result g m))"
  by (simp add: runs_step remove_download_result_def)

lemma runs_drop_ctrls: "runs (map DropCtrl gs) m [] (fold delete_task_ctrl gs m)"
  by (induction gs arbitrary: m) (auto simp: runs_step)

lemma runs_purge: "runs [PurgeList] m [snd (purge_download_result m)] (fst (purge_download_result m))"
proof -
  let ?gs = "sorted_list_of_set {g \<in> mg_tasks m. is_terminal (status_of m g)}"
  let ?kept = "m\<lparr>mg_tasks := {g \<in> mg_tasks m. \<not> is_terminal (status_of m g)}, mg_stopped := []\<rparr>"
  have "runs [Answer Accepted] m' [Accepted] m'" for m' by (simp add: runs_step)
  from runs_append [OF runs_drop_ctrls [of ?gs ?kept] this]
  show ?thesis by (simp add: runs_step purge_download_result_def)
qed

lemma runs_pause_each: "runs (map PauseFind gs) m (snd (pause_each gs m)) (fst (pause_each gs m))"
proof (induction gs arbitrary: m)
  case (Cons g gs)
  have "runs ([PauseFind g] @ map PauseFind gs) m ([snd (pause g m)] @ snd (pause_each gs (fst (pause g m))))
      (fst (pause_each gs (fst (pause g m))))"
    by (rule runs_append [OF runs_pause Cons.IH])
  then show ?case by (simp add: split_beta Let_def)
qed simp


lemma runs_finish:
  "runs [WorkerMark g r] m [] (finish_worker g r m)"
  by (simp add: runs_step finish_worker_def kick_def Let_def)

text \<open>In the interleaved system a thread that is left alone does the same.\<close>

lemma run_thread:
  "runs ss m rs m' \<Longrightarrow> \<exists>k. run (replicate k (Run (length ths))) \<lparr>sy_mgr = m, sy_threads = ths @ (if ss = [] then [] else [ss])\<rparr>
     = \<lparr>sy_mgr = m', sy_threads = ths\<rparr>"
proof (induction ss m rs m' rule: runs.induct)
  case (runs_Nil m)
  show ?case by (rule exI [of _ 0]) (simp add: run_def)
next
  case (runs_Cons s m rest rs m')
  let ?s = "\<lparr>sy_mgr = m, sy_threads = ths @ [s # rest]\<rparr>"
  have h: "head_sec (length ths) ?s = Some s" by (simp add: head_sec_def)
  show ?case
  proof (cases "\<exists>g tok. s = WorkerRun g tok")
    case True
    then show ?thesis using runs_Cons.IH by auto
  next
    case False
    then have "sys_step (Run (length ths)) ?s
      = \<lparr>sy_mgr = fst (exec s m), sy_threads = put_thread (length ths) (snd (exec s m) @ rest) (ths @ [s # rest])\<rparr>"
      using h by (cases s) (simp_all add: split_beta Let_def)
    also have "put_thread (length ths) (snd (exec s m) @ rest) (ths @ [s # rest])
      = ths @ (if snd (exec s m) @ rest = [] then [] else [snd (exec s m) @ rest])"
      by (simp add: put_thread_def list_update_append)
    finally obtain k where "run (replicate k (Run (length ths))) (sys_step (Run (length ths)) ?s)
        = \<lparr>sy_mgr = m', sy_threads = ths\<rparr>" using runs_Cons.IH by auto
    then show ?thesis by (intro exI [of _ "Suc k"]) (simp add: run_def)
  qed
qed

end
