(* ===== verification/Task_Calm.thy ===== *)
theory Task_Calm
  imports Task_Calls
begin

text \<open>
  The manager when no two operations overlap: requests, the scheduler, the drivers and the ends of workers take
  their turns. Workers are the tasks with their tokens, \<open>None\<close> before the worker has read it.
\<close>

type_synonym workers = "(gid \<times> nat option) list"

inductive calm_step :: "mgr \<times> workers \<Rightarrow> mgr \<times> workers \<Rightarrow> bool" where
  calm_request: "calm_step (m, ws) (fst (serve r m), ws)"
| calm_add: "g \<notin> mg_ever m \<Longrightarrow> calm_step (m, ws) (kick (add_task g awaiting meta selected dir position m), ws)"
| calm_select: "select_files g count indices covered m = Some m' \<Longrightarrow> (covered = Some False \<Longrightarrow> g \<in> mg_active m) \<Longrightarrow>
    calm_step (m, ws) (m', ws)"
| calm_limit: "calm_step (m, ws) (kick (m\<lparr>mg_max := max 1 n, mg_peak := max (mg_peak m) (max 1 n)\<rparr>), ws)"
| calm_tick: "calm_step (m, ws) (m\<lparr>mg_now := mg_now m + n\<rparr>, ws)"
| calm_wake: "mg_kicked m \<Longrightarrow> fill_slots (m\<lparr>mg_kicked := False\<rparr>) = (m', gs) \<Longrightarrow>
    calm_step (m, ws) (m', ws @ map (\<lambda>g. (g, None)) gs)"
| calm_begin: "calm_step (m, ws @ (g, None) # ws') (m, ws @ (g, Some (tk_token (mg_store m g))) # ws')"
| calm_drive: "(g, Some tok) \<in> set ws \<Longrightarrow> \<forall>base can_resume. d \<noteq> Claim base can_resume \<Longrightarrow>
    calm_step (m, ws) (fst (drive d g tok m), ws)"
| calm_claim: "(g, Some tok) \<in> set ws \<Longrightarrow> tk_path (mg_store m g) = None \<Longrightarrow> p \<notin> mg_claims m \<Longrightarrow>
    calm_step (m, ws) (upd_task g (\<lambda>t. t\<lparr>tk_path := Some p\<rparr>) (m\<lparr>mg_claims := insert p (mg_claims m)\<rparr>), ws)"
| calm_finish: "(g, Some tok) \<in> set ws \<Longrightarrow>
    (case r of Some f \<Rightarrow> is_cancelled f \<longrightarrow> tok \<in> mg_cancelled m | None \<Rightarrow> True) \<Longrightarrow>
    calm_step (m, ws) (finish_worker g r m, filter (\<lambda>(h, t). h \<noteq> g) ws)"

text \<open>What the manager holds about one task.\<close>

definition task_ok :: "mgr \<Rightarrow> workers \<Rightarrow> gid \<Rightarrow> bool" where
  "task_ok m ws g \<longleftrightarrow>
     (let t = mg_store m g in
      (g \<in> set (mg_queue m) \<longleftrightarrow> g \<in> mg_tasks m \<and> tk_status t = StWaiting)
      \<and> (g \<in> mg_active m \<longleftrightarrow> g \<in> mg_tasks m \<and> tk_status t \<in> {StActive, StSeeding})
      \<and> (g \<in> fst ` set ws \<longleftrightarrow> g \<in> mg_active m)
      \<and> (g \<in> set (mg_stopped m) \<longrightarrow> g \<in> mg_tasks m \<and> tk_status t \<in> {StComplete, StError})
      \<and> (g \<in> mg_tasks m \<longrightarrow> tk_status t \<noteq> StRemoved \<and> g \<in> mg_ever m \<and> (tk_status t = StComplete \<longrightarrow> g \<in> set (mg_stopped m)))
      \<and> (g \<in> mg_ever m \<longrightarrow> tk_token t < mg_next_token m)
      \<and> (g \<in> mg_tasks m \<and> tk_status t = StWaiting \<longrightarrow> tk_intent t = IntentNone \<and> tk_token t \<notin> mg_cancelled m)
      \<and> (\<forall>tok. (g, Some tok) \<in> set ws \<longrightarrow> tok = tk_token t))"

definition calm :: "mgr \<times> workers \<Rightarrow> bool" where
  "calm s \<longleftrightarrow>
     (let m = fst s; ws = snd s in
      distinct (mg_queue m) \<and> distinct (map fst ws) \<and> distinct (mg_stopped m) \<and> finite (mg_tasks m)
      \<and> (\<forall>t \<in> mg_cancelled m. t < mg_next_token m)
      \<and> inj_on (\<lambda>g. tk_token (mg_store m g)) (mg_ever m)
      \<and> (\<forall>g. task_ok m ws g))"

lemma calmD:
  assumes "calm (m, ws)"
  shows "distinct (mg_queue m)" "distinct (map fst ws)" "distinct (mg_stopped m)" "finite (mg_tasks m)"
    "t \<in> mg_cancelled m \<Longrightarrow> t < mg_next_token m" "inj_on (\<lambda>g. tk_token (mg_store m g)) (mg_ever m)" "task_ok m ws g"
  using assms by (auto simp: calm_def Let_def)

lemma calmI:
  assumes "distinct (mg_queue m)" "distinct (map fst ws)" "distinct (mg_stopped m)" "finite (mg_tasks m)"
    "\<And>t. t \<in> mg_cancelled m \<Longrightarrow> t < mg_next_token m" "inj_on (\<lambda>g. tk_token (mg_store m g)) (mg_ever m)"
    "\<And>g. task_ok m ws g"
  shows "calm (m, ws)"
  using assms by (auto simp: calm_def Let_def)

lemma task_okD:
  assumes "task_ok m ws g"
  shows "g \<in> set (mg_queue m) \<longleftrightarrow> g \<in> mg_tasks m \<and> status_of m g = StWaiting"
    "g \<in> mg_active m \<longleftrightarrow> g \<in> mg_tasks m \<and> status_of m g \<in> {StActive, StSeeding}"
    "g \<in> fst ` set ws \<longleftrightarrow> g \<in> mg_active m"
    "g \<in> set (mg_stopped m) \<Longrightarrow> g \<in> mg_tasks m \<and> status_of m g \<in> {StComplete, StError}"
    "g \<in> mg_tasks m \<Longrightarrow> status_of m g \<noteq> StRemoved" "g \<in> mg_tasks m \<Longrightarrow> g \<in> mg_ever m"
    "g \<in> mg_tasks m \<Longrightarrow> status_of m g = StComplete \<Longrightarrow> g \<in> set (mg_stopped m)"
    "g \<in> mg_ever m \<Longrightarrow> tk_token (mg_store m g) < mg_next_token m"
    "g \<in> mg_tasks m \<Longrightarrow> status_of m g = StWaiting \<Longrightarrow>
       tk_intent (mg_store m g) = IntentNone \<and> tk_token (mg_store m g) \<notin> mg_cancelled m"
    "(g, Some tok) \<in> set ws \<Longrightarrow> tok = tk_token (mg_store m g)"
  using assms unfolding task_ok_def Let_def by blast+

text \<open>A step that concerns one task: the others are seen as before.\<close>

definition same_task :: "mgr \<Rightarrow> workers \<Rightarrow> mgr \<Rightarrow> workers \<Rightarrow> gid \<Rightarrow> bool" where
  "same_task m ws m' ws' h \<longleftrightarrow>
     mg_store m' h = mg_store m h
     \<and> (h \<in> set (mg_queue m') \<longleftrightarrow> h \<in> set (mg_queue m)) \<and> (h \<in> mg_tasks m' \<longleftrightarrow> h \<in> mg_tasks m)
     \<and> (h \<in> mg_active m' \<longleftrightarrow> h \<in> mg_active m) \<and> (h \<in> set (mg_stopped m') \<longleftrightarrow> h \<in> set (mg_stopped m))
     \<and> (h \<in> mg_ever m' \<longleftrightarrow> h \<in> mg_ever m) \<and> (\<forall>tok. (h, tok) \<in> set ws' \<longleftrightarrow> (h, tok) \<in> set ws)
     \<and> (h \<in> mg_tasks m \<and> tk_status (mg_store m h) = StWaiting \<and> tk_token (mg_store m h) \<notin> mg_cancelled m \<longrightarrow>
          tk_token (mg_store m h) \<notin> mg_cancelled m')"

lemma same_task_ok:
  assumes "same_task m ws m' ws' h" "mg_next_token m \<le> mg_next_token m'" "task_ok m ws h"
  shows "task_ok m' ws' h"
proof -
  have w: "(h, tok) \<in> set ws' \<longleftrightarrow> (h, tok) \<in> set ws" for tok using assms(1) by (simp add: same_task_def)
  then have f: "h \<in> fst ` set ws' \<longleftrightarrow> h \<in> fst ` set ws" by (force simp: image_iff)
  have e: "mg_store m' h = mg_store m h" "h \<in> set (mg_queue m') \<longleftrightarrow> h \<in> set (mg_queue m)"
    "h \<in> mg_tasks m' \<longleftrightarrow> h \<in> mg_tasks m" "h \<in> mg_active m' \<longleftrightarrow> h \<in> mg_active m"
    "h \<in> set (mg_stopped m') \<longleftrightarrow> h \<in> set (mg_stopped m)" "h \<in> mg_ever m' \<longleftrightarrow> h \<in> mg_ever m"
    using assms(1) by (simp_all add: same_task_def)
  have c: "h \<in> mg_tasks m \<and> status_of m h = StWaiting \<and> tk_token (mg_store m h) \<notin> mg_cancelled m \<longrightarrow>
      tk_token (mg_store m h) \<notin> mg_cancelled m'"
    using assms(1) by (simp add: same_task_def)
  show ?thesis
    using assms(3) c order.strict_trans2 [OF _ assms(2)] unfolding task_ok_def Let_def e f w by simp
qed

lemma calm_change:
  assumes "calm (m, ws)" "distinct (mg_queue m')" "distinct (map fst ws')" "distinct (mg_stopped m')" "finite (mg_tasks m')"
    "\<And>t. t \<in> mg_cancelled m' \<Longrightarrow> t < mg_next_token m'" "inj_on (\<lambda>g. tk_token (mg_store m' g)) (mg_ever m')"
    "mg_next_token m \<le> mg_next_token m'" "\<And>h. h \<noteq> g \<Longrightarrow> same_task m ws m' ws' h" "task_ok m' ws' g"
  shows "calm (m', ws')"
proof -
  have "task_ok m' ws' h" for h
    using same_task_ok [OF assms(9) assms(8) calmD(7) [OF assms(1)]] assms(10) by (cases "h = g") auto
  then show ?thesis using assms(2-7) by (auto simp: calm_def Let_def)
qed

text \<open>Changes of other fields, and of a task without its status, token or the intent of a waiting task, do not matter.\<close>

lemma calm_cong:
  assumes "calm (m, ws)" "mg_queue m' = mg_queue m" "mg_tasks m' = mg_tasks m" "mg_active m' = mg_active m"
    "mg_stopped m' = mg_stopped m" "mg_ever m' = mg_ever m" "mg_next_token m' = mg_next_token m"
    "mg_cancelled m' = mg_cancelled m"
    "\<And>h. status_of m' h = status_of m h" "\<And>h. tk_token (mg_store m' h) = tk_token (mg_store m h)"
    "\<And>h. h \<in> mg_tasks m \<Longrightarrow> status_of m h = StWaiting \<Longrightarrow> tk_intent (mg_store m' h) = tk_intent (mg_store m h)"
  shows "calm (m', ws)"
  using assms unfolding calm_def task_ok_def Let_def by simp

lemma kick_simps [simp]:
  "mg_tasks (kick m) = mg_tasks m" "mg_queue (kick m) = mg_queue m" "mg_active (kick m) = mg_active m"
  "mg_stopped (kick m) = mg_stopped m" "mg_store (kick m) = mg_store m" "mg_ever (kick m) = mg_ever m"
  "mg_next_token (kick m) = mg_next_token m" "mg_cancelled (kick m) = mg_cancelled m" "mg_max (kick m) = mg_max m"
  "mg_claims (kick m) = mg_claims m" "mg_kicked (kick m)" "mg_peak (kick m) = mg_peak m" "mg_now (kick m) = mg_now m"
  by (simp_all add: kick_def)

lemma calm_kick [simp]: "calm (kick m, ws) = calm (m, ws)"
  by (simp add: calm_def task_ok_def Let_def)

section \<open>The operations\<close>

lemma inj_token: "calm (m, ws) \<Longrightarrow> g \<in> mg_ever m \<Longrightarrow> h \<in> mg_ever m \<Longrightarrow> tk_token (mg_store m g) = tk_token (mg_store m h) \<longleftrightarrow> g = h"
  using calmD(6) [of m ws] by (auto dest: inj_onD)

lemma inj_same: "calm (m, ws) \<Longrightarrow> (\<And>h. tk_token (mg_store m' h) = tk_token (mg_store m h)) \<Longrightarrow> mg_ever m' = mg_ever m \<Longrightarrow>
    inj_on (\<lambda>g. tk_token (mg_store m' g)) (mg_ever m')"
  using calmD(6) [of m ws] by simp

lemma calm_interrupt:
  assumes c: "calm (m, ws)" and g: "g \<in> mg_active m"
  shows "calm (interrupt g i m, ws)"
proof (rule calm_change [OF c, of _ _ g])
  note ok = task_okD [OF calmD(7) [OF c]]
  have e: "g \<in> mg_tasks m" "g \<in> mg_ever m" "status_of m g \<noteq> StWaiting" using ok(2) [of g] ok(6) [of g] g by auto
  show "same_task m ws (interrupt g i m) ws h" if "h \<noteq> g" for h
    using that e inj_token [OF c, of h g] ok(6) [of h] by (auto simp: same_task_def interrupt_def)
  show "task_ok (interrupt g i m) ws g"
    using calmD(7) [OF c, of g] e by (auto simp: task_ok_def Let_def interrupt_def)
  show "t < mg_next_token (interrupt g i m)" if "t \<in> mg_cancelled (interrupt g i m)" for t
    using that calmD(5) [OF c, of t] ok(8) [of g] e by (auto simp: interrupt_def)
  show "inj_on (\<lambda>h. tk_token (mg_store (interrupt g i m) h)) (mg_ever (interrupt g i m))"
    by (rule inj_same [OF c]) (simp_all add: interrupt_def)
qed (use calmD(1-4) [OF c] in \<open>simp_all add: interrupt_def\<close>)

lemma calm_dequeue_mark:
  assumes c: "calm (m, ws)" and g: "g \<in> mg_tasks m" "status_of m g = StWaiting"
  shows "calm (mark g StPaused (dequeue g m), ws)"
proof (rule calm_change [OF c, of _ _ g])
  show "same_task m ws (mark g StPaused (dequeue g m)) ws h" if "h \<noteq> g" for h
    using that by (simp add: same_task_def dequeue_def)
  show "task_ok (mark g StPaused (dequeue g m)) ws g"
    using calmD(7) [OF c, of g] g by (auto simp: task_ok_def Let_def dequeue_def)
  show "inj_on (\<lambda>h. tk_token (mg_store (mark g StPaused (dequeue g m)) h)) (mg_ever (mark g StPaused (dequeue g m)))"
    by (rule inj_same [OF c]) (simp_all add: dequeue_def)
qed (use calmD(1-5) [OF c] in \<open>simp_all add: dequeue_def\<close>)

lemma calm_pause: "calm (m, ws) \<Longrightarrow> calm (fst (pause g m), ws)"
  using calm_interrupt [of m ws g IntentPause] calm_dequeue_mark [of m ws g] task_okD(2) [OF calmD(7), of m ws g]
  by (auto simp: pause_def split: status.split)

lemma calm_unlist:
  assumes c: "calm (m, ws)" and g: "g \<in> mg_tasks m" "status_of m g = StError"
  shows "calm (unlist g m, ws)"
proof (rule calm_change [OF c, of _ _ g])
  show "same_task m ws (unlist g m) ws h" if "h \<noteq> g" for h
    using that by (simp add: same_task_def unlist_def)
  show "task_ok (unlist g m) ws g"
    using calmD(7) [OF c, of g] g by (auto simp: task_ok_def Let_def unlist_def)
  show "inj_on (\<lambda>h. tk_token (mg_store (unlist g m) h)) (mg_ever (unlist g m))"
    by (rule inj_same [OF c]) (simp_all add: unlist_def)
qed (use calmD(1-5) [OF c] in \<open>simp_all add: unlist_def\<close>)

lemma inj_fresh:
  assumes "calm (m, ws)" "tk_token t = mg_next_token m"
  shows "inj_on (\<lambda>h. tk_token (((mg_store m)(g := t)) h)) (mg_ever m)"
proof (rule inj_onI)
  fix h k assume hk: "h \<in> mg_ever m" "k \<in> mg_ever m"
    "tk_token (((mg_store m)(g := t)) h) = tk_token (((mg_store m)(g := t)) k)"
  have lt: "tk_token (mg_store m x) < mg_next_token m" if "x \<in> mg_ever m" for x
    using task_okD(8) [OF calmD(7) [OF assms(1)] that] .
  show "h = k"
    using hk lt [of h] lt [of k] inj_token [OF assms(1), of h k] assms(2) by (auto split: if_splits)
qed

lemma calm_requeue:
  assumes c: "calm (m, ws)" and g: "g \<in> mg_tasks m" "status_of m g \<in> {StPaused, StError}" "g \<notin> set (mg_stopped m)"
  shows "calm (requeue g m, ws)"
  unfolding requeue_def calm_kick
proof (rule calm_change [OF c, of _ _ g], goal_cases)
  case 6
  then show ?case using inj_fresh [OF c] by simp
next
  case 8
  then show ?case by (simp add: same_task_def)
next
  case 9
  have "mg_next_token m \<notin> mg_cancelled m" using calmD(5) [OF c] by blast
  moreover have "g \<notin> fst ` set ws" using task_okD(2,3) [OF calmD(7) [OF c, of g]] g by auto
  then have "(g, tok) \<notin> set ws" for tok by force
  ultimately show ?case using calmD(7) [OF c, of g] g by (auto simp: task_ok_def Let_def)
qed (use calmD(1-5) [OF c] task_okD(1) [OF calmD(7) [OF c, of g]] g in \<open>auto intro: less_SucI\<close>)

lemma unlist_simps [simp]:
  "mg_tasks (unlist g m) = mg_tasks m" "status_of (unlist g m) h = status_of m h"
  "mg_stopped (unlist g m) = filter (\<lambda>h. h \<noteq> g) (mg_stopped m)"
  by (simp_all add: unlist_def)

lemma calm_unpause:
  assumes c: "calm (m, ws)" shows "calm (fst (unpause g m), ws)"
proof -
  have "status_of m g = StPaused \<Longrightarrow> g \<notin> set (mg_stopped m)" using task_okD(4) [OF calmD(7) [OF c, of g]] by auto
  then show ?thesis
    using c calm_unlist [OF c, of g] calm_requeue [OF c, of g] calm_requeue [of "unlist g m" ws g]
    by (auto simp: unpause_def Let_def)
qed

lemma calm_stop: "calm (m, ws) \<Longrightarrow> calm (fst (stop_seeding g m), ws)"
  using calm_interrupt [of m ws g IntentStopSeeding] task_okD(2) [OF calmD(7), of m ws g] by (auto simp: stop_seeding_def)

text \<open>A task that is not running leaves the map and the list of results.\<close>

lemma calm_forget:
  assumes c: "calm (m, ws)" and g: "g \<notin> mg_active m" "g \<notin> set (mg_queue m) \<or> mg_queue m' = filter (\<lambda>h. h \<noteq> g) (mg_queue m)"
    and f: "mg_tasks m' = mg_tasks m - {g}" "mg_stopped m' = filter (\<lambda>h. h \<noteq> g) (mg_stopped m)"
    "mg_queue m' = mg_queue m \<or> mg_queue m' = filter (\<lambda>h. h \<noteq> g) (mg_queue m)" "mg_active m' = mg_active m"
    "mg_ever m' = mg_ever m" "mg_next_token m' = mg_next_token m" "mg_cancelled m' = mg_cancelled m"
    "\<And>h. h \<noteq> g \<Longrightarrow> mg_store m' h = mg_store m h" "tk_token (mg_store m' g) = tk_token (mg_store m g)"
  shows "calm (m', ws)"
proof (rule calm_change [OF c, of _ _ g])
  note ok = calmD(7) [OF c, of g]
  show "same_task m ws m' ws h" if "h \<noteq> g" for h
    using that f g by (auto simp: same_task_def)
  have w: "g \<notin> fst ` set ws" using task_okD(3) [OF ok] g by simp
  have "g \<notin> set (mg_queue m')" using g(2)
  proof
    assume "g \<notin> set (mg_queue m)" then show ?thesis using f(3) by auto
  qed simp
  moreover have "(g, tok) \<notin> set ws" for tok using w by force
  ultimately show "task_ok m' ws g" using ok f g w by (auto simp: task_ok_def Let_def)
  have "tk_token (mg_store m' h) = tk_token (mg_store m h)" for h using f(8,9) by (cases "h = g") auto
  then show "inj_on (\<lambda>h. tk_token (mg_store m' h)) (mg_ever m')" by (rule inj_same [OF c]) (rule f(5))
  show "distinct (mg_queue m')" using calmD(1) [OF c] f(3) by auto
qed (use calmD(2-5) [OF c] f in auto)

lemma calm_remove:
  assumes c: "calm (m, ws)" shows "calm (fst (remove_with_files g del m), ws)"
proof (cases "g \<in> mg_tasks m")
  case True
  let ?m = "upd_task g (\<lambda>t. t\<lparr>tk_delete_files := del\<rparr>) m"
  have c1: "calm (?m, ws)" by (rule calm_cong [OF c]) simp_all
  note ok = calmD(7) [OF c, of g]
  have a: "calm (finish_removed g (dequeue g ?m), ws)" if "status_of m g = StWaiting"
    unfolding finish_removed_def calm_kick
    by (rule calm_forget [OF c1, of g]) (use that task_okD(2) [OF ok] in \<open>simp_all add: dequeue_def\<close>)
  have b: "calm (finish_removed g ?m, ws)" if "status_of m g \<notin> {StWaiting, StActive, StSeeding}"
    unfolding finish_removed_def calm_kick
    by (rule calm_forget [OF c1, of g]) (use that task_okD(1,2) [OF ok] in simp_all)
  have d: "calm (interrupt g IntentRemove ?m, ws)" if "status_of m g \<in> {StActive, StSeeding}"
    by (rule calm_interrupt [OF c1]) (use that True task_okD(2) [OF ok] in simp)
  show ?thesis
    using True a b d by (cases "status_of m g") (simp_all add: remove_with_files_def Let_def)
qed (use c in \<open>simp add: remove_with_files_def\<close>)

lemma calm_result:
  assumes c: "calm (m, ws)" shows "calm (fst (remove_download_result g m), ws)"
proof -
  have "calm (delete_task_ctrl g (m\<lparr>mg_tasks := mg_tasks m - {g}, mg_stopped := filter (\<lambda>h. h \<noteq> g) (mg_stopped m)\<rparr>), ws)"
    if "is_terminal (status_of m g)"
    by (rule calm_forget [OF c, of g])
      (use that task_okD(1,2) [OF calmD(7) [OF c, of g]] in \<open>auto simp: is_terminal_def\<close>)
  then show ?thesis using c by (simp add: remove_download_result_def)
qed

lemma fold_ctrl_fields [simp]:
  "mg_tasks (fold delete_task_ctrl gs m) = mg_tasks m" "mg_queue (fold delete_task_ctrl gs m) = mg_queue m"
  "mg_active (fold delete_task_ctrl gs m) = mg_active m" "mg_stopped (fold delete_task_ctrl gs m) = mg_stopped m"
  "mg_store (fold delete_task_ctrl gs m) = mg_store m" "mg_ever (fold delete_task_ctrl gs m) = mg_ever m"
  "mg_next_token (fold delete_task_ctrl gs m) = mg_next_token m" "mg_cancelled (fold delete_task_ctrl gs m) = mg_cancelled m"
  by (induction gs arbitrary: m) simp_all

lemma calm_purge:
  assumes c: "calm (m, ws)" shows "calm (fst (purge_download_result m), ws)"
proof -
  have "task_ok (fst (purge_download_result m)) ws g" for g
    using calmD(7) [OF c, of g] by (auto simp: purge_download_result_def task_ok_def Let_def is_terminal_def)
  moreover have "inj_on (\<lambda>g. tk_token (mg_store (fst (purge_download_result m)) g)) (mg_ever (fst (purge_download_result m)))"
    by (rule inj_same [OF c]) (simp_all add: purge_download_result_def)
  ultimately show ?thesis using calmD(1-5) [OF c] by (intro calmI) (simp_all add: purge_download_result_def)
qed

lemma calm_pause_each: "calm (m, ws) \<Longrightarrow> calm (fst (pause_each gs m), ws)"
  by (induction gs arbitrary: m) (simp_all add: split_beta Let_def calm_pause)

lemma calm_serve: "calm (m, ws) \<Longrightarrow> calm (fst (serve r m), ws)"
  by (cases r) (simp_all add: calm_pause calm_unpause calm_stop calm_remove calm_result calm_purge calm_pause_each pause_all_def)

lemma fresh_task_simps [simp]:
  "tk_status (fresh_task now tok a b c d) = StWaiting" "tk_intent (fresh_task now tok a b c d) = IntentNone"
  "tk_token (fresh_task now tok a b c d) = tok" "tk_path (fresh_task now tok a b c d) = None"
  by (simp_all add: fresh_task_def)

lemma calm_add_task:
  assumes c: "calm (m, ws)" and g: "g \<notin> mg_ever m"
  shows "calm (add_task g awaiting meta selected dir position m, ws)"
proof (rule calm_change [OF c, of _ _ g])
  let ?m' = "add_task g awaiting meta selected dir position m"
  note ok = calmD(7) [OF c, of g]
  have nt: "g \<notin> mg_tasks m" using task_okD(6) [OF ok] g by blast
  have nq: "g \<notin> set (mg_queue m)" "g \<notin> mg_active m" "g \<notin> set (mg_stopped m)"
    using task_okD(1,2) [OF ok] task_okD(4) [OF ok] nt by auto
  have nw: "(g, tok) \<notin> set ws" for tok using task_okD(3) [OF ok] nq by force
  have part: "set (take k xs) \<union> set (drop k xs) = set xs" for k and xs :: "nat list"
    by (metis append_take_drop_id set_append)
  have q: "set (mg_queue ?m') = insert g (set (mg_queue m))"
    using part by (auto simp: add_task_def Let_def split: option.split)
  have f: "mg_tasks ?m' = insert g (mg_tasks m)" "mg_active ?m' = mg_active m" "mg_stopped ?m' = mg_stopped m"
    "mg_ever ?m' = insert g (mg_ever m)" "mg_cancelled ?m' = mg_cancelled m"
    "mg_next_token ?m' = Suc (mg_next_token m)" "mg_store ?m' h = (if h = g then mg_store ?m' g else mg_store m h)"
    "tk_status (mg_store ?m' g) = StWaiting" "tk_intent (mg_store ?m' g) = IntentNone" "tk_token (mg_store ?m' g) = mg_next_token m" for h
    by (simp_all add: add_task_def Let_def)
  have "distinct (take k xs @ g # drop k xs)" if "distinct xs" "g \<notin> set xs" for k and xs :: "nat list"
    using that part [of k xs] distinct_take [OF that(1), of k] distinct_drop [OF that(1), of k]
    by (auto simp: set_take_disj_set_drop_if_distinct)
  then show "distinct (mg_queue ?m')"
    using calmD(1) [OF c] nq by (auto simp: add_task_def Let_def split: option.split)
  show "same_task m ws ?m' ws h" if "h \<noteq> g" for h
    using that f(7) [of h] by (auto simp: same_task_def q f(1-6))
  show "task_ok ?m' ws g"
    using calmD(5) [OF c, of "mg_next_token m"] nq nw by (auto simp: task_ok_def Let_def q f(1-6,8-10) image_iff)
  show "inj_on (\<lambda>h. tk_token (mg_store ?m' h)) (mg_ever ?m')"
  proof (rule inj_onI)
    fix h k assume a: "h \<in> mg_ever ?m'" "k \<in> mg_ever ?m'" "tk_token (mg_store ?m' h) = tk_token (mg_store ?m' k)"
    have lt: "tk_token (mg_store m x) < mg_next_token m" if "x \<in> mg_ever m" for x
      using task_okD(8) [OF calmD(7) [OF c] that] .
    show "h = k"
      using a f(7) [of h] f(7) [of k] f(4,10) lt [of h] lt [of k] inj_token [OF c, of h k]
      by (auto split: if_splits)
  qed
  show "t < mg_next_token ?m'" if "t \<in> mg_cancelled ?m'" for t
    using calmD(5) [OF c, of t] that by (auto simp: f(5,6))
qed (use calmD(2-4) [OF c] in \<open>simp_all add: add_task_def Let_def\<close>)

lemma calm_select_files:
  assumes c: "calm (m, ws)" and s: "select_files g count indices covered m = Some m'"
    and r: "covered = Some False \<Longrightarrow> g \<in> mg_active m"
  shows "calm (m', ws)"
proof -
  define sel where "sel = sort (remdups (filter (\<lambda>i. i < count) indices))"
  let ?m1 = "upd_task g (\<lambda>t. t\<lparr>tk_selected := Some sel, tk_awaiting := False\<rparr>) m"
  have c1: "calm (?m1, ws)" by (rule calm_cong [OF c]) simp_all
  have "m' = (if covered = Some False then interrupt g IntentPause ?m1 else ?m1)"
    using s by (auto simp: select_files_def Let_def interrupt_def sel_def split: if_splits)
  then show ?thesis using c1 calm_interrupt [OF c1, of g] r by auto
qed

section \<open>The scheduler, drivers and ends of workers\<close>

lemma calm_start:
  assumes c: "calm (m, ws)" and q: "mg_queue m = g # rest"
  shows "calm (mark g StActive (m\<lparr>mg_queue := rest, mg_active := insert g (mg_active m)\<rparr>), ws @ [(g, None)])"
    (is "calm (?m1, ?ws)")
proof (rule calm_change [OF c, of _ _ g])
  note ok = calmD(7) [OF c, of g]
  have g: "g \<in> mg_tasks m" "status_of m g = StWaiting" using task_okD(1) [OF ok] q by auto
  have nw: "g \<notin> fst ` set ws" "g \<notin> set rest"
    using task_okD(2,3) [OF ok] g calmD(1) [OF c] q by auto
  then have n: "(g, tok) \<notin> set ws" for tok by force
  show "same_task m ws ?m1 ?ws h" if "h \<noteq> g" for h
    using that q by (simp add: same_task_def)
  show "task_ok ?m1 ?ws g"
    using ok g nw n q by (auto simp: task_ok_def Let_def)
  show "inj_on (\<lambda>h. tk_token (mg_store ?m1 h)) (mg_ever ?m1)"
    by (rule inj_same [OF c]) simp_all
  show "distinct (map fst ?ws)" using calmD(2) [OF c] nw by simp
qed (use calmD(1,3,4,5) [OF c] q in simp_all)

lemma calm_fill_loop: "calm (m, ws) \<Longrightarrow> calm (fst (fill_loop k m), ws @ map (\<lambda>g. (g, None)) (snd (fill_loop k m)))"
proof (induction k m arbitrary: ws rule: fill_loop.induct)
  case (2 fuel m)
  show ?case
  proof (cases "card (mg_active m) < mg_max m \<and> \<not> mg_max m \<le> downloading m \<and> mg_queue m \<noteq> []")
    case True
    then obtain g rest where q: "mg_queue m = g # rest" by (cases "mg_queue m") auto
    let ?m1 = "mark g StActive (m\<lparr>mg_queue := rest, mg_active := insert g (mg_active m)\<rparr>)"
    have w: "g \<in> mg_tasks m \<and> status_of m g = StWaiting"
      using task_okD(1) [OF calmD(7) [OF 2(3), of g]] q by simp
    have "calm (fst (fill_loop fuel ?m1), (ws @ [(g, None)]) @ map (\<lambda>g. (g, None)) (snd (fill_loop fuel ?m1)))"
      using "2.IH"(2) [OF _ _ q _ calm_start [OF 2(3) q]] True w by auto
    then show ?thesis using True q w by (simp add: split_beta Let_def)
  next
    case False
    then show ?thesis using 2(3) by (auto split: list.split)
  qed
qed simp

text \<open>The end of a worker, before the bound on the results is enforced.\<close>

lemma filter_worker: "distinct (map fst ws) \<Longrightarrow> distinct (map fst (filter (\<lambda>(h, t). h \<noteq> g) ws))"
  by (rule distinct_map_filter)

lemma calm_leave:
  assumes c: "calm (m, ws)" and w: "(g, Some tok) \<in> set ws"
    and f: "mg_tasks m' = (if tk_status (mg_store m' g) = StRemoved then mg_tasks m - {g} else mg_tasks m)"
    "mg_active m' = mg_active m - {g}"
    "mg_queue m' = (if tk_status (mg_store m' g) = StWaiting then mg_queue m @ [g] else mg_queue m)"
    "mg_stopped m' = (if tk_status (mg_store m' g) \<in> {StComplete, StError} then mg_stopped m @ [g] else mg_stopped m)"
    "mg_ever m' = mg_ever m" "mg_next_token m \<le> mg_next_token m'" "mg_cancelled m' = mg_cancelled m"
    "\<And>h. h \<noteq> g \<Longrightarrow> mg_store m' h = mg_store m h"
    "tk_status (mg_store m' g) \<notin> {StActive, StSeeding}"
    "if tk_status (mg_store m' g) = StWaiting
     then tk_intent (mg_store m' g) = IntentNone \<and> tk_token (mg_store m' g) = mg_next_token m \<and> mg_next_token m < mg_next_token m'
     else tk_token (mg_store m' g) = tk_token (mg_store m g)"
  shows "calm (m', filter (\<lambda>(h, t). h \<noteq> g) ws)"
proof (rule calm_change [OF c, of _ _ g])
  let ?ws = "filter (\<lambda>(h, t). h \<noteq> g) ws"
  note ok = calmD(7) [OF c, of g]
  have a: "g \<in> mg_active m" using task_okD(3) [OF ok] w by force
  then have g: "g \<in> mg_tasks m" "status_of m g \<in> {StActive, StSeeding}" using task_okD(2) [OF ok] by auto
  have n: "g \<notin> set (mg_queue m)" "g \<notin> set (mg_stopped m)" "g \<in> mg_ever m" "tk_token (mg_store m g) < mg_next_token m"
    using task_okD(1) [OF ok] task_okD(4) [OF ok] task_okD(6) [OF ok] task_okD(8) [OF ok] g by auto
  have nw: "g \<notin> fst ` set ?ws" by auto
  have lt: "tk_token (mg_store m x) < mg_next_token m" if "x \<in> mg_ever m" for x
    using task_okD(8) [OF calmD(7) [OF c] that] .
  show "same_task m ws m' ?ws h" if "h \<noteq> g" for h
    using that f(8) [OF that] by (auto simp: same_task_def f(1-7))
  have nc: "mg_next_token m \<notin> mg_cancelled m" using calmD(5) [OF c] by blast
  show "task_ok m' ?ws g"
    using g n nw nc f(6,9,10) by (cases "tk_status (mg_store m' g)") (auto simp: task_ok_def Let_def f(1-5,7) image_iff)
  show "inj_on (\<lambda>h. tk_token (mg_store m' h)) (mg_ever m')"
  proof (rule inj_onI)
    fix h k assume hk: "h \<in> mg_ever m'" "k \<in> mg_ever m'" "tk_token (mg_store m' h) = tk_token (mg_store m' k)"
    show "h = k"
      using hk f(8) [of h] f(8) [of k] f(10) lt [of h] lt [of k] inj_token [OF c, of h k] f(5)
      by (cases "h = g"; cases "k = g") (auto split: if_splits)
  qed
  show "t < mg_next_token m'" if "t \<in> mg_cancelled m'" for t
    using calmD(5) [OF c, of t] that f(6,7) by simp
  show "distinct (mg_queue m')" "distinct (mg_stopped m')" using calmD(1,3) [OF c] n by (simp_all add: f(3,4))
  show "finite (mg_tasks m')" using calmD(4) [OF c] by (simp add: f(1))
  show "distinct (map fst ?ws)" by (rule filter_worker [OF calmD(2) [OF c]])
qed (rule f(6))

text \<open>Evicting the oldest result.\<close>

lemma calm_evict: "calm (m, ws) \<Longrightarrow> calm (evict k m, ws)"
proof (induction k m rule: evict.induct)
  case (2 fuel m)
  show ?case
  proof (cases "length (mg_stopped m) \<le> MAX_RESULTS")
    case False
    then obtain g rest where st: "mg_stopped m = g # rest" by (cases "mg_stopped m") auto
    let ?m1 = "m\<lparr>mg_tasks := mg_tasks m - {g}, mg_stopped := rest\<rparr>"
    have n: "filter (\<lambda>h. h \<noteq> g) (g # rest) = rest" using calmD(3) [OF 2(2)] st by (auto simp: filter_id_conv)
    have "g \<in> mg_tasks m \<and> status_of m g \<in> {StComplete, StError}"
      using task_okD(4) [OF calmD(7) [OF 2(2), of g]] st by simp
    then have "calm (?m1, ws)"
      by (intro calm_forget [OF 2(2), of g])
         (use task_okD(1,2) [OF calmD(7) [OF 2(2), of g]] st n in auto)
    then show ?thesis using False 2(1) st by simp
  qed (use 2(2) in simp)
qed simp

lemma calm_finish_worker:
  assumes c: "calm (m, ws)" and w: "(g, Some tok) \<in> set ws"
  shows "calm (finish_worker g r m, filter (\<lambda>(h, t). h \<noteq> g) ws)"
proof -
  define m1 where "m1 = upd_task g (worker_mark (mg_now m) r) m"
  define m2 where "m2 = (if status_of m1 g = StRemoved then delete_as_asked g m1 else m1)"
  define e where "e = end_status (tk_intent (mg_store m g)) r"
  have st: "status_of m1 g = fst e" by (simp add: m1_def e_def)
  have m2: "mg_store m2 = mg_store m1" "mg_tasks m2 = mg_tasks m" "mg_queue m2 = mg_queue m" "mg_active m2 = mg_active m"
    "mg_stopped m2 = mg_stopped m" "mg_ever m2 = mg_ever m" "mg_next_token m2 = mg_next_token m" "mg_cancelled m2 = mg_cancelled m"
    by (simp_all add: m2_def m1_def)
  have m1: "h \<noteq> g \<Longrightarrow> mg_store m1 h = mg_store m h" "tk_token (mg_store m1 g) = tk_token (mg_store m g)"
    "tk_intent (mg_store m1 g) = tk_intent (mg_store m g)" for h
    by (simp_all add: m1_def)
  have cases: "e = (StComplete, True) \<or> e = (StPaused, False) \<or> e = (StRemoved, True) \<or> e = (StError, True)
      \<or> e = (StWaiting, False) \<and> tk_intent (mg_store m g) = IntentRestart"
    by (auto simp: e_def end_status_def split: option.split intent.split)
  have ended: "calm (worker_leave g True m2, filter (\<lambda>(h, t). h \<noteq> g) ws)" if "fst e = StComplete \<or> fst e = StError"
  proof -
    let ?m3 = "unclaim g (m2\<lparr>mg_active := mg_active m2 - {g}, mg_stopped := mg_stopped m2 @ [g],
      mg_stopped_total := Suc (mg_stopped_total m2)\<rparr>)"
    have "calm (?m3, filter (\<lambda>(h, t). h \<noteq> g) ws)"
      by (rule calm_leave [OF c w]) (use that in \<open>elim disjE; simp add: m1 m2 st\<close>)+
    from calm_evict [OF this, of "length (mg_stopped ?m3)"] show ?thesis
      using that by (elim disjE; simp add: worker_leave_def Let_def m1 m2 st)
  qed
  have paused: "calm (worker_leave g False m2, filter (\<lambda>(h, t). h \<noteq> g) ws)" if "fst e = StPaused"
  proof -
    have "worker_leave g False m2 = m2\<lparr>mg_active := mg_active m - {g}\<rparr>"
      using that by (simp add: worker_leave_def Let_def st m2)
    then show ?thesis by (simp only:) (rule calm_leave [OF c w], simp_all add: that st m1 m2)
  qed
  have removed: "calm (worker_leave g True m2, filter (\<lambda>(h, t). h \<noteq> g) ws)" if "fst e = StRemoved"
  proof -
    have "g \<notin> set (mg_stopped m)" using task_okD(2-4) [OF calmD(7) [OF c, of g]] w by force
    then have n: "filter (\<lambda>h. h \<noteq> g) (mg_stopped m) = mg_stopped m" by (auto simp: filter_id_conv)
    have "worker_leave g True m2 = forget g (m2\<lparr>mg_active := mg_active m - {g}\<rparr>)"
      using that by (simp add: worker_leave_def Let_def st m2)
    then show ?thesis
      by (simp only:) (rule calm_leave [OF c w], simp_all add: that st m1 m2 n)
  qed
  have again: "calm (worker_leave g False m2, filter (\<lambda>(h, t). h \<noteq> g) ws)"
    if "fst e = StWaiting" "tk_intent (mg_store m g) = IntentRestart"
  proof -
    let ?m3 = "upd_task g (\<lambda>t. t\<lparr>tk_intent := IntentNone, tk_token := mg_next_token m\<rparr>) (m2\<lparr>mg_active := mg_active m - {g}\<rparr>)
        \<lparr>mg_next_token := Suc (mg_next_token m), mg_queue := mg_queue m @ [g]\<rparr>"
    have "worker_leave g False m2 = ?m3"
      using that by (simp add: worker_leave_def Let_def st m1 m2)
    then show ?thesis by (simp only:) (rule calm_leave [OF c w], simp_all add: that st m1 m2)
  qed
  have "calm (worker_leave g (snd e) m2, filter (\<lambda>(h, t). h \<noteq> g) ws)"
    using cases
  proof (elim disjE conjE)
    assume "e = (StComplete, True)" then show ?thesis using ended by simp
  next
    assume "e = (StPaused, False)" then show ?thesis using paused by simp
  next
    assume "e = (StRemoved, True)" then show ?thesis using removed by simp
  next
    assume "e = (StError, True)" then show ?thesis using ended by simp
  next
    assume "e = (StWaiting, False)" "tk_intent (mg_store m g) = IntentRestart"
    then show ?thesis using again by simp
  qed
  then show ?thesis
    unfolding finish_worker_def Let_def calm_kick m1_def [symmetric] e_def [symmetric] m2_def [symmetric] .
qed

lemma calm_auto_pause:
  assumes c: "calm (m, ws)" and w: "(g, Some tok) \<in> set ws"
  shows "calm (auto_pause g tok m, ws)"
proof -
  note ok = calmD(7) [OF c, of g]
  have a: "g \<in> mg_active m" using task_okD(3) [OF ok] w by force
  have t: "tok = tk_token (mg_store m g)" using task_okD(10) [OF ok w] .
  have "calm (upd_task g (\<lambda>t. t\<lparr>tk_awaiting := b\<rparr>) (interrupt g i m), ws)" for b i
    by (rule calm_cong [OF calm_interrupt [OF c a, of i]]) simp_all
  moreover have "auto_pause g tok m =
      (if \<exists>files. tk_meta (mg_store m g) = Some files \<and> tk_awaiting (mg_store m g) \<and> tk_intent (mg_store m g) = IntentNone
       then if the (tk_meta (mg_store m g)) \<le> 1
            then upd_task g (\<lambda>t. t\<lparr>tk_awaiting := False\<rparr>) (interrupt g IntentRestart m) else interrupt g IntentPause m
       else m)"
    by (auto simp: auto_pause_def Let_def interrupt_def t intro!: mgr.equality split: option.split)
  ultimately show ?thesis using c calm_interrupt [OF c a] by simp
qed

lemma calm_seed:
  assumes c: "calm (m, ws)" and w: "(g, Some tok) \<in> set ws"
  shows "calm (mark g StSeeding m, ws)"
proof (rule calm_change [OF c, of _ _ g])
  note ok = calmD(7) [OF c, of g]
  have a: "g \<in> mg_active m" using task_okD(3) [OF ok] w by force
  show "same_task m ws (mark g StSeeding m) ws h" if "h \<noteq> g" for h
    using that by (simp add: same_task_def)
  show "task_ok (mark g StSeeding m) ws g"
    using ok a by (auto simp: task_ok_def Let_def)
  show "inj_on (\<lambda>h. tk_token (mg_store (mark g StSeeding m) h)) (mg_ever (mark g StSeeding m))"
    by (rule inj_same [OF c]) simp_all
qed (use calmD(1-5) [OF c] in simp_all)

lemma calm_drive_step:
  assumes "calm (m, ws)" "(g, Some tok) \<in> set ws"
  shows "calm (fst (drive d g tok m), ws)"
proof (cases d)
  case AutoPause
  then show ?thesis using calm_auto_pause [OF assms] by simp
next
  case Seed
  then show ?thesis using calm_seed [OF assms] assms(1) by simp
next
  case (BtPath name)
  then show ?thesis using assms(1) by simp (intro impI, rule calm_cong [OF assms(1)], simp_all)
next
  case (GotMeta files)
  then show ?thesis by simp (rule calm_cong [OF assms(1)], simp_all)
next
  case ResetPath
  then show ?thesis
    using assms(1) by (simp add: reset_task_path_def split: option.split) (intro allI impI, rule calm_cong [OF assms(1)], simp_all)
next
  case (Grow len)
  then show ?thesis
    using assms(1) by (simp add: grow_file_def split: option.split) (intro allI impI, rule calm_cong [OF assms(1)], simp_all)
qed (use assms(1) in simp)

lemma calm_step_calm: "calm_step s s' \<Longrightarrow> calm s \<Longrightarrow> calm s'"
proof (induction rule: calm_step.induct)
  case (calm_add g m ws awaiting meta selected dir position)
  then show ?case by (simp add: calm_add_task)
next
  case (calm_wake m m' gs ws)
  have "calm (m\<lparr>mg_kicked := False\<rparr>, ws)" by (rule calm_cong [OF calm_wake(3)]) simp_all
  from calm_fill_loop [OF this, of "Suc (length (mg_queue m))"] show ?case
    using calm_wake(2) by (simp add: fill_slots_def del: fill_loop.simps)
next
  case (calm_begin m ws g ws')
  let ?new = "ws @ (g, Some (tk_token (mg_store m g))) # ws'"
  have same: "task_ok m ?new h" for h
  proof -
    have "fst ` set ?new = fst ` set (ws @ (g, None) # ws')" by auto
    moreover have "(h, Some tok) \<in> set ?new \<Longrightarrow> tok = tk_token (mg_store m h)" for tok
      using task_okD(10) [OF calmD(7) [OF calm_begin], of h tok] by auto
    ultimately show ?thesis using calmD(7) [OF calm_begin, of h] unfolding task_ok_def Let_def by auto
  qed
  show ?case using calmD(1-6) [OF calm_begin] by (intro calmI same) simp_all
next
  case (calm_claim g tok ws m p)
  show ?case by (rule calm_cong [OF calm_claim(4)]) simp_all
next
  case (calm_limit m ws n)
  then show ?case by (auto intro: calm_cong)
next
  case (calm_tick m ws n)
  then show ?case by (auto intro: calm_cong)
qed (auto simp: calm_serve calm_select_files calm_drive_step calm_finish_worker)

inductive calm_reach :: "nat \<Rightarrow> mgr \<times> workers \<Rightarrow> bool" for n where
  reach_new: "calm_reach n (new_manager n, [])"
| reach_step: "calm_reach n s \<Longrightarrow> calm_step s s' \<Longrightarrow> calm_reach n s'"

lemma calm_new: "calm (new_manager n, [])"
  by (simp add: calm_def task_ok_def new_manager_def)

lemma calm_reach_calm: "calm_reach n s \<Longrightarrow> calm s"
  by (induction rule: calm_reach.induct) (auto intro: calm_new calm_step_calm)

text \<open>
  C14. As long as no two operations of the manager overlap, every task it knows has its place: it waits and is in
  the queue, or it runs and has a worker that holds the very token a pause would cancel, or it is paused,
  finished or failed and has no worker; the queue, the workers and the list of results have no duplicates, and
  a waiting task starts with a token nobody has cancelled.
\<close>

theorem calm_places:
  assumes "calm_reach n (m, ws)"
  shows "distinct (mg_queue m) \<and> set (mg_queue m) = {g \<in> mg_tasks m. status_of m g = StWaiting}
    \<and> distinct (map fst ws) \<and> fst ` set ws = {g \<in> mg_tasks m. status_of m g \<in> {StActive, StSeeding}}
    \<and> list_all (\<lambda>(g, tok). tok = None \<or> tok = Some (tk_token (mg_store m g))) ws
    \<and> distinct (mg_stopped m) \<and> set (mg_stopped m) \<subseteq> {g \<in> mg_tasks m. status_of m g \<in> {StComplete, StError}}
    \<and> {g \<in> mg_tasks m. status_of m g = StWaiting} \<inter> {g. tk_token (mg_store m g) \<in> mg_cancelled m} = {}"
proof -
  have c: "calm (m, ws)" by (rule calm_reach_calm [OF assms])
  note ok = calmD(7) [OF c]
  have "set (mg_queue m) = {g \<in> mg_tasks m. status_of m g = StWaiting}" using task_okD(1) [OF ok] by auto
  moreover have "fst ` set ws = {g \<in> mg_tasks m. status_of m g \<in> {StActive, StSeeding}}"
    using task_okD(2,3) [OF ok] by blast
  moreover have "tok = None \<or> tok = Some (tk_token (mg_store m g))" if "(g, tok) \<in> set ws" for g tok
    using task_okD(10) [OF ok, of g] that by (cases tok) auto
  then have "list_all (\<lambda>(g, tok). tok = None \<or> tok = Some (tk_token (mg_store m g))) ws"
    by (auto simp: list_all_iff)
  moreover have "set (mg_stopped m) \<subseteq> {g \<in> mg_tasks m. status_of m g \<in> {StComplete, StError}}"
    using task_okD(4) [OF ok] by blast
  moreover have "{g \<in> mg_tasks m. status_of m g = StWaiting} \<inter> {g. tk_token (mg_store m g) \<in> mg_cancelled m} = {}"
    using task_okD(9) [OF ok] by blast
  ultimately show ?thesis using calmD(1-3) [OF c] by simp
qed

theorem calm_places_witness:
  "set (mg_queue (kick (add_task 7 False None None [] None (new_manager 2)))) = {7}"
proof -
  let ?m = "kick (add_task 7 False None None [] None (new_manager 2))"
  have "calm_reach 2 (?m, [])"
    by (rule reach_step [OF reach_new calm_add]) (simp add: new_manager_def)
  then have "set (mg_queue ?m) = {g \<in> mg_tasks ?m. status_of ?m g = StWaiting}" using calm_places by blast
  then show ?thesis by (auto simp: add_task_def new_manager_def)
qed

end
