(* ===== verification/Task_Races.thy ===== *)
theory Task_Races
  imports Task_Calm "HOL-Library.Code_Target_Nat"
begin

text \<open>
  Where the life cycle goes wrong: operations that overlap, requests that overwrite each other, a path two tasks
  write, seeding tasks that keep the slots. Each is shown on the model of the operations as they are written.
\<close>

definition running :: "sys \<Rightarrow> (gid \<times> nat) list" where
  "running s = List.map_filter (\<lambda>th. case th of WorkerRun g tok # _ \<Rightarrow> Some (g, tok) | _ \<Rightarrow> None) (sy_threads s)"

definition busy :: "sys \<Rightarrow> nat" where
  "busy s = length (sy_threads s) - length (running s)"

section \<open>Overlapping operations\<close>

text \<open>\<open>pause\<close> after the status check, with the start of the task in between; then \<open>unpause\<close>.\<close>

definition two_workers_run :: "act list" where
  "two_workers_run =
     [Add 0 False None None [] None, Run 0, Request (PauseReq 0), Run 0, Run 0, Wake, Run 1,
      Run 0, Run 0, Run 0, Run 0, Request (UnpauseReq 0)] @ replicate 10 (Run 1) @ [Wake, Run 1]"


text \<open>A resume that has queued the task but not yet marked it, overtaken by the scheduler.\<close>

definition lost_resume_run :: "act list" where
  "lost_resume_run =
     [Add 0 False None None [] None, Run 0, Request (PauseReq 0)] @ replicate 6 (Run 0)
     @ [Request (UnpauseReq 0)] @ replicate 7 (Run 0) @ [Wake] @ replicate 3 (Run 0) @ [Wake]"

text \<open>What neither runs nor waits for a task cannot change it: requests, drivers and threads of other tasks.\<close>

fun concerns :: "gid \<Rightarrow> sec \<Rightarrow> bool" where
  "concerns g Kick = False"
| "concerns g (Answer r) = False"
| "concerns g (WorkerStart h) = (g = h)"
| "concerns g (WorkerRun h tok) = (g = h)"
| "concerns g (WorkerMark h r) = (g = h)"
| "concerns g (WorkerClean h) = (g = h)"
| "concerns g (WorkerLeave h t) = (g = h)"
| "concerns g (PauseFind h) = (g = h)"
| "concerns g (PauseCheck h) = (g = h)"
| "concerns g (PauseDequeue h) = (g = h)"
| "concerns g (PauseSet h) = (g = h)"
| "concerns g (SetIntent h i) = (g = h)"
| "concerns g (Cancel h) = (g = h)"
| "concerns g (UnpauseFind h) = (g = h)"
| "concerns g (UnpauseCheck h) = (g = h)"
| "concerns g (UnpauseClear h) = (g = h)"
| "concerns g (UnpauseUnlist h) = (g = h)"
| "concerns g (UnpauseSelect h) = (g = h)"
| "concerns g (UnpauseToken h) = (g = h)"
| "concerns g (UnpauseIntent h) = (g = h)"
| "concerns g (UnpauseKeep h) = (g = h)"
| "concerns g (UnpauseEnqueue h) = (g = h)"
| "concerns g (UnpauseSet h) = (g = h)"
| "concerns g (StopFind h) = (g = h)"
| "concerns g (StopCheck h) = (g = h)"
| "concerns g (RemoveFind h d) = (g = h)"
| "concerns g (RemoveFlag h d) = (g = h)"
| "concerns g (RemoveCheck h) = (g = h)"
| "concerns g (RemoveDequeue h) = (g = h)"
| "concerns g (RemovedSet h) = (g = h)"
| "concerns g (RemovedDrop h) = (g = h)"
| "concerns g (RemovedClean h) = (g = h)"
| "concerns g PurgeList = False"
| "concerns g (PurgeDrop gs) = False"
| "concerns g (ResultFind h) = (g = h)"
| "concerns g (ResultCheck h) = (g = h)"
| "concerns g (ResultDrop h) = (g = h)"
| "concerns g (DropCtrl h) = False"
| "concerns g (ClaimTry h b c n) = (g = h)"
| "concerns g (ClaimSet h q) = (g = h)"

fun act_concerns :: "gid \<Rightarrow> act \<Rightarrow> bool" where
  "act_concerns g (Request (PauseReq h)) = (g = h)"
| "act_concerns g (Request (PauseAllReq gs)) = (g \<in> set gs)"
| "act_concerns g (Request (UnpauseReq h)) = (g = h)"
| "act_concerns g (Request (StopSeedingReq h)) = (g = h)"
| "act_concerns g (Request (RemoveReq h d)) = (g = h)"
| "act_concerns g (Request (RemoveResultReq h)) = (g = h)"
| "act_concerns g (Add h a b c d e) = (g = h)"
| "act_concerns g (Select h a b c) = (g = h)"
| "act_concerns g _ = False"

definition left_alone :: "gid \<Rightarrow> sys \<Rightarrow> bool" where
  "left_alone g s \<longleftrightarrow> g \<notin> set (mg_queue (sy_mgr s)) \<and> list_all (\<lambda>th. \<not> list_ex (concerns g) th) (sy_threads s)"

lemma worker_leave_frame:
  "h \<noteq> g \<Longrightarrow> mg_store (worker_leave g t m) h = mg_store m h"
  "h \<noteq> g \<Longrightarrow> h \<notin> set (mg_queue m) \<Longrightarrow> h \<notin> set (mg_queue (worker_leave g t m))"
  by (auto simp: worker_leave_def Let_def)

lemma exec_frame:
  assumes "\<not> concerns g x" "g \<notin> set (mg_queue m)"
  shows "mg_store (fst (exec x m)) g = mg_store m g" "g \<notin> set (mg_queue (fst (exec x m)))"
    "\<not> list_ex (concerns g) (snd (exec x m))"
  using assms by (cases x; auto simp: Let_def worker_leave_frame list_ex_iff split: status.split)+

lemma fill_frame:
  "g \<notin> set (mg_queue m) \<Longrightarrow> mg_store (fst (fill_loop k m)) g = mg_store m g
     \<and> g \<notin> set (mg_queue (fst (fill_loop k m))) \<and> g \<notin> set (snd (fill_loop k m))"
  by (induction k m rule: fill_loop.induct) (auto simp: split_beta Let_def split: list.split)

lemma drive_frame:
  assumes "h \<noteq> g"
  shows "mg_store (fst (drive d h tok m)) g = mg_store m g" "\<not> list_ex (concerns g) (snd (drive d h tok m))"
  using assms by (cases d; auto simp: auto_pause_def reset_task_path_def grow_file_def Let_def split: option.split)+

lemma left_alone_step:
  assumes s: "left_alone g s" and a: "\<not> act_concerns g a"
  shows "left_alone g (sys_step a s) \<and> mg_store (sy_mgr (sys_step a s)) g = mg_store (sy_mgr s) g"
proof -
  have th: "\<not> list_ex (concerns g) (x # tl (sy_threads s ! i)) \<and> i < length (sy_threads s)" if "head_sec i s = Some x" for i x
    using head_sec_SomeD [OF that] s unfolding left_alone_def list_all_length by metis
  have put: "list_all (\<lambda>th. \<not> list_ex (concerns g) th) (put_thread i new (sy_threads s))" if "\<not> list_ex (concerns g) new" for i new
    by (rule put_thread_all) (use s that in \<open>simp_all add: left_alone_def\<close>)
  show ?thesis
  proof (cases a)
    case (Run i)
    show ?thesis
    proof (cases "head_sec i s")
      case (Some x)
      from exec_frame [of g x "sy_mgr s"] th [OF Some] s put [of "snd (exec x (sy_mgr s)) @ tl (sy_threads s ! i)" i]
      show ?thesis using Run Some by (cases x) (auto simp: left_alone_def split_beta Let_def simp del: exec.simps)
    qed (use Run s in simp)
  next
    case (Finish i r)
    show ?thesis
    proof (cases "\<exists>h tok. head_sec i s = Some (WorkerRun h tok)")
      case True
      then obtain h tok where h: "head_sec i s = Some (WorkerRun h tok)" by blast
      from th [OF h] s put [of "WorkerMark h r # tl (sy_threads s ! i)" i]
      show ?thesis using Finish h by (auto simp: left_alone_def)
    qed (use Finish s in \<open>auto split: option.split sec.split\<close>)
  next
    case (Drive i d)
    show ?thesis
    proof (cases "\<exists>h tok. head_sec i s = Some (WorkerRun h tok)")
      case True
      then obtain h tok where h: "head_sec i s = Some (WorkerRun h tok)" by blast
      from th [OF h] s drive_frame [of h g d tok "sy_mgr s"] put [of "snd (drive d h tok (sy_mgr s)) @ tl (sy_threads s ! i)" i]
      show ?thesis using Drive h by (auto simp: left_alone_def split_beta Let_def simp del: drive.simps)
    qed (use Drive s in \<open>auto split: option.split sec.split\<close>)
  next
    case (Request r)
    then show ?thesis using s a by (cases r) (auto simp: left_alone_def list_ex_iff)
  next
    case (Add h b1 b2 b3 b4 pos)
    have part: "set (take k xs) \<subseteq> set xs" "set (drop k xs) \<subseteq> set xs" for k and xs :: "nat list"
      by (rule set_take_subset, rule set_drop_subset)
    show ?thesis using Add s a part [of _ "mg_queue (sy_mgr s)"]
      by (auto simp: left_alone_def add_task_def Let_def split: option.split)
  next
    case (Select h b1 b2 b3)
    then show ?thesis using s a
      by (auto simp: left_alone_def select_files_def Let_def split: option.split)
  next
    case Wake
    then show ?thesis using s fill_frame [of g "sy_mgr s\<lparr>mg_kicked := False\<rparr>" "Suc (length (mg_queue (sy_mgr s)))"]
      by (auto simp: left_alone_def fill_slots_def split_beta Let_def list_all_iff simp del: fill_loop.simps)
  qed (use s in \<open>auto simp: left_alone_def\<close>)
qed

lemma left_alone_run:
  "left_alone g s \<Longrightarrow> \<not> list_ex (act_concerns g) as \<Longrightarrow> mg_store (sy_mgr (run as s)) g = mg_store (sy_mgr s) g"
  unfolding run_def by (induction as arbitrary: s) (auto simp: left_alone_step)

text \<open>
  C39. A lost resume: the request is accepted, and the task stays waiting for ever, whatever the scheduler,
  the workers and the requests on other tasks do; resuming it again is refused, since it is not paused.
\<close>

theorem lost_resume:
  "\<exists>as. let s = run as (new_system 2)
   in busy s = 0 \<and> running s = [] \<and> status_of (sy_mgr s) 0 = StWaiting \<and> snd (unpause 0 (sy_mgr s)) = NotResumable
      \<and> (\<forall>as'. list_ex (act_concerns 0) as' \<or> status_of (sy_mgr (run as' s)) 0 = StWaiting)"
proof
  define s where "s = run lost_resume_run (new_system 2)"
  have f: "busy s = 0 \<and> running s = [] \<and> status_of (sy_mgr s) 0 = StWaiting \<and> snd (unpause 0 (sy_mgr s)) = NotResumable
      \<and> left_alone 0 s"
    unfolding s_def by code_simp
  have "list_ex (act_concerns 0) as' \<or> status_of (sy_mgr (run as' s)) 0 = StWaiting" for as'
    using left_alone_run [of 0 s as'] f by (cases "list_ex (act_concerns 0) as'") simp_all
  then show "let s = run lost_resume_run (new_system 2)
    in busy s = 0 \<and> running s = [] \<and> status_of (sy_mgr s) 0 = StWaiting \<and> snd (unpause 0 (sy_mgr s)) = NotResumable
      \<and> (\<forall>as'. list_ex (act_concerns 0) as' \<or> status_of (sy_mgr (run as' s)) 0 = StWaiting)"
    using f by (simp add: s_def [symmetric])
qed

section \<open>Requests that overwrite each other\<close>

text \<open>
  A pause after a removal undoes it: both are accepted, and when the worker returns the task is paused and
  still known, its files kept although the removal asked to delete them.
\<close>

theorem pause_undoes_removal:
  fixes g :: gid and m :: mgr and del :: bool
  assumes "g \<in> mg_tasks m" "status_of m g = StActive \<or> status_of m g = StSeeding"
  defines "m1 \<equiv> fst (remove_with_files g del m)"
  defines "m2 \<equiv> finish_worker g (Some FailCancelled) (fst (pause g m1))"
  shows "snd (remove_with_files g del m) = Accepted \<and> snd (pause g m1) = Accepted
    \<and> g \<in> mg_tasks m2 \<and> status_of m2 g = StPaused \<and> mg_files m2 = mg_files m"
proof -
  have "remove_with_files g del m = (interrupt g IntentRemove (upd_task g (\<lambda>t. t\<lparr>tk_delete_files := del\<rparr>) m), Accepted)"
    using assms(1,2) by (elim disjE) (simp_all add: remove_with_files_def Let_def)
  then have m1: "m1 = interrupt g IntentRemove (upd_task g (\<lambda>t. t\<lparr>tk_delete_files := del\<rparr>) m)"
    and r1: "snd (remove_with_files g del m) = Accepted" by (simp_all add: m1_def)
  have g1: "g \<in> mg_tasks m1" "status_of m1 g = status_of m g" "mg_files m1 = mg_files m"
    using assms(1) by (simp_all add: m1 interrupt_def)
  have p: "pause g m1 = (interrupt g IntentPause m1, Accepted)"
    using g1 assms(2) by (elim disjE) (simp_all add: pause_def)
  have e: "end_status (tk_intent (mg_store (interrupt g IntentPause m1) g)) (Some FailCancelled) = (StPaused, False)"
    by (simp add: end_status_def interrupt_def)
  have w: "finish_worker g (Some FailCancelled) n = kick ((upd_task g (worker_mark (mg_now n) (Some FailCancelled)) n)
      \<lparr>mg_active := mg_active n - {g}\<rparr>)"
    if "end_status (tk_intent (mg_store n g)) (Some FailCancelled) = (StPaused, False)" for n
    using that by (simp add: finish_worker_def worker_leave_def Let_def)
  have m2: "m2 = kick ((upd_task g (worker_mark (mg_now m1) (Some FailCancelled)) (interrupt g IntentPause m1))
      \<lparr>mg_active := mg_active m1 - {g}\<rparr>)"
    using w [OF e] p by (simp add: m2_def interrupt_def)
  have "status_of m2 g = StPaused" using e by (simp add: m2)
  moreover have "g \<in> mg_tasks m2" "mg_files m2 = mg_files m"
    using g1 by (simp_all add: m2 interrupt_def kick_def)
  ultimately show ?thesis using r1 p by simp
qed

definition ex_manager :: "status \<Rightarrow> mgr" where
  "ex_manager st = upd_task 0 (\<lambda>t. t\<lparr>tk_status := st\<rparr>) (add_task 0 False None None [] None (new_manager 1))"

theorem pause_undoes_removal_witness:
  "0 \<in> mg_tasks (finish_worker 0 (Some FailCancelled) (fst (pause 0 (fst (remove_with_files 0 True (ex_manager StActive))))))"
proof -
  have "0 \<in> mg_tasks (ex_manager StActive)" "status_of (ex_manager StActive) 0 = StActive"
    by (simp_all add: ex_manager_def add_task_def)
  then show ?thesis using pause_undoes_removal [of 0 "ex_manager StActive" True] by blast
qed

text \<open>A failure that is not the cancellation decides alone, whatever was asked of the worker.\<close>

lemma failure_wins:
  "\<not> is_cancelled f \<Longrightarrow> g \<in> mg_tasks m \<Longrightarrow> g \<notin> set (mg_stopped m) \<Longrightarrow> length (mg_stopped m) < MAX_RESULTS \<Longrightarrow>
   status_of (finish_worker g (Some f) m) g = StError \<and> g \<in> mg_tasks (finish_worker g (Some f) m)"
  by (auto simp: finish_worker_def worker_leave_def kick_def end_status_def Let_def evict_tasks)

section \<open>Two tasks on one path\<close>

definition shared_path_run :: "act list" where
  "shared_path_run =
     [Add 0 False None None [100] None, Run 0, Wake, Run 0, Drive 0 (Claim [102] (\<lambda>_ _. True)), Run 0, Run 0,
      Drive 0 (Grow 5), Finish 0 (Some FailBt), Run 0, Run 0, Run 0, Run 0,
      Add 1 False None None [100] None, Run 0, Wake, Run 0, Drive 0 (Claim [102] (\<lambda>_ _. True)), Run 0, Run 0,
      Request (UnpauseReq 0)] @ replicate 12 (Run 1) @ [Wake, Run 1]"


section \<open>Seeding tasks\<close>

text \<open>
  Seeding tasks keep their slots: when they are as many as the limit nothing is started, although none of
  them counts as downloading.
\<close>

theorem seeding_blocks:
  assumes "mg_active m \<subseteq> {g. status_of m g = StSeeding}" "mg_max m \<le> card (mg_active m)"
  shows "downloading m = 0 \<and> fill_slots m = (m, [])"
proof -
  have none: "{g \<in> mg_active m. g \<in> mg_tasks m \<and> status_of m g \<noteq> StSeeding} = {}" using assms(1) by auto
  have "downloading m = 0" unfolding downloading_def none by simp
  then show ?thesis using assms(2) by (simp add: fill_slots_def)
qed

theorem seeding_blocks_witness:
  "fill_slots (ex_manager StSeeding\<lparr>mg_active := {0}\<rparr>) = (ex_manager StSeeding\<lparr>mg_active := {0}\<rparr>, [])"
  using seeding_blocks [of "ex_manager StSeeding\<lparr>mg_active := {0}\<rparr>"]
  by (simp add: ex_manager_def add_task_def new_manager_def)

text \<open>
  A resume that is refused because files must be chosen first has already taken the failed task off the list
  of results.
\<close>

lemma refused_resume_unlists:
  "g \<in> mg_tasks m \<Longrightarrow> status_of m g = StError \<Longrightarrow> must_select (mg_store m g) \<Longrightarrow>
   snd (unpause g m) = MustSelect \<and> g \<notin> set (mg_stopped (fst (unpause g m))) \<and> status_of (fst (unpause g m)) g = StError"
  by (simp add: unpause_def Let_def)

end
