(* ===== verification/Task_Lists.thy ===== *)
theory Task_Lists
  imports Task_Calm
begin

text \<open>
  The lists of the manager (\<open>tell_active\<close>, \<open>tell_waiting\<close>, \<open>tell_stopped\<close>, \<open>list_native\<close>, \<open>stat_raw\<close>) and its
  session: what is saved of the tasks and what \<open>restore_tasks\<close> makes of it. \<open>aord\<close> and \<open>tord\<close> are the orders in
  which the hash sets of running and of known tasks are walked.
\<close>

section \<open>Lists\<close>

definition by_age :: "mgr \<Rightarrow> gid list \<Rightarrow> gid list" where
  "by_age m gs = sort_key (\<lambda>g. tk_created_at (mg_store m g)) gs"

definition list_active :: "gid list \<Rightarrow> mgr \<Rightarrow> gid list" where
  "list_active aord m = by_age m (filter (\<lambda>g. g \<in> mg_tasks m) aord)"

definition list_waiting :: "mgr \<Rightarrow> gid list" where
  "list_waiting m = filter (\<lambda>g. g \<in> mg_tasks m) (mg_queue m)"

definition list_paused :: "gid list \<Rightarrow> mgr \<Rightarrow> gid list" where
  "list_paused tord m = by_age m (filter (\<lambda>g. status_of m g = StPaused) tord)"

definition list_stopped :: "mgr \<Rightarrow> gid list" where
  "list_stopped m = filter (\<lambda>g. g \<in> mg_tasks m) (rev (mg_stopped m))"

definition slice_tasks :: "int \<Rightarrow> int \<Rightarrow> 'a list \<Rightarrow> 'a list" where
  "slice_tasks offset num ordered =
     (let start = nat (max offset 0) in
      if length ordered \<le> start then []
      else if num < 0 then drop start ordered
      else take (min (start + nat num) (length ordered) - start) (drop start ordered))"

datatype scope = ScActive | ScWaiting | ScStopped | ScAll

definition list_native :: "gid list \<Rightarrow> gid list \<Rightarrow> scope \<Rightarrow> int \<Rightarrow> int \<Rightarrow> mgr \<Rightarrow> gid list" where
  "list_native aord tord sc offset num m =
     slice_tasks offset num
       ((if sc \<in> {ScActive, ScAll} then list_active aord m else [])
        @ (if sc \<in> {ScWaiting, ScAll} then list_waiting m else [])
        @ (if sc \<in> {ScStopped, ScAll} then list_paused tord m @ list_stopped m else []))"

lemma slice_all: "slice_tasks 0 (- 1) xs = xs"
  by (simp add: slice_tasks_def)

text \<open>Pages of a positive size, one after the other, give the whole list.\<close>

lemma slice_pages: "slice_tasks (int a) (int n) xs @ slice_tasks (int (a + n)) (- 1) xs = drop a xs"
proof -
  have "slice_tasks (int a) (int n) xs = take n (drop a xs)"
    by (cases "length xs \<le> a") (auto simp: slice_tasks_def Let_def min_def)
  moreover have "slice_tasks (int (a + n)) (- 1) xs = drop (a + n) xs"
    using nat_int [of "a + n"] by (auto simp: slice_tasks_def Let_def simp del: of_nat_add)
  ultimately show ?thesis by (metis add.commute append_take_drop_id drop_drop)
qed

text \<open>
  C16. As long as no operations overlap, the list of all tasks shows every task once; the only tasks it can miss
  are failed ones that a refused resume has taken off the list of results.
\<close>

theorem list_all_tasks:
  assumes "calm_reach n (m, ws)" "distinct aord" "set aord = mg_active m" "distinct tord" "set tord = mg_tasks m"
  shows "distinct (list_native aord tord ScAll 0 (- 1) m)
    \<and> set (list_native aord tord ScAll 0 (- 1) m)
        = mg_tasks m - {g \<in> mg_tasks m. status_of m g = StError \<and> g \<notin> set (mg_stopped m)}"
proof -
  have c: "calm (m, ws)" by (rule calm_reach_calm [OF assms(1)])
  note ok = task_okD [OF calmD(7) [OF c]]
  let ?parts = "list_active aord m @ list_waiting m @ list_paused tord m @ list_stopped m"
  have all: "list_native aord tord ScAll 0 (- 1) m = ?parts" by (simp add: list_native_def slice_all)
  have a: "set (list_active aord m) = {g \<in> mg_tasks m. status_of m g \<in> {StActive, StSeeding}}"
    using ok(2) by (auto simp: list_active_def by_age_def assms(3))
  have w: "set (list_waiting m) = {g \<in> mg_tasks m. status_of m g = StWaiting}"
    using ok(1) by (auto simp: list_waiting_def)
  have p: "set (list_paused tord m) = {g \<in> mg_tasks m. status_of m g = StPaused}"
    by (auto simp: list_paused_def by_age_def assms(5))
  have st: "set (list_stopped m) = set (mg_stopped m)" using ok(4) by (auto simp: list_stopped_def)
  have "distinct ?parts"
  proof -
    have d: "distinct (list_active aord m)" "distinct (list_waiting m)" "distinct (list_paused tord m)"
      "distinct (list_stopped m)"
      using assms(2,4) calmD(1,3) [OF c]
      by (simp_all add: list_active_def list_waiting_def list_paused_def list_stopped_def by_age_def)
    have e: "status_of m g \<in> {StComplete, StError}" if "g \<in> set (mg_stopped m)" for g using ok(4) [OF that] by simp
    show ?thesis
      unfolding distinct_append set_append a w p st
      by (intro conjI d) (auto dest!: e)
  qed
  moreover have "g \<in> set ?parts \<longleftrightarrow> g \<in> mg_tasks m - {g \<in> mg_tasks m. status_of m g = StError \<and> g \<notin> set (mg_stopped m)}" for g
    using ok(4) [of g] ok(5) [of g] ok(7) [of g] by (cases "status_of m g") (auto simp: a w p st)
  ultimately show ?thesis unfolding all by blast
qed

theorem list_all_tasks_witness:
  "set (list_native [] [7] ScAll 0 (- 1) (kick (add_task 7 False None None [] None (new_manager 2)))) = {7}"
proof -
  let ?m = "kick (add_task 7 False None None [] None (new_manager 2))"
  have "calm_reach 2 (?m, [])"
    by (rule reach_step [OF reach_new calm_add]) (simp add: new_manager_def)
  from list_all_tasks [OF this, of "[]" "[7]"] show ?thesis
    by (auto simp: add_task_def new_manager_def)
qed

section \<open>The session\<close>

text \<open>
  What the session keeps of a task and of the manager. Texts and numbers go through \<open>serde_json\<close> unchanged; a task
  that runs is written as waiting, no path as the empty text.
\<close>

record saved_task =
  sv_gid :: gid
  sv_status :: status
  sv_path :: path
  sv_error_code :: int
  sv_finished_at :: nat
  sv_elapsed :: nat
  sv_awaiting :: bool
  sv_selected :: "nat list option"
  sv_meta :: "nat option"
  sv_dir :: path

definition unwrap_path :: "path option \<Rightarrow> path" where
  "unwrap_path p = (case p of None \<Rightarrow> [] | Some q \<Rightarrow> q)"

definition save_task :: "mgr \<Rightarrow> gid \<Rightarrow> saved_task" where
  "save_task m g =
     (let t = mg_store m g in
      \<lparr>sv_gid = g, sv_status = (if tk_status t \<in> {StActive, StSeeding} then StWaiting else tk_status t),
       sv_path = unwrap_path (tk_path t), sv_error_code = tk_error_code t, sv_finished_at = tk_finished_at t,
       sv_elapsed = elapsed_ms (mg_now m) t, sv_awaiting = tk_awaiting t, sv_selected = tk_selected t,
       sv_meta = tk_meta t, sv_dir = tk_dir t\<rparr>)"

record session =
  se_tasks :: "saved_task list"
  se_stopped_total :: nat

definition session_json :: "gid list \<Rightarrow> mgr \<Rightarrow> session" where
  "session_json tord m =
     \<lparr>se_tasks = map (save_task m) (by_age m (filter (\<lambda>g. g \<in> mg_tasks m) tord)), se_stopped_total = mg_stopped_total m\<rparr>"

text \<open>
  A task comes back as it ended, or paused; without a worker, a claim or a place in the queue.
\<close>

definition restored :: "nat \<Rightarrow> nat \<Rightarrow> saved_task \<Rightarrow> task" where
  "restored now token sv =
     (fresh_task now token (sv_awaiting sv) (sv_meta sv) (if sv_selected sv = Some [] then None else sv_selected sv)
        (sv_dir sv))
       \<lparr>tk_active_ms := sv_elapsed sv, tk_path := (if sv_path sv = [] then None else Some (sv_path sv)),
        tk_error_code := sv_error_code sv, tk_finished_at := sv_finished_at sv,
        tk_status := (if is_terminal (sv_status sv) then sv_status sv else StPaused)\<rparr>"

definition restore_task :: "saved_task \<Rightarrow> mgr \<Rightarrow> mgr" where
  "restore_task sv m =
     m\<lparr>mg_tasks := insert (sv_gid sv) (mg_tasks m), mg_ever := insert (sv_gid sv) (mg_ever m),
       mg_store := (mg_store m)(sv_gid sv := restored (mg_now m) (mg_next_token m) sv),
       mg_next_token := Suc (mg_next_token m),
       mg_stopped := mg_stopped m @ (if is_terminal (tk_status (restored (mg_now m) (mg_next_token m) sv)) then [sv_gid sv] else [])\<rparr>"

definition restore_tasks :: "session \<Rightarrow> mgr \<Rightarrow> mgr" where
  "restore_tasks se m =
     (let m1 = fold restore_task (se_tasks se) m;
          m2 = m1\<lparr>mg_stopped_total := max (max (mg_stopped_total m1) (se_stopped_total se)) (length (mg_stopped m1))\<rparr>
      in kick (evict (length (mg_stopped m2)) m2))"

lemma restored_simps [simp]:
  "tk_status (restored now tok sv) = (if is_terminal (sv_status sv) then sv_status sv else StPaused)"
  "tk_token (restored now tok sv) = tok" "tk_intent (restored now tok sv) = IntentNone"
  "tk_path (restored now tok sv) = (if sv_path sv = [] then None else Some (sv_path sv))"
  "tk_error_code (restored now tok sv) = sv_error_code sv" "tk_finished_at (restored now tok sv) = sv_finished_at sv"
  "elapsed_ms later (restored now tok sv) = sv_elapsed sv" "tk_awaiting (restored now tok sv) = sv_awaiting sv"
  "tk_selected (restored now tok sv) = (if sv_selected sv = Some [] then None else sv_selected sv)"
  "tk_meta (restored now tok sv) = sv_meta sv" "tk_dir (restored now tok sv) = sv_dir sv"
  by (simp_all add: restored_def fresh_task_def elapsed_ms_def)

lemma restore_task_simps [simp]:
  "mg_queue (restore_task sv m) = mg_queue m" "mg_active (restore_task sv m) = mg_active m"
  "mg_claims (restore_task sv m) = mg_claims m" "mg_cancelled (restore_task sv m) = mg_cancelled m"
  "mg_max (restore_task sv m) = mg_max m" "mg_now (restore_task sv m) = mg_now m"
  "mg_tasks (restore_task sv m) = insert (sv_gid sv) (mg_tasks m)"
  "mg_ever (restore_task sv m) = insert (sv_gid sv) (mg_ever m)"
  "mg_next_token (restore_task sv m) = Suc (mg_next_token m)"
  "mg_store (restore_task sv m) = (mg_store m)(sv_gid sv := restored (mg_now m) (mg_next_token m) sv)"
  "mg_stopped (restore_task sv m) = mg_stopped m @ (if is_terminal (sv_status sv) then [sv_gid sv] else [])"
  by (auto simp: restore_task_def is_terminal_def)

lemma fold_restore_simps [simp]:
  "mg_queue (fold restore_task svs m) = mg_queue m" "mg_active (fold restore_task svs m) = mg_active m"
  "mg_claims (fold restore_task svs m) = mg_claims m" "mg_cancelled (fold restore_task svs m) = mg_cancelled m"
  "mg_tasks (fold restore_task svs m) = mg_tasks m \<union> sv_gid ` set svs"
  "mg_ever (fold restore_task svs m) = mg_ever m \<union> sv_gid ` set svs"
  "mg_next_token (fold restore_task svs m) = mg_next_token m + length svs"
  "mg_now (fold restore_task svs m) = mg_now m"
  "mg_stopped (fold restore_task svs m) = mg_stopped m @ map sv_gid (filter (\<lambda>sv. is_terminal (sv_status sv)) svs)"
  by (induction svs arbitrary: m) auto

lemma fold_restore_store:
  assumes "distinct (map sv_gid svs)" "i < length svs"
  shows "mg_store (fold restore_task svs m) (sv_gid (svs ! i)) = restored (mg_now m) (mg_next_token m + i) (svs ! i)"
  using assms
proof (induction svs arbitrary: m i)
  case (Cons sv svs)
  have keep: "mg_store (fold restore_task svs m') g = mg_store m' g" if "g \<notin> sv_gid ` set svs" for m' g
    using that by (induction svs arbitrary: m') auto
  show ?case using Cons.prems Cons.IH [of "i - 1" "restore_task sv m"] keep by (cases i) auto
qed simp

section \<open>A restart\<close>

definition saved_tasks :: "gid list \<Rightarrow> mgr \<Rightarrow> gid list" where
  "saved_tasks tord m = by_age m (filter (\<lambda>g. g \<in> mg_tasks m) tord)"

lemma sv_save_task [simp]:
  "sv_gid (save_task m g) = g"
  "sv_status (save_task m g) = (if status_of m g \<in> {StActive, StSeeding} then StWaiting else status_of m g)"
  "sv_path (save_task m g) = unwrap_path (tk_path (mg_store m g))"
  "sv_error_code (save_task m g) = tk_error_code (mg_store m g)"
  "sv_finished_at (save_task m g) = tk_finished_at (mg_store m g)"
  "sv_elapsed (save_task m g) = elapsed_ms (mg_now m) (mg_store m g)"
  "sv_awaiting (save_task m g) = tk_awaiting (mg_store m g)"
  "sv_selected (save_task m g) = tk_selected (mg_store m g)"
  "sv_meta (save_task m g) = tk_meta (mg_store m g)" "sv_dir (save_task m g) = tk_dir (mg_store m g)"
  by (simp_all add: save_task_def Let_def)

lemma session_tasks: "se_tasks (session_json tord m) = map (save_task m) (saved_tasks tord m)"
  by (simp add: session_json_def saved_tasks_def)

lemma saved_terminal: "is_terminal (sv_status (save_task m g)) = is_terminal (status_of m g)"
  by (simp add: is_terminal_def)

lemma saved_tasks_simps:
  assumes "distinct tord" "set tord = mg_tasks m"
  shows "distinct (saved_tasks tord m)" "set (saved_tasks tord m) = mg_tasks m"
  using assms by (auto simp: saved_tasks_def by_age_def)

text \<open>With at most 1000 finished tasks nothing is evicted.\<close>

lemma restored_manager:
  fixes k :: nat
  assumes "distinct tord" "set tord = mg_tasks m" "card {g \<in> mg_tasks m. is_terminal (status_of m g)} \<le> MAX_RESULTS"
  defines "m' \<equiv> restore_tasks (session_json tord m) (new_manager k)"
  shows "mg_queue m' = []" "mg_active m' = {}" "mg_claims m' = {}" "mg_cancelled m' = {}" "mg_tasks m' = mg_tasks m"
    "mg_ever m' = mg_tasks m" "mg_next_token m' = Suc (card (mg_tasks m))"
    "mg_stopped m' = filter (\<lambda>g. is_terminal (status_of m g)) (saved_tasks tord m)"
    "i < length (saved_tasks tord m) \<Longrightarrow>
       mg_store m' (saved_tasks tord m ! i) = restored 0 (Suc i) (save_task m (saved_tasks tord m ! i))"
proof -
  let ?gs = "saved_tasks tord m"
  let ?m1 = "fold restore_task (map (save_task m) ?gs) (new_manager k)"
  note gs = saved_tasks_simps [OF assms(1,2)]
  have stopped: "mg_stopped ?m1 = filter (\<lambda>g. is_terminal (status_of m g)) ?gs"
    by (simp only: fold_restore_simps) (simp add: filter_map comp_def saved_terminal new_manager_def del: sv_save_task(2))
  have "length (mg_stopped ?m1) = card {g \<in> mg_tasks m. is_terminal (status_of m g)}"
    unfolding stopped using distinct_card [OF distinct_filter [OF gs(1)], of "\<lambda>g. is_terminal (status_of m g)"] gs(2)
    by simp
  then have few: "length (mg_stopped ?m1) \<le> MAX_RESULTS" using assms(3) by simp
  have evict_none: "evict n m2 = m2" if "length (mg_stopped m2) \<le> MAX_RESULTS" for n m2 using that by (cases n) auto
  have m': "m' = kick (?m1\<lparr>mg_stopped_total := max (max (mg_stopped_total ?m1) (se_stopped_total (session_json tord m)))
                                                   (length (mg_stopped ?m1))\<rparr>)"
    unfolding m'_def restore_tasks_def session_tasks Let_def by (subst evict_none) (use few in auto)
  show "mg_queue m' = []" "mg_active m' = {}" "mg_claims m' = {}" "mg_cancelled m' = {}" "mg_tasks m' = mg_tasks m"
    "mg_ever m' = mg_tasks m"
    unfolding m' by (simp_all add: new_manager_def gs image_image)
  show "mg_next_token m' = Suc (card (mg_tasks m))"
    unfolding m' using distinct_card [OF gs(1)] by (simp add: new_manager_def gs)
  show "mg_stopped m' = filter (\<lambda>g. is_terminal (status_of m g)) ?gs" unfolding m' using stopped by simp
  show "mg_store m' (?gs ! i) = restored 0 (Suc i) (save_task m (?gs ! i))" if "i < length ?gs"
    using fold_restore_store [of "map (save_task m) ?gs" i "new_manager k"] that gs(1)
    unfolding m' by (simp add: comp_def new_manager_def)
qed



end
