(* ===== verification/Torrent_Meta.thy ===== *)
theory Torrent_Meta
  imports Krpc Bencode_Ranges Piece_Layout Http_Text "HOL-Library.Code_Target_Nat"
begin

text \<open>
  Torrent files and magnet links: \<open>crates/xfer-bencode/src/torrent.rs\<close> and \<open>magnet.rs\<close>. \<open>sha1\<close> and \<open>guess\<close>
  (the guess of a character set, \<open>decode_text\<close>) are arguments. Lengths are naturals; sums and products of the
  source's \<open>u64\<close> wrap, which is written out.
\<close>

section \<open>The info dictionary\<close>

record torrent_info =
  in_name :: bytes
  in_piece_length :: nat
  in_pieces :: "bytes list"
  in_files :: "(bytes list \<times> nat) list"
  in_multi_file :: bool
  in_private :: bool

record torrent_meta =
  tm_info :: torrent_info
  tm_info_hash :: bytes
  tm_announce :: "bytes option"
  tm_announce_list :: "bytes list list"
  tm_comment :: "bytes option"
  tm_created_by :: "bytes option"
  tm_creation_date :: "i64 option"
  tm_raw_bencode :: "bytes option"
  tm_raw_info :: "bytes option"

datatype torrent_error =
    TBencode bencode_error
  | TopNotDict
  | NoInfo
  | InfoTrailing
  | InfoNotDict
  | NoName
  | BadPieceLength
  | NoPieces
  | PiecesLength nat
  | NegativeFile
  | NoFiles
  | EntryNotDict
  | EntryLength
  | EntryPath
  | EntryPathEmpty

text \<open>A path segment cannot step out of its directory; \<open>:\<close> is a drive letter or a stream on Windows.\<close>

definition sanitize_segment :: "bytes \<Rightarrow> bytes" where
  "sanitize_segment seg =
     (if 0 \<in> set seg then lit ''_''
      else
        let cleaned = map (\<lambda>c. if c = 47 \<or> c = 92 \<or> c = 58 then 95 else c) seg
        in if cleaned = [] \<or> cleaned = lit ''.'' \<or> cleaned = lit ''..'' then lit ''_'' else cleaned)"

definition get_either :: "bdict \<Rightarrow> string \<Rightarrow> string \<Rightarrow> bvalue option" where
  "get_either d k1 k2 = (case map_of d (lit k1) of Some v \<Rightarrow> Some v | None \<Rightarrow> map_of d (lit k2))"

definition get_int :: "bdict \<Rightarrow> string \<Rightarrow> int option" where
  "get_int d k = (case map_of d (lit k) of None \<Rightarrow> None | Some v \<Rightarrow> map_option sint (as_int v))"

definition get_bytes :: "bdict \<Rightarrow> string \<Rightarrow> bytes option" where
  "get_bytes d k = (case map_of d (lit k) of None \<Rightarrow> None | Some v \<Rightarrow> as_bytes v)"

definition get_list :: "bdict \<Rightarrow> string \<Rightarrow> bvalue list option" where
  "get_list d k = (case map_of d (lit k) of None \<Rightarrow> None | Some v \<Rightarrow> as_list v)"

definition get_str :: "bdict \<Rightarrow> string \<Rightarrow> bytes option" where
  "get_str d k = (case map_of d (lit k) of None \<Rightarrow> None | Some v \<Rightarrow> as_str v)"

text \<open>The parts of a path are joined with NUL and cut at NUL again, so a part with a NUL is two.\<close>

definition file_entry :: "(bytes \<Rightarrow> bytes) \<Rightarrow> bvalue \<Rightarrow> torrent_error + bytes list \<times> nat" where
  "file_entry guess f =
     (case as_dict f of
        None \<Rightarrow> Inl EntryNotDict
      | Some fd \<Rightarrow>
          (case get_int fd ''length'' of
             None \<Rightarrow> Inl EntryLength
           | Some len \<Rightarrow>
               if len < 0 then Inl EntryLength
               else (case Option.bind (get_either fd ''path.utf-8'' ''path'') as_list of
                 None \<Rightarrow> Inl EntryPath
               | Some raw \<Rightarrow>
                   let path_raw = concat (map (\<lambda>b. b @ [0]) (List.map_filter as_bytes raw));
                       parts = map (\<lambda>s. sanitize_segment (guess s)) (filter (\<lambda>s. s \<noteq> []) (split_on 0 path_raw))
                   in if parts = [] then Inl EntryPathEmpty else Inr (parts, nat len))))"

fun file_entries :: "(bytes \<Rightarrow> bytes) \<Rightarrow> bvalue list \<Rightarrow> torrent_error + (bytes list \<times> nat) list" where
  "file_entries guess [] = Inr []"
| "file_entries guess (f # fs) =
     (case file_entry guess f of
        Inl e \<Rightarrow> Inl e
      | Inr x \<Rightarrow> (case file_entries guess fs of Inl e \<Rightarrow> Inl e | Inr xs \<Rightarrow> Inr (x # xs)))"

definition info_files :: "(bytes \<Rightarrow> bytes) \<Rightarrow> bytes \<Rightarrow> bdict \<Rightarrow> torrent_error + (bytes list \<times> nat) list \<times> bool" where
  "info_files guess name d =
     (case get_int d ''length'' of
        Some len \<Rightarrow> if len < 0 then Inl NegativeFile else Inr ([([name], nat len)], False)
      | None \<Rightarrow>
          (case get_list d ''files'' of
             None \<Rightarrow> Inl NoFiles
           | Some fs \<Rightarrow> (case file_entries guess fs of Inl e \<Rightarrow> Inl e | Inr out \<Rightarrow> Inr (out, True))))"

definition parse_info :: "(bytes \<Rightarrow> bytes) \<Rightarrow> bvalue \<Rightarrow> torrent_error + torrent_info" where
  "parse_info guess v =
     (case as_dict v of
        None \<Rightarrow> Inl InfoNotDict
      | Some d \<Rightarrow>
          (case Option.bind (get_either d ''name.utf-8'' ''name'') as_bytes of
             None \<Rightarrow> Inl NoName
           | Some raw_name \<Rightarrow>
               let name = sanitize_segment (guess raw_name) in
               (case get_int d ''piece length'' of
                  None \<Rightarrow> Inl BadPieceLength
                | Some pl \<Rightarrow>
                    if \<not> 0 < pl then Inl BadPieceLength
                    else (case get_bytes d ''pieces'' of
                      None \<Rightarrow> Inl NoPieces
                    | Some pieces_raw \<Rightarrow>
                        if length pieces_raw mod 20 \<noteq> 0 then Inl (PiecesLength (length pieces_raw))
                        else (case info_files guess name d of
                          Inl e \<Rightarrow> Inl e
                        | Inr (files, multi) \<Rightarrow>
                            Inr \<lparr>in_name = name, in_piece_length = nat pl, in_pieces = chunks_exact 20 pieces_raw,
                                 in_files = files, in_multi_file = multi,
                                 in_private = (case get_int d ''private'' of Some n \<Rightarrow> n \<noteq> 0 | None \<Rightarrow> False)\<rparr>)))))"

definition parse_torrent :: "(bytes \<Rightarrow> bytes) \<Rightarrow> (bytes \<Rightarrow> bytes) \<Rightarrow> bytes \<Rightarrow> torrent_error + torrent_meta" where
  "parse_torrent sha1 guess bs =
     (case parse_root bs of
        Inl e \<Rightarrow> Inl (TBencode e)
      | Inr (root, ranges) \<Rightarrow>
          (case as_dict root of
             None \<Rightarrow> Inl TopNotDict
           | Some d \<Rightarrow>
               (case map_of ranges (lit ''info'') of
                  None \<Rightarrow> Inl NoInfo
                | Some (a, b) \<Rightarrow>
                    let info_bytes = slice bs a b in
                    (case map_of d (lit ''info'') of
                       None \<Rightarrow> Inl NoInfo
                     | Some v \<Rightarrow>
                         (case parse_info guess v of
                            Inl e \<Rightarrow> Inl e
                          | Inr info \<Rightarrow>
                              Inr \<lparr>tm_info = info, tm_info_hash = sha1 info_bytes,
                                   tm_announce = get_str d ''announce'',
                                   tm_announce_list =
                                     (case get_list d ''announce-list'' of
                                        None \<Rightarrow> []
                                      | Some tiers \<Rightarrow> map (List.map_filter as_str) (List.map_filter as_list tiers)),
                                   tm_comment = get_str d ''comment'', tm_created_by = get_str d ''created by'',
                                   tm_creation_date = Option.bind (map_of d (lit ''creation date'')) as_int,
                                   tm_raw_bencode = Some bs, tm_raw_info = Some info_bytes\<rparr>)))))"

definition parse_info_bytes :: "(bytes \<Rightarrow> bytes) \<Rightarrow> (bytes \<Rightarrow> bytes) \<Rightarrow> bytes \<Rightarrow> torrent_error + torrent_meta" where
  "parse_info_bytes sha1 guess bs =
     (case decode_prefix bs of
        Inl e \<Rightarrow> Inl (TBencode e)
      | Inr (root, consumed) \<Rightarrow>
          if consumed \<noteq> length bs then Inl InfoTrailing
          else (case parse_info guess root of
            Inl e \<Rightarrow> Inl e
          | Inr info \<Rightarrow>
              Inr \<lparr>tm_info = info, tm_info_hash = sha1 bs, tm_announce = None, tm_announce_list = [],
                   tm_comment = None, tm_created_by = None, tm_creation_date = None, tm_raw_bencode = None,
                   tm_raw_info = Some bs\<rparr>))"

section \<open>Geometry\<close>

definition u64 :: "nat \<Rightarrow> nat" where
  "u64 n = n mod 2 ^ 64"

definition info_total_length :: "torrent_info \<Rightarrow> nat" where
  "info_total_length i = fold (\<lambda>f acc. u64 (acc + snd f)) (in_files i) 0"

fun join_slash :: "bytes list \<Rightarrow> bytes" where
  "join_slash [] = []"
| "join_slash [s] = s"
| "join_slash (s # ss) = s @ 47 # join_slash ss"

definition file_rel_path :: "torrent_info \<Rightarrow> bytes list \<Rightarrow> bytes" where
  "file_rel_path i p = (if in_multi_file i then in_name i @ [47] @ join_slash p else join_slash p)"

definition info_piece_count :: "torrent_info \<Rightarrow> nat" where
  "info_piece_count i =
     (let by_len = (if in_piece_length i = 0 then 0 else div_ceil (info_total_length i) (in_piece_length i))
      in min by_len (length (in_pieces i)) mod 2 ^ 32)"

definition info_piece_len :: "torrent_info \<Rightarrow> nat \<Rightarrow> nat" where
  "info_piece_len i index =
     (let start = u64 (index * in_piece_length i)
      in if info_total_length i \<le> start then 0 else min (info_total_length i - start) (in_piece_length i))"

fun info_segments_loop :: "nat \<Rightarrow> nat \<Rightarrow> nat \<Rightarrow> nat \<Rightarrow> (bytes list \<times> nat) list \<Rightarrow> (nat \<times> nat \<times> nat) list" where
  "info_segments_loop ps pe cursor fi [] = []"
| "info_segments_loop ps pe cursor fi (f # fs) =
     (let f_start = cursor; f_end = u64 (cursor + snd f); rest = info_segments_loop ps pe f_end (Suc fi) fs
      in if pe \<le> f_start \<or> f_end \<le> ps then rest
         else let seg_start = max ps f_start - f_start; seg_end = min pe f_end - f_start
              in (fi, seg_start, seg_end - seg_start) # rest)"

definition info_piece_segments :: "torrent_info \<Rightarrow> nat \<Rightarrow> (nat \<times> nat \<times> nat) list" where
  "info_piece_segments i index =
     (let ps = u64 (index * in_piece_length i);
          pe = min (u64 (ps + in_piece_length i)) (info_total_length i)
      in info_segments_loop ps pe 0 0 (in_files i))"

text \<open>Without a file the last one does not exist: the subtraction wraps.\<close>

fun locate_loop :: "nat \<Rightarrow> nat \<Rightarrow> nat \<Rightarrow> (bytes list \<times> nat) list \<Rightarrow> nat \<times> nat" where
  "locate_loop g cursor fi [] = (u64 (fi + 2 ^ 64 - 1), 0)"
| "locate_loop g cursor fi (f # fs) =
     (if g < u64 (cursor + snd f) then (fi, g - cursor) else locate_loop g (u64 (cursor + snd f)) (Suc fi) fs)"

definition locate :: "torrent_info \<Rightarrow> nat \<Rightarrow> nat \<times> nat" where
  "locate i g = locate_loop g 0 0 (in_files i)"

fun file_offsets_from :: "nat \<Rightarrow> (bytes list \<times> nat) list \<Rightarrow> nat list" where
  "file_offsets_from cursor [] = []"
| "file_offsets_from cursor (f # fs) = cursor # file_offsets_from (u64 (cursor + snd f)) fs"

definition file_offsets :: "torrent_info \<Rightarrow> nat list" where
  "file_offsets i = file_offsets_from 0 (in_files i)"

section \<open>Magnet links\<close>

record magnet =
  mn_info_hash :: bytes
  mn_display_name :: "bytes option"
  mn_trackers :: "bytes list"

fun hex_bytes :: "bytes \<Rightarrow> bytes" where
  "hex_bytes (a # b # s) = of_nat (hex_val a * 16 + hex_val b) # hex_bytes s"
| "hex_bytes _ = []"

definition ALPHABET :: bytes where
  "ALPHABET = lit ''ABCDEFGHIJKLMNOPQRSTUVWXYZ234567''"

fun index_of :: "'a \<Rightarrow> 'a list \<Rightarrow> nat option" where
  "index_of x [] = None"
| "index_of x (y # ys) = (if x = y then Some 0 else map_option Suc (index_of x ys))"

text \<open>\<open>bits\<close> never exceeds 12 bits, so the source's 64 do not wrap.\<close>

fun base32_loop :: "nat \<Rightarrow> nat \<Rightarrow> bytes \<Rightarrow> bytes \<Rightarrow> bytes option" where
  "base32_loop bits nbits out [] = Some out"
| "base32_loop bits nbits out (c # s) =
     (case index_of c ALPHABET of
        None \<Rightarrow> None
      | Some v \<Rightarrow>
          let bits = bits * 32 + v; nbits = nbits + 5
          in if 8 \<le> nbits
             then let nbits = nbits - 8 in base32_loop (bits mod 2 ^ nbits) nbits (out @ [of_nat (bits div 2 ^ nbits)]) s
             else base32_loop bits nbits out s)"

definition base32_decode :: "bytes \<Rightarrow> bytes option" where
  "base32_decode s = (case base32_loop 0 0 [] s of None \<Rightarrow> None | Some out \<Rightarrow> if length out \<noteq> 20 then None else Some out)"

definition parse_btih :: "bytes \<Rightarrow> bytes option" where
  "parse_btih s =
     (if length s = 40 \<and> list_all is_hex_digit s then Some (hex_bytes s)
      else if length s = 32 then base32_decode s else None)"

fun magnet_parts :: "(bytes \<Rightarrow> bytes) \<Rightarrow> bytes list \<Rightarrow> bytes option \<Rightarrow> bytes option \<Rightarrow> bytes list \<Rightarrow> magnet option" where
  "magnet_parts guess [] hash name trackers =
     (case hash of
        None \<Rightarrow> None
      | Some h \<Rightarrow> Some \<lparr>mn_info_hash = h, mn_display_name = name, mn_trackers = trackers\<rparr>)"
| "magnet_parts guess (part # parts) hash name trackers =
     (case split_once 61 part of
        None \<Rightarrow> magnet_parts guess parts hash name trackers
      | Some (k, v0) \<Rightarrow>
          let v = guess (percent_to_bytes v0) in
          if k = lit ''xt'' then
            (case strip_prefix (lit ''urn:btih:'') v of
               None \<Rightarrow> magnet_parts guess parts hash name trackers
             | Some h \<Rightarrow>
                 (case parse_btih h of None \<Rightarrow> None | Some b \<Rightarrow> magnet_parts guess parts (Some b) name trackers))
          else if k = lit ''dn'' then magnet_parts guess parts hash (Some v) trackers
          else if k = lit ''tr'' \<and> v \<noteq> [] then magnet_parts guess parts hash name (trackers @ [v])
          else magnet_parts guess parts hash name trackers)"

definition parse_magnet :: "(bytes \<Rightarrow> bytes) \<Rightarrow> bytes \<Rightarrow> magnet option" where
  "parse_magnet guess uri =
     (case strip_prefix (lit ''magnet:'') uri of
        None \<Rightarrow> None
      | Some rest0 \<Rightarrow>
          let rest = (case strip_prefix (lit ''?'') rest0 of Some r \<Rightarrow> r | None \<Rightarrow> rest0)
          in magnet_parts guess (split_on 38 rest) None None [])"

section \<open>Paths\<close>

definition segment_ok :: "bytes \<Rightarrow> bool" where
  "segment_ok s \<longleftrightarrow> s \<noteq> [] \<and> s \<noteq> lit ''.'' \<and> s \<noteq> lit ''..'' \<and> set s \<inter> {0, 47, 92, 58} = {}"

lemma sanitize_segment_ok: "segment_ok (sanitize_segment seg)"
  by (auto simp: segment_ok_def sanitize_segment_def Let_def lit_def)

definition path_ok :: "bytes list \<Rightarrow> bool" where
  "path_ok p \<longleftrightarrow> p \<noteq> [] \<and> list_all segment_ok p"

lemma file_entry_ok: "file_entry guess f = Inr (p, n) \<Longrightarrow> path_ok p"
  by (auto simp: path_ok_def file_entry_def Let_def list_all_iff sanitize_segment_ok split: option.splits if_splits)

lemma file_entries_ok: "file_entries guess fs = Inr xs \<Longrightarrow> (p, n) \<in> set xs \<Longrightarrow> path_ok p"
proof (induction fs arbitrary: xs)
  case (Cons f fs)
  then obtain x ys where "file_entry guess f = Inr x" "file_entries guess fs = Inr ys" "xs = x # ys"
    by (auto split: sum.splits)
  then show ?case using Cons.IH Cons.prems(2) file_entry_ok [of guess f] by auto
qed simp

lemma info_files_ok:
  assumes "info_files guess name d = Inr (fs, multi)" "segment_ok name" "(p, n) \<in> set fs"
  shows "path_ok p"
  using assms by (auto simp: info_files_def path_ok_def split: option.splits if_splits sum.splits)
    (auto simp: path_ok_def dest: file_entries_ok)

lemma chunks_exact_lengths: "list_all (\<lambda>h. length h = k) (chunks_exact k bs)"
proof (induction k bs rule: chunks_exact.induct)
  case (1 k bs)
  then show ?case by (subst chunks_exact.simps) auto
qed

lemma parse_info_ok:
  assumes "parse_info guess v = Inr i"
  shows "segment_ok (in_name i)" "(p, n) \<in> set (in_files i) \<Longrightarrow> path_ok p"
    "0 < in_piece_length i" "list_all (\<lambda>h. length h = 20) (in_pieces i)"
proof -
  obtain d raw files multi where i: "info_files guess (sanitize_segment (guess raw)) d = Inr (files, multi)"
      "in_name i = sanitize_segment (guess raw)" "in_files i = files" "0 < in_piece_length i"
      "\<exists>bs. in_pieces i = chunks_exact 20 bs"
    using assms by (auto simp: parse_info_def Let_def split: option.splits if_splits sum.splits) blast+
  show "segment_ok (in_name i)" "0 < in_piece_length i" using i by (simp_all add: sanitize_segment_ok)
  show "path_ok p" if "(p, n) \<in> set (in_files i)" using info_files_ok [OF i(1) sanitize_segment_ok] that i(3) by simp
  show "list_all (\<lambda>h. length h = 20) (in_pieces i)" using i(5) chunks_exact_lengths by auto
qed

lemma split_on_from_miss: "c \<notin> set s \<Longrightarrow> split_on_from c cur s = [cur @ s]"
  by (induction s arbitrary: cur) auto

lemma split_on_from_hit: "c \<notin> set s \<Longrightarrow> split_on_from c cur (s @ c # t) = (cur @ s) # split_on_from c [] t"
  by (induction s arbitrary: cur) auto

lemma split_join_slash: "p \<noteq> [] \<Longrightarrow> list_all (\<lambda>s. 47 \<notin> set s) p \<Longrightarrow> split_on 47 (join_slash p) = p"
  by (induction p rule: join_slash.induct) (auto simp: split_on_def split_on_from_miss split_on_from_hit)

lemma segments_no_slash: "list_all segment_ok p \<Longrightarrow> list_all (\<lambda>s. 47 \<notin> set s) p"
  by (auto simp: list_all_iff segment_ok_def)

text \<open>
  C8. Whatever a torrent file says and whatever the character set guess makes of it, every file of an accepted
  torrent has a path whose components are those of the entry, none of them empty, \<open>.\<close> or \<open>..\<close>, none with a
  separator, a colon or a NUL: no file is outside the download directory.
\<close>

theorem torrent_paths_inside:
  assumes "parse_torrent sha1 guess bs = Inr m" "(p, n) \<in> set (in_files (tm_info m))"
  shows "split_on 47 (file_rel_path (tm_info m) p) = (if in_multi_file (tm_info m) then in_name (tm_info m) # p else p)
    \<and> list_all (\<lambda>s. s \<noteq> [] \<and> s \<noteq> lit ''.'' \<and> s \<noteq> lit ''..'' \<and> set s \<inter> {0, 47, 92, 58} = {})
        (split_on 47 (file_rel_path (tm_info m) p))"
proof -
  obtain v where v: "parse_info guess v = Inr (tm_info m)"
    using assms(1) by (auto simp: parse_torrent_def Let_def split: sum.splits option.splits)
  note ok = parse_info_ok(1,2) [OF v] parse_info_ok(2) [OF v assms(2)]
  have name: "47 \<notin> set (in_name (tm_info m))" using ok(1) by (auto simp: segment_ok_def)
  have path: "split_on 47 (file_rel_path (tm_info m) p) = (if in_multi_file (tm_info m) then in_name (tm_info m) # p else p)"
    using split_join_slash [of p] segments_no_slash [of p] ok(3) name
    by (auto simp: path_ok_def file_rel_path_def split_on_def split_on_from_hit)
  then show ?thesis using ok(1,3) by (auto simp: path_ok_def segment_ok_def list_all_iff)
qed

definition sample_torrent :: bytes where
  "sample_torrent = lit ''d4:infod6:lengthi5e4:name2:..12:piece lengthi4e6:pieces0:ee''"

definition sample_meta :: torrent_meta where
  "sample_meta =
     \<lparr>tm_info = \<lparr>in_name = lit ''_'', in_piece_length = 4, in_pieces = [], in_files = [([lit ''_''], 5)],
        in_multi_file = False, in_private = False\<rparr>, tm_info_hash = [], tm_announce = None, tm_announce_list = [],
      tm_comment = None, tm_created_by = None, tm_creation_date = None, tm_raw_bencode = Some sample_torrent,
      tm_raw_info = Some (lit ''d6:lengthi5e4:name2:..12:piece lengthi4e6:pieces0:e'')\<rparr>"

lemma parse_sample: "parse_torrent (\<lambda>_. []) (\<lambda>s. s) sample_torrent = Inr sample_meta"
  by code_simp

theorem torrent_paths_inside_witness: "split_on 47 (file_rel_path (tm_info sample_meta) [lit ''_'']) = [lit ''_'']"
proof -
  have "([lit ''_''], 5) \<in> set (in_files (tm_info sample_meta))" by (simp add: sample_meta_def)
  from torrent_paths_inside [OF parse_sample this] show ?thesis by (simp add: sample_meta_def)
qed

section \<open>Metadata from peers\<close>

lemma parse_root_info:
  assumes "parse_root inp = Inr (VDict m, rs)" "map_of rs k = Some (s, e)" "map_of m k = Some x"
  shows "decode (slice inp s e) = Inr x"
  using parse_root_range [OF assms(1,2)] assms(3) by auto

text \<open>
  C26. The info dictionary kept of a torrent file, handed to a peer or kept in the session, is read back as the
  same metadata with the same hash.
\<close>

theorem raw_info_read_back:
  assumes "parse_torrent sha1 guess bs = Inr m"
  shows "\<exists>raw m'. tm_raw_info m = Some raw \<and> parse_info_bytes sha1 guess raw = Inr m' \<and> tm_info m' = tm_info m
    \<and> tm_info_hash m' = tm_info_hash m \<and> tm_raw_info m' = Some raw"
proof -
  obtain root ranges d a b v where p: "parse_root bs = Inr (root, ranges)" "as_dict root = Some d"
      "map_of ranges (lit ''info'') = Some (a, b)" "map_of d (lit ''info'') = Some v" "parse_info guess v = Inr (tm_info m)"
      "tm_info_hash m = sha1 (slice bs a b)" "tm_raw_info m = Some (slice bs a b)"
    using assms by (auto simp: parse_torrent_def Let_def split: sum.splits option.splits)
  have "root = VDict d" using p(2) by (cases root) auto
  then have "decode (slice bs a b) = Inr v" using parse_root_info p(1,3,4) by metis
  then have "decode_prefix (slice bs a b) = Inr (v, length (slice bs a b))"
    by (auto simp: decode_def decode_prefix_def split: sum.splits if_splits)
  then show ?thesis using p(5-7) by (auto simp: parse_info_bytes_def)
qed

theorem raw_info_read_back_witness:
  "\<exists>m'. parse_info_bytes (\<lambda>_. []) (\<lambda>s. s) (lit ''d6:lengthi5e4:name2:..12:piece lengthi4e6:pieces0:e'') = Inr m'
    \<and> tm_info m' = tm_info sample_meta"
  using raw_info_read_back [OF parse_sample] by (auto simp: sample_meta_def)

section \<open>Geometry and the piece store\<close>

text \<open>The layout the store is opened with.\<close>

definition char_entry :: "bytes list \<times> nat \<Rightarrow> string list \<times> nat" where
  "char_entry f = (map (map (\<lambda>b. char_of (unat b))) (fst f), snd f)"

definition layout_of_info :: "torrent_info \<Rightarrow> piece_layout" where
  "layout_of_info i = layout_new (in_piece_length i) (map char_entry (in_files i))"

abbreviation files_length :: "(bytes list \<times> nat) list \<Rightarrow> nat" where
  "files_length fs \<equiv> sum_list (map snd fs)"

lemma u64_small: "n < 2 ^ 64 \<Longrightarrow> u64 n = n"
  by (simp add: u64_def)

lemma fold_total: "a + files_length fs < 2 ^ 64 \<Longrightarrow> fold (\<lambda>f acc. u64 (acc + snd f)) fs a = a + files_length fs"
  by (induction fs arbitrary: a) (auto simp: u64_small)

lemma segments_loop_info:
  "cursor + files_length fs < 2 ^ 64 \<Longrightarrow>
   info_segments_loop ps pe cursor fi fs =
     segments_loop ps pe fi (layout_files cursor (map char_entry fs))"
  by (induction fs arbitrary: cursor fi) (auto simp: u64_small Let_def char_entry_def)

lemma files_length_map: "sum_list (map (snd \<circ> char_entry) fs) = files_length fs"
  by (simp add: char_entry_def comp_def)

lemma layout_files_entry:
  "layout_files cursor (char_entry f # fs) =
     \<lparr>fl_path = fst (char_entry f), fl_length = snd f, fl_offset = cursor\<rparr> # layout_files (cursor + snd f) fs"
  by (simp add: char_entry_def)

lemma layout_new_simps [simp]:
  "pl_piece_length (layout_new pl fs) = pl" "pl_files (layout_new pl fs) = layout_files 0 fs"
  by (simp_all add: layout_new_def Let_def)

lemma locate_loop_addrs:
  assumes "cursor \<le> g" "g < cursor + files_length fs" "cursor + files_length fs < 2 ^ 64"
  shows "locate_loop g cursor fi fs
    = files_addrs fi (layout_files cursor (map char_entry fs)) ! (g - cursor)"
  using assms
proof (induction fs arbitrary: cursor fi)
  case (Cons f fs)
  have len: "length (file_addrs fi \<lparr>fl_path = q, fl_length = snd f, fl_offset = cursor\<rparr>) = snd f" for q
    by (simp add: file_addrs_def)
  have u: "u64 (cursor + snd f) = cursor + snd f" using Cons.prems by (simp add: u64_small)
  show ?case
  proof (cases "g < cursor + snd f")
    case True
    then have "g - cursor < snd f" using Cons.prems(1) by simp
    then have "files_addrs fi (layout_files cursor (map char_entry (f # fs))) ! (g - cursor) = (fi, g - cursor)"
      by (simp only: list.map layout_files_entry files_addrs.simps nth_append len) (simp add: file_addrs_def)
    then show ?thesis using True by (simp add: u)
  next
    case False
    then have g: "\<not> g - cursor < snd f" "g - cursor - snd f = g - (cursor + snd f)" by simp_all
    have "locate_loop g cursor fi (f # fs) = locate_loop g (cursor + snd f) (Suc fi) fs"
      using False by (simp add: u)
    also have "\<dots> = files_addrs (Suc fi) (layout_files (cursor + snd f) (map char_entry fs)) ! (g - (cursor + snd f))"
      by (rule Cons.IH) (use False Cons.prems in simp_all)
    finally show ?thesis using g by (simp only: list.map layout_files_entry files_addrs.simps nth_append len if_False)
  qed
qed simp

text \<open>
  C27. The geometry of the metadata and that of the piece store are the same: total length, length and file
  segments of every piece, number of pieces but for missing hashes; and \<open>locate\<close> finds the file and offset of every
  byte. Without an overflow of 64 bits, that is; a torrent whose lengths overflow is not refused.
\<close>

theorem info_geometry_agrees:
  assumes "files_length (in_files i) + in_piece_length i < 2 ^ 64" "index * in_piece_length i < files_length (in_files i)"
  shows "info_total_length i = total_length (layout_of_info i)
    \<and> info_piece_len i index = piece_len (layout_of_info i) index
    \<and> info_piece_segments i index = piece_segments (layout_of_info i) index
    \<and> (piece_count (layout_of_info i) = div_ceil (total_length (layout_of_info i)) (in_piece_length i) \<longrightarrow>
        info_piece_count i = min (piece_count (layout_of_info i)) (length (in_pieces i)))
    \<and> locate i (index * in_piece_length i) = layout_addrs (layout_of_info i) ! (index * in_piece_length i)"
proof -
  have total: "info_total_length i = files_length (in_files i)" "total_length (layout_of_info i) = files_length (in_files i)"
    using assms by (simp_all add: info_total_length_def fold_total layout_of_info_def files_length_map)
  have small: "index * in_piece_length i + in_piece_length i < 2 ^ 64" using assms by simp
  then have u: "u64 (index * in_piece_length i) = index * in_piece_length i"
    "u64 (index * in_piece_length i + in_piece_length i) = index * in_piece_length i + in_piece_length i"
    by (simp_all add: u64_small)
  have "info_piece_segments i index = piece_segments (layout_of_info i) index"
    unfolding info_piece_segments_def piece_segments_def Let_def u total
    using segments_loop_info [of 0 "in_files i"] assms(1) by (simp add: layout_of_info_def)
  moreover have "locate i (index * in_piece_length i) = layout_addrs (layout_of_info i) ! (index * in_piece_length i)"
    using locate_loop_addrs [of 0 _ "in_files i" 0] assms by (simp add: locate_def layout_addrs_def layout_of_info_def)
  moreover have "info_piece_len i index = piece_len (layout_of_info i) index"
    unfolding info_piece_len_def piece_len_def Let_def u total by (simp add: layout_of_info_def)
  moreover have "info_piece_count i = min (piece_count (layout_of_info i)) (length (in_pieces i))"
    if c: "piece_count (layout_of_info i) = div_ceil (total_length (layout_of_info i)) (in_piece_length i)"
  proof -
    have "piece_count (layout_of_info i) < 2 ^ 32" by (simp add: piece_count_def)
    moreover have "in_piece_length i = 0 \<Longrightarrow> piece_count (layout_of_info i) = 0"
      by (simp add: piece_count_def layout_of_info_def)
    ultimately show ?thesis using c by (auto simp: info_piece_count_def total min_def)
  qed
  ultimately show ?thesis using total by simp
qed

theorem info_geometry_agrees_witness:
  "info_piece_segments \<lparr>in_name = [], in_piece_length = 4, in_pieces = [[], []], in_files = [([[97]], 3), ([[98]], 4)],
     in_multi_file = True, in_private = False\<rparr> 1 = [(1, 1, 3)]"
proof -
  let ?i = "\<lparr>in_name = [], in_piece_length = 4, in_pieces = [[], []], in_files = [([[97]], 3), ([[98]], 4)],
     in_multi_file = True, in_private = False\<rparr> :: torrent_info"
  have "info_piece_segments ?i 1 = piece_segments (layout_of_info ?i) 1"
    using info_geometry_agrees [of ?i 1] by simp
  also have "\<dots> = [(1, 1, 3)]" by (simp add: piece_segments_def layout_of_info_def total_length_def char_entry_def Let_def)
  finally show ?thesis .
qed

text \<open>Lengths that overflow are accepted, and the total is a small number.\<close>

lemma total_length_wraps:
  "info_total_length \<lparr>in_name = [], in_piece_length = 4, in_pieces = [[]],
     in_files = [([[97]], 2 ^ 63 - 1), ([[98]], 2 ^ 63 - 1), ([[99]], 5)], in_multi_file = True, in_private = False\<rparr> = 3"
  by (simp add: info_total_length_def u64_def)

section \<open>Hashes in magnet links\<close>

definition be_value :: "nat \<Rightarrow> nat list \<Rightarrow> nat" where
  "be_value base ds = fold (\<lambda>d acc. acc * base + d) ds 0"

lemma be_fold: "fold (\<lambda>d acc. acc * base + d) ds a = a * base ^ length ds + be_value base ds"
proof (induction ds arbitrary: a)
  case (Cons d ds)
  show ?case using Cons.IH [of "a * base + d"] Cons.IH [of d]
    by (simp add: be_value_def algebra_simps)
qed (simp add: be_value_def)

lemma be_value_simps [simp]:
  "be_value base [] = 0" "be_value base (ds @ [d]) = be_value base ds * base + d"
  "be_value base (d # ds) = d * base ^ length ds + be_value base ds"
  using be_fold [of base ds d] by (simp_all add: be_value_def)

lemma byte_less: "unat (b :: byte) < 256"
  using unsigned_less [of b] by simp

lemma byte_of_nat: "k < 256 \<Longrightarrow> unat (of_nat k :: byte) = k"
  by (simp add: unat_of_nat)

lemma be_value_inj:
  assumes "length xs = length ys" "\<forall>d \<in> set xs. d < base" "\<forall>d \<in> set ys. d < base" "be_value base xs = be_value base ys"
  shows "xs = ys"
  using assms
proof (induction xs arbitrary: ys rule: rev_induct)
  case (snoc x xs)
  then obtain zs y where ys: "ys = zs @ [y]" by (cases ys rule: rev_cases) auto
  have lt: "x < base" "y < base" using snoc.prems ys by auto
  have eq: "x + be_value base xs * base = y + be_value base zs * base" using snoc.prems(4) ys by simp
  have "x = y" using arg_cong [OF eq, of "\<lambda>n. n mod base"] lt by simp
  moreover have "be_value base xs = be_value base zs" using arg_cong [OF eq, of "\<lambda>n. n div base"] lt by simp
  ultimately have "x = y \<and> be_value base xs = be_value base zs" ..
  then show ?case using snoc ys by auto
qed simp

definition letter_value :: "byte \<Rightarrow> nat" where
  "letter_value c = the (index_of c ALPHABET)"

lemma index_of_Some: "index_of x ys = Some i \<Longrightarrow> i < length ys"
  by (induction ys arbitrary: i) (auto split: if_splits)

lemma index_of_None: "index_of x ys = None \<longleftrightarrow> x \<notin> set ys"
  by (induction ys) auto

lemma base32_loop_None: "\<not> set s \<subseteq> set ALPHABET \<Longrightarrow> base32_loop bits nbits out s = None"
proof (induction s arbitrary: bits nbits out)
  case (Cons c s)
  then show ?case
    by (cases "index_of c ALPHABET") (use index_of_None [of c ALPHABET] in \<open>auto simp: Let_def\<close>)
qed simp

lemma base32_loop_value:
  assumes "bits < 2 ^ nbits" "nbits < 8" "set s \<subseteq> set ALPHABET"
  shows "\<exists>out' nb r. base32_loop bits nbits out s = Some out' \<and> nb < 8 \<and> r < 2 ^ nb
    \<and> 8 * length out' + nb = 8 * length out + nbits + 5 * length s
    \<and> be_value 256 (map unat out') * 2 ^ nb + r =
        (be_value 256 (map unat out) * 2 ^ nbits + bits) * 32 ^ length s + be_value 32 (map letter_value s)"
  using assms
proof (induction s arbitrary: bits nbits out)
  case Nil
  then show ?case by auto
next
  case (Cons c s)
  obtain v where v: "index_of c ALPHABET = Some v" "v < 32" "letter_value c = v"
    using Cons.prems(3) index_of_None [of c ALPHABET] index_of_Some [of c ALPHABET]
    by (cases "index_of c ALPHABET") (auto simp: ALPHABET_def lit_def letter_value_def)
  let ?b = "bits * 32 + v"
  have "?b < (bits + 1) * 32" using v(2) by simp
  also have "\<dots> \<le> 2 ^ nbits * 32" using Cons.prems(1) by (intro mult_le_mono1) simp
  finally have b: "?b < 2 ^ (nbits + 5)" by (simp add: power_add)
  have s: "set s \<subseteq> set ALPHABET" using Cons.prems(3) by simp
  show ?case
  proof (cases "8 \<le> nbits + 5")
    case False
    then have n: "nbits + 5 < 8" by simp
    from Cons.IH [OF b n s, of out] show ?thesis using v False
      by (auto simp: Let_def power_add algebra_simps)
  next
    case True
    let ?n = "nbits - 3"
    let ?q = "?b div 2 ^ ?n" and ?r = "?b mod 2 ^ ?n"
    have n: "?n < 8" using Cons.prems(2) by simp
    have p: "(2::nat) ^ (nbits + 5) = 2 ^ ?n * 256"
      using True power_add [of "2::nat" ?n 8] by (simp add: add.commute)
    then have q: "?q < 256" using b by (simp add: less_mult_imp_div_less mult.commute)
    have u: "unat (of_nat ?q :: byte) = ?q" using q by (simp add: unat_of_nat)
    have r: "?r < 2 ^ ?n" by simp
    have val: "be_value 256 (map unat (out @ [of_nat ?q])) * 2 ^ ?n + ?r = (be_value 256 (map unat out) * 2 ^ nbits + bits) * 32 + v"
    proof -
      have "be_value 256 (map unat (out @ [of_nat ?q])) * 2 ^ ?n + ?r
          = be_value 256 (map unat out) * (2 ^ ?n * 256) + (?q * 2 ^ ?n + ?r)"
        by (simp only: map_append list.map be_value_simps u) (simp add: algebra_simps)
      also have "\<dots> = be_value 256 (map unat out) * 2 ^ (nbits + 5) + ?b" unfolding p div_mult_mod_eq ..
      finally show ?thesis by (simp add: power_add algebra_simps)
    qed
    have step: "base32_loop bits nbits out (c # s) = base32_loop ?r ?n (out @ [of_nat ?q]) s"
      using v True by (simp add: Let_def)
    have len: "8 * length (out @ [of_nat ?q :: byte]) + ?n + 5 * length s = 8 * length out + nbits + 5 * length (c # s)"
      using True by simp
    have pow: "x * 32 ^ length (c # s) + be_value 32 (map letter_value (c # s)) = (x * 32 + v) * 32 ^ length s + be_value 32 (map letter_value s)" for x
      using v(3) by (simp add: algebra_simps)
    show ?thesis using Cons.IH [OF r n s, of "out @ [of_nat ?q]"] unfolding step val len pow .
  qed
qed

lemma base32_decode_value:
  assumes "length s = 32" "set s \<subseteq> set ALPHABET"
  shows "\<exists>h. base32_decode s = Some h \<and> length h = 20 \<and> be_value 256 (map unat h) = be_value 32 (map letter_value s)"
proof -
  obtain out nb r where o: "base32_loop 0 0 [] s = Some out" "nb < 8" "r < 2 ^ nb" "8 * length out + nb = 160"
      "be_value 256 (map unat out) * 2 ^ nb + r = be_value 32 (map letter_value s)"
    using base32_loop_value [of 0 0 s "[]"] assms by auto
  then have "nb = 0" by presburger
  then show ?thesis using o by (auto simp: base32_decode_def)
qed

lemma hex_val_less: "is_hex_digit b \<Longrightarrow> hex_val b < 16"
  by (auto simp: is_hex_digit_def hex_val_def is_ascii_digit_iff word_le_nat_alt)

lemma hex_bytes_value:
  "even (length s) \<Longrightarrow> list_all is_hex_digit s \<Longrightarrow>
   2 * length (hex_bytes s) = length s \<and> be_value 256 (map unat (hex_bytes s)) = be_value 16 (map hex_val s)"
proof (induction s rule: hex_bytes.induct)
  case (1 a b s)
  have h: "hex_val a < 16" "hex_val b < 16" using 1(3) hex_val_less by auto
  then have u: "unat (of_nat (hex_val a * 16 + hex_val b) :: byte) = hex_val a * 16 + hex_val b"
    by (intro byte_of_nat) simp
  have "(256::nat) ^ k = 16 ^ (2 * k)" for k by (simp add: power_mult)
  then show ?case using 1 u by (auto simp: algebra_simps)
qed auto

text \<open>
  C28. A magnet link's hash is accepted exactly when it is 40 hexadecimal digits or 32 upper case letters of
  base 32, and it is the 20 bytes of the number they stand for.
\<close>

theorem btih_number:
  "parse_btih s = Some h \<longleftrightarrow>
     length h = 20 \<and>
     (length s = 40 \<and> list_all is_hex_digit s \<and> be_value 256 (map unat h) = be_value 16 (map hex_val s)
      \<or> length s = 32 \<and> set s \<subseteq> set ALPHABET \<and> be_value 256 (map unat h) = be_value 32 (map letter_value s))"
proof -
  have inj: "h = h'" if "length h = 20" "length h' = 20" "be_value 256 (map unat h) = be_value 256 (map unat h')" for h h' :: bytes
  proof -
    have b: "\<forall>d \<in> set (map unat x). d < 256" for x :: bytes using byte_less by auto
    have "map unat h = map unat h'" by (rule be_value_inj [OF _ b b]) (use that in auto)
    then show ?thesis by (simp add: inj_map_eq_map inj_def word_unat_eq_iff)
  qed
  consider (hex) "length s = 40" "list_all is_hex_digit s" | (b32) "length s = 32" "set s \<subseteq> set ALPHABET"
    | (bad) "\<not> (length s = 40 \<and> list_all is_hex_digit s)" "\<not> (length s = 32 \<and> set s \<subseteq> set ALPHABET)" by blast
  then show ?thesis
  proof cases
    case hex
    then have "parse_btih s = Some (hex_bytes s)" "length (hex_bytes s) = 20"
        "be_value 256 (map unat (hex_bytes s)) = be_value 16 (map hex_val s)"
      using hex_bytes_value [of s] by (auto simp: parse_btih_def)
    then show ?thesis using inj [of h "hex_bytes s"] hex by auto
  next
    case b32
    obtain b where "base32_decode s = Some b" "length b = 20" "be_value 256 (map unat b) = be_value 32 (map letter_value s)"
      using base32_decode_value [OF b32] by blast
    then show ?thesis using inj [of h b] b32 by (auto simp: parse_btih_def)
  next
    case bad
    then show ?thesis using base32_loop_None [of s] by (auto simp: parse_btih_def base32_decode_def)
  qed
qed

end
