(* ===== verification/Bt_Metadata.thy ===== *)
theory Bt_Metadata
  imports Torrent_Meta Peer_Wire
begin

text \<open>
  Metadata of a magnet link, \<open>ut_metadata\<close> of \<open>crates/xfer-bt/src/engine.rs\<close>: the accumulator all sessions share,
  requests, the answers of a peer and the answers given to a peer. \<open>sha1\<close> and \<open>guess\<close> are the arguments of
  \<open>Torrent_Meta\<close>; \<open>opened\<close> says whether the piece store could be opened. Messages of errors are dropped.
\<close>

section \<open>The accumulator\<close>

definition UT_METADATA_EXT_ID :: u8 where
  "UT_METADATA_EXT_ID = 2"

definition METADATA_PIECE_SIZE :: nat where
  "METADATA_PIECE_SIZE = 16 * 1024"

definition MAX_METADATA_SIZE :: nat where
  "MAX_METADATA_SIZE = 4 * 1024 * 1024"

definition METADATA_PIPELINE :: nat where
  "METADATA_PIPELINE = 8"

definition UT_METADATA_REQUEST :: i64 where
  "UT_METADATA_REQUEST = 0"

definition UT_METADATA_DATA :: i64 where
  "UT_METADATA_DATA = 1"

definition UT_METADATA_REJECT :: i64 where
  "UT_METADATA_REJECT = 2"

record metadata_accum =
  ma_pieces :: "(nat, bytes) btree_map"
  ma_expected :: "nat option"
  ma_requested :: "nat set"

definition accum_empty :: metadata_accum where
  "accum_empty = \<lparr>ma_pieces = [], ma_expected = None, ma_requested = {}\<rparr>"

definition ma_piece_count :: "metadata_accum \<Rightarrow> nat option" where
  "ma_piece_count md = map_option (\<lambda>sz. div_ceil sz METADATA_PIECE_SIZE) (ma_expected md)"

definition ma_reset :: "metadata_accum \<Rightarrow> metadata_accum" where
  "ma_reset md = md\<lparr>ma_pieces := [], ma_expected := None, ma_requested := {}\<rparr>"

definition assemble :: "metadata_accum \<Rightarrow> bytes option" where
  "assemble md =
     (case ma_piece_count md of
        None \<Rightarrow> None
      | Some count \<Rightarrow>
          if length (ma_pieces md) \<noteq> count then None
          else map_option concat (those (map (map_of (ma_pieces md)) [0..<count])))"

section \<open>Messages\<close>

definition ut_metadata_request :: "u8 \<Rightarrow> nat \<Rightarrow> message" where
  "ut_metadata_request peer_meta_id piece =
     (let d = bt_insert (lit ''msg_type'') (VInt UT_METADATA_REQUEST) [];
          d = bt_insert (lit ''piece'') (VInt (of_nat piece)) d
      in Extended peer_meta_id (encode (VDict d)))"

definition field_int :: "bdict \<Rightarrow> string \<Rightarrow> i64 option" where
  "field_int d k = Option.bind (map_of d (lit k)) as_int"

definition payload_is_metadata_request :: "bytes \<Rightarrow> bool" where
  "payload_is_metadata_request payload =
     (case decode_prefix payload of
        Inl e \<Rightarrow> False
      | Inr (v, n) \<Rightarrow>
          (case as_dict v of
             None \<Rightarrow> False
           | Some d \<Rightarrow> (case field_int d ''msg_type'' of None \<Rightarrow> False | Some t \<Rightarrow> t = UT_METADATA_REQUEST)))"

definition reject_reply :: "nat \<Rightarrow> bytes" where
  "reject_reply piece =
     (let d = bt_insert (lit ''msg_type'') (VInt UT_METADATA_REJECT) [];
          d = bt_insert (lit ''piece'') (VInt (of_nat piece)) d
      in encode (VDict d))"

definition data_header :: "bytes \<Rightarrow> nat \<Rightarrow> bvalue" where
  "data_header info piece =
     (let d = bt_insert (lit ''msg_type'') (VInt UT_METADATA_DATA) [];
          d = bt_insert (lit ''piece'') (VInt (of_nat piece)) d;
          d = bt_insert (lit ''total_size'') (VInt (of_nat (length info))) d
      in VDict d)"

definition data_reply :: "bytes \<Rightarrow> nat \<Rightarrow> bytes" where
  "data_reply info piece =
     (let start = piece * METADATA_PIECE_SIZE; stop = min (start + METADATA_PIECE_SIZE) (length info)
      in encode (data_header info piece) @ take (stop - start) (drop start info))"

text \<open>The answer to a request, if there is one; \<open>raw_info\<close> is the info dictionary of the torrent.\<close>

definition serve_ut_metadata :: "u8 \<Rightarrow> bytes option \<Rightarrow> bytes \<Rightarrow> message option" where
  "serve_ut_metadata reply_ext_id raw_info payload =
     (if reply_ext_id = 0 then None
      else case decode_prefix payload of
        Inl e \<Rightarrow> None
      | Inr (v, n) \<Rightarrow>
          (case as_dict v of
             None \<Rightarrow> None
           | Some d \<Rightarrow>
               if (case field_int d ''msg_type'' of None \<Rightarrow> - 1 | Some t \<Rightarrow> t) \<noteq> UT_METADATA_REQUEST then None
               else (case field_int d ''piece'' of
                 None \<Rightarrow> None
               | Some p \<Rightarrow>
                   if sint p < 0 then None
                   else
                     let piece = unat p in
                     Some (Extended reply_ext_id
                       (case raw_info of
                          Some info \<Rightarrow>
                            if piece < div_ceil (length info) METADATA_PIECE_SIZE then data_reply info piece
                            else reject_reply piece
                        | None \<Rightarrow> reject_reply piece)))))"

section \<open>Answers of peers\<close>

datatype meta_error =
    MHead bencode_error
  | MNotDict
  | MRejected
  | MNoPiece
  | MNoTotal
  | MBadTotal nat
  | MEmpty
  | MIndex nat
  | MLength nat
  | MParse torrent_error
  | MHash
  | MInstall

record meta_state =
  ms_hash :: bytes
  ms_accum :: metadata_accum
  ms_meta :: "torrent_meta option"

definition meta_new :: "bytes \<Rightarrow> meta_state" where
  "meta_new hash = \<lparr>ms_hash = hash, ms_accum = accum_empty, ms_meta = None\<rparr>"

definition install_metadata :: "bool \<Rightarrow> torrent_meta \<Rightarrow> meta_state \<Rightarrow> meta_state \<times> (meta_error + unit)" where
  "install_metadata opened m st =
     (if tm_info_hash m \<noteq> ms_hash st then (st, Inl MHash)
      else if \<not> opened then (st, Inl MInstall)
      else (st\<lparr>ms_meta := Some m\<rparr>, Inr ()))"

definition take_piece ::
  "(bytes \<Rightarrow> bytes) \<Rightarrow> (bytes \<Rightarrow> bytes) \<Rightarrow> bool \<Rightarrow> nat \<Rightarrow> nat \<Rightarrow> bytes \<Rightarrow> meta_state \<Rightarrow> meta_state \<times> (meta_error + unit)" where
  "take_piece sha1 guess opened total_size piece info_bytes st =
     (let md0 = ms_accum st;
          md1 = (if ma_expected md0 \<noteq> Some total_size
                 then md0\<lparr>ma_expected := Some total_size, ma_pieces := [], ma_requested := {}\<rparr> else md0);
          md = md1\<lparr>ma_pieces := bt_insert piece info_bytes (ma_pieces md1)\<rparr>;
          st = st\<lparr>ms_accum := md\<rparr>
      in case assemble md of
           None \<Rightarrow> (st, Inr ())
         | Some assembled \<Rightarrow>
             (case parse_info_bytes sha1 guess assembled of
                Inl e \<Rightarrow> (st\<lparr>ms_accum := ma_reset md\<rparr>, Inl (MParse e))
              | Inr m \<Rightarrow>
                  if tm_info_hash m \<noteq> ms_hash st then (st\<lparr>ms_accum := ma_reset md\<rparr>, Inl MHash)
                  else install_metadata opened m st))"

text \<open>A number read from the message becomes a \<open>usize\<close>: a negative one is huge.\<close>

definition data_payload :: "bytes \<Rightarrow> bdict \<Rightarrow> nat \<Rightarrow> meta_error + nat \<times> nat \<times> bytes" where
  "data_payload payload d consumed =
     (case field_int d ''piece'' of
        None \<Rightarrow> Inl MNoPiece
      | Some p \<Rightarrow>
          (case field_int d ''total_size'' of
             None \<Rightarrow> Inl MNoTotal
           | Some t \<Rightarrow>
               let piece = unat p; total_size = unat t; info_bytes = drop consumed payload in
               if total_size = 0 \<or> MAX_METADATA_SIZE < total_size then Inl (MBadTotal total_size)
               else if info_bytes = [] then Inl MEmpty
               else if div_ceil total_size METADATA_PIECE_SIZE \<le> piece then Inl (MIndex piece)
               else if length info_bytes \<noteq> min METADATA_PIECE_SIZE (total_size - piece * METADATA_PIECE_SIZE)
                 then Inl (MLength (length info_bytes))
               else Inr (total_size, piece, info_bytes)))"

definition handle_metadata_payload ::
  "(bytes \<Rightarrow> bytes) \<Rightarrow> (bytes \<Rightarrow> bytes) \<Rightarrow> bool \<Rightarrow> bytes \<Rightarrow> meta_state \<Rightarrow> meta_state \<times> (meta_error + unit)" where
  "handle_metadata_payload sha1 guess opened payload st =
     (case decode_prefix payload of
        Inl e \<Rightarrow> (st, Inl (MHead e))
      | Inr (v, consumed) \<Rightarrow>
          (case as_dict v of
             None \<Rightarrow> (st, Inl MNotDict)
           | Some d \<Rightarrow>
               let msg_type = (case field_int d ''msg_type'' of None \<Rightarrow> - 1 | Some t \<Rightarrow> t) in
               if msg_type = UT_METADATA_REJECT then
                 (case field_int d ''piece'' of
                    None \<Rightarrow> st
                  | Some p \<Rightarrow> st\<lparr>ms_accum := (ms_accum st)\<lparr>ma_requested := ma_requested (ms_accum st) - {unat p}\<rparr>\<rparr>,
                  Inl MRejected)
               else if msg_type \<noteq> UT_METADATA_DATA then (st, Inr ())
               else (case data_payload payload d consumed of
                 Inl e \<Rightarrow> (st, Inl e)
               | Inr (total_size, piece, info_bytes) \<Rightarrow> take_piece sha1 guess opened total_size piece info_bytes st)))"

section \<open>Requests\<close>

definition next_metadata_piece :: "metadata_accum \<Rightarrow> metadata_accum \<times> nat option" where
  "next_metadata_piece md =
     (case ma_piece_count md of
        None \<Rightarrow> (md, None)
      | Some count \<Rightarrow>
          (case find (\<lambda>i. i \<notin> ma_requested md \<and> map_of (ma_pieces md) i = None) [0..<count] of
             None \<Rightarrow> (md, None)
           | Some i \<Rightarrow> (md\<lparr>ma_requested := insert i (ma_requested md)\<rparr>, Some i)))"

definition release_unreceived_metadata_pieces :: "metadata_accum \<Rightarrow> metadata_accum" where
  "release_unreceived_metadata_pieces md =
     (case ma_piece_count md of
        None \<Rightarrow>
          if map_of (ma_pieces md) 0 = None then md\<lparr>ma_requested := ma_requested md - {0}\<rparr> else md
      | Some count \<Rightarrow>
          md\<lparr>ma_requested := {i \<in> ma_requested md. \<not> (i < count \<and> map_of (ma_pieces md) i = None)}\<rparr>)"

text \<open>\<open>run_metadata_exchange\<close>: the first requests, at most eight under way, and one more for every answer.\<close>

fun fill_requests :: "nat \<Rightarrow> nat \<Rightarrow> metadata_accum \<Rightarrow> metadata_accum \<times> nat list" where
  "fill_requests 0 in_flight md = (md, [])"
| "fill_requests (Suc fuel) in_flight md =
     (if \<not> in_flight < METADATA_PIPELINE then (md, [])
      else case next_metadata_piece md of
        (md', None) \<Rightarrow> (md', [])
      | (md', Some i) \<Rightarrow> (let (md'', is) = fill_requests fuel (Suc in_flight) md' in (md'', i # is)))"

definition exchange_start :: "metadata_accum \<Rightarrow> metadata_accum \<times> nat list" where
  "exchange_start md =
     (if map_of (ma_pieces md) 0 = None then
        let (md', is) = fill_requests METADATA_PIPELINE 1 (md\<lparr>ma_requested := insert 0 (ma_requested md)\<rparr>)
        in (md', 0 # is)
      else fill_requests METADATA_PIPELINE 0 md)"

text \<open>One answer: the new state and number of requests under way, what is sent, and \<open>None\<close> to go on, \<open>Some\<close> the end.\<close>

definition exchange_payload ::
  "(bytes \<Rightarrow> bytes) \<Rightarrow> (bytes \<Rightarrow> bytes) \<Rightarrow> bool \<Rightarrow> u8 \<Rightarrow> u8 \<Rightarrow> bytes \<Rightarrow> meta_state \<times> nat
     \<Rightarrow> (meta_state \<times> nat) \<times> message list \<times> (meta_error + unit) option" where
  "exchange_payload sha1 guess opened reply_ext_id peer_meta_id payload s =
     (let (st, in_flight) = s in
      if payload_is_metadata_request payload then
        (s, (case serve_ut_metadata reply_ext_id (Option.bind (ms_meta st) tm_raw_info) payload of None \<Rightarrow> [] | Some m \<Rightarrow> [m]), None)
      else
        let (st', r) = handle_metadata_payload sha1 guess opened payload st in
        case r of
          Inl e \<Rightarrow> ((st', in_flight), [], Some (Inl e))
        | Inr u \<Rightarrow>
            if ms_meta st' \<noteq> None then ((st', in_flight), [], Some (Inr ()))
            else
              let in_flight = in_flight - 1 in
              if in_flight < METADATA_PIPELINE then
                (case next_metadata_piece (ms_accum st') of
                   (md, None) \<Rightarrow> ((st'\<lparr>ms_accum := md\<rparr>, in_flight), [], None)
                 | (md, Some i) \<Rightarrow>
                     ((st'\<lparr>ms_accum := md\<rparr>, Suc in_flight), [ut_metadata_request peer_meta_id i], None))
              else ((st', in_flight), [], None))"

section \<open>What is kept\<close>

definition piece_size :: "nat \<Rightarrow> nat \<Rightarrow> nat" where
  "piece_size t i = min METADATA_PIECE_SIZE (t - i * METADATA_PIECE_SIZE)"

definition accum_ok :: "metadata_accum \<Rightarrow> bool" where
  "accum_ok md \<longleftrightarrow>
     bt_wf (ma_pieces md)
     \<and> (case ma_expected md of
          None \<Rightarrow> ma_pieces md = []
        | Some t \<Rightarrow>
            0 < t \<and> t \<le> MAX_METADATA_SIZE
            \<and> (\<forall>(i, b) \<in> set (ma_pieces md). i < div_ceil t METADATA_PIECE_SIZE \<and> length b = piece_size t i))"

lemma size_pos [simp]: "0 < METADATA_PIECE_SIZE"
  by (simp add: METADATA_PIECE_SIZE_def)

lemma sum_piece_size: "(\<Sum>i<k. piece_size t i) = min (k * METADATA_PIECE_SIZE) t"
  by (induction k) (auto simp: piece_size_def min_def)

lemma sum_piece_size_all: "(\<Sum>i<div_ceil t METADATA_PIECE_SIZE. piece_size t i) = t"
proof -
  have "t \<le> METADATA_PIECE_SIZE * div_ceil t METADATA_PIECE_SIZE" by (rule iffD1 [OF div_ceil_le]) simp_all
  then show ?thesis by (simp add: sum_piece_size min_def mult.commute)
qed

lemma map_of_set: "bt_wf (m :: (nat, 'v) btree_map) \<Longrightarrow> map_of m i = Some b \<longleftrightarrow> (i, b) \<in> set m"
  by (simp add: bt_wf_distinct map_of_eq_Some_iff)

lemma accum_okD:
  assumes "accum_ok md" "ma_expected md = Some t"
  shows "bt_wf (ma_pieces md)" "0 < t" "t \<le> MAX_METADATA_SIZE"
    "map_of (ma_pieces md) i = Some b \<Longrightarrow> i < div_ceil t METADATA_PIECE_SIZE \<and> length b = piece_size t i"
  using assms map_of_set [of "ma_pieces md" i b] by (auto simp: accum_ok_def)

lemma accum_bytes:
  assumes "accum_ok md"
  shows "sum_list (map (\<lambda>(i, b). length b) (ma_pieces md)) \<le> MAX_METADATA_SIZE"
proof (cases "ma_expected md")
  case (Some t)
  note ok = accum_okD [OF assms Some]
  have "length b = piece_size t i" if "(i, b) \<in> set (ma_pieces md)" for i b
    using that assms Some by (fastforce simp: accum_ok_def)
  then have "map (\<lambda>(i, b). length b) (ma_pieces md) = map (piece_size t) (map fst (ma_pieces md))" by auto
  then have "sum_list (map (\<lambda>(i, b). length b) (ma_pieces md)) = sum_list (map (piece_size t) (map fst (ma_pieces md)))"
    by (rule arg_cong)
  also have "\<dots> = sum (piece_size t) (set (map fst (ma_pieces md)))"
    by (rule sum_list_distinct_conv_sum_set [OF bt_wf_distinct [OF ok(1)]])
  also have "\<dots> \<le> sum (piece_size t) {..<div_ceil t METADATA_PIECE_SIZE}"
    by (rule sum_mono2) (use assms Some in \<open>auto simp: accum_ok_def\<close>)
  also have "\<dots> = t" by (rule sum_piece_size_all)
  finally show ?thesis using ok(3) by simp
qed (use assms in \<open>simp add: accum_ok_def\<close>)

lemma those_Some: "those xs = Some ys \<Longrightarrow> xs = map Some ys"
  by (induction xs arbitrary: ys) (auto split: option.splits)

lemma those_map_Some [simp]: "those (map (\<lambda>x. Some (f x)) xs) = Some (map f xs)"
  by (induction xs) auto

lemma assemble_Some:
  assumes "assemble md = Some raw" "ma_expected md = Some t"
  obtains bs where "raw = concat bs" "map (map_of (ma_pieces md)) [0..<div_ceil t METADATA_PIECE_SIZE] = map Some bs"
  using assms those_Some by (auto simp: assemble_def ma_piece_count_def split: if_splits)

lemma assemble_length:
  assumes "assemble md = Some raw" "accum_ok md"
  shows "ma_expected md = Some (length raw)"
proof -
  obtain t where t: "ma_expected md = Some t" using assms(1) by (auto simp: assemble_def ma_piece_count_def split: option.splits)
  let ?c = "div_ceil t METADATA_PIECE_SIZE"
  obtain bs where bs: "raw = concat bs" "map (map_of (ma_pieces md)) [0..<?c] = map Some bs"
    by (rule assemble_Some [OF assms(1) t])
  have len: "length bs = ?c" using arg_cong [OF bs(2), of length] by simp
  have "length (bs ! i) = piece_size t i" if "i < ?c" for i
    using arg_cong [OF bs(2), of "\<lambda>xs. xs ! i"] that len accum_okD(4) [OF assms(2) t, of i "bs ! i"] by simp
  then have "map length bs = map (piece_size t) [0..<?c]" by (intro nth_equalityI) (simp_all add: len)
  then have "length raw = sum_list (map (piece_size t) [0..<?c])" by (simp add: bs(1) length_concat)
  then show ?thesis using t sum_piece_size_all [of t] by (simp add: interv_sum_list_conv_sum_set_nat atLeast0LessThan)
qed

definition meta_ok :: "(bytes \<Rightarrow> bytes) \<Rightarrow> (bytes \<Rightarrow> bytes) \<Rightarrow> meta_state \<Rightarrow> bool" where
  "meta_ok sha1 guess st \<longleftrightarrow>
     accum_ok (ms_accum st)
     \<and> (case ms_meta st of
          None \<Rightarrow> True
        | Some m \<Rightarrow>
            \<exists>raw. parse_info_bytes sha1 guess raw = Inr m \<and> sha1 raw = ms_hash st \<and> length raw \<le> MAX_METADATA_SIZE)"

lemma parse_info_bytes_hash: "parse_info_bytes sha1 guess raw = Inr m \<Longrightarrow> tm_info_hash m = sha1 raw"
  by (auto simp: parse_info_bytes_def split: sum.splits if_splits)

lemma accum_reset_ok: "accum_ok (ma_reset md)"
  by (simp add: accum_ok_def ma_reset_def bt_wf_def)

definition with_piece :: "nat \<Rightarrow> nat \<Rightarrow> bytes \<Rightarrow> metadata_accum \<Rightarrow> metadata_accum" where
  "with_piece t i b md0 =
     (let md1 = (if ma_expected md0 \<noteq> Some t then md0\<lparr>ma_expected := Some t, ma_pieces := [], ma_requested := {}\<rparr> else md0)
      in md1\<lparr>ma_pieces := bt_insert i b (ma_pieces md1)\<rparr>)"

lemma with_piece_simps [simp]:
  "ma_expected (with_piece t i b md) = Some t"
  "map_of (ma_pieces (with_piece t i b md)) j =
     (if j = i then Some b else if ma_expected md = Some t then map_of (ma_pieces md) j else None)"
  by (auto simp: with_piece_def Let_def map_of_bt_insert)

lemma accum_okI:
  assumes "ma_expected md = Some t" "bt_wf (ma_pieces md)" "0 < t" "t \<le> MAX_METADATA_SIZE"
    "\<And>k x. map_of (ma_pieces md) k = Some x \<Longrightarrow> k < div_ceil t METADATA_PIECE_SIZE \<and> length x = piece_size t k"
  shows "accum_ok md"
  using assms map_of_set [OF assms(2)] by (simp add: accum_ok_def) blast

lemma with_piece_ok:
  assumes "accum_ok md" "0 < t" "t \<le> MAX_METADATA_SIZE" "i < div_ceil t METADATA_PIECE_SIZE" "length b = piece_size t i"
  shows "accum_ok (with_piece t i b md)"
proof (rule accum_okI [of _ t])
  show "bt_wf (ma_pieces (with_piece t i b md))"
    using assms(1) by (simp add: with_piece_def Let_def accum_ok_def bt_wf_insert bt_wf_def [of "[]"] del: bt_insert.simps)
  fix k x assume "map_of (ma_pieces (with_piece t i b md)) k = Some x"
  then show "k < div_ceil t METADATA_PIECE_SIZE \<and> length x = piece_size t k"
    using assms(4,5) accum_okD(4) [OF assms(1), of t k x] by (simp split: if_splits)
qed (use assms in simp_all)

lemma take_piece_eq:
  "take_piece sha1 guess opened t i b st =
     (let md = with_piece t i b (ms_accum st); st = st\<lparr>ms_accum := md\<rparr> in
      case assemble md of
        None \<Rightarrow> (st, Inr ())
      | Some assembled \<Rightarrow>
          (case parse_info_bytes sha1 guess assembled of
             Inl e \<Rightarrow> (st\<lparr>ms_accum := ma_reset md\<rparr>, Inl (MParse e))
           | Inr m \<Rightarrow>
               if tm_info_hash m \<noteq> ms_hash st then (st\<lparr>ms_accum := ma_reset md\<rparr>, Inl MHash)
               else install_metadata opened m st))"
  by (simp add: take_piece_def with_piece_def Let_def)

lemma take_piece_ok:
  assumes "meta_ok sha1 guess st" "0 < t" "t \<le> MAX_METADATA_SIZE" "i < div_ceil t METADATA_PIECE_SIZE" "length b = piece_size t i"
  shows "meta_ok sha1 guess (fst (take_piece sha1 guess opened t i b st))"
    "ms_hash (fst (take_piece sha1 guess opened t i b st)) = ms_hash st"
proof -
  have ok: "accum_ok (with_piece t i b (ms_accum st))" using with_piece_ok assms by (auto simp: meta_ok_def)
  have len: "length raw \<le> MAX_METADATA_SIZE" if "assemble (with_piece t i b (ms_accum st)) = Some raw" for raw
    using assemble_length [OF that ok] assms(3) by simp
  let ?md = "with_piece t i b (ms_accum st)"
  have new: "meta_ok sha1 guess (st\<lparr>ms_accum := md\<rparr>)" if "accum_ok md" for md
    using assms(1) that by (auto simp: meta_ok_def split: option.splits)
  have "meta_ok sha1 guess (fst (take_piece sha1 guess opened t i b st)) \<and>
      ms_hash (fst (take_piece sha1 guess opened t i b st)) = ms_hash st"
  proof (cases "assemble ?md")
    case None
    then show ?thesis using new [OF ok] by (simp add: take_piece_eq Let_def)
  next
    case (Some raw)
    show ?thesis
    proof (cases "parse_info_bytes sha1 guess raw")
      case (Inl e)
      then show ?thesis using Some new [OF accum_reset_ok] by (simp add: take_piece_eq Let_def)
    next
      case (Inr m)
      note hash = parse_info_bytes_hash [OF Inr]
      have full: "meta_ok sha1 guess (st\<lparr>ms_accum := ?md, ms_meta := Some m\<rparr>)" if "tm_info_hash m = ms_hash st"
        using ok len [OF Some] Inr hash that by (auto simp: meta_ok_def)
      show ?thesis using Some Inr new [OF accum_reset_ok] new [OF ok] full by (simp add: take_piece_eq Let_def install_metadata_def)
    qed
  qed
  then show "meta_ok sha1 guess (fst (take_piece sha1 guess opened t i b st))"
    "ms_hash (fst (take_piece sha1 guess opened t i b st)) = ms_hash st" by simp_all
qed

lemma data_payload_ok:
  assumes "data_payload payload d consumed = Inr (t, i, b)"
  shows "0 < t" "t \<le> MAX_METADATA_SIZE" "i < div_ceil t METADATA_PIECE_SIZE" "length b = piece_size t i"
  using assms by (auto simp: data_payload_def Let_def piece_size_def split: option.splits if_splits)

lemma accum_ok_requested: "accum_ok (md\<lparr>ma_requested := r\<rparr>) = accum_ok md"
  by (simp add: accum_ok_def split: option.split)

lemma meta_ok_requested:
  "meta_ok sha1 guess st \<Longrightarrow> meta_ok sha1 guess (st\<lparr>ms_accum := (ms_accum st)\<lparr>ma_requested := r\<rparr>\<rparr>)"
  by (auto simp: meta_ok_def accum_ok_requested split: option.splits)

lemma handle_cases:
  obtains
    "fst (handle_metadata_payload sha1 guess opened payload st) = st"
  | r where "fst (handle_metadata_payload sha1 guess opened payload st) = st\<lparr>ms_accum := (ms_accum st)\<lparr>ma_requested := r\<rparr>\<rparr>"
  | d n t i b where "data_payload payload d n = Inr (t, i, b)"
      "handle_metadata_payload sha1 guess opened payload st = take_piece sha1 guess opened t i b st"
proof (cases "decode_prefix payload")
  case (Inl e)
  then show ?thesis using that(1) by (simp add: handle_metadata_payload_def)
next
  case (Inr p)
  obtain v n where p: "p = (v, n)" by (cases p)
  show ?thesis
  proof (cases "as_dict v")
    case None
    then show ?thesis using that(1) Inr p by (simp add: handle_metadata_payload_def)
  next
    case (Some d)
    note eqs = Inr p Some handle_metadata_payload_def
    let ?ty = "case field_int d ''msg_type'' of None \<Rightarrow> - 1 | Some t \<Rightarrow> t"
    consider "?ty = UT_METADATA_REJECT" | "?ty \<noteq> UT_METADATA_REJECT" "?ty \<noteq> UT_METADATA_DATA"
      | "?ty \<noteq> UT_METADATA_REJECT" "?ty = UT_METADATA_DATA" by blast
    then show ?thesis
    proof cases
      case 1
      then show ?thesis
        using that(1) that(2) [of "ma_requested (ms_accum st) - {unat (the (field_int d ''piece''))}"]
        by (cases "field_int d ''piece''") (simp_all add: eqs Let_def)
    next
      case 2
      then show ?thesis using that(1) by (simp add: eqs Let_def)
    next
      case 3
      then show ?thesis
        using that(1) that(3) [of d n] by (cases "data_payload payload d n") (auto simp: eqs Let_def)
    qed
  qed
qed

lemma handle_ok:
  assumes "meta_ok sha1 guess st"
  shows "meta_ok sha1 guess (fst (handle_metadata_payload sha1 guess opened payload st))
    \<and> ms_hash (fst (handle_metadata_payload sha1 guess opened payload st)) = ms_hash st"
proof (rule handle_cases [of sha1 guess opened payload st])
  fix d n t i b
  assume "data_payload payload d n = Inr (t, i, b)"
    "handle_metadata_payload sha1 guess opened payload st = take_piece sha1 guess opened t i b st"
  then show ?thesis using take_piece_ok [OF assms data_payload_ok] by simp
qed (use assms meta_ok_requested [OF assms] in simp_all)

section \<open>Any peers\<close>

text \<open>
  What the sessions do to the state they share: a session begins, an answer arrives in a session that has \<open>n\<close>
  requests under way, a session ends.
\<close>

datatype meta_event = Begin | Answer bool u8 u8 bytes nat | Leave

fun meta_step :: "(bytes \<Rightarrow> bytes) \<Rightarrow> (bytes \<Rightarrow> bytes) \<Rightarrow> meta_event \<Rightarrow> meta_state \<Rightarrow> meta_state" where
  "meta_step sha1 guess Begin st = st\<lparr>ms_accum := fst (exchange_start (ms_accum st))\<rparr>"
| "meta_step sha1 guess (Answer opened reply_id peer_id payload n) st =
     fst (fst (exchange_payload sha1 guess opened reply_id peer_id payload (st, n)))"
| "meta_step sha1 guess Leave st = st\<lparr>ms_accum := release_unreceived_metadata_pieces (ms_accum st)\<rparr>"

definition same_pieces :: "metadata_accum \<Rightarrow> metadata_accum \<Rightarrow> bool" where
  "same_pieces md md' \<longleftrightarrow> (\<exists>r. md' = md\<lparr>ma_requested := r\<rparr>)"

lemma same_pieces_refl [intro]: "same_pieces md md"
  unfolding same_pieces_def by (rule exI [of _ "ma_requested md"]) simp

lemma same_pieces_trans [trans]: "same_pieces a b \<Longrightarrow> same_pieces b c \<Longrightarrow> same_pieces a c"
  by (auto simp: same_pieces_def)

lemma next_piece_same: "same_pieces md (fst (next_metadata_piece md))"
  by (auto simp: next_metadata_piece_def same_pieces_refl split: option.split) (auto simp: same_pieces_def)

lemma fill_requests_same: "same_pieces md (fst (fill_requests fuel n md))"
proof (induction fuel n md rule: fill_requests.induct)
  case (2 fuel n md)
  obtain md' i where next_eq: "next_metadata_piece md = (md', i)" by fastforce
  have "same_pieces md md'" using next_piece_same [of md] by (simp add: next_eq)
  then show ?case using 2 by (auto simp: next_eq same_pieces_refl split: option.split prod.split intro: same_pieces_trans)
qed auto

lemma exchange_start_same: "same_pieces md (fst (exchange_start md))"
proof -
  let ?md = "md\<lparr>ma_requested := insert 0 (ma_requested md)\<rparr>"
  have "same_pieces md ?md" by (auto simp: same_pieces_def)
  also have "same_pieces ?md (fst (fill_requests METADATA_PIPELINE 1 ?md))" by (rule fill_requests_same)
  finally show ?thesis using fill_requests_same by (simp add: exchange_start_def split: prod.split) (metis fst_conv)
qed

lemma release_same: "same_pieces md (release_unreceived_metadata_pieces md)"
  by (auto simp: release_unreceived_metadata_pieces_def same_pieces_refl split: option.split) (auto simp: same_pieces_def)

lemma meta_ok_same:
  assumes "meta_ok sha1 guess st" "same_pieces (ms_accum st) md"
  shows "meta_ok sha1 guess (st\<lparr>ms_accum := md\<rparr>)"
  using assms meta_ok_requested by (auto simp: same_pieces_def)

lemma exchange_payload_state:
  obtains
    "fst (fst (exchange_payload sha1 guess opened reply_id peer_id payload (st, n))) = st"
  | md where "same_pieces (ms_accum (fst (handle_metadata_payload sha1 guess opened payload st))) md"
      "fst (fst (exchange_payload sha1 guess opened reply_id peer_id payload (st, n)))
         = fst (handle_metadata_payload sha1 guess opened payload st)\<lparr>ms_accum := md\<rparr>"
proof (cases "payload_is_metadata_request payload")
  case True
  then show ?thesis using that(1) by (simp add: exchange_payload_def)
next
  case False
  obtain st' r where h: "handle_metadata_payload sha1 guess opened payload st = (st', r)" by fastforce
  obtain md i where next_eq: "next_metadata_piece (ms_accum st') = (md, i)" by fastforce
  have "same_pieces (ms_accum st') md" using next_piece_same [of "ms_accum st'"] by (simp add: next_eq)
  moreover have "fst (fst (exchange_payload sha1 guess opened reply_id peer_id payload (st, n))) \<in> {st', st'\<lparr>ms_accum := md\<rparr>}"
    using False by (simp add: exchange_payload_def h next_eq Let_def split: sum.split option.split)
  ultimately show ?thesis using that(2) [of "ms_accum st'"] that(2) [of md] by (auto simp: h)
qed

lemma meta_step_ok:
  assumes "meta_ok sha1 guess st"
  shows "meta_ok sha1 guess (meta_step sha1 guess e st) \<and> ms_hash (meta_step sha1 guess e st) = ms_hash st"
proof (cases e)
  case (Answer opened reply_id peer_id payload n)
  show ?thesis
    by (rule exchange_payload_state [of sha1 guess opened reply_id peer_id payload st n])
      (use assms handle_ok [OF assms, of opened payload] meta_ok_same Answer in auto)
qed (use assms meta_ok_same exchange_start_same release_same in auto)

lemma meta_new_ok: "meta_ok sha1 guess (meta_new hash)"
  by (simp add: meta_ok_def meta_new_def accum_empty_def accum_ok_def bt_wf_def)

lemma meta_steps_ok:
  "meta_ok sha1 guess st \<Longrightarrow>
     meta_ok sha1 guess (fold (meta_step sha1 guess) es st) \<and> ms_hash (fold (meta_step sha1 guess) es st) = ms_hash st"
  by (induction es arbitrary: st) (simp_all add: meta_step_ok)

text \<open>
  C9. Metadata from peers is bounded and genuine: whatever any number of peers send, in any order and interleaved with
  sessions that begin and end, the pieces kept never take more than 4 MiB, and metadata that is installed is what
  \<open>parse_info_bytes\<close> makes of at most 4 MiB of bytes whose SHA-1 is the hash of the magnet link.
\<close>

theorem metadata_safe:
  "let st = fold (meta_step sha1 guess) es (meta_new hash) in
     sum_list (map (\<lambda>(i, b). length b) (ma_pieces (ms_accum st))) \<le> MAX_METADATA_SIZE
     \<and> (case ms_meta st of
          None \<Rightarrow> True
        | Some m \<Rightarrow>
            tm_info_hash m = hash
            \<and> (\<exists>raw. parse_info_bytes sha1 guess raw = Inr m \<and> sha1 raw = hash \<and> length raw \<le> MAX_METADATA_SIZE))"
proof -
  let ?st = "fold (meta_step sha1 guess) es (meta_new hash)"
  have ok: "meta_ok sha1 guess ?st" "ms_hash ?st = hash"
    using meta_steps_ok [OF meta_new_ok [of sha1 guess hash], of es] by (simp_all add: meta_new_def)
  have "sum_list (map (\<lambda>(i, b). length b) (ma_pieces (ms_accum ?st))) \<le> MAX_METADATA_SIZE"
    by (rule accum_bytes) (use ok(1) in \<open>simp add: meta_ok_def\<close>)
  then show ?thesis using ok parse_info_bytes_hash by (auto simp: meta_ok_def Let_def split: option.splits)
qed

section \<open>Honest peers\<close>

definition honest_piece :: "bytes \<Rightarrow> nat \<Rightarrow> bytes" where
  "honest_piece raw i = take METADATA_PIECE_SIZE (drop (i * METADATA_PIECE_SIZE) raw)"

lemma length_honest_piece [simp]: "length (honest_piece raw i) = piece_size (length raw) i"
  by (simp add: honest_piece_def piece_size_def)

lemma concat_honest: "concat (map (honest_piece raw) [0..<k]) = take (k * METADATA_PIECE_SIZE) raw"
  by (induction k) (simp_all add: honest_piece_def take_add [symmetric] add.commute)

lemma concat_honest_all: "concat (map (honest_piece raw) [0..<div_ceil (length raw) METADATA_PIECE_SIZE]) = raw"
proof -
  have "length raw \<le> METADATA_PIECE_SIZE * div_ceil (length raw) METADATA_PIECE_SIZE" by (rule iffD1 [OF div_ceil_le]) simp_all
  then show ?thesis by (simp add: concat_honest mult.commute)
qed

text \<open>The dictionaries of the messages.\<close>

declare bt_insert.simps [simp del] encode_simps [simp del] wf_value.simps(2,4) [simp del] vdepth.simps(4) [simp del]

lemma prefix_dict:
  assumes "dict_ok 2 m"
  shows "decode_prefix (encode (VDict m) @ rest) = Inr (VDict m, length (encode (VDict m)))"
  using wf_VDict [OF assms] parse_value_encode [of "VDict m" rest] by (simp add: decode_prefix_def)

lemma prefix_dict_whole: "dict_ok 2 m \<Longrightarrow> decode_prefix (encode (VDict m)) = Inr (VDict m, length (encode (VDict m)))"
  using prefix_dict [of m "[]"] by simp

lemmas message_types = UT_METADATA_REQUEST_def UT_METADATA_DATA_def UT_METADATA_REJECT_def

definition request_payload :: "nat \<Rightarrow> bytes" where
  "request_payload piece = (case ut_metadata_request 1 piece of Extended _ p \<Rightarrow> p | _ \<Rightarrow> [])"

definition served :: "bytes \<Rightarrow> nat \<Rightarrow> bytes" where
  "served raw i =
     (case serve_ut_metadata UT_METADATA_EXT_ID (Some raw) (request_payload i) of Some (Extended _ p) \<Rightarrow> p | _ \<Rightarrow> [])"

lemma index_bound:
  assumes "i < div_ceil t METADATA_PIECE_SIZE" "t \<le> MAX_METADATA_SIZE"
  shows "i < 2 ^ 63"
proof -
  have "div_ceil t METADATA_PIECE_SIZE \<le> 256"
    using assms(2) by (subst div_ceil_le) (simp_all add: METADATA_PIECE_SIZE_def MAX_METADATA_SIZE_def)
  then show ?thesis using assms(1) by simp
qed

lemma sint_of_nat_eq: "i < 2 ^ 63 \<Longrightarrow> sint (word_of_nat i :: i64) = int i"
  by (simp add: signed_of_nat signed_take_bit_int_eq_self)

lemma served_eq:
  assumes "i < div_ceil (length raw) METADATA_PIECE_SIZE" "length raw \<le> MAX_METADATA_SIZE"
  shows "served raw i = data_reply raw i"
proof -
  have i: "i < 2 ^ 63" by (rule index_bound [OF assms])
  then have n: "unat (word_of_nat i :: i64) = i" "0 \<le> sint (word_of_nat i :: i64)"
    by (simp_all add: unat_of_nat sint_of_nat_eq)
  show ?thesis
    using assms(1) n
    by (simp add: served_def request_payload_def ut_metadata_request_def serve_ut_metadata_def prefix_dict_whole
        UT_METADATA_EXT_ID_def field_int_def krpc_lookup message_types Let_def)
qed

lemma data_reply_eq:
  "data_reply raw i = encode (data_header raw i) @ honest_piece raw i"
  by (simp add: data_reply_def honest_piece_def Let_def min_def)

lemma piece_size_pos:
  assumes "i < div_ceil t METADATA_PIECE_SIZE"
  shows "0 < piece_size t i"
proof -
  have "\<not> t \<le> METADATA_PIECE_SIZE * i" using assms div_ceil_le [of METADATA_PIECE_SIZE t i] by simp
  then show ?thesis by (simp add: piece_size_def mult.commute)
qed

lemma handle_data_reply:
  assumes "i < div_ceil (length raw) METADATA_PIECE_SIZE" "length raw \<le> MAX_METADATA_SIZE" "raw \<noteq> []"
  shows "handle_metadata_payload sha1 guess opened (data_reply raw i) st
    = take_piece sha1 guess opened (length raw) i (honest_piece raw i) st"
    "\<not> payload_is_metadata_request (data_reply raw i)"
proof -
  have i: "i < 2 ^ 63" by (rule index_bound [OF assms(1,2)])
  have l: "length raw < 2 ^ 63" using assms(2) by (simp add: MAX_METADATA_SIZE_def)
  have n: "unat (word_of_nat i :: i64) = i" "unat (word_of_nat (length raw) :: i64) = length raw"
    using i l by (simp_all add: unat_of_nat)
  show "handle_metadata_payload sha1 guess opened (data_reply raw i) st
    = take_piece sha1 guess opened (length raw) i (honest_piece raw i) st"
    using assms n piece_size_pos [OF assms(1)] length_honest_piece [of raw i]
    by (auto simp: piece_size_def [symmetric] data_reply_eq data_header_def handle_metadata_payload_def prefix_dict field_int_def krpc_lookup
        message_types Let_def data_payload_def)
  show "\<not> payload_is_metadata_request (data_reply raw i)"
    by (simp add: data_reply_eq data_header_def payload_is_metadata_request_def prefix_dict field_int_def krpc_lookup
        message_types Let_def)
qed

text \<open>\<open>clean\<close>: nothing but pieces of \<open>raw\<close> is kept; \<open>has\<close>: the pieces \<open>J\<close> of \<open>raw\<close> are.\<close>

definition has :: "bytes \<Rightarrow> nat set \<Rightarrow> metadata_accum \<Rightarrow> bool" where
  "has raw J md \<longleftrightarrow> (\<forall>i \<in> J. ma_expected md = Some (length raw) \<and> map_of (ma_pieces md) i = Some (honest_piece raw i))"

definition clean :: "bytes \<Rightarrow> metadata_accum \<Rightarrow> bool" where
  "clean raw md \<longleftrightarrow> (\<forall>i b. map_of (ma_pieces md) i = Some b \<longrightarrow> ma_expected md = Some (length raw) \<and> b = honest_piece raw i)"

abbreviation parts :: "bytes \<Rightarrow> nat set" where
  "parts raw \<equiv> {..<div_ceil (length raw) METADATA_PIECE_SIZE}"

lemma has_with_piece: "has raw J md \<Longrightarrow> has raw (insert i J) (with_piece (length raw) i (honest_piece raw i) md)"
  by (auto simp: has_def)

lemma clean_with_piece: "clean raw md \<Longrightarrow> clean raw (with_piece (length raw) i (honest_piece raw i) md)"
  by (auto simp: clean_def split: if_splits)

lemma clean_reset: "clean raw (ma_reset md)"
  by (simp add: clean_def ma_reset_def)

lemma has_requested [simp]: "has raw J (md\<lparr>ma_requested := r\<rparr>) = has raw J md"
  by (simp add: has_def)

lemma clean_requested [simp]: "clean raw (md\<lparr>ma_requested := r\<rparr>) = clean raw md"
  by (simp add: clean_def)

lemma assemble_requested [simp]: "assemble (md\<lparr>ma_requested := r\<rparr>) = assemble md"
  by (simp add: assemble_def ma_piece_count_def split: option.split)

lemma some_part: "raw \<noteq> [] \<Longrightarrow> 0 < div_ceil (length raw) METADATA_PIECE_SIZE"
  using div_ceil_le [of METADATA_PIECE_SIZE "length raw" 0] by simp

lemma has_all:
  assumes "has raw (parts raw) md" "raw \<noteq> []"
  shows "ma_expected md = Some (length raw)"
    "i < div_ceil (length raw) METADATA_PIECE_SIZE \<Longrightarrow> map_of (ma_pieces md) i = Some (honest_piece raw i)"
  using assms some_part [OF assms(2)] by (auto simp: has_def)

lemma has_all_clean:
  assumes "has raw (parts raw) md" "accum_ok md" "raw \<noteq> []"
  shows "clean raw md"
  unfolding clean_def
proof (intro allI impI)
  note t = has_all [OF assms(1,3)]
  fix i b assume b: "map_of (ma_pieces md) i = Some b"
  show "ma_expected md = Some (length raw) \<and> b = honest_piece raw i"
    using t(1) t(2) [of i] accum_okD(4) [OF assms(2) t(1) b] b by simp
qed

lemma assemble_all:
  assumes "has raw (parts raw) md" "accum_ok md" "raw \<noteq> []"
  shows "assemble md = Some raw"
proof -
  let ?n = "div_ceil (length raw) METADATA_PIECE_SIZE"
  note t = has_all [OF assms(1,3)]
  note ok = accum_okD [OF assms(2) t(1)]
  have "set (map fst (ma_pieces md)) = parts raw"
  proof (intro equalityI subsetI)
    fix i assume "i \<in> set (map fst (ma_pieces md))"
    then obtain b where "(i, b) \<in> set (ma_pieces md)" by auto
    then show "i \<in> parts raw" using ok(4) [of i b] map_of_set [OF ok(1)] by simp
  next
    fix i assume "i \<in> parts raw"
    then have "(i, honest_piece raw i) \<in> set (ma_pieces md)" using t(2) map_of_set [OF ok(1)] by simp
    then show "i \<in> set (map fst (ma_pieces md))" by force
  qed
  then have "length (ma_pieces md) = ?n"
    using distinct_card [OF bt_wf_distinct [OF ok(1)]] by (simp only: card_lessThan length_map)
  moreover have "map (map_of (ma_pieces md)) [0..<?n] = map (\<lambda>i. Some (honest_piece raw i)) [0..<?n]"
    using t(2) by simp
  then have "those (map (map_of (ma_pieces md)) [0..<?n]) = Some (map (honest_piece raw) [0..<?n])"
    by (simp only: those_map_Some)
  ultimately show ?thesis
    by (simp add: assemble_def ma_piece_count_def t(1) concat_honest_all)
qed

lemma assemble_clean:
  assumes "clean raw md" "accum_ok md" "assemble md = Some x"
  shows "x = raw"
proof -
  have t: "ma_expected md = Some (length x)" by (rule assemble_length [OF assms(3,2)])
  let ?n = "div_ceil (length x) METADATA_PIECE_SIZE"
  obtain bs where bs: "x = concat bs" "map (map_of (ma_pieces md)) [0..<?n] = map Some bs"
    by (rule assemble_Some [OF assms(3) t])
  have len: "length bs = ?n" using arg_cong [OF bs(2), of length] by simp
  have nth: "map_of (ma_pieces md) i = Some (bs ! i)" if "i < ?n" for i
    using arg_cong [OF bs(2), of "\<lambda>xs. xs ! i"] that len by simp
  have "0 < length x" using accum_okD(2) [OF assms(2) t] .
  then have "0 < ?n" using div_ceil_le [of METADATA_PIECE_SIZE "length x" 0] by simp
  from nth [OF this] have lx: "length x = length raw" using assms(1) t by (simp add: clean_def)
  have "bs = map (honest_piece raw) [0..<?n]"
    using nth assms(1) by (intro nth_equalityI) (simp_all add: len clean_def)
  then have "x = concat (map (honest_piece raw) [0..<?n])" by (simp only: bs(1))
  also have "\<dots> = raw" unfolding lx by (rule concat_honest_all)
  finally show ?thesis .
qed

text \<open>
  What honest sessions do: one begins, one ends, or one with \<open>n\<close> requests under way receives the piece \<open>i\<close> an honest
  peer serves.
\<close>

datatype honest_event = Came | Sent u8 u8 nat nat | Gone

fun as_event :: "bytes \<Rightarrow> honest_event \<Rightarrow> meta_event" where
  "as_event raw Came = Begin"
| "as_event raw (Sent reply_id peer_id n i) = Answer True reply_id peer_id (served raw i) n"
| "as_event raw Gone = Leave"

fun sent :: "honest_event \<Rightarrow> nat list" where
  "sent (Sent reply_id peer_id n i) = [i]"
| "sent _ = []"

definition full_round :: "bytes \<Rightarrow> honest_event list \<Rightarrow> bool" where
  "full_round raw hs \<longleftrightarrow> set (concat (map sent hs)) = parts raw"

abbreviation honest_run ::
  "(bytes \<Rightarrow> bytes) \<Rightarrow> (bytes \<Rightarrow> bytes) \<Rightarrow> bytes \<Rightarrow> honest_event list \<Rightarrow> meta_state \<Rightarrow> meta_state" where
  "honest_run sha1 guess raw hs st \<equiv> fold (meta_step sha1 guess) (map (as_event raw) hs) st"

definition good_raw :: "(bytes \<Rightarrow> bytes) \<Rightarrow> (bytes \<Rightarrow> bytes) \<Rightarrow> bytes \<Rightarrow> bytes \<Rightarrow> bool" where
  "good_raw sha1 guess hash raw \<longleftrightarrow>
     raw \<noteq> [] \<and> length raw \<le> MAX_METADATA_SIZE \<and> sha1 raw = hash \<and> (\<exists>m. parse_info_bytes sha1 guess raw = Inr m)"

lemma take_piece_cases:
  obtains
    "ms_meta (fst (take_piece sha1 guess True t i b st)) \<noteq> None"
  | "fst (take_piece sha1 guess True t i b st) = st\<lparr>ms_accum := with_piece t i b (ms_accum st)\<rparr>"
    "assemble (with_piece t i b (ms_accum st)) = None"
  | x where "fst (take_piece sha1 guess True t i b st) = st\<lparr>ms_accum := ma_reset (with_piece t i b (ms_accum st))\<rparr>"
    "assemble (with_piece t i b (ms_accum st)) = Some x" "\<not> good_raw sha1 guess (ms_hash st) x \<or> x = [] \<or> MAX_METADATA_SIZE < length x"
proof (cases "assemble (with_piece t i b (ms_accum st))")
  case None
  then show ?thesis using that(2) by (simp add: take_piece_eq Let_def)
next
  case (Some x)
  show ?thesis
  proof (cases "parse_info_bytes sha1 guess x")
    case (Inl e)
    then show ?thesis using that(3) [of x] Some by (simp add: take_piece_eq Let_def good_raw_def)
  next
    case (Inr m)
    then show ?thesis
      using that(1) that(3) [of x] Some parse_info_bytes_hash [OF Inr]
      by (cases "tm_info_hash m = ms_hash st") (simp_all add: take_piece_eq Let_def good_raw_def install_metadata_def)
  qed
qed

lemma exchange_payload_accum:
  assumes "\<not> payload_is_metadata_request payload"
  obtains r where
    "fst (fst (exchange_payload sha1 guess opened reply_id peer_id payload (st, n)))
       = fst (handle_metadata_payload sha1 guess opened payload st)
           \<lparr>ms_accum := (ms_accum (fst (handle_metadata_payload sha1 guess opened payload st)))\<lparr>ma_requested := r\<rparr>\<rparr>"
proof -
  obtain st' x where h: "handle_metadata_payload sha1 guess opened payload st = (st', x)" by fastforce
  obtain md i where next_eq: "next_metadata_piece (ms_accum st') = (md, i)" by fastforce
  have "same_pieces (ms_accum st') md" using next_piece_same [of "ms_accum st'"] by (simp add: next_eq)
  then obtain r where r: "md = (ms_accum st')\<lparr>ma_requested := r\<rparr>" by (auto simp: same_pieces_def)
  have "fst (fst (exchange_payload sha1 guess opened reply_id peer_id payload (st, n))) \<in> {st', st'\<lparr>ms_accum := md\<rparr>}"
    using assms by (simp add: exchange_payload_def h next_eq Let_def split: sum.split option.split)
  then show ?thesis using that [of r] that [of "ma_requested (ms_accum st')"] r by (auto simp: h)
qed

lemma take_piece_meta: "ms_meta st \<noteq> None \<Longrightarrow> ms_meta (fst (take_piece sha1 guess opened t i b st)) \<noteq> None"
  by (simp add: take_piece_eq Let_def install_metadata_def split: option.split sum.split)

lemma handle_meta: "ms_meta st \<noteq> None \<Longrightarrow> ms_meta (fst (handle_metadata_payload sha1 guess opened payload st)) \<noteq> None"
  by (rule handle_cases [of sha1 guess opened payload st]) (simp_all add: take_piece_meta del: not_None_eq)

lemma meta_step_meta: "ms_meta st \<noteq> None \<Longrightarrow> ms_meta (meta_step sha1 guess e st) \<noteq> None"
proof (cases e)
  case (Answer opened reply_id peer_id payload n)
  assume "ms_meta st \<noteq> None"
  then show ?thesis
    using exchange_payload_state [of sha1 guess opened reply_id peer_id payload st n] handle_meta Answer
    by (metis meta_step.simps(2) meta_state.select_convs(3) meta_state.surjective meta_state.update_convs(2))
qed simp_all

text \<open>What a round has achieved: in the first, \<open>first\<close> holds of the pieces delivered so far; in the next, \<open>second\<close>.\<close>

definition first :: "bytes \<Rightarrow> nat set \<Rightarrow> meta_state \<Rightarrow> bool" where
  "first raw J st \<longleftrightarrow> ms_meta st \<noteq> None \<or> clean raw (ms_accum st) \<or> has raw J (ms_accum st)"

definition second :: "bytes \<Rightarrow> nat set \<Rightarrow> meta_state \<Rightarrow> bool" where
  "second raw J st \<longleftrightarrow>
     ms_meta st \<noteq> None
     \<or> clean raw (ms_accum st) \<and> has raw J (ms_accum st) \<and> (J = {} \<or> assemble (ms_accum st) = None)"

lemma meta_step_sent:
  assumes "i \<in> parts raw" "good_raw sha1 guess hash raw"
  obtains r where
    "meta_step sha1 guess (as_event raw (Sent reply_id peer_id n i)) st
       = fst (take_piece sha1 guess True (length raw) i (honest_piece raw i) st)
           \<lparr>ms_accum := (ms_accum (fst (take_piece sha1 guess True (length raw) i (honest_piece raw i) st)))\<lparr>ma_requested := r\<rparr>\<rparr>"
proof -
  have raw: "raw \<noteq> []" "length raw \<le> MAX_METADATA_SIZE" using assms(2) by (auto simp: good_raw_def)
  have i: "i < div_ceil (length raw) METADATA_PIECE_SIZE" using assms(1) by simp
  have eq: "served raw i = data_reply raw i" by (rule served_eq [OF i raw(2)])
  obtain r where "fst (fst (exchange_payload sha1 guess True reply_id peer_id (served raw i) (st, n)))
       = fst (take_piece sha1 guess True (length raw) i (honest_piece raw i) st)
           \<lparr>ms_accum := (ms_accum (fst (take_piece sha1 guess True (length raw) i (honest_piece raw i) st)))\<lparr>ma_requested := r\<rparr>\<rparr>"
    using exchange_payload_accum [of "served raw i" sha1 guess True reply_id peer_id st n]
      handle_data_reply [OF i raw(2,1)] by (metis eq)
  then show ?thesis using that by simp
qed

lemma honest_quiet:
  assumes "sent e = []"
  obtains r where "meta_step sha1 guess (as_event raw e) st = st\<lparr>ms_accum := (ms_accum st)\<lparr>ma_requested := r\<rparr>\<rparr>"
  using assms exchange_start_same [of "ms_accum st"] release_same [of "ms_accum st"] that
  by (cases e) (auto simp: same_pieces_def)

lemma honest_step:
  assumes "set (sent e) \<subseteq> parts raw" "good_raw sha1 guess (ms_hash st) raw" "meta_ok sha1 guess st"
  shows "first raw J st \<Longrightarrow> first raw (J \<union> set (sent e)) (meta_step sha1 guess (as_event raw e) st)"
    "second raw J st \<Longrightarrow> second raw (J \<union> set (sent e)) (meta_step sha1 guess (as_event raw e) st)"
proof -
  let ?st = "meta_step sha1 guess (as_event raw e) st"
  have both: "(first raw J st \<longrightarrow> first raw (J \<union> set (sent e)) ?st) \<and> (second raw J st \<longrightarrow> second raw (J \<union> set (sent e)) ?st)"
  proof (cases "ms_meta st = None")
    case False
    then show ?thesis using meta_step_meta [OF False] by (simp add: first_def second_def)
  next
    case fresh: True
    show ?thesis
    proof (cases "sent e")
      case Nil
      obtain r where "?st = st\<lparr>ms_accum := (ms_accum st)\<lparr>ma_requested := r\<rparr>\<rparr>" by (rule honest_quiet [OF Nil])
      then show ?thesis by (simp add: first_def second_def Nil)
    next
      case (Cons i rest)
      then obtain a b n where e: "e = Sent a b n i" and J: "J \<union> set (sent e) = insert i J" by (cases e) auto
      have i: "i \<in> parts raw" using assms(1) Cons by simp
      let ?md = "with_piece (length raw) i (honest_piece raw i) (ms_accum st)"
      let ?t = "fst (take_piece sha1 guess True (length raw) i (honest_piece raw i) st)"
      obtain r where step: "?st = ?t\<lparr>ms_accum := (ms_accum ?t)\<lparr>ma_requested := r\<rparr>\<rparr>"
        using meta_step_sent [OF i assms(2)] e by metis
      have raw: "raw \<noteq> []" "length raw \<le> MAX_METADATA_SIZE" using assms(2) by (auto simp: good_raw_def)
      have ok: "accum_ok ?md"
        by (rule with_piece_ok) (use assms(3) raw i in \<open>auto simp: meta_ok_def\<close>)
      show ?thesis unfolding J
      proof (rule take_piece_cases [of sha1 guess "length raw" i "honest_piece raw i" st])
        assume "ms_meta ?t \<noteq> None"
        then show "(first raw J st \<longrightarrow> first raw (insert i J) ?st) \<and> (second raw J st \<longrightarrow> second raw (insert i J) ?st)"
          by (simp add: step first_def second_def)
      next
        assume "?t = st\<lparr>ms_accum := ?md\<rparr>" "assemble ?md = None"
        then show "(first raw J st \<longrightarrow> first raw (insert i J) ?st) \<and> (second raw J st \<longrightarrow> second raw (insert i J) ?st)"
          using has_with_piece [of raw J "ms_accum st" i] clean_with_piece [of raw "ms_accum st" i] fresh
          by (auto simp: step first_def second_def)
      next
        fix x
        assume x: "?t = st\<lparr>ms_accum := ma_reset ?md\<rparr>" "assemble ?md = Some x"
          "\<not> good_raw sha1 guess (ms_hash st) x \<or> x = [] \<or> MAX_METADATA_SIZE < length x"
        have "\<not> clean raw (ms_accum st)"
          using x(3) assms(2) raw assemble_clean [OF clean_with_piece ok x(2)] by auto
        then show "(first raw J st \<longrightarrow> first raw (insert i J) ?st) \<and> (second raw J st \<longrightarrow> second raw (insert i J) ?st)"
          using fresh clean_reset by (simp add: step x(1) first_def second_def)
      qed
    qed
  qed
  then show "first raw J st \<Longrightarrow> first raw (J \<union> set (sent e)) ?st"
    and "second raw J st \<Longrightarrow> second raw (J \<union> set (sent e)) ?st" by blast+
qed

lemma honest_run_ok:
  assumes "meta_ok sha1 guess st"
  shows "meta_ok sha1 guess (honest_run sha1 guess raw hs st)" "ms_hash (honest_run sha1 guess raw hs st) = ms_hash st"
  using meta_steps_ok [OF assms] by blast+

lemma honest_round:
  assumes "set (concat (map sent hs)) \<subseteq> parts raw" "good_raw sha1 guess (ms_hash st) raw" "meta_ok sha1 guess st"
  shows "(first raw J st \<longrightarrow> first raw (J \<union> set (concat (map sent hs))) (honest_run sha1 guess raw hs st)) \<and>
    (second raw J st \<longrightarrow> second raw (J \<union> set (concat (map sent hs))) (honest_run sha1 guess raw hs st))"
  using assms
proof (induction hs arbitrary: st J)
  case (Cons e hs)
  let ?st = "meta_step sha1 guess (as_event raw e) st"
  have e: "set (sent e) \<subseteq> parts raw" using Cons.prems(1) by simp
  have rest: "set (concat (map sent hs)) \<subseteq> parts raw" "good_raw sha1 guess (ms_hash ?st) raw" "meta_ok sha1 guess ?st"
    using Cons.prems meta_step_ok [OF Cons.prems(3), of "as_event raw e"] by auto
  show ?case
    using Cons.IH [OF rest, of "J \<union> set (sent e)"] honest_step [OF e Cons.prems(2,3), of J] by (simp add: Un_assoc)
qed simp

text \<open>
  C10. Poisoned pieces cannot keep the metadata away: from every state any peers can bring about, after honest sessions
  have twice delivered all the pieces the way \<open>serve_ut_metadata\<close> answers the requests of \<open>ut_metadata_request\<close>, each
  round in any order, with repetitions and with sessions beginning and ending between, the metadata is installed.
\<close>

theorem metadata_despite_poison:
  assumes "full_round raw hs" "full_round raw hs'" "good_raw sha1 guess hash raw"
  shows "ms_meta (honest_run sha1 guess raw (hs @ hs') (fold (meta_step sha1 guess) es (meta_new hash))) \<noteq> None"
proof -
  let ?s0 = "fold (meta_step sha1 guess) es (meta_new hash)"
  let ?s1 = "honest_run sha1 guess raw hs ?s0"
  let ?s2 = "honest_run sha1 guess raw hs' ?s1"
  have raw: "raw \<noteq> []" using assms(3) by (simp add: good_raw_def)
  have s0: "meta_ok sha1 guess ?s0" "ms_hash ?s0 = hash"
    using meta_steps_ok [OF meta_new_ok [of sha1 guess hash], of es] by (simp_all add: meta_new_def)
  have s1: "meta_ok sha1 guess ?s1" "ms_hash ?s1 = hash" using honest_run_ok [OF s0(1), of raw hs] s0(2) by simp_all
  have s2: "meta_ok sha1 guess ?s2" using honest_run_ok [OF s1(1), of raw hs'] by simp
  have "first raw {} ?s0" by (simp add: first_def has_def)
  then have "first raw (parts raw) ?s1"
    using honest_round [of hs raw sha1 guess ?s0 "{}"] assms(1,3) s0 by (simp add: full_round_def)
  then have "second raw {} ?s1"
    using has_all_clean [OF _ _ raw] s1(1) by (auto simp: first_def second_def meta_ok_def has_def)
  then have "second raw (parts raw) ?s2"
    using honest_round [of hs' raw sha1 guess ?s1 "{}"] assms(2,3) s1 by (simp add: full_round_def)
  then have "ms_meta ?s2 \<noteq> None"
    using assemble_all [OF _ _ raw] some_part [OF raw] s2 by (auto simp: second_def meta_ok_def)
  then show ?thesis by simp
qed

definition sample_info :: bytes where
  "sample_info = lit ''d6:lengthi5e4:name1:a12:piece lengthi4e6:pieces0:e''"

text \<open>A piece of the right length that is not the one of \<open>sample_info\<close>.\<close>

definition poison :: bytes where
  "poison = lit ''d8:msg_typei1e5:piecei0e10:total_sizei50ee'' @ replicate 50 0"

lemma sample_info_good: "good_raw (\<lambda>_. []) (\<lambda>s. s) [] sample_info"
proof -
  have "case parse_info_bytes (\<lambda>_. []) (\<lambda>s. s) sample_info of Inl e \<Rightarrow> False | Inr m \<Rightarrow> True" by code_simp
  then show ?thesis by (auto simp: good_raw_def sample_info_def lit_def MAX_METADATA_SIZE_def split: sum.splits)
qed

theorem metadata_despite_poison_witness:
  "ms_meta (honest_run (\<lambda>_. []) (\<lambda>s. s) sample_info ([Came, Sent 2 1 1 0, Gone] @ [Sent 2 1 1 0, Sent 2 1 0 0])
     (fold (meta_step (\<lambda>_. []) (\<lambda>s. s)) [Begin, Answer True 2 1 poison 1] (meta_new []))) \<noteq> None"
proof -
  have "parts sample_info = {..<1}" by (simp add: sample_info_def lit_def METADATA_PIECE_SIZE_def div_ceil_def)
  then have "full_round sample_info [Came, Sent 2 1 1 0, Gone]" "full_round sample_info [Sent 2 1 1 0, Sent 2 1 0 0]"
    by (auto simp: full_round_def)
  from metadata_despite_poison [OF this sample_info_good] show ?thesis .
qed

end
