(* ===== verification/Spec2Isabelle.thy ===== *)
theory Spec2Isabelle
  imports Xfer_Prelude Bencode_Ranges Piece_Store Peer_Wire Krpc Split_Worker Utp_Close Utp_Edges Flv_Record_Claims
    Hls_Live_Claims Hls_Parse_Claims Task_Races Task_Lists Bt_Metadata
begin

text \<open>
  XferRust is a download engine. A task manager (\<open>crates/xfer-engine\<close>) schedules tasks and runs one driver for
  each: HTTP with several connections, FLV or HLS recording (\<open>crates/xfer-http\<close>), BitTorrent
  (\<open>crates/xfer-bt\<close>, with \<open>xfer-bencode\<close>, \<open>xfer-storage\<close>, \<open>xfer-dht\<close>, \<open>xfer-transport\<close> below it) or SFTP
  (\<open>crates/xfer-sftp\<close>). This development models the parts of these crates that decide what ends up in a file,
  what goes over the wire, and what becomes of a task.

  \<^bold>\<open>Conventions.\<close> Bytes and text are lists of 8 bit words, text in UTF-8. Integers that wrap in the program are
  words or reduced explicitly; counts and offsets that an invariant keeps far below their width are naturals, as each
  theory says. A panic is a \<open>None\<close> or an error of its own. Locks and critical sections are steps; what the network, the disk, the
  clock and the user do is an argument of the step that meets it, so that a theorem speaks of every such
  behaviour. Third-party code (\<open>serde_json\<close>, \<open>reqwest\<close>, \<open>encoding_rs\<close>, SHA-1, \<open>Url::join\<close>) is an argument
  or left out.

  \<^bold>\<open>Theories and code.\<close>

  \<^item> \<open>Xfer_Prelude\<close>, \<open>Text_Bytes\<close>: integers, byte order, decimal text, sorted maps (\<open>BTreeMap\<close>), the string
    functions of Rust. Locales \<open>ordered_map\<close> and \<open>prefix_codec\<close>.

  \<^item> \<open>Bencode\<close>, \<open>Bencode_Ranges\<close>: \<open>xfer-bencode/src/lib.rs\<close>. Encoder and parser are inverse up to the depth
    limit, accepted values are well formed, recorded ranges decode to their values.

  \<^item> \<open>Bitfields\<close>, \<open>Piece_Layout\<close>, \<open>Disk_File\<close>, \<open>Piece_Store\<close>: \<open>xfer-storage/src/piece.rs\<close> and the bitmap of
    \<open>xfer-sftp/src/ctrl.rs\<close>. Both bitmaps refine a set (locale \<open>piece_set\<close>); the layout is proved against the
    list of all cells; whatever fails, the store only claims pieces that are there and a crash loses no
    durable one.

  \<^item> \<open>Peer_Wire\<close>: \<open>xfer-bt/src/message.rs\<close>. The reader yields the same messages for every segmentation of the
    stream.

  \<^item> \<open>Torrent_Meta\<close>: \<open>xfer-bencode/src/{torrent,magnet}.rs\<close>. Paths of an accepted torrent stay inside its directory,
    its geometry is that of \<open>Piece_Layout\<close>, the info dictionary is read back with the same hash.

  \<^item> \<open>Bt_Metadata\<close>: the exchange of \<open>ut_metadata\<close> in \<open>xfer-bt/src/engine.rs\<close>. \<open>meta_state\<close> is what the sessions of
    a torrent share, \<open>meta_step\<close> what one of them does to it: metadata is genuine and bounded whatever peers send, and
    honest peers prevail over poisoned pieces.

  \<^item> \<open>Dht_Table\<close>, \<open>Krpc\<close>: \<open>xfer-dht/src/{node_id,routing_table,krpc}.rs\<close>. Invariant of the routing
    table, the closest nodes, round trips of the messages.

  \<^item> \<open>Piece_Track\<close>, \<open>Http_Error\<close>, \<open>Split_Writer\<close>, \<open>Split_Proofs\<close>, \<open>Split_Resume\<close>, \<open>Split_Claims\<close>,
    \<open>Split_Worker\<close>: \<open>xfer-http/src/split.rs\<close>. The segment table partitions the file in every state, the
    control file claims only durable bytes, and a download that ends with success has the remote content
    after any number of crashes.

  \<^item> \<open>Utp_Packet\<close>, \<open>Utp_Connection\<close>, \<open>Utp_Proofs\<close>, \<open>Utp_Claims\<close>, \<open>Utp_Delivery\<close>, \<open>Utp_Close\<close>, \<open>Utp_Edges\<close>:
    \<open>xfer-transport/src/utp_{packet,connection}.rs\<close>. Counters agree with queues, and what is read is a
    prefix of what was written over a network that loses, repeats and reorders.

  \<^item> \<open>Flv_Stream\<close>, \<open>Flv_Claims\<close>, \<open>Flv_Record\<close>, \<open>Flv_Record_Claims\<close>: \<open>xfer-http/src/flv.rs\<close>. The parser refines
    a specification on whole tags; the product stays a header and whole tags.

  \<^item> \<open>Hls_Types\<close>, \<open>Hls_Live\<close>, \<open>Hls_Live_Record\<close>, \<open>Hls_Live_Proofs\<close>, \<open>Hls_Live_Claims\<close>, \<open>Hls_Parse\<close>,
    \<open>Hls_Parse_Claims\<close>: \<open>xfer-http/src/playlist.rs\<close> and \<open>playlist/crypto.rs\<close>. Playlist parsers, and the live
    recorder with its queue: segments are spliced whole, once and in order.

  \<^item> \<open>Http_Text\<close>: the texts of \<open>xfer-http/src/lib.rs\<close>. File names a server suggests are safe, header lines are
    merged as documented.

  \<^item> \<open>Task_Types\<close>, \<open>Task_Manager\<close>, \<open>Task_Sched\<close>, \<open>Task_Calls\<close>, \<open>Task_Calm\<close>, \<open>Task_Lists\<close>, \<open>Task_Races\<close>:
    \<open>xfer-engine/src/task.rs\<close> and the life cycle of tasks in \<open>manager.rs\<close>. \<open>mgr\<close> is \<open>Inner\<close> with the task
    objects; \<open>exec\<close> is one critical section, \<open>sys_step\<close> any interleaving of sections (\<open>Task_Sched\<close>: bounds
    and wake-ups), \<open>serve\<close> a whole operation (\<open>Task_Calls\<close>: the sections compute it; \<open>Task_Calm\<close>: every
    task has its place when operations do not overlap); \<open>Task_Lists\<close> the lists and the session;
    \<open>Task_Races\<close> what goes wrong when they do overlap.

  \<^bold>\<open>How the parts meet.\<close> \<open>Krpc\<close> encodes through \<open>Bencode\<close> and fills \<open>Dht_Table\<close>'s nodes;
  \<open>Bt_Metadata\<close> sends \<open>Peer_Wire\<close> messages and installs what \<open>Torrent_Meta\<close> parses, which lays out the \<open>Piece_Store\<close>; \<open>Piece_Store\<close> uses the
    layout and the bitmap; \<open>Split_Writer\<close> drives \<open>Piece_Track\<close> and \<open>Disk_File\<close>; the recorders feed their parsers;
    a driver's failure (\<open>Http_Error\<close>) decides the state of a task in \<open>Task_Manager\<close>.

  \<^bold>\<open>Fuel.\<close> Loops that are not structural have a measure, or fuel that is shown to be enough: the flush of the uTP
  send queue has the number of pending bytes, a pass of the HLS recorder one more than the queue length
  (\<open>splice_batch_fuel\<close>) and the number of connections, the scheduler one more than the length of its queue
  (\<open>fill_loop_full\<close>), eviction the length of the list of results.

  \<^bold>\<open>Not modelled.\<close> The rest of the BitTorrent engine (\<open>xfer-bt/src/engine.rs\<close>), the DHT node (\<open>dht.rs\<close>) and
  the uTP socket are tasks around sockets and timers whose pure parts are the theories above. The adaptive
  controller (\<open>adaptive.rs\<close>) and the congestion increment compute in floating point. JSON and hex text, the HTTP
  client, encryption (\<open>mse.rs\<close>, \<open>xfer-crypto\<close>, HLS decryption), the shift of a finished recording's timeline,
  statistics and limiters, discovery by multicast and UPnP, the LAN, RPC and MCP servers, the geographic
  data base and the terminal interface (\<open>src/bin/xfer.rs\<close>, \<open>src/main.rs\<close>) are glue to the outside or user
  interface.
\<close>

end
